(* ===== verification/Prelude.thy ===== *)
theory Prelude
  imports Main "HOL-Library.Word" "HOL-Library.Sublist"
begin

unbundle bit_operations_syntax

text \<open>
  Shared vocabulary of the development: the machine integers of \<^verbatim>\<open>vm/types.h\<close>, a
  state-and-error monad in which the parsers and the stateful operations of the VM are
  written (an error is what the C code reports by \<^verbatim>\<open>longjmp\<close>, by a negative return code
  or by an aborting \<^verbatim>\<open>CHECK\<close>), the counted loop of that monad, and a small Hoare logic
  over it whose rules the component theories use.
\<close>

section \<open>Machine integers\<close>

type_synonym u8 = "8 word"
type_synonym u16 = "16 word"
type_synonym u32 = "32 word"
type_synonym u64 = "64 word"

named_theorems monad_simps \<open>unfolding of the monad's operations\<close>
named_theorems hoare_rules \<open>weakest-precondition style rules of the monad\<close>

lemma unat_bound: "unat (w :: 'a::len word) < 2 ^ LENGTH('a)"
  by (rule unsigned_less)

section \<open>State and errors\<close>

type_synonym ('s, 'e, 'a) sem = "'s \<Rightarrow> 'e + ('a \<times> 's)"

definition return_m :: "'a \<Rightarrow> ('s, 'e, 'a) sem" where
  "return_m x = (\<lambda>s. Inr (x, s))"

definition bind_m :: "('s, 'e, 'a) sem \<Rightarrow> ('a \<Rightarrow> ('s, 'e, 'b) sem) \<Rightarrow> ('s, 'e, 'b) sem" where
  "bind_m m f = (\<lambda>s. case m s of Inl e \<Rightarrow> Inl e | Inr (x, s') \<Rightarrow> f x s')"

definition fail_m :: "'e \<Rightarrow> ('s, 'e, 'a) sem" where
  "fail_m e = (\<lambda>s. Inl e)"

definition gets_m :: "('s \<Rightarrow> 'a) \<Rightarrow> ('s, 'e, 'a) sem" where
  "gets_m f = (\<lambda>s. Inr (f s, s))"

definition modify_m :: "('s \<Rightarrow> 's) \<Rightarrow> ('s, 'e, unit) sem" where
  "modify_m f = (\<lambda>s. Inr ((), f s))"

definition guard_m :: "bool \<Rightarrow> 'e \<Rightarrow> ('s, 'e, unit) sem" where
  "guard_m b e = (if b then return_m () else fail_m e)"

text \<open>\<^verbatim>\<open>for (i = 0; i < n; ++i)\<close> with a body that yields one value per round.\<close>

primrec repeat_m :: "nat \<Rightarrow> ('s, 'e, 'a) sem \<Rightarrow> ('s, 'e, 'a list) sem" where
  "repeat_m 0 m = return_m []"
| "repeat_m (Suc n) m = bind_m m (\<lambda>x. bind_m (repeat_m n m) (\<lambda>xs. return_m (x # xs)))"

text \<open>A loop over the elements of a list, in order.\<close>

primrec map_m :: "('a \<Rightarrow> ('s, 'e, 'b) sem) \<Rightarrow> 'a list \<Rightarrow> ('s, 'e, 'b list) sem" where
  "map_m f [] = return_m []"
| "map_m f (x # xs) = bind_m (f x) (\<lambda>y. bind_m (map_m f xs) (\<lambda>ys. return_m (y # ys)))"

lemmas monad_defs [monad_simps] =
  return_m_def bind_m_def fail_m_def gets_m_def modify_m_def guard_m_def

lemma bind_m_Inr_iff:
  "bind_m m f s = Inr (y, t) \<longleftrightarrow> (\<exists>x u. m s = Inr (x, u) \<and> f x u = Inr (y, t))"
  by (auto simp: bind_m_def split: sum.splits)

lemma bind_m_Inl_iff:
  "bind_m m f s = Inl e \<longleftrightarrow> m s = Inl e \<or> (\<exists>x u. m s = Inr (x, u) \<and> f x u = Inl e)"
  by (auto simp: bind_m_def split: sum.splits)

lemma bind_m_assoc: "bind_m (bind_m m f) g = bind_m m (\<lambda>x. bind_m (f x) g)"
  by (rule ext) (simp add: bind_m_def split: sum.splits prod.splits)

lemma bind_m_return: "bind_m (return_m x) f = f x"
  by (simp add: bind_m_def return_m_def)

lemma return_m_Inr_iff [simp]: "return_m x s = Inr (y, t) \<longleftrightarrow> y = x \<and> t = s"
  by (auto simp: return_m_def)

lemma return_m_not_Inl [simp]: "return_m x s \<noteq> Inl e"
  by (simp add: return_m_def)

lemma fail_m_not_Inr [simp]: "fail_m e s \<noteq> Inr z"
  by (simp add: fail_m_def)

lemma fail_m_Inl_iff [simp]: "fail_m e s = Inl e' \<longleftrightarrow> e' = e"
  by (auto simp: fail_m_def)

lemma gets_m_Inr_iff [simp]: "gets_m f s = Inr (y, t) \<longleftrightarrow> y = f s \<and> t = s"
  by (auto simp: gets_m_def)

lemma gets_m_not_Inl [simp]: "gets_m f s \<noteq> Inl e"
  by (simp add: gets_m_def)

lemma modify_m_Inr_iff [simp]: "modify_m f s = Inr (y, t) \<longleftrightarrow> t = f s"
  by (auto simp: modify_m_def)

lemma modify_m_not_Inl [simp]: "modify_m f s \<noteq> Inl e"
  by (simp add: modify_m_def)

lemma guard_m_Inr_iff [simp]: "guard_m b e s = Inr (y, t) \<longleftrightarrow> b \<and> t = s"
  by (auto simp: guard_m_def)

lemma guard_m_Inl_iff [simp]: "guard_m b e s = Inl e' \<longleftrightarrow> \<not> b \<and> e' = e"
  by (auto simp: guard_m_def)

section \<open>A Hoare logic for the monad\<close>

text \<open>
  \<open>hoare P m Q\<close>: started where \<open>P\<close> holds, \<open>m\<close> either fails with an error that
  the third component allows or ends in a value and a state related by \<open>Q\<close>. The error
  part \<open>E\<close> is what makes it more than partial correctness: with \<open>E\<close> excluding an
  error, the triple says that the error is never raised.
\<close>

definition hoare :: "('s \<Rightarrow> bool) \<Rightarrow> ('s, 'e, 'a) sem \<Rightarrow> ('a \<Rightarrow> 's \<Rightarrow> bool) \<Rightarrow> ('e \<Rightarrow> bool) \<Rightarrow> bool" where
  "hoare P m Q E \<longleftrightarrow>
     (\<forall>s. P s \<longrightarrow> (case m s of Inl e \<Rightarrow> E e | Inr (x, t) \<Rightarrow> Q x t))"

lemma hoareI:
  assumes "\<And>s x t. P s \<Longrightarrow> m s = Inr (x, t) \<Longrightarrow> Q x t" and "\<And>s e. P s \<Longrightarrow> m s = Inl e \<Longrightarrow> E e"
  shows "hoare P m Q E"
  using assms by (auto simp: hoare_def split: sum.splits)

lemma hoareD:
  assumes "hoare P m Q E" "P s" "m s = Inr (x, t)"
  shows "Q x t"
  using assms by (fastforce simp: hoare_def)

lemma hoareD_err:
  assumes "hoare P m Q E" "P s" "m s = Inl e"
  shows "E e"
  using assms by (fastforce simp: hoare_def)

lemma hoare_pre:
  assumes "hoare P' m Q E" and "\<And>s. P s \<Longrightarrow> P' s"
  shows "hoare P m Q E"
  using assms by (auto simp: hoare_def)

lemma hoare_post:
  assumes "hoare P m Q' E'" and "\<And>x s. Q' x s \<Longrightarrow> Q x s" and "\<And>e. E' e \<Longrightarrow> E e"
  shows "hoare P m Q E"
  using assms by (force simp: hoare_def split: sum.splits)

lemma hoare_return [hoare_rules]:
  "(\<And>s. P s \<Longrightarrow> Q x s) \<Longrightarrow> hoare P (return_m x) Q E"
  by (simp add: hoare_def return_m_def)

lemma hoare_bind:
  assumes "hoare P m R E" and "\<And>x. hoare (R x) (f x) Q E"
  shows "hoare P (bind_m m f) Q E"
  using assms by (fastforce simp: hoare_def bind_m_def split: sum.splits)

lemma hoare_seq:
  assumes "hoare C m (\<lambda>x s. C s \<and> V x) E" and "\<And>x. V x \<Longrightarrow> hoare C (f x) Q E"
  shows "hoare C (bind_m m f) Q E"
  using assms by (fastforce simp: hoare_def bind_m_def split: sum.splits)

lemma hoare_weaken:
  assumes "hoare C m (\<lambda>x s. C s \<and> V x) E" and "\<And>x. V x \<Longrightarrow> W x"
  shows "hoare C m (\<lambda>x s. C s \<and> W x) E"
  using assms by (fastforce simp: hoare_def split: sum.splits)

lemma hoare_fail [hoare_rules]: "E e \<Longrightarrow> hoare P (fail_m e) Q E"
  by (simp add: hoare_def fail_m_def)

lemma hoare_gets [hoare_rules]: "(\<And>s. P s \<Longrightarrow> Q (f s) s) \<Longrightarrow> hoare P (gets_m f) Q E"
  by (simp add: hoare_def gets_m_def)

lemma hoare_modify [hoare_rules]: "(\<And>s. P s \<Longrightarrow> Q () (f s)) \<Longrightarrow> hoare P (modify_m f) Q E"
  by (simp add: hoare_def modify_m_def)

lemma hoare_guard [hoare_rules]:
  "(\<not> b \<Longrightarrow> E e) \<Longrightarrow> (\<And>s. b \<Longrightarrow> P s \<Longrightarrow> Q () s) \<Longrightarrow> hoare P (guard_m b e) Q E"
  by (simp add: hoare_def guard_m_def return_m_def fail_m_def)

lemma hoare_if [hoare_rules]:
  "(b \<Longrightarrow> hoare P m Q E) \<Longrightarrow> (\<not> b \<Longrightarrow> hoare P m' Q E) \<Longrightarrow> hoare P (if b then m else m') Q E"
  by simp

text \<open>The loop rule: an invariant of the state, and a property every yielded value has.\<close>

lemma hoare_repeat:
  assumes "hoare I m (\<lambda>x s. I s \<and> V x) E"
  shows "hoare I (repeat_m n m) (\<lambda>xs s. I s \<and> length xs = n \<and> (\<forall>x\<in>set xs. V x)) E"
proof (induction n)
  case 0
  show ?case by (rule hoareI) (auto simp: return_m_def)
next
  case (Suc n)
  show ?case
    unfolding repeat_m.simps
  proof (rule hoare_bind [where R = "\<lambda>x s. I s \<and> V x"])
    show "hoare I m (\<lambda>x s. I s \<and> V x) E" by (rule assms)
  next
    fix x
    have "hoare (\<lambda>s. I s \<and> V x) (repeat_m n m)
        (\<lambda>xs s. I s \<and> V x \<and> length xs = n \<and> (\<forall>x\<in>set xs. V x)) E"
      using Suc.IH by (auto simp: hoare_def split: sum.splits)
    then show "hoare (\<lambda>s. I s \<and> V x) (bind_m (repeat_m n m) (\<lambda>xs. return_m (x # xs)))
        (\<lambda>xs s. I s \<and> length xs = Suc n \<and> (\<forall>x\<in>set xs. V x)) E"
      by (rule hoare_bind) (rule hoare_return, auto)
  qed
qed

text \<open>The same with a quantity that every round adds to.\<close>

lemma hoare_repeat_sum:
  assumes "\<And>m. hoare (C m) p (\<lambda>x s. C (m + f x) s \<and> V x) E"
  shows "hoare (C m) (repeat_m n p)
    (\<lambda>xs s. C (m + sum_list (map f xs)) s \<and> length xs = n \<and> list_all V xs) E"
proof (induction n arbitrary: m)
  case 0
  show ?case by (rule hoareI) (auto simp: return_m_def)
next
  case (Suc n)
  show ?case
    unfolding repeat_m.simps
  proof (rule hoare_bind [OF assms])
    fix x
    have "hoare (\<lambda>s. C (m + f x) s \<and> V x) (repeat_m n p)
        (\<lambda>xs s. C (m + f x + sum_list (map f xs)) s \<and> V x \<and> length xs = n \<and> list_all V xs) E"
      using Suc.IH [of "m + f x"] by (auto simp: hoare_def split: sum.splits)
    then show "hoare (\<lambda>s. C (m + f x) s \<and> V x) (bind_m (repeat_m n p) (\<lambda>xs. return_m (x # xs)))
        (\<lambda>xs s. C (m + sum_list (map f xs)) s \<and> length xs = Suc n \<and> list_all V xs) E"
      by (rule hoare_bind) (rule hoare_return, auto simp: add.assoc)
  qed
qed

lemma hoare_map:
  assumes "\<And>y. y \<in> set ys \<Longrightarrow> hoare C (f y) (\<lambda>x s. C s \<and> V y x) E"
  shows "hoare C (map_m f ys) (\<lambda>xs s. C s \<and> list_all2 V ys xs) E"
  using assms
proof (induction ys)
  case Nil
  show ?case by (rule hoareI) auto
next
  case (Cons y ys)
  have hd: "hoare C (f y) (\<lambda>x s. C s \<and> V y x) E" using Cons.prems by simp
  have tl: "hoare C (map_m f ys) (\<lambda>xs s. C s \<and> list_all2 V ys xs) E"
    using Cons.IH Cons.prems by simp
  show ?case
    unfolding map_m.simps
    by (rule hoare_seq [OF hd], rule hoare_seq [OF tl], rule hoare_return) auto
qed

lemma hoare_map_sum:
  assumes "\<And>m y. y \<in> set ys \<Longrightarrow> hoare (C m) (p y) (\<lambda>x s. C (m + f x) s \<and> V y x) E"
  shows "hoare (C m) (map_m p ys) (\<lambda>xs s. C (m + sum_list (map f xs)) s \<and> list_all2 V ys xs) E"
  using assms
proof (induction ys arbitrary: m)
  case Nil
  show ?case by (rule hoareI) auto
next
  case (Cons y ys)
  show ?case
    unfolding map_m.simps
  proof (rule hoare_bind [OF Cons.prems])
    fix x
    have "hoare (\<lambda>s. C (m + f x) s \<and> V y x) (map_m p ys)
        (\<lambda>xs s. C (m + f x + sum_list (map f xs)) s \<and> V y x \<and> list_all2 V ys xs) E"
      using Cons.IH [of "m + f x"] Cons.prems by (auto simp: hoare_def split: sum.splits)
    then show "hoare (\<lambda>s. C (m + f x) s \<and> V y x) (bind_m (map_m p ys) (\<lambda>xs. return_m (x # xs)))
        (\<lambda>xs s. C (m + sum_list (map f xs)) s \<and> list_all2 V (y # ys) xs) E"
      by (rule hoare_bind) (rule hoare_return, auto simp: add.assoc)
  qed simp
qed

lemma length_repeat_m: "repeat_m n m s = Inr (xs, t) \<Longrightarrow> length xs = n"
  by (induction n arbitrary: s xs) (auto simp: bind_m_Inr_iff)

lemma length_map_m: "map_m f ys s = Inr (xs, t) \<Longrightarrow> length xs = length ys"
  by (induction ys arbitrary: s xs) (auto simp: bind_m_Inr_iff)

section \<open>Lists\<close>

lemma suffix_dropI [simp]: "suffix (drop n xs) xs"
  by (rule suffix_drop)

end
