(* ===== verification/Descriptor.thy ===== *)
theory Descriptor
  imports Prelude
begin

text \<open>
  Type kinds and the field and method descriptors of class files: \<^verbatim>\<open>type_kind\<close>,
  \<^verbatim>\<open>field_descriptor\<close> and \<^verbatim>\<open>method_descriptor\<close> of \<^verbatim>\<open>vm/classfile.h\<close>, and the two
  descriptor parsers of \<^verbatim>\<open>vm/classfile.c\<close>. A slice of characters is a \<open>string\<close>; the
  \<^verbatim>\<open>char **\<close> cursor of the C code is the rest of the string, returned with the result.
  The section "Grammar" states the descriptor language as a datatype with a printer; the
  parsers are proved to accept exactly the printed strings.
\<close>

section \<open>Type kinds\<close>

datatype type_kind =
    TYPE_KIND_BOOLEAN | TYPE_KIND_CHAR | TYPE_KIND_FLOAT | TYPE_KIND_DOUBLE | TYPE_KIND_BYTE
  | TYPE_KIND_SHORT | TYPE_KIND_INT | TYPE_KIND_LONG | TYPE_KIND_VOID | TYPE_KIND_REFERENCE

fun kind_to_representable_kind :: "type_kind \<Rightarrow> type_kind" where
  "kind_to_representable_kind TYPE_KIND_BOOLEAN = TYPE_KIND_INT"
| "kind_to_representable_kind TYPE_KIND_CHAR = TYPE_KIND_INT"
| "kind_to_representable_kind TYPE_KIND_BYTE = TYPE_KIND_INT"
| "kind_to_representable_kind TYPE_KIND_SHORT = TYPE_KIND_INT"
| "kind_to_representable_kind TYPE_KIND_INT = TYPE_KIND_INT"
| "kind_to_representable_kind k = k"

text \<open>\<open>None\<close> is the \<^verbatim>\<open>CHECK(false)\<close> of the default case, which aborts.\<close>

definition read_type_kind_char :: "char \<Rightarrow> type_kind option" where
  "read_type_kind_char c =
     (if c = CHR ''Z'' then Some TYPE_KIND_BOOLEAN
      else if c = CHR ''C'' then Some TYPE_KIND_CHAR
      else if c = CHR ''F'' then Some TYPE_KIND_FLOAT
      else if c = CHR ''D'' then Some TYPE_KIND_DOUBLE
      else if c = CHR ''B'' then Some TYPE_KIND_BYTE
      else if c = CHR ''S'' then Some TYPE_KIND_SHORT
      else if c = CHR ''I'' then Some TYPE_KIND_INT
      else if c = CHR ''J'' then Some TYPE_KIND_LONG
      else if c = CHR ''V'' then Some TYPE_KIND_VOID
      else if c = CHR ''L'' then Some TYPE_KIND_REFERENCE
      else None)"

fun type_kind_to_char :: "type_kind \<Rightarrow> char" where
  "type_kind_to_char TYPE_KIND_BOOLEAN = CHR ''Z''"
| "type_kind_to_char TYPE_KIND_CHAR = CHR ''C''"
| "type_kind_to_char TYPE_KIND_FLOAT = CHR ''F''"
| "type_kind_to_char TYPE_KIND_DOUBLE = CHR ''D''"
| "type_kind_to_char TYPE_KIND_BYTE = CHR ''B''"
| "type_kind_to_char TYPE_KIND_SHORT = CHR ''S''"
| "type_kind_to_char TYPE_KIND_INT = CHR ''I''"
| "type_kind_to_char TYPE_KIND_LONG = CHR ''J''"
| "type_kind_to_char TYPE_KIND_VOID = CHR ''V''"
| "type_kind_to_char TYPE_KIND_REFERENCE = CHR ''L''"

section \<open>Descriptors\<close>

record field_descriptor =
  base_kind :: type_kind
  repr_kind :: type_kind
  dimensions :: nat
  class_name :: "string option" \<comment> \<open>set for reference base types only\<close>
  unparsed :: string

record method_descriptor =
  args :: "field_descriptor list"
  return_type :: field_descriptor

datatype descriptor_error =
    Too_many_dimensions | Void_dimensions | Missing_semicolon | Missing_type_name
  | Invalid_descriptor_char char | Unexpected_end | Expected_open_paren | Void_parameter
  | Missing_close_paren | Trailing_characters char

text \<open>The case labels of the primitive branch.\<close>

definition is_primitive_char :: "char \<Rightarrow> bool" where
  "is_primitive_char c \<longleftrightarrow> c \<in> set ''BCDFIJSZV''"

text \<open>
  The loop of \<^verbatim>\<open>parse_field_descriptor\<close>: \<open>start\<close> is the text from \<^verbatim>\<open>field_start\<close> on,
  \<open>d\<close> the dimensions counted so far, the last argument the text at the cursor. The
  matched text (\<^verbatim>\<open>unparsed\<close>) is what lies between the two.
\<close>

fun parse_field_loop :: "string \<Rightarrow> nat \<Rightarrow> string \<Rightarrow> descriptor_error + (field_descriptor \<times> string)" where
  "parse_field_loop start d [] = Inl Unexpected_end"
| "parse_field_loop start d (c # cs) =
     (if d > 255 then Inl Too_many_dimensions
      else if is_primitive_char c then
        (let prim = the (read_type_kind_char c) in
         if c = CHR ''V'' \<and> d > 0 then Inl Void_dimensions
         else Inr (\<lparr>base_kind = prim,
                    repr_kind = (if d \<noteq> 0 then TYPE_KIND_REFERENCE else kind_to_representable_kind prim),
                    dimensions = d, class_name = None,
                    unparsed = take (length start - length cs) start\<rparr>, cs))
      else if c = CHR ''['' then parse_field_loop start (Suc d) cs
      else if c = CHR ''L'' then
        (let name = takeWhile (\<lambda>x. x \<noteq> CHR '';'') cs; rest = dropWhile (\<lambda>x. x \<noteq> CHR '';'') cs in
         if rest = [] then Inl Missing_semicolon
         else if name = [] then Inl Missing_type_name
         else Inr (\<lparr>base_kind = TYPE_KIND_REFERENCE, repr_kind = TYPE_KIND_REFERENCE,
                    dimensions = d, class_name = Some name,
                    unparsed = take (length start - length (tl rest)) start\<rparr>, tl rest))
      else Inl (Invalid_descriptor_char c))"

definition parse_field_descriptor :: "string \<Rightarrow> descriptor_error + (field_descriptor \<times> string)" where
  "parse_field_descriptor cs = parse_field_loop cs 0 cs"

definition parse_complete_field_descriptor :: "string \<Rightarrow> descriptor_error + field_descriptor" where
  "parse_complete_field_descriptor cs =
     (case parse_field_descriptor cs of
        Inl e \<Rightarrow> Inl e
      | Inr (d, []) \<Rightarrow> Inr d
      | Inr (d, c # rest) \<Rightarrow> Inl (Trailing_characters c))"

lemma parse_field_loop_Cons_Inr:
  assumes "parse_field_loop start d (c # cs) = Inr (r, rest)"
  shows "is_primitive_char c \<and> rest = cs \<or>
     c = CHR ''['' \<and> parse_field_loop start (Suc d) cs = Inr (r, rest) \<or>
     c = CHR ''L'' \<and> rest = tl (dropWhile (\<lambda>x. x \<noteq> CHR '';'') cs)"
proof (cases "is_primitive_char c")
  case True
  with assms show ?thesis by (simp add: Let_def split: if_split_asm)
next
  case False
  with assms show ?thesis
    by (cases "c = CHR ''[''") (simp_all add: Let_def split: if_split_asm)
qed

lemma parse_field_loop_shorter:
  "parse_field_loop start d cs = Inr (r, rest) \<Longrightarrow> length rest < length cs"
proof (induction cs arbitrary: d)
  case (Cons c cs)
  have "length (tl (dropWhile (\<lambda>x. x \<noteq> CHR '';'') cs)) \<le> length cs"
    using length_dropWhile_le [of "\<lambda>x. x \<noteq> CHR '';''" cs] by simp
  with parse_field_loop_Cons_Inr [OF Cons.prems] Cons.IH [of "Suc d"] show ?case by auto
qed simp

text \<open>The argument loop of \<^verbatim>\<open>parse_method_descriptor\<close>: it stops at the end or at a \<^verbatim>\<open>)\<close>.\<close>

function parse_args :: "string \<Rightarrow> descriptor_error + (field_descriptor list \<times> string)" where
  "parse_args cs =
     (if cs = [] \<or> hd cs = CHR '')'' then Inr ([], cs)
      else case parse_field_descriptor cs of
        Inl e \<Rightarrow> Inl e
      | Inr (arg, rest) \<Rightarrow>
          (if base_kind arg = TYPE_KIND_VOID then Inl Void_parameter
           else case parse_args rest of
             Inl e \<Rightarrow> Inl e
           | Inr (as, rest') \<Rightarrow> Inr (arg # as, rest')))"
  by pat_completeness auto
termination
  by (relation "measure length") (auto simp: parse_field_descriptor_def dest: parse_field_loop_shorter)

declare parse_args.simps [simp del]

definition parse_method_descriptor :: "string \<Rightarrow> descriptor_error + method_descriptor" where
  "parse_method_descriptor cs =
     (if cs = [] \<or> hd cs \<noteq> CHR ''('' then Inl Expected_open_paren
      else case parse_args (tl cs) of
        Inl e \<Rightarrow> Inl e
      | Inr (as, rest) \<Rightarrow>
          (if rest = [] then Inl Missing_close_paren
           else case parse_field_descriptor (tl rest) of
             Inl e \<Rightarrow> Inl e
           | Inr (ret, junk) \<Rightarrow> Inr \<lparr>args = as, return_type = ret\<rparr>))"

section \<open>Grammar\<close>

text \<open>The descriptor language of the JVM specification (4.3.2, 4.3.3), with its printer.\<close>

datatype field_type = Base type_kind | Object string | Array field_type

fun show_type :: "field_type \<Rightarrow> string" where
  "show_type (Base k) = [type_kind_to_char k]"
| "show_type (Object n) = CHR ''L'' # n @ [CHR '';'']"
| "show_type (Array t) = CHR ''['' # show_type t"

fun dims_of :: "field_type \<Rightarrow> nat" where
  "dims_of (Array t) = Suc (dims_of t)"
| "dims_of _ = 0"

fun elem_of :: "field_type \<Rightarrow> field_type" where
  "elem_of (Array t) = elem_of t"
| "elem_of t = t"

fun wf_elem :: "field_type \<Rightarrow> bool" where
  "wf_elem (Base k) \<longleftrightarrow> k \<noteq> TYPE_KIND_REFERENCE"
| "wf_elem (Object n) \<longleftrightarrow> n \<noteq> [] \<and> CHR '';'' \<notin> set n"
| "wf_elem (Array t) \<longleftrightarrow> False"

text \<open>A well-formed type: at most 255 dimensions, and no array of void.\<close>

definition wf_type :: "field_type \<Rightarrow> bool" where
  "wf_type t \<longleftrightarrow> dims_of t \<le> 255 \<and> wf_elem (elem_of t) \<and>
     (elem_of t = Base TYPE_KIND_VOID \<longrightarrow> dims_of t = 0)"

definition desc_of :: "field_type \<Rightarrow> field_descriptor" where
  "desc_of t =
     (case elem_of t of
        Object n \<Rightarrow> \<lparr>base_kind = TYPE_KIND_REFERENCE, repr_kind = TYPE_KIND_REFERENCE,
                     dimensions = dims_of t, class_name = Some n, unparsed = show_type t\<rparr>
      | Base k \<Rightarrow> \<lparr>base_kind = k,
                   repr_kind = (if dims_of t \<noteq> 0 then TYPE_KIND_REFERENCE else kind_to_representable_kind k),
                   dimensions = dims_of t, class_name = None, unparsed = show_type t\<rparr>
      | Array u \<Rightarrow> undefined)"

definition show_method :: "field_type list \<Rightarrow> field_type \<Rightarrow> string" where
  "show_method ts r = CHR ''('' # concat (map show_type ts) @ CHR '')'' # show_type r"

section \<open>The parsers accept exactly the grammar\<close>

lemma not_primitive_char [simp]:
  "\<not> is_primitive_char CHR ''[''" "\<not> is_primitive_char CHR ''L''"
  by (simp_all add: is_primitive_char_def)

lemma elem_of_not_Array [simp]: "elem_of t \<noteq> Array u"
  by (induction t) auto

lemma show_type_elem: "show_type t = replicate (dims_of t) CHR ''['' @ show_type (elem_of t)"
  by (induction t) auto

lemma read_type_kind_char_show:
  "k \<noteq> TYPE_KIND_REFERENCE \<Longrightarrow>
   is_primitive_char (type_kind_to_char k) \<and> read_type_kind_char (type_kind_to_char k) = Some k"
  by (cases k) (simp_all add: read_type_kind_char_def is_primitive_char_def)

lemma ex_type_kind:
  "(\<exists>k. P k) \<longleftrightarrow> P TYPE_KIND_BOOLEAN \<or> P TYPE_KIND_CHAR \<or> P TYPE_KIND_FLOAT \<or> P TYPE_KIND_DOUBLE \<or>
     P TYPE_KIND_BYTE \<or> P TYPE_KIND_SHORT \<or> P TYPE_KIND_INT \<or> P TYPE_KIND_LONG \<or> P TYPE_KIND_VOID \<or>
     P TYPE_KIND_REFERENCE"
proof
  assume "\<exists>k. P k"
  then obtain k where "P k" ..
  then show "P TYPE_KIND_BOOLEAN \<or> P TYPE_KIND_CHAR \<or> P TYPE_KIND_FLOAT \<or> P TYPE_KIND_DOUBLE \<or>
     P TYPE_KIND_BYTE \<or> P TYPE_KIND_SHORT \<or> P TYPE_KIND_INT \<or> P TYPE_KIND_LONG \<or> P TYPE_KIND_VOID \<or>
     P TYPE_KIND_REFERENCE" by (cases k) simp_all
qed blast

lemma read_type_kind_char_prim:
  assumes "is_primitive_char c"
  shows "\<exists>k. k \<noteq> TYPE_KIND_REFERENCE \<and> c = type_kind_to_char k \<and> read_type_kind_char c = Some k"
proof -
  have "\<exists>k. k \<noteq> TYPE_KIND_REFERENCE \<and> c = type_kind_to_char k"
    using assms unfolding ex_type_kind is_primitive_char_def by simp blast
  then show ?thesis using read_type_kind_char_show by blast
qed

lemma type_kind_to_char_void_iff [simp]:
  "type_kind_to_char k = CHR ''V'' \<longleftrightarrow> k = TYPE_KIND_VOID"
  by (cases k) auto

text \<open>The type a cursor position \<open>d\<close> brackets into the text stands for.\<close>

definition wrap :: "nat \<Rightarrow> field_type \<Rightarrow> field_type" where
  "wrap d t = (Array ^^ d) t"

lemma wrap_simps [simp]:
  "dims_of (wrap d t) = d + dims_of t" "elem_of (wrap d t) = elem_of t"
  "show_type (wrap d t) = replicate d CHR ''['' @ show_type t" "wrap 0 t = t"
  by (induction d) (auto simp: wrap_def)

lemma wrap_Suc [simp]: "wrap (Suc d) t = wrap d (Array t)"
  by (simp add: wrap_def funpow_swap1)

lemma parse_field_loop_complete:
  assumes "wf_type (wrap d t)" "start = replicate d CHR ''['' @ show_type t @ rest"
  shows "parse_field_loop start d (show_type t @ rest) = Inr (desc_of (wrap d t), rest)"
  using assms
proof (induction t arbitrary: d)
  case (Base k)
  then have k: "k \<noteq> TYPE_KIND_REFERENCE" "d \<le> 255" "k = TYPE_KIND_VOID \<longrightarrow> d = 0"
    by (auto simp: wf_type_def)
  with Base show ?case
    using read_type_kind_char_show [OF k(1)] by (auto simp: Let_def desc_of_def)
next
  case (Object n)
  then have n: "n \<noteq> []" "\<forall>x\<in>set n. x \<noteq> CHR '';''" "d \<le> 255"
    by (auto simp: wf_type_def)
  then have "takeWhile (\<lambda>x. x \<noteq> CHR '';'') (n @ CHR '';'' # rest) = n"
    and "dropWhile (\<lambda>x. x \<noteq> CHR '';'') (n @ CHR '';'' # rest) = CHR '';'' # rest"
    by (auto simp: takeWhile_append2 dropWhile_append2)
  with n Object.prems show ?case by (simp add: Let_def desc_of_def)
next
  case (Array t)
  then have "parse_field_loop start (Suc d) (show_type t @ rest) = Inr (desc_of (wrap (Suc d) t), rest)"
    by (intro Array.IH) (simp_all add: replicate_app_Cons_same)
  moreover have "d \<le> 255" using Array.prems by (simp add: wf_type_def)
  ultimately show ?case by simp
qed

lemma parse_field_loop_sound:
  assumes "parse_field_loop start d cs = Inr (r, rest)"
    and "start = replicate d CHR ''['' @ cs"
  shows "\<exists>t. wf_type (wrap d t) \<and> cs = show_type t @ rest \<and> r = desc_of (wrap d t)"
  using assms
proof (induction start d cs rule: parse_field_loop.induct)
  case (1 start d)
  then show ?case by simp
next
  case (2 start d c cs)
  note res = 2(2) and start = 2(3)
  from res have d: "d \<le> 255" by (auto split: if_splits)
  consider (prim) "is_primitive_char c" | (arr) "c = CHR ''[''" | (obj) "c = CHR ''L''"
    using res by (auto split: if_splits)
  then show ?case
  proof cases
    case prim
    then obtain k where k: "k \<noteq> TYPE_KIND_REFERENCE" "c = type_kind_to_char k"
        "read_type_kind_char c = Some k"
      using read_type_kind_char_prim by blast
    with prim res d have "rest = cs" "k = TYPE_KIND_VOID \<longrightarrow> d = 0" "r = desc_of (wrap d (Base k))"
      using start by (auto simp: Let_def desc_of_def split: if_splits)
    with k d show ?thesis
      by (intro exI [of _ "Base k"]) (auto simp: wf_type_def)
  next
    case arr
    have "\<exists>t. wf_type (wrap (Suc d) t) \<and> cs = show_type t @ rest \<and> r = desc_of (wrap (Suc d) t)"
      using arr d res start by (intro 2(1)) (simp_all add: replicate_app_Cons_same)
    then obtain t where "wf_type (wrap (Suc d) t)" "cs = show_type t @ rest" "r = desc_of (wrap (Suc d) t)"
      by blast
    then show ?thesis using arr by (intro exI [of _ "Array t"]) simp
  next
    case obj
    define n where "n = takeWhile (\<lambda>x. x \<noteq> CHR '';'') cs"
    define q where "q = dropWhile (\<lambda>x. x \<noteq> CHR '';'') cs"
    from obj res d have q: "q \<noteq> []" "n \<noteq> []" "rest = tl q"
      and r: "r = \<lparr>base_kind = TYPE_KIND_REFERENCE, repr_kind = TYPE_KIND_REFERENCE,
                   dimensions = d, class_name = Some n, unparsed = take (length start - length rest) start\<rparr>"
      by (auto simp: Let_def n_def q_def split: if_splits)
    from q(1) have "q = CHR '';'' # rest"
      using hd_dropWhile [of "\<lambda>x. x \<noteq> CHR '';''" cs] q by (cases q) (auto simp: q_def)
    then have cs: "cs = n @ CHR '';'' # rest"
      using takeWhile_dropWhile_id [of "\<lambda>x. x \<noteq> CHR '';''" cs] by (simp add: n_def q_def)
    have "CHR '';'' \<notin> set n" unfolding n_def by (auto dest: set_takeWhileD)
    with q(2) d cs obj r start show ?thesis
      by (intro exI [of _ "Object n"]) (auto simp: wf_type_def desc_of_def)
  qed
qed

lemma parse_field_descriptor_iff:
  "parse_field_descriptor cs = Inr (d, rest) \<longleftrightarrow>
     (\<exists>t. wf_type t \<and> cs = show_type t @ rest \<and> d = desc_of t)"
  using parse_field_loop_sound [of cs 0 cs d rest] parse_field_loop_complete [of 0 _ cs rest]
  by (auto simp: parse_field_descriptor_def)

lemma show_type_not_Nil [simp]: "show_type t \<noteq> []"
  by (cases t) auto

lemma hd_show_type: "hd (show_type t @ r) \<noteq> CHR '')''"
proof (cases t)
  case (Base k)
  then show ?thesis by (cases k) auto
qed auto

lemma base_kind_desc_of: "wf_type t \<Longrightarrow> base_kind (desc_of t) = TYPE_KIND_VOID \<longleftrightarrow> t = Base TYPE_KIND_VOID"
  by (cases t) (auto simp: wf_type_def desc_of_def split: field_type.splits)

definition wf_arg :: "field_type \<Rightarrow> bool" where
  "wf_arg t \<longleftrightarrow> wf_type t \<and> t \<noteq> Base TYPE_KIND_VOID"

lemma parse_args_complete:
  "\<forall>t\<in>set ts. wf_arg t \<Longrightarrow> rest = [] \<or> hd rest = CHR '')'' \<Longrightarrow>
   parse_args (concat (map show_type ts) @ rest) = Inr (map desc_of ts, rest)"
proof (induction ts)
  case Nil
  then show ?case by (auto simp: parse_args.simps)
next
  case (Cons t ts)
  let ?more = "concat (map show_type ts) @ rest"
  have "parse_field_descriptor (show_type t @ ?more) = Inr (desc_of t, ?more)"
    using Cons.prems by (auto simp: parse_field_descriptor_iff wf_arg_def)
  moreover have "parse_args ?more = Inr (map desc_of ts, rest)"
    using Cons by simp
  moreover have "base_kind (desc_of t) \<noteq> TYPE_KIND_VOID"
    using Cons.prems base_kind_desc_of by (auto simp: wf_arg_def)
  ultimately show ?case
    using hd_show_type [of t ?more] by (subst parse_args.simps) auto
qed

lemma parse_args_sound:
  "parse_args cs = Inr (as, rest) \<Longrightarrow>
   \<exists>ts. (\<forall>t\<in>set ts. wf_arg t) \<and> cs = concat (map show_type ts) @ rest \<and> as = map desc_of ts
     \<and> (rest = [] \<or> hd rest = CHR '')'')"
proof (induction cs arbitrary: as rule: parse_args.induct)
  case (1 cs)
  show ?case
  proof (cases "cs = [] \<or> hd cs = CHR '')''")
    case True
    with "1.prems" show ?thesis
      by (intro exI [of _ "[]"]) (auto simp: parse_args.simps [of cs])
  next
    case False
    with "1.prems" obtain arg mid bs where a: "parse_field_descriptor cs = Inr (arg, mid)"
        "base_kind arg \<noteq> TYPE_KIND_VOID" "parse_args mid = Inr (bs, rest)" "as = arg # bs"
      by (auto simp: parse_args.simps [of cs] split: sum.splits if_splits)
    from "1.IH" [OF False a(1) refl a(2) a(3)] obtain ts where
      ts: "\<forall>t\<in>set ts. wf_arg t" "mid = concat (map show_type ts) @ rest" "bs = map desc_of ts"
        "rest = [] \<or> hd rest = CHR '')''"
      by blast
    from a(1) obtain t where t: "wf_type t" "cs = show_type t @ mid" "arg = desc_of t"
      by (auto simp: parse_field_descriptor_iff)
    with a(2) have "wf_arg t" using base_kind_desc_of by (auto simp: wf_arg_def)
    with t ts a(4) show ?thesis by (intro exI [of _ "t # ts"]) auto
  qed
qed

section \<open>Properties\<close>


text \<open>C2. A method descriptor string is accepted exactly when it starts with the printed form
  of a method type whose arguments are well-formed and not void; what follows the return type
  is ignored, so trailing characters are accepted, unlike for field descriptors.\<close>

theorem parse_method_descriptor_iff:
  "parse_method_descriptor cs = Inr m \<longleftrightarrow>
     (\<exists>ts r junk. list_all wf_arg ts \<and> wf_type r \<and> cs = show_method ts r @ junk \<and>
        m = \<lparr>args = map desc_of ts, return_type = desc_of r\<rparr>)"
  (is "?L \<longleftrightarrow> ?R")
proof
  assume ?L
  then obtain as rest ret junk where p: "cs \<noteq> []" "hd cs = CHR ''(''" "parse_args (tl cs) = Inr (as, rest)"
      "rest \<noteq> []" "parse_field_descriptor (tl rest) = Inr (ret, junk)"
      "m = \<lparr>args = as, return_type = ret\<rparr>"
    by (auto simp: parse_method_descriptor_def split: if_splits sum.splits)
  from parse_args_sound [OF p(3)] p(4) obtain ts where
    ts: "\<forall>t\<in>set ts. wf_arg t" "tl cs = concat (map show_type ts) @ rest" "as = map desc_of ts"
      "hd rest = CHR '')''"
    by blast
  from p(5) obtain r where r: "wf_type r" "tl rest = show_type r @ junk" "ret = desc_of r"
    by (auto simp: parse_field_descriptor_iff)
  have "rest = CHR '')'' # show_type r @ junk"
    using p(4) ts(4) r(2) by (cases rest) auto
  then have "cs = show_method ts r @ junk"
    using p(1,2) ts(2) by (cases cs) (auto simp: show_method_def)
  with p ts r show ?R by (auto simp: list_all_iff)
next
  assume ?R
  then obtain ts r junk where h: "list_all wf_arg ts" "wf_type r" "cs = show_method ts r @ junk"
      "m = \<lparr>args = map desc_of ts, return_type = desc_of r\<rparr>"
    by blast
  have "parse_field_descriptor (show_type r @ junk) = Inr (desc_of r, junk)"
    using h by (auto simp: parse_field_descriptor_iff)
  moreover have "parse_args (concat (map show_type ts) @ CHR '')'' # show_type r @ junk)
      = Inr (map desc_of ts, CHR '')'' # show_type r @ junk)"
    using h by (intro parse_args_complete) (auto simp: list_all_iff)
  ultimately show ?L using h by (simp add: parse_method_descriptor_def show_method_def)
qed

end
