(* ===== verification/Reader.thy ===== *)
theory Reader
  imports Descriptor
begin

text \<open>
  The big-endian byte reader of the class file parser (\<^verbatim>\<open>vm/endian.h\<close>, and
  \<^verbatim>\<open>cf_byteslice\<close>, \<^verbatim>\<open>reader_advance\<close>, \<^verbatim>\<open>reader_next_*\<close>, \<^verbatim>\<open>reader_get_slice\<close> of
  \<^verbatim>\<open>vm/classfile.c\<close>). A \<^verbatim>\<open>cf_byteslice\<close> is a pointer and a length; the model keeps
  the bytes from the pointer on, so its length is \<^verbatim>\<open>len\<close>. The reader state is an
  extensible record, which the parser extends with its context. The errors are the
  messages that \<^verbatim>\<open>format_error_static\<close> and \<^verbatim>\<open>format_error_dynamic\<close> carry out of the
  parser. The locale \<open>byte_reader\<close> states what a parser relies on: each read hands out
  the next bytes and leaves the rest.
\<close>

section \<open>Errors\<close>

datatype format_error =
    Static_error string \<comment> \<open>a literal handed to \<^verbatim>\<open>format_error_static\<close>\<close>
  | End_of_slice string \<comment> \<open>"End of slice while reading ..."\<close>
  | Unexpected_cp_kind u32 int u32 string \<comment> \<open>kind, index, expected kinds, reason\<close>
  | Invalid_cp_index int nat string \<comment> \<open>index, pool size, reason\<close>
  | Invalid_newarray_type nat
  | Invalid_wide_opcode nat
  | Invalid_opcode nat
  | Invalid_program_counter int
  | Empty_name string
  | Invalid_name string string
  | Descriptor_error descriptor_error
  | Invalid_method_descriptor string string descriptor_error
  | Invalid_magic u32
  | Out_of_fuel \<comment> \<open>not a message: the bound on the nesting of attributes was too small\<close>
  | Invalid_access \<comment> \<open>not a message: where the C code would follow a null pointer or index out of bounds\<close>

section \<open>Byte order\<close>

text \<open>The value a little-endian machine loads from consecutive bytes.\<close>

primrec load_le :: "u8 list \<Rightarrow> nat" where
  "load_le [] = 0"
| "load_le (b # bs) = unat b + 256 * load_le bs"

text \<open>\<^verbatim>\<open>read_u16_be\<close> and its kin: load, then swap the bytes.\<close>

definition read_be :: "u8 list \<Rightarrow> 'w::len word" where
  "read_be bs = word_of_nat (load_le (rev bs))"

text \<open>The inverse, which writers of class files use: \<open>n\<close> bytes, most significant first.\<close>

primrec store_le :: "nat \<Rightarrow> nat \<Rightarrow> u8 list" where
  "store_le 0 v = []"
| "store_le (Suc n) v = word_of_nat v # store_le n (v div 256)"

definition write_be :: "nat \<Rightarrow> 'w::len word \<Rightarrow> u8 list" where
  "write_be n w = rev (store_le n (unat w))"

section \<open>The reader\<close>

record rstate =
  rd :: "u8 list"

type_synonym ('z, 'a) reader = "('z rstate_scheme, format_error, 'a) sem"

definition reader_advance :: "string \<Rightarrow> nat \<Rightarrow> ('z, u8 list) reader" where
  "reader_advance reason n =
     (\<lambda>s. if length (rd s) < n then Inl (Static_error reason)
          else Inr (take n (rd s), s\<lparr>rd := drop n (rd s)\<rparr>))"

definition reader_next_u8 :: "string \<Rightarrow> ('z, u8) reader" where
  "reader_next_u8 reason = bind_m (reader_advance reason 1) (\<lambda>d. return_m (read_be d))"

definition reader_next_u16 :: "string \<Rightarrow> ('z, u16) reader" where
  "reader_next_u16 reason = bind_m (reader_advance reason 2) (\<lambda>d. return_m (read_be d))"

definition reader_next_u32 :: "string \<Rightarrow> ('z, u32) reader" where
  "reader_next_u32 reason = bind_m (reader_advance reason 4) (\<lambda>d. return_m (read_be d))"

definition reader_next_u64 :: "string \<Rightarrow> ('z, u64) reader" where
  "reader_next_u64 reason = bind_m (reader_advance reason 8) (\<lambda>d. return_m (read_be d))"

text \<open>The signed variants reinterpret the bits (\<^verbatim>\<open>PUN_READER_NEXT_IMPL\<close>); a float or a
  double is kept as its bit pattern, the unsigned word itself.\<close>

definition reader_next_s8 :: "string \<Rightarrow> ('z, int) reader" where
  "reader_next_s8 reason = bind_m (reader_next_u8 reason) (\<lambda>u. return_m (sint u))"

definition reader_next_s16 :: "string \<Rightarrow> ('z, int) reader" where
  "reader_next_s16 reason = bind_m (reader_next_u16 reason) (\<lambda>u. return_m (sint u))"

definition reader_next_s32 :: "string \<Rightarrow> ('z, int) reader" where
  "reader_next_s32 reason = bind_m (reader_next_u32 reason) (\<lambda>u. return_m (sint u))"

definition reader_next_s64 :: "string \<Rightarrow> ('z, int) reader" where
  "reader_next_s64 reason = bind_m (reader_next_u64 reason) (\<lambda>u. return_m (sint u))"

definition reader_get_slice :: "nat \<Rightarrow> string \<Rightarrow> ('z, u8 list) reader" where
  "reader_get_slice n reason =
     (\<lambda>s. if length (rd s) < n then Inl (End_of_slice reason)
          else Inr (take n (rd s), s\<lparr>rd := drop n (rd s)\<rparr>))"

text \<open>Running a parser on a reader of its own (the by-value \<^verbatim>\<open>attr_reader\<close>s of the C
  code): the caller's reader is untouched, the rest of the context is shared.\<close>

definition with_slice :: "u8 list \<Rightarrow> ('z, 'a) reader \<Rightarrow> ('z, 'a) reader" where
  "with_slice bs p =
     (\<lambda>s. case p (s\<lparr>rd := bs\<rparr>) of Inl e \<Rightarrow> Inl e | Inr (x, t) \<Rightarrow> Inr (x, t\<lparr>rd := rd s\<rparr>))"

lemmas reader_defs [monad_simps] =
  reader_advance_def reader_next_u8_def reader_next_u16_def reader_next_u32_def
  reader_next_u64_def reader_next_s8_def reader_next_s16_def reader_next_s32_def
  reader_next_s64_def reader_get_slice_def with_slice_def

section \<open>Byte order facts\<close>

lemma load_le_bound: "load_le bs < 256 ^ length bs"
proof (induction bs)
  case Nil
  show ?case by simp
next
  case (Cons b bs)
  have "unat b < 256" using unat_bound [of b] by simp
  with Cons show ?case by simp
qed

lemma length_store_le [simp]: "length (store_le n v) = n"
  by (induction n arbitrary: v) auto

lemma load_le_store_le: "v < 256 ^ n \<Longrightarrow> load_le (store_le n v) = v"
proof (induction n arbitrary: v)
  case 0
  then show ?case by simp
next
  case (Suc n)
  then have "v div 256 < 256 ^ n" by (simp add: less_mult_imp_div_less mult.commute)
  then have "load_le (store_le n (v div 256)) = v div 256" by (rule Suc.IH)
  then show ?case by (simp add: unat_of_nat)
qed

lemma store_le_load_le: "store_le (length bs) (load_le bs) = bs"
proof (induction bs)
  case Nil
  show ?case by simp
next
  case (Cons b bs)
  have b: "unat b < 256" using unat_bound [of b] by simp
  then have "(unat b + 256 * load_le bs) div 256 = load_le bs" by simp
  moreover have "word_of_nat (unat b + 256 * load_le bs) = b"
  proof -
    have "(256 :: 8 word) = 0" by simp
    then have "(256 :: 8 word) * word_of_nat (load_le bs) = 0" by (simp only: mult_zero_left)
    then show ?thesis by simp
  qed
  ultimately show ?case using Cons by simp
qed

lemma read_be_write_be:
  assumes "LENGTH('w) = 8 * n"
  shows "read_be (write_be n (w :: 'w::len word)) = w"
proof -
  have "unat w < 256 ^ n"
    using unat_bound [of w] assms by (simp add: power_mult)
  then show ?thesis by (simp add: read_be_def write_be_def load_le_store_le)
qed

lemma write_be_read_be:
  assumes "LENGTH('w) = 8 * length bs"
  shows "write_be (length bs) (read_be bs :: 'w::len word) = bs"
proof -
  have "load_le (rev bs) < 256 ^ length bs"
    using load_le_bound [of "rev bs"] by simp
  then have "load_le (rev bs) < 2 ^ LENGTH('w)"
    using assms by (simp add: power_mult)
  then have "unat (read_be bs :: 'w word) = load_le (rev bs)"
    by (simp add: read_be_def unat_of_nat)
  then show ?thesis
    using store_le_load_le [of "rev bs"] by (simp add: write_be_def)
qed

lemma length_write_be [simp]: "length (write_be n w) = n"
  by (simp add: write_be_def)

lemma read_be_u8 [simp]: "(read_be [b] :: u8) = b"
  by (simp add: read_be_def)

section \<open>What a read leaves\<close>

text \<open>
  \<open>consumes rem k p\<close>: whenever \<open>p\<close> succeeds it has taken at least \<open>k\<close> bytes from
  the front of the input and nothing else. It is the reason every loop of the parser ends.
\<close>

definition consumes :: "('s \<Rightarrow> u8 list) \<Rightarrow> nat \<Rightarrow> ('s, 'e, 'a) sem \<Rightarrow> bool" where
  "consumes rem k p \<longleftrightarrow>
     (\<forall>s x t. p s = Inr (x, t) \<longrightarrow> suffix (rem t) (rem s) \<and> length (rem t) + k \<le> length (rem s))"

named_theorems consumes_rules \<open>how many bytes a parser consumes\<close>

lemma consumesD:
  assumes "consumes rem k p" "p s = Inr (x, t)"
  shows "suffix (rem t) (rem s)" "length (rem t) + k \<le> length (rem s)"
  using assms by (auto simp: consumes_def)

lemma consumes_weaken: "consumes rem k p \<Longrightarrow> j \<le> k \<Longrightarrow> consumes rem j p"
  by (force simp: consumes_def)

lemma consumes_bind:
  assumes "consumes rem j p" "\<And>x. consumes rem k (f x)"
  shows "consumes rem (j + k) (bind_m p f)"
  using assms unfolding consumes_def bind_m_Inr_iff
  by (fastforce intro: suffix_order.trans)

lemma consumes_bind0 [consumes_rules]:
  assumes "consumes rem 0 p" "\<And>x. consumes rem 0 (f x)"
  shows "consumes rem 0 (bind_m p f)"
  using consumes_bind [OF assms] by simp

lemma consumes_return [consumes_rules]: "consumes rem 0 (return_m x)"
  by (simp add: consumes_def)

lemma consumes_fail [consumes_rules]: "consumes rem k (fail_m e)"
  by (simp add: consumes_def)

lemma consumes_gets [consumes_rules]: "consumes rem 0 (gets_m f)"
  by (simp add: consumes_def)

lemma consumes_guard [consumes_rules]: "consumes rem 0 (guard_m b e)"
  by (simp add: consumes_def)

lemma consumes_modify [consumes_rules]:
  "(\<And>s. rem (f s) = rem s) \<Longrightarrow> consumes rem 0 (modify_m f)"
  by (simp add: consumes_def)

lemma consumes_if [consumes_rules]:
  "(b \<Longrightarrow> consumes rem k p) \<Longrightarrow> (\<not> b \<Longrightarrow> consumes rem k q) \<Longrightarrow> consumes rem k (if b then p else q)"
  by simp

lemma consumes_repeat [consumes_rules]:
  "consumes rem 0 p \<Longrightarrow> consumes rem 0 (repeat_m n p)"
  by (induction n) (auto intro!: consumes_rules)

lemma consumes_map_m [consumes_rules]:
  "(\<And>x. consumes rem 0 (f x)) \<Longrightarrow> consumes rem 0 (map_m f xs)"
  by (induction xs) (auto intro!: consumes_rules)

lemma consumes_option [consumes_rules]:
  "(o' = None \<Longrightarrow> consumes rem k p) \<Longrightarrow> (\<And>x. o' = Some x \<Longrightarrow> consumes rem k (q x)) \<Longrightarrow>
   consumes rem k (case o' of None \<Rightarrow> p | Some x \<Rightarrow> q x)"
  by (cases o') auto

section \<open>The reader interface\<close>

text \<open>
  What the parsers rely on: a read that succeeds hands out the first bytes of what
  remained, a read fails only when too little remains. The laws are stated over any state
  with a view \<open>remaining\<close>, because the class file parser and the stack map iterator keep
  their input in different records.
\<close>

locale byte_reader =
  fixes remaining :: "'s \<Rightarrow> u8 list"
    and next_u8 :: "('s, 'e, u8) sem"
    and next_u16 :: "('s, 'e, u16) sem"
  assumes next_u8_Inr: "next_u8 s = Inr (b, t) \<Longrightarrow> remaining s = b # remaining t"
    and next_u8_Inl: "next_u8 s = Inl e \<Longrightarrow> remaining s = []"
    and next_u16_Inr: "next_u16 s = Inr (w, t) \<Longrightarrow> remaining s = write_be 2 w @ remaining t"
    and next_u16_Inl: "next_u16 s = Inl e \<Longrightarrow> length (remaining s) < 2"
begin

lemma consumes_next_u8: "consumes remaining 1 next_u8"
  unfolding consumes_def using next_u8_Inr by (fastforce simp: suffix_def)

lemma consumes_next_u16: "consumes remaining 2 next_u16"
  unfolding consumes_def using next_u16_Inr by (fastforce simp: suffix_def)

lemma bytes_split:
  "repeat_m n next_u8 s = Inr (bs, t) \<Longrightarrow> remaining s = bs @ remaining t"
  by (induction n arbitrary: s bs) (auto simp: bind_m_Inr_iff dest!: next_u8_Inr)

lemma bytes_enough:
  "n \<le> length (remaining s) \<Longrightarrow> \<exists>bs t. repeat_m n next_u8 s = Inr (bs, t)"
proof (induction n arbitrary: s)
  case 0
  show ?case by (simp add: return_m_def)
next
  case (Suc n)
  show ?case
  proof (cases "next_u8 s")
    case (Inl e)
    with Suc.prems next_u8_Inl [of s e] show ?thesis by simp
  next
    case (Inr z)
    obtain b u where z: "next_u8 s = Inr (b, u)" using Inr by (cases z) simp
    with Suc.prems have "n \<le> length (remaining u)" using next_u8_Inr [OF z] by simp
    then obtain bs t where "repeat_m n next_u8 u = Inr (bs, t)" using Suc.IH by blast
    with z show ?thesis by (simp add: bind_m_def return_m_def)
  qed
qed

lemma words_split:
  "repeat_m n next_u16 s = Inr (ws, t) \<Longrightarrow>
   remaining s = concat (map (write_be 2) ws) @ remaining t"
  by (induction n arbitrary: s ws) (auto simp: bind_m_Inr_iff dest!: next_u16_Inr)

end

section \<open>The class file reader implements it\<close>

lemma reader_advance_Inr_iff:
  "reader_advance r n s = Inr (d, t) \<longleftrightarrow>
     n \<le> length (rd s) \<and> d = take n (rd s) \<and> t = s\<lparr>rd := drop n (rd s)\<rparr>"
  by (auto simp: reader_advance_def)

lemma reader_get_slice_Inr_iff:
  "reader_get_slice n r s = Inr (d, t) \<longleftrightarrow>
     n \<le> length (rd s) \<and> d = take n (rd s) \<and> t = s\<lparr>rd := drop n (rd s)\<rparr>"
  by (auto simp: reader_get_slice_def)

lemma consumes_reader_advance: "consumes rd n (reader_advance r n)"
  by (auto simp: consumes_def reader_advance_Inr_iff)

lemma consumes_reader_get_slice: "consumes rd n (reader_get_slice n r)"
  by (auto simp: consumes_def reader_get_slice_Inr_iff)

interpretation cf: byte_reader rd "reader_next_u8 r" "reader_next_u16 r"
proof
  fix s t :: "'z rstate_scheme" and b
  assume "reader_next_u8 r s = Inr (b, t)"
  then show "rd s = b # rd t"
    by (cases "rd s") (auto simp: reader_next_u8_def bind_m_Inr_iff reader_advance_Inr_iff)
next
  fix s :: "'z rstate_scheme" and e
  assume "reader_next_u8 r s = Inl e"
  then show "rd s = []"
    by (auto simp: reader_next_u8_def bind_m_Inl_iff reader_advance_def split: if_splits)
next
  fix s t :: "'z rstate_scheme" and w
  assume "reader_next_u16 r s = Inr (w, t)"
  then have n: "2 \<le> length (rd s)" and w: "w = read_be (take 2 (rd s))"
    and t: "t = s\<lparr>rd := drop 2 (rd s)\<rparr>"
    by (auto simp: reader_next_u16_def bind_m_Inr_iff reader_advance_Inr_iff)
  from n have "write_be 2 w = take 2 (rd s)"
    using write_be_read_be [of "take 2 (rd s)", where 'w = 16] w by (simp add: min_def)
  then show "rd s = write_be 2 w @ rd t" by (simp add: t)
next
  fix s :: "'z rstate_scheme" and e
  assume "reader_next_u16 r s = Inl e"
  then show "length (rd s) < 2"
    by (auto simp: reader_next_u16_def bind_m_Inl_iff reader_advance_def split: if_splits)
qed

lemma reader_next_Inr_iff:
  "reader_next_u8 r s = Inr (a, t) \<longleftrightarrow>
     1 \<le> length (rd s) \<and> a = read_be (take 1 (rd s)) \<and> t = s\<lparr>rd := drop 1 (rd s)\<rparr>"
  "reader_next_u16 r s = Inr (b, t) \<longleftrightarrow>
     2 \<le> length (rd s) \<and> b = read_be (take 2 (rd s)) \<and> t = s\<lparr>rd := drop 2 (rd s)\<rparr>"
  "reader_next_u32 r s = Inr (c, t) \<longleftrightarrow>
     4 \<le> length (rd s) \<and> c = read_be (take 4 (rd s)) \<and> t = s\<lparr>rd := drop 4 (rd s)\<rparr>"
  "reader_next_u64 r s = Inr (d, t) \<longleftrightarrow>
     8 \<le> length (rd s) \<and> d = read_be (take 8 (rd s)) \<and> t = s\<lparr>rd := drop 8 (rd s)\<rparr>"
  by (auto simp: reader_next_u8_def reader_next_u16_def reader_next_u32_def reader_next_u64_def
      bind_m_Inr_iff reader_advance_Inr_iff)

lemma reader_next_s_Inr_iff:
  "reader_next_s8 r s = Inr (i, t) \<longleftrightarrow> (\<exists>a. reader_next_u8 r s = Inr (a, t) \<and> i = sint a)"
  "reader_next_s16 r s = Inr (i, t) \<longleftrightarrow> (\<exists>b. reader_next_u16 r s = Inr (b, t) \<and> i = sint b)"
  "reader_next_s32 r s = Inr (i, t) \<longleftrightarrow> (\<exists>c. reader_next_u32 r s = Inr (c, t) \<and> i = sint c)"
  "reader_next_s64 r s = Inr (i, t) \<longleftrightarrow> (\<exists>d. reader_next_u64 r s = Inr (d, t) \<and> i = sint d)"
  by (auto simp: reader_next_s8_def reader_next_s16_def reader_next_s32_def reader_next_s64_def
      bind_m_Inr_iff)

lemmas reader_iffs = bind_m_Inr_iff reader_next_Inr_iff reader_next_s_Inr_iff reader_get_slice_Inr_iff

text \<open>How much each read takes, as the parsers use it.\<close>

lemma consumes_reader_next_n:
  "consumes rd 1 (reader_next_u8 r)" "consumes rd 2 (reader_next_u16 r)"
  "consumes rd 4 (reader_next_u32 r)" "consumes rd 8 (reader_next_u64 r)"
  using consumes_bind [OF consumes_reader_advance consumes_return]
  by (simp_all add: reader_next_u8_def reader_next_u16_def reader_next_u32_def reader_next_u64_def)

lemma consumes_reader_next_u [consumes_rules]:
  "consumes rd 0 (reader_next_u8 r)" "consumes rd 0 (reader_next_u16 r)"
  "consumes rd 0 (reader_next_u32 r)" "consumes rd 0 (reader_next_u64 r)"
  "consumes rd 0 (reader_get_slice n r)"
  using consumes_reader_next_n consumes_reader_get_slice by (blast intro: consumes_weaken)+

lemma consumes_reader_next_s [consumes_rules]:
  "consumes rd 0 (reader_next_s8 r)" "consumes rd 0 (reader_next_s16 r)"
  "consumes rd 0 (reader_next_s32 r)" "consumes rd 0 (reader_next_s64 r)"
  unfolding reader_next_s8_def reader_next_s16_def reader_next_s32_def reader_next_s64_def
  by (intro consumes_rules)+

lemma consumes_with_slice [consumes_rules]: "consumes rd 0 (with_slice bs p)"
  by (auto simp: consumes_def with_slice_def split: sum.splits prod.splits)

section \<open>Pointer safety\<close>

text \<open>The errors that are messages of the program, as opposed to what is undefined in the C code
  and to the bound on the nesting of attributes.\<close>

definition no_ub :: "format_error \<Rightarrow> bool" where
  "no_ub e \<longleftrightarrow> e \<noteq> Invalid_access \<and> e \<noteq> Out_of_fuel"

lemma no_ub_simps [simp]:
  "no_ub (Static_error r)" "no_ub (End_of_slice r)" "no_ub (Unexpected_cp_kind a b c r)" "no_ub (Invalid_cp_index i j r)"
  "no_ub (Invalid_newarray_type k)" "no_ub (Invalid_wide_opcode k)" "no_ub (Invalid_opcode k)"
  "no_ub (Invalid_program_counter p)" "no_ub (Empty_name r)" "no_ub (Invalid_name r x)" "no_ub (Descriptor_error d)"
  "no_ub (Invalid_magic w)" "no_ub (Invalid_method_descriptor r x d)" "\<not> no_ub Invalid_access" "\<not> no_ub Out_of_fuel"
  by (simp_all add: no_ub_def)

text \<open>A parser is safe when it fails only with a message, never by doing what is undefined.\<close>

definition safe :: "('s, format_error, 'a) sem \<Rightarrow> bool" where
  "safe p \<longleftrightarrow> (\<forall>s e. p s = Inl e \<longrightarrow> no_ub e)"

named_theorems safe_rules \<open>parsers that never follow a null pointer\<close>

lemma safeD: "safe p \<Longrightarrow> p s = Inl e \<Longrightarrow> no_ub e"
  by (simp add: safe_def)

lemma safe_bind [safe_rules]: "safe p \<Longrightarrow> (\<And>x. safe (f x)) \<Longrightarrow> safe (bind_m p f)"
  by (auto simp: safe_def bind_m_Inl_iff)

lemma safe_basic [safe_rules]:
  "safe (return_m x)" "safe (gets_m f)" "safe (modify_m g)"
  "no_ub e \<Longrightarrow> safe (fail_m e)" "no_ub e \<Longrightarrow> safe (guard_m b e)"
  by (auto simp: safe_def)

lemma safe_if [safe_rules]: "(b \<Longrightarrow> safe p) \<Longrightarrow> (\<not> b \<Longrightarrow> safe q) \<Longrightarrow> safe (if b then p else q)"
  by simp

lemma safe_repeat [safe_rules]: "safe p \<Longrightarrow> safe (repeat_m n p)"
  by (induction n) (auto intro!: safe_rules)

lemma safe_map_m [safe_rules]: "(\<And>x. safe (f x)) \<Longrightarrow> safe (map_m f xs)"
  by (induction xs) (auto intro!: safe_rules)

lemma safe_reader [safe_rules]:
  "safe (reader_advance r n)" "safe (reader_get_slice n r)"
  by (auto simp: safe_def reader_advance_def reader_get_slice_def)

lemma safe_reader_next [safe_rules]:
  "safe (reader_next_u8 r)" "safe (reader_next_u16 r)" "safe (reader_next_u32 r)" "safe (reader_next_u64 r)"
  unfolding reader_next_u8_def reader_next_u16_def reader_next_u32_def reader_next_u64_def
  by (intro safe_rules)+

lemma safe_reader_next_s [safe_rules]:
  "safe (reader_next_s8 r)" "safe (reader_next_s16 r)" "safe (reader_next_s32 r)" "safe (reader_next_s64 r)"
  unfolding reader_next_s8_def reader_next_s16_def reader_next_s32_def reader_next_s64_def
  by (intro safe_rules)+

lemma safe_with_slice [safe_rules]: "safe p \<Longrightarrow> safe (with_slice bs p)"
  by (auto simp: safe_def with_slice_def split: sum.splits)

end
