(* ===== verification/Constant_Pool.thy ===== *)
theory Constant_Pool
  imports Reader
begin

text \<open>
  The constant pool of a class file: \<^verbatim>\<open>cp_kind\<close>, \<^verbatim>\<open>cp_entry\<close> and \<^verbatim>\<open>constant_pool\<close> of
  \<^verbatim>\<open>vm/classfile.h\<close> and the two-pass pool parser of \<^verbatim>\<open>vm/classfile.c\<close>. A pointer to an
  entry of the pool is the entry's index; a null pointer is \<open>None\<close>. The kinds form a
  bitset, as in the source, so that a check names the set of kinds it allows. The READ pass
  enters the kinds and the UTF-8 texts, the LINK pass re-reads the same bytes and resolves
  the references, and a last loop parses the descriptors.
\<close>

section \<open>Kinds\<close>

abbreviation (input) CP_KIND_INVALID :: u32 where "CP_KIND_INVALID \<equiv> 0"
abbreviation (input) CP_KIND_UTF8 :: u32 where "CP_KIND_UTF8 \<equiv> 1"
abbreviation (input) CP_KIND_INTEGER :: u32 where "CP_KIND_INTEGER \<equiv> 2"
abbreviation (input) CP_KIND_FLOAT :: u32 where "CP_KIND_FLOAT \<equiv> 4"
abbreviation (input) CP_KIND_LONG :: u32 where "CP_KIND_LONG \<equiv> 8"
abbreviation (input) CP_KIND_DOUBLE :: u32 where "CP_KIND_DOUBLE \<equiv> 16"
abbreviation (input) CP_KIND_CLASS :: u32 where "CP_KIND_CLASS \<equiv> 32"
abbreviation (input) CP_KIND_STRING :: u32 where "CP_KIND_STRING \<equiv> 64"
abbreviation (input) CP_KIND_FIELD_REF :: u32 where "CP_KIND_FIELD_REF \<equiv> 128"
abbreviation (input) CP_KIND_METHOD_REF :: u32 where "CP_KIND_METHOD_REF \<equiv> 256"
abbreviation (input) CP_KIND_INTERFACE_METHOD_REF :: u32 where "CP_KIND_INTERFACE_METHOD_REF \<equiv> 512"
abbreviation (input) CP_KIND_NAME_AND_TYPE :: u32 where "CP_KIND_NAME_AND_TYPE \<equiv> 1024"
abbreviation (input) CP_KIND_METHOD_HANDLE :: u32 where "CP_KIND_METHOD_HANDLE \<equiv> 2048"
abbreviation (input) CP_KIND_METHOD_TYPE :: u32 where "CP_KIND_METHOD_TYPE \<equiv> 4096"
abbreviation (input) CP_KIND_INVOKE_DYNAMIC :: u32 where "CP_KIND_INVOKE_DYNAMIC \<equiv> 8192"
abbreviation (input) CP_KIND_DYNAMIC_CONSTANT :: u32 where "CP_KIND_DYNAMIC_CONSTANT \<equiv> 16384"
abbreviation (input) CP_KIND_MODULE :: u32 where "CP_KIND_MODULE \<equiv> 32768"
abbreviation (input) CP_KIND_PACKAGE :: u32 where "CP_KIND_PACKAGE \<equiv> 65536"

section \<open>Entries\<close>

text \<open>The union inside \<^verbatim>\<open>cp_indy_info\<close>: an index until \<^verbatim>\<open>link_bootstrap_methods\<close> has run.\<close>

datatype indy_method = is_Method_index: Method_index u16 | Linked_method nat

text \<open>The tagged union of \<^verbatim>\<open>cp_entry\<close>. The fields that the runtime fills in later
  (resolved classes, interned strings, method types) start as null pointers and are not
  part of the parsed form.\<close>

datatype cp_info =
    Cp_invalid
  | Cp_utf8 string
  | Cp_integer int
  | Cp_float u32
  | Cp_long int
  | Cp_double u64
  | Cp_class string
  | Cp_string string
  | Cp_field_ref "nat option" "nat option" "field_descriptor option"
  | Cp_method_ref "nat option" "nat option" "method_descriptor option"
  | Cp_interface_method_ref "nat option" "nat option" "method_descriptor option"
  | Cp_name_and_type string string
  | Cp_method_handle u8 "nat option"
  | Cp_method_type string "method_descriptor option"
  | Cp_invoke_dynamic indy_method "nat option" "method_descriptor option"
  | Cp_dynamic_constant indy_method "nat option"
  | Cp_module string
  | Cp_package string

fun kind_of :: "cp_info \<Rightarrow> u32" where
  "kind_of Cp_invalid = CP_KIND_INVALID"
| "kind_of (Cp_utf8 _) = CP_KIND_UTF8"
| "kind_of (Cp_integer _) = CP_KIND_INTEGER"
| "kind_of (Cp_float _) = CP_KIND_FLOAT"
| "kind_of (Cp_long _) = CP_KIND_LONG"
| "kind_of (Cp_double _) = CP_KIND_DOUBLE"
| "kind_of (Cp_class _) = CP_KIND_CLASS"
| "kind_of (Cp_string _) = CP_KIND_STRING"
| "kind_of (Cp_field_ref _ _ _) = CP_KIND_FIELD_REF"
| "kind_of (Cp_method_ref _ _ _) = CP_KIND_METHOD_REF"
| "kind_of (Cp_interface_method_ref _ _ _) = CP_KIND_INTERFACE_METHOD_REF"
| "kind_of (Cp_name_and_type _ _) = CP_KIND_NAME_AND_TYPE"
| "kind_of (Cp_method_handle _ _) = CP_KIND_METHOD_HANDLE"
| "kind_of (Cp_method_type _ _) = CP_KIND_METHOD_TYPE"
| "kind_of (Cp_invoke_dynamic _ _ _) = CP_KIND_INVOKE_DYNAMIC"
| "kind_of (Cp_dynamic_constant _ _) = CP_KIND_DYNAMIC_CONSTANT"
| "kind_of (Cp_module _) = CP_KIND_MODULE"
| "kind_of (Cp_package _) = CP_KIND_PACKAGE"

record cp_entry =
  my_index :: nat
  info :: cp_info

abbreviation entry_kind :: "cp_entry \<Rightarrow> u32" where
  "entry_kind e \<equiv> kind_of (info e)"

text \<open>The parse context \<^verbatim>\<open>classfile_parse_ctx\<close> on top of the reader.\<close>

record parse_state = rstate +
  cp :: "cp_entry list"
  current_code_max_pc :: nat
  indy_insns_count :: nat

type_synonym 'a parser = "(parse_state, format_error, 'a) sem"

section \<open>Checked access\<close>

definition check_cp_entry :: "cp_entry \<Rightarrow> u32 \<Rightarrow> string \<Rightarrow> unit parser" where
  "check_cp_entry e expected reason =
     guard_m (entry_kind e AND expected \<noteq> 0 \<or> expected = 0)
       (Unexpected_cp_kind (entry_kind e) (int (my_index e)) expected reason)"

definition checked_cp_entry :: "nat \<Rightarrow> u32 \<Rightarrow> string \<Rightarrow> nat parser" where
  "checked_cp_entry i expected reason =
     bind_m (gets_m cp) (\<lambda>pool.
     bind_m (guard_m (i < length pool) (Invalid_cp_index (int i) (length pool) reason)) (\<lambda>_.
     bind_m (check_cp_entry (pool ! i) expected reason) (\<lambda>_.
     return_m i)))"

fun utf8_of :: "cp_info \<Rightarrow> string" where
  "utf8_of (Cp_utf8 t) = t"
| "utf8_of _ = []"

definition checked_get_utf8 :: "nat \<Rightarrow> string \<Rightarrow> string parser" where
  "checked_get_utf8 i reason =
     bind_m (checked_cp_entry i CP_KIND_UTF8 reason) (\<lambda>p.
     gets_m (\<lambda>s. utf8_of (info (cp s ! p))))"

definition parse_modified_utf8 :: "u8 list \<Rightarrow> string" where
  "parse_modified_utf8 bs = map (\<lambda>b. char_of (unat b)) bs"

section \<open>Parsing one entry\<close>

text \<open>\<^verbatim>\<open>skip_linking ? nullptr : ...\<close> and \<^verbatim>\<open>skip_linking ? null_str() : ...\<close>.\<close>

definition link_ptr :: "bool \<Rightarrow> nat \<Rightarrow> u32 \<Rightarrow> string \<Rightarrow> nat option parser" where
  "link_ptr skip i expected reason =
     (if skip then return_m None
      else bind_m (checked_cp_entry i expected reason) (\<lambda>p. return_m (Some p)))"

definition link_str :: "bool \<Rightarrow> nat \<Rightarrow> string \<Rightarrow> string parser" where
  "link_str skip i reason = (if skip then return_m [] else checked_get_utf8 i reason)"

definition parse_cp_class :: "bool \<Rightarrow> nat \<Rightarrow> cp_info parser" where
  "parse_cp_class skip kind =
     bind_m (reader_next_u16 ''class index'') (\<lambda>index.
     bind_m (link_str skip (unat index) ''class info name'') (\<lambda>name.
     return_m (if kind = 7 then Cp_class name else if kind = 19 then Cp_module name else Cp_package name)))"

definition parse_cp_ref :: "bool \<Rightarrow> nat \<Rightarrow> cp_info parser" where
  "parse_cp_ref skip kind =
     bind_m (reader_next_u16 ''class index'') (\<lambda>class_index.
     bind_m (reader_next_u16 ''name and type index'') (\<lambda>name_and_type_index.
     bind_m (link_ptr skip (unat class_index) CP_KIND_CLASS
               ''fieldref/methodref/interfacemethodref class info'') (\<lambda>class_info.
     bind_m (link_ptr skip (unat name_and_type_index) CP_KIND_NAME_AND_TYPE
               ''fieldref/methodref/interfacemethodref name and type'') (\<lambda>name_and_type.
     return_m (if kind = 9 then Cp_field_ref class_info name_and_type None
               else if kind = 10 then Cp_method_ref class_info name_and_type None
               else Cp_interface_method_ref class_info name_and_type None)))))"

definition parse_cp_string :: "bool \<Rightarrow> cp_info parser" where
  "parse_cp_string skip =
     bind_m (reader_next_u16 ''string index'') (\<lambda>index.
     bind_m (link_str skip (unat index) ''string value'') (\<lambda>chars.
     return_m (Cp_string chars)))"

definition parse_cp_name_and_type :: "bool \<Rightarrow> cp_info parser" where
  "parse_cp_name_and_type skip =
     bind_m (reader_next_u16 ''name index'') (\<lambda>name_index.
     bind_m (reader_next_u16 ''descriptor index'') (\<lambda>descriptor_index.
     bind_m (link_str skip (unat name_index) ''name and type name'') (\<lambda>name.
     bind_m (link_str skip (unat descriptor_index) ''name and type descriptor'') (\<lambda>descriptor.
     return_m (Cp_name_and_type name descriptor)))))"

definition parse_cp_utf8 :: "bool \<Rightarrow> cp_info parser" where
  "parse_cp_utf8 skip =
     bind_m (reader_next_u16 ''utf8 length'') (\<lambda>length.
     bind_m (reader_get_slice (unat length) ''utf8 data'') (\<lambda>bytes.
     return_m (Cp_utf8 (if skip then parse_modified_utf8 bytes else []))))"

definition parse_cp_method_handle :: "bool \<Rightarrow> cp_info parser" where
  "parse_cp_method_handle skip =
     bind_m (reader_next_u8 ''method handle kind'') (\<lambda>handle_kind.
     bind_m (reader_next_u16 ''reference index'') (\<lambda>reference_index.
     bind_m (link_ptr skip (unat reference_index)
               (CP_KIND_FIELD_REF OR CP_KIND_METHOD_REF OR CP_KIND_INTERFACE_METHOD_REF)
               ''method handle reference'') (\<lambda>entry.
     return_m (Cp_method_handle handle_kind entry))))"

definition parse_cp_method_type :: "bool \<Rightarrow> cp_info parser" where
  "parse_cp_method_type skip =
     bind_m (reader_next_u16 ''descriptor index'') (\<lambda>desc_index.
     bind_m (link_str skip (unat desc_index) ''method type descriptor'') (\<lambda>descriptor.
     return_m (Cp_method_type descriptor None)))"

definition parse_cp_indy :: "bool \<Rightarrow> nat \<Rightarrow> cp_info parser" where
  "parse_cp_indy skip kind =
     bind_m (reader_next_u16 ''bootstrap method attr index'') (\<lambda>bootstrap_method_attr_index.
     bind_m (reader_next_u16 ''name and type index'') (\<lambda>name_and_type_index.
     bind_m (link_ptr skip (unat name_and_type_index) CP_KIND_NAME_AND_TYPE ''indy name and type'')
       (\<lambda>name_and_type.
     return_m (if kind = 17
               then Cp_dynamic_constant (Method_index bootstrap_method_attr_index) name_and_type
               else Cp_invoke_dynamic (Method_index bootstrap_method_attr_index) name_and_type None))))"

text \<open>The \<^verbatim>\<open>switch (kind)\<close> on the tag byte.\<close>

definition parse_cp_body :: "bool \<Rightarrow> nat \<Rightarrow> cp_info parser" where
  "parse_cp_body skip kind =
    (if kind = 19 \<or> kind = 20 \<or> kind = 7 then parse_cp_class skip kind
     else if kind = 9 \<or> kind = 10 \<or> kind = 11 then parse_cp_ref skip kind
     else if kind = 8 then parse_cp_string skip
     else if kind = 3 then bind_m (reader_next_s32 ''integer value'') (\<lambda>v. return_m (Cp_integer v))
     else if kind = 4 then bind_m (reader_next_u32 ''double value'') (\<lambda>v. return_m (Cp_float v))
     else if kind = 5 then bind_m (reader_next_s64 ''long value'') (\<lambda>v. return_m (Cp_long v))
     else if kind = 6 then bind_m (reader_next_u64 ''double value'') (\<lambda>v. return_m (Cp_double v))
     else if kind = 12 then parse_cp_name_and_type skip
     else if kind = 1 then parse_cp_utf8 skip
     else if kind = 15 then parse_cp_method_handle skip
     else if kind = 16 then parse_cp_method_type skip
     else if kind = 17 \<or> kind = 18 then parse_cp_indy skip kind
     else fail_m (Static_error ''Invalid constant pool entry kind''))"

definition parse_constant_pool_entry :: "bool \<Rightarrow> cp_info parser" where
  "parse_constant_pool_entry skip =
     bind_m (reader_next_u8 ''cp kind'') (\<lambda>kind. parse_cp_body skip (unat kind))"

section \<open>The pool\<close>

text \<open>\<^verbatim>\<open>init_constant_pool\<close>: the arena hands out zeroed memory for \<^verbatim>\<open>count + 1\<close> entries.\<close>

definition init_constant_pool :: "nat \<Rightarrow> cp_entry list" where
  "init_constant_pool count = replicate (count + 1) \<lparr>my_index = 0, info = Cp_invalid\<rparr>"

text \<open>One round of a pass at index \<open>i\<close>: \<^verbatim>\<open>*ent = new_entry\<close>, except that the LINK pass
  keeps the UTF-8 entries.\<close>

definition store_entry :: "bool \<Rightarrow> nat \<Rightarrow> cp_info \<Rightarrow> parse_state \<Rightarrow> parse_state" where
  "store_entry skip i e s =
     s\<lparr>cp := (cp s)[i := \<lparr>my_index = i,
         info = (if kind_of e \<noteq> CP_KIND_UTF8 \<or> skip then e else info (cp s ! i))\<rparr>]\<rparr>"

definition invalidate_entry :: "nat \<Rightarrow> parse_state \<Rightarrow> parse_state" where
  "invalidate_entry i s = s\<lparr>cp := (cp s)[i := (cp s ! i)\<lparr>info := Cp_invalid\<rparr>]\<rparr>"

definition is_wide_entry :: "cp_info \<Rightarrow> bool" where
  "is_wide_entry e \<longleftrightarrow> kind_of e = CP_KIND_LONG \<or> kind_of e = CP_KIND_DOUBLE"

text \<open>A pass over the pool; the recursion counts the slots that are left, so
  \<^verbatim>\<open>cp_i\<close> is \<open>count - k\<close>. A long or a double takes two slots.\<close>

fun cp_pass :: "bool \<Rightarrow> nat \<Rightarrow> nat \<Rightarrow> unit parser" where
  "cp_pass skip count 0 = return_m ()"
| "cp_pass skip count (Suc k) =
     bind_m (parse_constant_pool_entry skip) (\<lambda>e.
     bind_m (modify_m (store_entry skip (count - Suc k) e)) (\<lambda>_.
     bind_m (gets_m (\<lambda>s. is_wide_entry (info (cp s ! (count - Suc k))))) (\<lambda>wide.
     if wide then bind_m (modify_m (invalidate_entry (Suc (count - Suc k)))) (\<lambda>_. cp_pass skip count (k - 1))
     else cp_pass skip count k)))"

definition name_and_type_at :: "cp_entry list \<Rightarrow> nat option \<Rightarrow> (string \<times> string) option" where
  "name_and_type_at pool p =
     (case p of None \<Rightarrow> None
      | Some i \<Rightarrow> (if i < length pool then
          (case info (pool ! i) of Cp_name_and_type n d \<Rightarrow> Some (n, d) | _ \<Rightarrow> None) else None))"

fun finish_constant_pool_entry :: "cp_entry list \<Rightarrow> cp_info \<Rightarrow> format_error + cp_info" where
  "finish_constant_pool_entry pool (Cp_field_ref c n _) =
     (case name_and_type_at pool n of
        None \<Rightarrow> Inl Invalid_access
      | Some (_, desc) \<Rightarrow>
          (case parse_complete_field_descriptor desc of
             Inl e \<Rightarrow> Inl (Descriptor_error e)
           | Inr d \<Rightarrow> Inr (Cp_field_ref c n (Some d))))"
| "finish_constant_pool_entry pool (Cp_invoke_dynamic m n _) =
     (case name_and_type_at pool n of
        None \<Rightarrow> Inl Invalid_access
      | Some (_, desc) \<Rightarrow>
          (case parse_method_descriptor desc of
             Inl e \<Rightarrow> Inl (Descriptor_error e)
           | Inr d \<Rightarrow> Inr (Cp_invoke_dynamic m n (Some d))))"
| "finish_constant_pool_entry pool (Cp_method_ref c n _) =
     (case name_and_type_at pool n of
        None \<Rightarrow> Inl Invalid_access
      | Some (name, desc) \<Rightarrow>
          (case parse_method_descriptor desc of
             Inl e \<Rightarrow> Inl (Invalid_method_descriptor name desc e)
           | Inr d \<Rightarrow> Inr (Cp_method_ref c n (Some d))))"
| "finish_constant_pool_entry pool (Cp_interface_method_ref c n _) =
     (case name_and_type_at pool n of
        None \<Rightarrow> Inl Invalid_access
      | Some (name, desc) \<Rightarrow>
          (case parse_method_descriptor desc of
             Inl e \<Rightarrow> Inl (Invalid_method_descriptor name desc e)
           | Inr d \<Rightarrow> Inr (Cp_interface_method_ref c n (Some d))))"
| "finish_constant_pool_entry pool (Cp_method_type t _) =
     (case parse_method_descriptor t of
        Inl e \<Rightarrow> Inl (Descriptor_error e)
      | Inr d \<Rightarrow> Inr (Cp_method_type t (Some d)))"
| "finish_constant_pool_entry pool e = Inr e"

definition finish_at :: "nat \<Rightarrow> unit parser" where
  "finish_at i =
     (\<lambda>s. case finish_constant_pool_entry (cp s) (info (cp s ! i)) of
            Inl e \<Rightarrow> Inl e
          | Inr e \<Rightarrow> Inr ((), s\<lparr>cp := (cp s)[i := (cp s ! i)\<lparr>info := e\<rparr>]\<rparr>))"

definition parse_constant_pool :: "unit parser" where
  "parse_constant_pool =
     bind_m (reader_next_u16 ''constant pool count'') (\<lambda>c.
     let count = unat c in
     bind_m (modify_m (\<lambda>s. s\<lparr>cp := init_constant_pool count\<rparr>)) (\<lambda>_.
     bind_m (gets_m rd) (\<lambda>initial_reader_state.
     bind_m (cp_pass True count (count - 1)) (\<lambda>_.
     bind_m (modify_m (\<lambda>s. s\<lparr>rd := initial_reader_state\<rparr>)) (\<lambda>_.
     bind_m (cp_pass False count (count - 1)) (\<lambda>_.
     bind_m (map_m finish_at [1..<count]) (\<lambda>_.
     return_m ())))))))"

section \<open>Checked access\<close>

lemma checked_cp_entry_Inr_iff:
  "checked_cp_entry i k r s = Inr (p, t) \<longleftrightarrow>
     p = i \<and> t = s \<and> i < length (cp s) \<and> (entry_kind (cp s ! i) AND k \<noteq> 0 \<or> k = 0)"
  by (auto simp: checked_cp_entry_def check_cp_entry_def bind_m_Inr_iff)

lemma checked_get_utf8_Inr_iff:
  "checked_get_utf8 i r s = Inr (x, t) \<longleftrightarrow>
     x = utf8_of (info (cp s ! i)) \<and> t = s \<and> i < length (cp s) \<and>
     entry_kind (cp s ! i) AND CP_KIND_UTF8 \<noteq> 0"
  by (auto simp: checked_get_utf8_def bind_m_Inr_iff checked_cp_entry_Inr_iff)

lemma consumes_checked [consumes_rules]:
  "consumes rd 0 (checked_cp_entry i k r)" "consumes rd 0 (checked_get_utf8 i r)"
  by (simp_all add: consumes_def checked_cp_entry_Inr_iff checked_get_utf8_Inr_iff)

lemma checked_cp_entry_Inl_iff:
  "checked_cp_entry i k r s = Inl e \<longleftrightarrow>
     length (cp s) \<le> i \<and> e = Invalid_cp_index (int i) (length (cp s)) r \<or>
     i < length (cp s) \<and> entry_kind (cp s ! i) AND k = 0 \<and> k \<noteq> 0 \<and>
       e = Unexpected_cp_kind (entry_kind (cp s ! i)) (int (my_index (cp s ! i))) k r"
  by (auto simp: checked_cp_entry_def check_cp_entry_def bind_m_Inl_iff)

text \<open>A pointer field of a linked entry: it is set, in range, and of an allowed kind.\<close>

definition ptr_ok :: "u32 list \<Rightarrow> u32 \<Rightarrow> nat option \<Rightarrow> bool" where
  "ptr_ok ks k p = (case p of None \<Rightarrow> False | Some i \<Rightarrow> i < length ks \<and> ks ! i AND k \<noteq> 0)"

fun linked :: "u32 list \<Rightarrow> cp_info \<Rightarrow> bool" where
  "linked ks (Cp_field_ref c n _) \<longleftrightarrow> ptr_ok ks CP_KIND_CLASS c \<and> ptr_ok ks CP_KIND_NAME_AND_TYPE n"
| "linked ks (Cp_method_ref c n _) \<longleftrightarrow> ptr_ok ks CP_KIND_CLASS c \<and> ptr_ok ks CP_KIND_NAME_AND_TYPE n"
| "linked ks (Cp_interface_method_ref c n _) \<longleftrightarrow>
     ptr_ok ks CP_KIND_CLASS c \<and> ptr_ok ks CP_KIND_NAME_AND_TYPE n"
| "linked ks (Cp_method_handle _ r) \<longleftrightarrow>
     ptr_ok ks (CP_KIND_FIELD_REF OR CP_KIND_METHOD_REF OR CP_KIND_INTERFACE_METHOD_REF) r"
| "linked ks (Cp_invoke_dynamic m n _) \<longleftrightarrow> is_Method_index m \<and> ptr_ok ks CP_KIND_NAME_AND_TYPE n"
| "linked ks (Cp_dynamic_constant _ n) \<longleftrightarrow> ptr_ok ks CP_KIND_NAME_AND_TYPE n"
| "linked ks _ \<longleftrightarrow> True"

lemma link_ptr_Inr:
  assumes "link_ptr skip i k r s = Inr (p, t)" "k \<noteq> 0"
  shows "t = s" "\<not> skip \<Longrightarrow> ptr_ok (map entry_kind (cp s)) k p"
  using assms by (auto simp: link_ptr_def bind_m_Inr_iff checked_cp_entry_Inr_iff ptr_ok_def split: if_splits)

lemma link_str_Inr: "link_str skip i r s = Inr (x, t) \<Longrightarrow> t = s"
  by (auto simp: link_str_def checked_get_utf8_Inr_iff split: if_splits)

section \<open>What one entry takes from the input\<close>

text \<open>The kind and the size of an entry are determined by the bytes alone, so both passes
  see the same layout.\<close>

definition tag_kind :: "nat \<Rightarrow> u32" where
  "tag_kind k =
     (if k = 1 then CP_KIND_UTF8 else if k = 3 then CP_KIND_INTEGER else if k = 4 then CP_KIND_FLOAT
      else if k = 5 then CP_KIND_LONG else if k = 6 then CP_KIND_DOUBLE else if k = 7 then CP_KIND_CLASS
      else if k = 8 then CP_KIND_STRING else if k = 9 then CP_KIND_FIELD_REF
      else if k = 10 then CP_KIND_METHOD_REF else if k = 11 then CP_KIND_INTERFACE_METHOD_REF
      else if k = 12 then CP_KIND_NAME_AND_TYPE else if k = 15 then CP_KIND_METHOD_HANDLE
      else if k = 16 then CP_KIND_METHOD_TYPE else if k = 17 then CP_KIND_DYNAMIC_CONSTANT
      else if k = 18 then CP_KIND_INVOKE_DYNAMIC else if k = 19 then CP_KIND_MODULE
      else if k = 20 then CP_KIND_PACKAGE else CP_KIND_INVALID)"

definition payload_size :: "nat \<Rightarrow> u8 list \<Rightarrow> nat" where
  "payload_size k bs =
     (if k = 1 then 2 + unat (read_be (take 2 bs) :: u16)
      else if k = 5 \<or> k = 6 then 8
      else if k = 7 \<or> k = 8 \<or> k = 16 \<or> k = 19 \<or> k = 20 then 2
      else if k = 15 then 3 else 4)"

definition takes :: "nat \<Rightarrow> parse_state \<Rightarrow> parse_state \<Rightarrow> bool" where
  "takes n s t \<longleftrightarrow> n \<le> length (rd s) \<and> t = s\<lparr>rd := drop n (rd s)\<rparr>"

lemma parse_cp_class_Inr:
  assumes "parse_cp_class skip k s = Inr (e, t)" "k = 19 \<or> k = 20 \<or> k = 7"
  shows "takes 2 s t \<and> kind_of e = tag_kind k \<and> linked ks e"
  using assms by (auto simp: parse_cp_class_def reader_iffs takes_def tag_kind_def dest!: link_str_Inr)

lemma parse_cp_ref_Inr:
  assumes "parse_cp_ref skip k s = Inr (e, t)" "k = 9 \<or> k = 10 \<or> k = 11"
  shows "takes 4 s t \<and> kind_of e = tag_kind k \<and> (skip \<or> linked (map entry_kind (cp s)) e)"
proof -
  from assms(1) obtain a u b v c w n where
    r: "reader_next_u16 ''class index'' s = Inr (a, u)"
      "reader_next_u16 ''name and type index'' u = Inr (b, v)"
      "link_ptr skip (unat a) CP_KIND_CLASS ''fieldref/methodref/interfacemethodref class info'' v = Inr (c, w)"
      "link_ptr skip (unat b) CP_KIND_NAME_AND_TYPE
         ''fieldref/methodref/interfacemethodref name and type'' w = Inr (n, t)"
      "e = (if k = 9 then Cp_field_ref c n None else if k = 10 then Cp_method_ref c n None
            else Cp_interface_method_ref c n None)"
    by (auto simp: parse_cp_ref_def bind_m_Inr_iff)
  have "w = v" "t = w" using link_ptr_Inr(1) [OF r(3)] link_ptr_Inr(1) [OF r(4)] by simp_all
  moreover have "takes 4 s v" using r(1,2) by (auto simp: reader_iffs takes_def)
  ultimately show ?thesis
    using assms(2) r(5) link_ptr_Inr(2) [OF r(3)] link_ptr_Inr(2) [OF r(4)]
    by (auto simp: tag_kind_def takes_def)
qed

lemma parse_cp_simple_Inr:
  "parse_cp_string skip s = Inr (e, t) \<Longrightarrow> takes 2 s t \<and> kind_of e = tag_kind 8 \<and> linked ks e"
  "parse_cp_name_and_type skip s = Inr (e, t) \<Longrightarrow> takes 4 s t \<and> kind_of e = tag_kind 12 \<and> linked ks e"
  "parse_cp_method_type skip s = Inr (e, t) \<Longrightarrow> takes 2 s t \<and> kind_of e = tag_kind 16 \<and> linked ks e"
  "parse_cp_utf8 skip s = Inr (e, t) \<Longrightarrow>
     takes (payload_size 1 (rd s)) s t \<and> kind_of e = tag_kind 1 \<and> linked ks e"
  by (auto simp: parse_cp_string_def parse_cp_name_and_type_def parse_cp_method_type_def parse_cp_utf8_def
      reader_iffs takes_def tag_kind_def payload_size_def dest!: link_str_Inr)

lemma parse_cp_method_handle_Inr:
  assumes "parse_cp_method_handle skip s = Inr (e, t)"
  shows "takes 3 s t \<and> kind_of e = tag_kind 15 \<and> (skip \<or> linked (map entry_kind (cp s)) e)"
proof -
  from assms obtain a u b v c where
    r: "reader_next_u8 ''method handle kind'' s = Inr (a, u)"
      "reader_next_u16 ''reference index'' u = Inr (b, v)"
      "link_ptr skip (unat b) (CP_KIND_FIELD_REF OR CP_KIND_METHOD_REF OR CP_KIND_INTERFACE_METHOD_REF)
         ''method handle reference'' v = Inr (c, t)"
      "e = Cp_method_handle a c"
    by (auto simp: parse_cp_method_handle_def bind_m_Inr_iff simp del: or_numerals)
  have "t = v" using link_ptr_Inr(1) [OF r(3)] by simp
  moreover have "takes 3 s v" using r(1,2) by (auto simp: reader_iffs takes_def)
  ultimately show ?thesis
    using r(4) link_ptr_Inr(2) [OF r(3)] by (auto simp: tag_kind_def takes_def)
qed

lemma parse_cp_indy_Inr:
  assumes "parse_cp_indy skip k s = Inr (e, t)" "k = 17 \<or> k = 18"
  shows "takes 4 s t \<and> kind_of e = tag_kind k \<and> (skip \<or> linked (map entry_kind (cp s)) e)"
proof -
  from assms(1) obtain a u b v c where
    r: "reader_next_u16 ''bootstrap method attr index'' s = Inr (a, u)"
      "reader_next_u16 ''name and type index'' u = Inr (b, v)"
      "link_ptr skip (unat b) CP_KIND_NAME_AND_TYPE ''indy name and type'' v = Inr (c, t)"
      "e = (if k = 17 then Cp_dynamic_constant (Method_index a) c else Cp_invoke_dynamic (Method_index a) c None)"
    by (auto simp: parse_cp_indy_def bind_m_Inr_iff)
  have "t = v" using link_ptr_Inr(1) [OF r(3)] by simp
  moreover have "takes 4 s v" using r(1,2) by (auto simp: reader_iffs takes_def)
  ultimately show ?thesis
    using assms(2) r(4) link_ptr_Inr(2) [OF r(3)] by (auto simp: tag_kind_def takes_def)
qed

lemma parse_cp_number_Inr:
  "bind_m (reader_next_s32 r) (\<lambda>v. return_m (Cp_integer v)) s = Inr (e, t) \<Longrightarrow>
     takes 4 s t \<and> kind_of e = tag_kind 3 \<and> linked ks e"
  "bind_m (reader_next_u32 r) (\<lambda>v. return_m (Cp_float v)) s = Inr (e, t) \<Longrightarrow>
     takes 4 s t \<and> kind_of e = tag_kind 4 \<and> linked ks e"
  "bind_m (reader_next_s64 r) (\<lambda>v. return_m (Cp_long v)) s = Inr (e, t) \<Longrightarrow>
     takes 8 s t \<and> kind_of e = tag_kind 5 \<and> linked ks e"
  "bind_m (reader_next_u64 r) (\<lambda>v. return_m (Cp_double v)) s = Inr (e, t) \<Longrightarrow>
     takes 8 s t \<and> kind_of e = tag_kind 6 \<and> linked ks e"
  by (auto simp: reader_iffs takes_def tag_kind_def)

lemma takes_trans: "takes m s u \<Longrightarrow> takes n u t \<Longrightarrow> takes (m + n) s t"
  by (auto simp: takes_def add.commute)

lemma takes_simps:
  assumes "takes n s t"
  shows "cp t = cp s" "rd t = drop n (rd s)" "indy_insns_count t = indy_insns_count s"
    "current_code_max_pc t = current_code_max_pc s"
  using assms by (auto simp: takes_def)

lemma parse_cp_body_Inr:
  assumes "parse_cp_body skip k s = Inr (e, t)"
  shows "takes (payload_size k (rd s)) s t \<and> kind_of e = tag_kind k \<and> tag_kind k \<noteq> 0 \<and>
    (skip \<or> linked (map entry_kind (cp s)) e)"
proof -
  let ?ks = "map entry_kind (cp s)"
  consider "k = 19 \<or> k = 20 \<or> k = 7" | "k = 9 \<or> k = 10 \<or> k = 11" | "k = 8" | "k = 3" | "k = 4" | "k = 5"
    | "k = 6" | "k = 12" | "k = 1" | "k = 15" | "k = 16" | "k = 17 \<or> k = 18"
    | (none) "k \<notin> {19, 20, 7, 9, 10, 11, 8, 3, 4, 5, 6, 12, 1, 15, 16, 17, 18}"
    by auto
  then show ?thesis
  proof cases
    case 1
    with assms have "parse_cp_class skip k s = Inr (e, t)" by (simp add: parse_cp_body_def)
    from parse_cp_class_Inr [OF this 1] 1 show ?thesis by (auto simp: payload_size_def tag_kind_def)
  next
    case 2
    with assms have "parse_cp_ref skip k s = Inr (e, t)" by (auto simp: parse_cp_body_def)
    from parse_cp_ref_Inr [OF this 2] 2 show ?thesis by (auto simp: payload_size_def tag_kind_def)
  next
    case 3
    with assms parse_cp_simple_Inr(1) [of skip s e t ?ks] show ?thesis
      by (simp add: parse_cp_body_def payload_size_def tag_kind_def)
  next
    case 4
    with assms parse_cp_number_Inr(1) [of _ s e t ?ks] show ?thesis
      by (simp add: parse_cp_body_def payload_size_def tag_kind_def)
  next
    case 5
    with assms parse_cp_number_Inr(2) [of _ s e t ?ks] show ?thesis
      by (simp add: parse_cp_body_def payload_size_def tag_kind_def)
  next
    case 6
    with assms parse_cp_number_Inr(3) [of _ s e t ?ks] show ?thesis
      by (simp add: parse_cp_body_def payload_size_def tag_kind_def)
  next
    case 7
    with assms parse_cp_number_Inr(4) [of _ s e t ?ks] show ?thesis
      by (simp add: parse_cp_body_def payload_size_def tag_kind_def)
  next
    case 8
    with assms parse_cp_simple_Inr(2) [of skip s e t ?ks] show ?thesis
      by (simp add: parse_cp_body_def payload_size_def tag_kind_def)
  next
    case 9
    with assms parse_cp_simple_Inr(4) [of skip s e t ?ks] show ?thesis
      by (simp add: parse_cp_body_def tag_kind_def)
  next
    case 10
    with assms parse_cp_method_handle_Inr [of skip s e t] show ?thesis
      by (simp add: parse_cp_body_def payload_size_def tag_kind_def)
  next
    case 11
    with assms parse_cp_simple_Inr(3) [of skip s e t ?ks] show ?thesis
      by (simp add: parse_cp_body_def payload_size_def tag_kind_def)
  next
    case 12
    with assms have "parse_cp_indy skip k s = Inr (e, t)" by (auto simp: parse_cp_body_def)
    from parse_cp_indy_Inr [OF this 12] 12 show ?thesis by (auto simp: payload_size_def tag_kind_def)
  next
    case none
    with assms show ?thesis by (simp add: parse_cp_body_def)
  qed
qed

lemma parse_constant_pool_entry_Inr:
  assumes "parse_constant_pool_entry skip s = Inr (e, t)"
  shows "\<exists>b bs. rd s = b # bs \<and> takes (1 + payload_size (unat b) bs) s t \<and> kind_of e = tag_kind (unat b) \<and>
    kind_of e \<noteq> 0 \<and> (skip \<or> linked (map entry_kind (cp s)) e)"
proof -
  from assms obtain b u where u: "reader_next_u8 ''cp kind'' s = Inr (b, u)"
      and body: "parse_cp_body skip (unat b) u = Inr (e, t)"
    by (auto simp: parse_constant_pool_entry_def bind_m_Inr_iff)
  from u have u': "takes 1 s u" by (simp add: reader_iffs takes_def)
  from parse_cp_body_Inr [OF body] have b: "takes (payload_size (unat b) (rd u)) u t"
      "kind_of e = tag_kind (unat b)" "tag_kind (unat b) \<noteq> 0"
      "skip \<or> linked (map entry_kind (cp u)) e"
    by auto
  from cf.next_u8_Inr [OF u] takes_trans [OF u' b(1)] b(2-4) takes_simps(1) [OF u'] show ?thesis
    by auto
qed

section \<open>The two passes agree\<close>

abbreviation kinds :: "parse_state \<Rightarrow> u32 list" where
  "kinds s \<equiv> map entry_kind (cp s)"

lemma linked_by_kind:
  "kind_of e = CP_KIND_UTF8 \<Longrightarrow> linked ks e" "linked ks Cp_invalid"
  by (cases e; simp)+

lemma store_entry_simps [simp]:
  "length (cp (store_entry skip i e s)) = length (cp s)" "rd (store_entry skip i e s) = rd s"
  "j \<noteq> i \<Longrightarrow> cp (store_entry skip i e s) ! j = cp s ! j"
  by (simp_all add: store_entry_def)

lemma invalidate_entry_simps [simp]:
  "length (cp (invalidate_entry i s)) = length (cp s)" "rd (invalidate_entry i s) = rd s"
  "j \<noteq> i \<Longrightarrow> cp (invalidate_entry i s) ! j = cp s ! j"
  "i < length (cp s) \<Longrightarrow> info (cp (invalidate_entry i s) ! i) = Cp_invalid"
  by (simp_all add: invalidate_entry_def)

text \<open>The state after one round at index \<open>i\<close>.\<close>

definition cp_round :: "bool \<Rightarrow> nat \<Rightarrow> cp_info \<Rightarrow> parse_state \<Rightarrow> parse_state" where
  "cp_round skip i e s =
     (let s' = store_entry skip i e s
      in if is_wide_entry (info (cp s' ! i)) then invalidate_entry (Suc i) s' else s')"

definition left_after :: "parse_state \<Rightarrow> nat \<Rightarrow> nat \<Rightarrow> nat" where
  "left_after s i k = (if is_wide_entry (info (cp s ! i)) then k - 1 else k)"

lemma cp_pass_Suc_Inr_iff:
  "cp_pass skip count (Suc k) s = Inr ((), t) \<longleftrightarrow>
     (\<exists>e u. parse_constant_pool_entry skip s = Inr (e, u) \<and>
        cp_pass skip count (left_after (store_entry skip (count - Suc k) e u) (count - Suc k) k)
          (cp_round skip (count - Suc k) e u) = Inr ((), t))"
  by (auto simp: bind_m_Inr_iff cp_round_def left_after_def Let_def)

lemma cp_round_simps [simp]:
  "length (cp (cp_round skip i e s)) = length (cp s)" "rd (cp_round skip i e s) = rd s"
  "j < i \<Longrightarrow> cp (cp_round skip i e s) ! j = cp s ! j"
  by (simp_all add: cp_round_def Let_def)

lemma cp_round_at:
  assumes "i < length (cp s)"
  shows "info (cp (cp_round skip i e s) ! i) =
    (if kind_of e \<noteq> CP_KIND_UTF8 \<or> skip then e else info (cp s ! i))"
  using assms by (simp add: cp_round_def Let_def) (simp add: store_entry_def)

lemma parse_constant_pool_entry_cp:
  "parse_constant_pool_entry skip s = Inr (e, t) \<Longrightarrow> cp t = cp s"
  using parse_constant_pool_entry_Inr takes_simps(1) by blast

lemma left_after_le: "left_after s i k \<le> k"
  by (simp add: left_after_def)

text \<open>A pass that has \<open>k\<close> slots left writes only from slot \<open>count - k\<close> on, and leaves the
  spare slot behind the last one invalid.\<close>

lemma cp_pass_frame:
  "cp_pass skip count k s = Inr ((), t) \<Longrightarrow> k < count \<Longrightarrow> length (cp s) = Suc count \<Longrightarrow>
   length (cp t) = length (cp s) \<and> (\<forall>j < count - k. cp t ! j = cp s ! j) \<and>
   (info (cp s ! count) = Cp_invalid \<longrightarrow> info (cp t ! count) = Cp_invalid)"
proof (induction k arbitrary: s rule: less_induct)
  case (less k)
  show ?case
  proof (cases k)
    case 0
    with less.prems show ?thesis by simp
  next
    case (Suc m)
    define i where "i = count - Suc m"
    from less.prems(1) obtain e u where
      e: "parse_constant_pool_entry skip s = Inr (e, u)"
      and rest: "cp_pass skip count (left_after (store_entry skip i e u) i m) (cp_round skip i e u) = Inr ((), t)"
      unfolding Suc cp_pass_Suc_Inr_iff i_def by blast
    from e have cpu: "cp u = cp s" by (rule parse_constant_pool_entry_cp)
    have i: "i < count" "i = count - k" using less.prems Suc by (auto simp: i_def)
    have "length (cp t) = length (cp (cp_round skip i e u)) \<and>
        (\<forall>j < count - left_after (store_entry skip i e u) i m. cp t ! j = cp (cp_round skip i e u) ! j) \<and>
        (info (cp (cp_round skip i e u) ! count) = Cp_invalid \<longrightarrow> info (cp t ! count) = Cp_invalid)"
      using rest less.prems Suc left_after_le [of "store_entry skip i e u" i m]
      by (intro less.IH) (auto simp: cpu)
    moreover have "count - k < count - left_after (store_entry skip i e u) i m"
      using left_after_le [of "store_entry skip i e u" i m] Suc less.prems by simp
    moreover have "info (cp s ! count) = Cp_invalid \<longrightarrow> info (cp (cp_round skip i e u) ! count) = Cp_invalid"
      using i less.prems cpu
      by (cases "Suc i = count") (auto simp: cp_round_def Let_def)
    ultimately show ?thesis using i cpu by (auto simp: less.prems)
  qed
qed

text \<open>The LINK pass meets the kinds that the READ pass entered, so it keeps all kinds, ends
  at the same input position and leaves every entry it visits linked.\<close>

lemma cp_pass_link:
  assumes "cp_pass True count k s = Inr ((), t)" "cp_pass False count k s' = Inr ((), t')"
    and "k < count" "length (cp s) = Suc count" "rd s' = rd s" "kinds s' = kinds t"
  shows "kinds t' = kinds t \<and> rd t' = rd t \<and>
    (\<forall>j. count - k \<le> j \<longrightarrow> j < count \<longrightarrow> linked (kinds t) (info (cp t' ! j)))"
  using assms
proof (induction k arbitrary: s s' rule: less_induct)
  case (less k)
  show ?case
  proof (cases k)
    case 0
    with less.prems show ?thesis by auto
  next
    case (Suc m)
    define i where "i = count - Suc m"
    from less.prems(1) obtain e u where
      e: "parse_constant_pool_entry True s = Inr (e, u)"
      and rest: "cp_pass True count (left_after (store_entry True i e u) i m) (cp_round True i e u) = Inr ((), t)"
      unfolding Suc cp_pass_Suc_Inr_iff i_def by blast
    from less.prems(2) obtain e' u' where
      e': "parse_constant_pool_entry False s' = Inr (e', u')"
      and rest': "cp_pass False count (left_after (store_entry False i e' u') i m) (cp_round False i e' u') = Inr ((), t')"
      unfolding Suc cp_pass_Suc_Inr_iff i_def by blast
    from e e' have cpu: "cp u = cp s" "cp u' = cp s'"
      by (blast intro: parse_constant_pool_entry_cp)+
    have i: "i < count" "i = count - k" using less.prems Suc by (auto simp: i_def)
    have len: "length (cp t) = Suc count" "length (cp s') = Suc count"
      using cp_pass_frame [OF less.prems(1,3,4)] less.prems(4) arg_cong [OF less.prems(6), of length] by auto
    obtain b bs where rd: "rd s = b # bs" "takes (1 + payload_size (unat b) bs) s u" "kind_of e = tag_kind (unat b)"
      using parse_constant_pool_entry_Inr [OF e] by auto
    have rd': "takes (1 + payload_size (unat b) bs) s' u'" "kind_of e' = tag_kind (unat b)"
        "linked (kinds s') e'"
      using parse_constant_pool_entry_Inr [OF e'] rd(1) less.prems(5) by auto
    let ?l = "left_after (store_entry True i e u) i m"
    have at: "info (cp (cp_round True i e u) ! i) = e"
      using i less.prems cpu by (simp add: cp_round_at)
    have lm: "?l \<le> m" by (rule left_after_le)
    then have l: "i < count - ?l" "?l \<le> m" using i(2) Suc less.prems(3) by linarith+
    have fr: "length (cp t) = Suc count" "\<forall>j < count - ?l. cp t ! j = cp (cp_round True i e u) ! j"
      using cp_pass_frame [OF rest] l Suc less.prems cpu by auto
    then have kt: "kinds t ! i = kind_of e" using l at i by simp
    have ks': "kinds s' ! i = kind_of e'" using kt less.prems(6) rd rd' by simp
    have wide_eq: "is_wide_entry (info (cp (store_entry False i e' u') ! i)) =
        is_wide_entry (info (cp (store_entry True i e u) ! i))"
      using i less.prems(4) len cpu rd(3) rd'(2) ks'
      by (auto simp: is_wide_entry_def store_entry_def)
    then have l_eq: "left_after (store_entry False i e' u') i m = ?l"
      by (simp add: left_after_def)
    have k': "kinds (cp_round False i e' u') = kinds t"
    proof (rule nth_equalityI)
      show "length (kinds (cp_round False i e' u')) = length (kinds t)" using len cpu by simp
    next
      fix j assume j: "j < length (kinds (cp_round False i e' u'))"
      then have j': "j < Suc count" using len cpu by simp
      have s'j: "kind_of (info (cp s' ! j)) = kind_of (info (cp t ! j))"
        using arg_cong [OF less.prems(6), of "\<lambda>xs. xs ! j"] j' len by simp
      show "kinds (cp_round False i e' u') ! j = kinds t ! j"
      proof (cases "j = i")
        case True
        then show ?thesis
          using cp_round_at [of i u' False e'] len cpu i kt ks' rd rd' j by auto
      next
        case False
        show ?thesis
        proof (cases "j = Suc i \<and> is_wide_entry (info (cp (store_entry False i e' u') ! i))")
          case True
          then have "?l = m - 1" "is_wide_entry (info (cp (store_entry True i e u) ! i))"
            using wide_eq by (auto simp: left_after_def)
          moreover have "j < count - ?l \<or> m = 0"
            using True \<open>?l = m - 1\<close> i Suc less.prems(3) by (auto simp: i_def)
          moreover have "info (cp (cp_round True i e u) ! j) = Cp_invalid"
            using True calculation(2) len less.prems(4) cpu j' by (auto simp: cp_round_def Let_def)
          moreover have "m = 0 \<Longrightarrow> j = count" using True i_def less.prems(3) Suc by auto
          ultimately have "info (cp t ! j) = Cp_invalid"
            using fr cp_pass_frame [OF rest] l Suc less.prems(3,4) cpu by auto
          moreover have "info (cp (cp_round False i e' u') ! j) = Cp_invalid"
            using True len cpu j' by (auto simp: cp_round_def Let_def)
          ultimately show ?thesis using j j' len by simp
        next
          case nw: False
          with False have "cp (cp_round False i e' u') ! j = cp s' ! j"
            using cpu by (auto simp: cp_round_def Let_def)
          with s'j show ?thesis using j j' len by simp
        qed
      qed
    qed
    have IH: "kinds t' = kinds t \<and> rd t' = rd t \<and>
        (\<forall>j. count - ?l \<le> j \<longrightarrow> j < count \<longrightarrow> linked (kinds t) (info (cp t' ! j)))"
    proof (rule less.IH [OF _ rest])
      show "cp_pass False count ?l (cp_round False i e' u') = Inr ((), t')" using rest' l_eq by simp
      show "rd (cp_round False i e' u') = rd (cp_round True i e u)"
        using takes_simps(2) [OF rd(2)] takes_simps(2) [OF rd'(1)] less.prems(5) by simp
    qed (use l Suc less.prems cpu k' in auto)
    have fr': "\<forall>j < count - ?l. cp t' ! j = cp (cp_round False i e' u') ! j"
      using cp_pass_frame [OF rest'] l_eq l Suc less.prems(3) len cpu by auto
    have "kind_of (info (cp s' ! i)) = kind_of e'" using ks' len i(1) by simp
    then have "linked (kinds t) (if kind_of e' \<noteq> CP_KIND_UTF8 then e' else info (cp s' ! i))"
      using rd'(3) less.prems(6) linked_by_kind(1) by simp
    then have "linked (kinds t) (info (cp t' ! i))"
      using fr' l(1) cp_round_at [of i u' False e'] len cpu i(1) by (simp split: if_split_asm)
    moreover have "linked (kinds t) (info (cp t' ! Suc i))" if w: "Suc i < count - ?l"
    proof -
      have "is_wide_entry (info (cp (store_entry False i e' u') ! i))"
        using w l_eq i Suc by (auto simp: left_after_def i_def split: if_splits)
      then have "info (cp (cp_round False i e' u') ! Suc i) = Cp_invalid"
        using w len cpu by (auto simp: cp_round_def Let_def)
      then show ?thesis using fr' w by (simp add: linked_by_kind)
    qed
    moreover have "j = i \<or> j = Suc i \<and> Suc i < count - ?l \<or> count - ?l \<le> j" if "i \<le> j" for j
    proof -
      have "count - ?l \<le> Suc (Suc i)" using Suc less.prems(3) by (auto simp: left_after_def i_def)
      with that show ?thesis by auto
    qed
    ultimately show ?thesis using IH i by blast
  qed
qed

section \<open>Finishing the entries\<close>

lemma finish_kind: "finish_constant_pool_entry pool e = Inr e' \<Longrightarrow> kind_of e' = kind_of e"
  by (cases e) (auto split: option.splits sum.splits)

lemma finish_linked: "finish_constant_pool_entry pool e = Inr e' \<Longrightarrow> linked ks e' = linked ks e"
  by (cases e) (auto split: option.splits sum.splits)

lemma finish_idem:
  "finish_constant_pool_entry pool e = Inr e' \<Longrightarrow> finish_constant_pool_entry pool e' = Inr e'"
  by (cases e) (auto split: option.splits sum.splits)

lemma finish_name_and_type:
  assumes "finish_constant_pool_entry pool (info (pool ! i)) = Inr e"
  shows "name_and_type_at (pool[i := (pool ! i)\<lparr>info := e\<rparr>]) p = name_and_type_at pool p"
proof (cases p)
  case (Some j)
  have "(case e of Cp_name_and_type n d \<Rightarrow> Some (n, d) | _ \<Rightarrow> None) =
      (case info (pool ! i) of Cp_name_and_type n d \<Rightarrow> Some (n, d) | _ \<Rightarrow> None)"
    using assms by (cases "info (pool ! i)") (auto split: option.splits sum.splits)
  then show ?thesis using Some by (cases "j = i") (simp_all add: name_and_type_at_def)
qed (simp add: name_and_type_at_def)

text \<open>Finishing looks at the pool only through its name-and-type entries.\<close>

lemma finish_cong:
  assumes "\<And>p. name_and_type_at pool' p = name_and_type_at pool p"
  shows "finish_constant_pool_entry pool' e = finish_constant_pool_entry pool e"
  by (cases e) (simp_all add: assms)

definition finished :: "cp_entry list \<Rightarrow> cp_info \<Rightarrow> bool" where
  "finished pool e \<longleftrightarrow> finish_constant_pool_entry pool e = Inr e"

lemma finish_at_Inr:
  assumes "finish_at i s = Inr (x, t)" "i < length (cp s)"
  shows "rd t = rd s" "kinds t = kinds s" "info (cp t ! 0) = Cp_invalid \<longleftrightarrow> info (cp s ! 0) = Cp_invalid"
    "finished (cp t) (info (cp t ! i))" "\<And>e. finished (cp t) e = finished (cp s) e"
    "\<And>j. j \<noteq> i \<Longrightarrow> cp t ! j = cp s ! j" "\<And>ks j. linked ks (info (cp t ! j)) = linked ks (info (cp s ! j))"
proof -
  from assms obtain e where e: "finish_constant_pool_entry (cp s) (info (cp s ! i)) = Inr e"
      and t: "t = s\<lparr>cp := (cp s)[i := (cp s ! i)\<lparr>info := e\<rparr>]\<rparr>"
    by (auto simp: finish_at_def split: sum.splits)
  show "rd t = rd s" by (simp add: t)
  show "kinds t = kinds s"
    using assms(2) finish_kind [OF e] by (simp add: t map_update) (metis list_update_id map_update)
  show "info (cp t ! 0) = Cp_invalid \<longleftrightarrow> info (cp s ! 0) = Cp_invalid"
    using e assms(2) by (cases "info (cp s ! i)"; cases "i = 0") (auto simp: t split: option.splits sum.splits)
  have nat: "\<And>p. name_and_type_at (cp t) p = name_and_type_at (cp s) p"
    using finish_name_and_type [OF e] by (simp add: t)
  show fin: "\<And>e. finished (cp t) e = finished (cp s) e"
    unfolding finished_def by (simp add: finish_cong [OF nat])
  show "finished (cp t) (info (cp t ! i))"
    using finish_idem [OF e] assms(2) unfolding fin by (simp add: finished_def t)
  show "\<And>j. j \<noteq> i \<Longrightarrow> cp t ! j = cp s ! j" by (simp add: t)
  show "\<And>ks j. linked ks (info (cp t ! j)) = linked ks (info (cp s ! j))"
    using finish_linked [OF e] assms(2) by (case_tac "j = i") (simp_all add: t)
qed

lemma finish_loop:
  assumes "map_m finish_at is s = Inr (x, t)" "\<forall>i\<in>set is. i < length (cp s)"
  shows "rd t = rd s \<and> kinds t = kinds s \<and> (\<forall>j. finished (cp s) (info (cp s ! j)) \<or> j \<in> set is \<longrightarrow>
      finished (cp t) (info (cp t ! j))) \<and>
    (info (cp t ! 0) = Cp_invalid \<longleftrightarrow> info (cp s ! 0) = Cp_invalid) \<and>
    (\<forall>ks j. linked ks (info (cp t ! j)) = linked ks (info (cp s ! j)))"
  using assms
proof (induction "is" arbitrary: s x)
  case Nil
  then show ?case by simp
next
  case (Cons i "is")
  from Cons.prems obtain y u ys where u: "finish_at i s = Inr (y, u)" and rest: "map_m finish_at is u = Inr (ys, t)"
    by (auto simp: bind_m_Inr_iff)
  have i: "i < length (cp s)" using Cons.prems by simp
  note f = finish_at_Inr [OF u i]
  have "\<forall>i\<in>set is. i < length (cp u)"
    using Cons.prems(2) arg_cong [OF f(2), of length] by simp
  note IH = Cons.IH [OF rest this]
  have fj: "finished (cp u) (info (cp u ! j))" if "finished (cp s) (info (cp s ! j)) \<or> j = i" for j
    using that f(4,5,6) by (cases "j = i") auto
  show ?case using IH f(1,2,3,7) fj by auto
qed

lemma finish_not_Null:
  assumes "linked (map entry_kind pool) e"
    and "finish_constant_pool_entry pool e = Inl err"
  shows "no_ub err"
proof -
  have nt: "\<exists>n d. name_and_type_at pool p = Some (n, d)" if "ptr_ok (map entry_kind pool) CP_KIND_NAME_AND_TYPE p" for p
  proof -
    from that obtain i where i: "p = Some i" "i < length pool" "entry_kind (pool ! i) AND CP_KIND_NAME_AND_TYPE \<noteq> 0"
      by (auto simp: ptr_ok_def split: option.splits)
    then show ?thesis by (cases "info (pool ! i)") (auto simp: name_and_type_at_def)
  qed
  show ?thesis using assms by (cases e) (auto split: option.splits sum.splits dest!: nt)
qed

lemma finish_loop_not_Null:
  assumes "map_m finish_at is s = Inl err" "\<forall>i\<in>set is. i < length (cp s)"
    "\<forall>i\<in>set is. linked (kinds s) (info (cp s ! i))"
  shows "no_ub err"
  using assms
proof (induction "is" arbitrary: s)
  case Nil
  then show ?case by simp
next
  case (Cons i "is")
  show ?case
  proof (cases "finish_at i s")
    case (Inl e)
    with Cons.prems have "err = e" by (simp add: bind_m_def)
    with Inl finish_not_Null [of "cp s" "info (cp s ! i)"] Cons.prems show ?thesis
      by (auto simp: finish_at_def split: sum.splits)
  next
    case (Inr z)
    obtain y u where u: "finish_at i s = Inr (y, u)" using Inr by (cases z) simp
    have i: "i < length (cp s)" using Cons.prems by simp
    note f = finish_at_Inr [OF u i]
    have "map_m finish_at is u = Inl err" using Cons.prems(1) u by (auto simp: bind_m_def split: sum.splits)
    moreover have "length (cp u) = length (cp s)" using arg_cong [OF f(2), of length] by simp
    ultimately show ?thesis using Cons.IH [of u] Cons.prems(2,3) f(2,7) by auto
  qed
qed

section \<open>The parsed pool\<close>

text \<open>
  What the rest of the VM relies on: \<open>count + 1\<close> slots of which slot 0 is invalid, every
  reference of an entry set, in range and of the kind its user expects, and every descriptor
  parsed from the text it refers to.
\<close>

definition wf_pool :: "nat \<Rightarrow> cp_entry list \<Rightarrow> bool" where
  "wf_pool count pool \<longleftrightarrow> length pool = count + 1 \<and> info (pool ! 0) = Cp_invalid \<and>
     list_all (\<lambda>e. linked (map entry_kind pool) (info e) \<and> finished pool (info e)) pool"

lemma consumes_parse_constant_pool_entry: "consumes rd 1 (parse_constant_pool_entry skip)"
  unfolding consumes_def
proof (intro allI impI)
  fix s e t assume "parse_constant_pool_entry skip s = Inr (e, t)"
  from parse_constant_pool_entry_Inr [OF this] obtain n where "takes (1 + n) s t" by blast
  then show "suffix (rd t) (rd s) \<and> length (rd t) + 1 \<le> length (rd s)"
    using suffix_drop [of "1 + n" "rd s"] by (auto simp: takes_def)
qed

lemma consumes_cp_pass: "consumes rd 0 (cp_pass skip count k)"
proof (induction k rule: less_induct)
  case (less k)
  have "consumes rd 0 (parse_constant_pool_entry skip)"
    by (rule consumes_weaken [OF consumes_parse_constant_pool_entry]) simp
  with less show ?case by (cases k) (auto intro!: consumes_rules)
qed

text \<open>Both passes together, from a freshly initialised pool.\<close>

lemma cp_passes:
  assumes p1: "cp_pass True count (count - 1) s = Inr ((), t)"
    and p2: "cp_pass False count (count - 1) (t\<lparr>rd := rd s\<rparr>) = Inr ((), t')"
    and s: "cp s = init_constant_pool count"
  shows "kinds t' = kinds t" "length (cp t') = Suc count" "info (cp t' ! 0) = Cp_invalid"
    "info (cp t' ! count) = Cp_invalid" "suffix (rd t') (rd s)"
    "\<And>j. 1 \<le> j \<Longrightarrow> j < count \<Longrightarrow> linked (kinds t') (info (cp t' ! j))"
proof -
  have len: "length (cp s) = Suc count" and inv: "\<And>j. j < Suc count \<Longrightarrow> info (cp s ! j) = Cp_invalid"
    by (auto simp: s init_constant_pool_def simp del: replicate_Suc)
  have "kinds t' = kinds t \<and> length (cp t') = Suc count \<and> info (cp t' ! 0) = Cp_invalid \<and>
      info (cp t' ! count) = Cp_invalid \<and> suffix (rd t') (rd s) \<and>
      (\<forall>j. 1 \<le> j \<longrightarrow> j < count \<longrightarrow> linked (kinds t') (info (cp t' ! j)))"
  proof (cases "count = 0")
    case True
    with p1 p2 len inv show ?thesis by simp
  next
    case False
    then have k: "count - 1 < count" by simp
    note f1 = cp_pass_frame [OF p1 k len]
    have l: "kinds t' = kinds t \<and> rd t' = rd t \<and>
        (\<forall>j. count - (count - 1) \<le> j \<longrightarrow> j < count \<longrightarrow> linked (kinds t) (info (cp t' ! j)))"
      using cp_pass_link [OF p1 p2 k len] by simp
    have f2: "length (cp t') = length (cp t) \<and> (\<forall>j < count - (count - 1). cp t' ! j = cp t ! j) \<and>
        (info (cp t ! count) = Cp_invalid \<longrightarrow> info (cp t' ! count) = Cp_invalid)"
      using cp_pass_frame [OF p2 k] f1 len by simp
    have "suffix (rd t) (rd s)" using consumesD(1) [OF consumes_cp_pass p1] .
    with l f1 f2 len inv False show ?thesis by auto
  qed
  then show "kinds t' = kinds t" "length (cp t') = Suc count" "info (cp t' ! 0) = Cp_invalid"
    "info (cp t' ! count) = Cp_invalid" "suffix (rd t') (rd s)"
    "\<And>j. 1 \<le> j \<Longrightarrow> j < count \<Longrightarrow> linked (kinds t') (info (cp t' ! j))"
    by auto
qed

lemma parse_constant_pool_Inr:
  assumes "parse_constant_pool s = Inr (x, t)"
  shows "wf_pool (unat (read_be (take 2 (rd s)) :: u16)) (cp t)" "suffix (rd t) (rd s)"
proof -
  define count where "count = unat (read_be (take 2 (rd s)) :: u16)"
  define s0 where "s0 = s\<lparr>rd := drop 2 (rd s), cp := init_constant_pool count\<rparr>"
  from assms obtain t1 t2 y where
    n: "2 \<le> length (rd s)"
    and p1: "cp_pass True count (count - 1) s0 = Inr ((), t1)"
    and p2: "cp_pass False count (count - 1) (t1\<lparr>rd := rd s0\<rparr>) = Inr ((), t2)"
    and p3: "map_m finish_at [1..<count] t2 = Inr (y, t)"
    by (auto simp: parse_constant_pool_def reader_iffs Let_def count_def s0_def)
  have "cp s0 = init_constant_pool count" by (simp add: s0_def)
  note p = cp_passes [OF p1 p2 this]
  have "\<forall>i\<in>set [1..<count]. i < length (cp t2)" using p(2) by simp
  note f = finish_loop [OF p3 this]
  have lt: "length (cp t) = Suc count" using arg_cong [OF conjunct1 [OF conjunct2 [OF f]], of length] p(2) by simp
  have all: "linked (kinds t) (info (cp t ! j)) \<and> finished (cp t) (info (cp t ! j))" if jc: "j < Suc count" for j
  proof -
    have inv: "finished (cp t2) Cp_invalid" by (simp add: finished_def)
    consider "j = 0" | "j = count" | "1 \<le> j" "j < count" using jc by force
    then show ?thesis
      using p f inv linked_by_kind(2) by cases (auto, metis+)
  qed
  show "suffix (rd t) (rd s)"
    using p(5) f by (simp add: s0_def) (metis suffix_dropI suffix_order.trans)
  show "wf_pool (unat (read_be (take 2 (rd s)) :: u16)) (cp t)"
    using n all lt p f by (auto simp: wf_pool_def count_def [symmetric] list_all_length)
qed

lemma consumes_parse_constant_pool [consumes_rules]: "consumes rd 0 parse_constant_pool"
  unfolding consumes_def using parse_constant_pool_Inr(2) suffix_length_le by fastforce

section \<open>Pointer safety\<close>

lemma safe_checked [safe_rules]:
  "safe (checked_cp_entry i k r)" "safe (checked_get_utf8 i r)" "safe (link_ptr skip i k r)" "safe (link_str skip i r)"
  unfolding checked_get_utf8_def link_ptr_def link_str_def checked_cp_entry_def check_cp_entry_def
  by (auto intro!: safe_rules)

lemma safe_parse_constant_pool_entry: "safe (parse_constant_pool_entry skip)"
  unfolding parse_constant_pool_entry_def parse_cp_body_def parse_cp_class_def parse_cp_ref_def parse_cp_string_def
    parse_cp_name_and_type_def parse_cp_utf8_def parse_cp_method_handle_def parse_cp_method_type_def parse_cp_indy_def
  by (intro safe_rules; simp)

lemma safe_cp_pass: "safe (cp_pass skip count k)"
proof (induction k rule: less_induct)
  case (less k)
  then show ?case using safe_parse_constant_pool_entry by (cases k) (auto intro!: safe_rules)
qed

lemma parse_constant_pool_no_ub:
  assumes "parse_constant_pool s = Inl err"
  shows "no_ub err"
proof (rule ccontr)
  assume ub: "\<not> no_ub err"
  define count where "count = unat (read_be (take 2 (rd s)) :: u16)"
  define s0 where "s0 = s\<lparr>rd := drop 2 (rd s), cp := init_constant_pool count\<rparr>"
  have "\<not> reader_next_u16 ''constant pool count'' s = Inl err"
    "\<And>s. \<not> cp_pass skip count k s = Inl err" for skip k
    using safeD [OF safe_reader_next(2)] safeD [OF safe_cp_pass] ub by blast+
  with assms obtain t1 t2 where
    p1: "cp_pass True count (count - 1) s0 = Inr ((), t1)"
    and p2: "cp_pass False count (count - 1) (t1\<lparr>rd := rd s0\<rparr>) = Inr ((), t2)"
    and p3: "map_m finish_at [1..<count] t2 = Inl err"
    by (auto simp: parse_constant_pool_def bind_m_Inl_iff reader_iffs Let_def count_def s0_def)
  have "cp s0 = init_constant_pool count" by (simp add: s0_def)
  note p = cp_passes [OF p1 p2 this]
  from finish_loop_not_Null [OF p3] p(2,6) ub show False by auto
qed

section \<open>Properties\<close>

text \<open>C3. A constant pool that parses is well formed: it has one slot more than the announced
  count, slot 0 is invalid, every reference in it is set, in range and points to an entry of the
  kind its user expects, and every descriptor has been parsed from the text it refers to.\<close>

theorem parse_constant_pool_wf:
  "parse_constant_pool s = Inr ((), t) \<Longrightarrow> wf_pool (unat (read_be (take 2 (rd s)) :: u16)) (cp t)"
  by (rule parse_constant_pool_Inr)

definition sample_pool_state :: parse_state where
  "sample_pool_state =
     \<lparr>rd = [0, 3, 1, 0, 1, 65, 7, 0, 1], cp = [], current_code_max_pc = 0, indy_insns_count = 0\<rparr>"

lemma sample_pool_parses:
  "parse_constant_pool sample_pool_state = Inr ((), sample_pool_state\<lparr>rd := [],
     cp := [\<lparr>my_index = 0, info = Cp_invalid\<rparr>, \<lparr>my_index = 1, info = Cp_utf8 ''A''\<rparr>,
            \<lparr>my_index = 2, info = Cp_class ''A''\<rparr>, \<lparr>my_index = 0, info = Cp_invalid\<rparr>]\<rparr>)"
  by code_simp

theorem parse_constant_pool_wf_witness:
  "wf_pool 3 [\<lparr>my_index = 0, info = Cp_invalid\<rparr>, \<lparr>my_index = 1, info = Cp_utf8 ''A''\<rparr>,
     \<lparr>my_index = 2, info = Cp_class ''A''\<rparr>, \<lparr>my_index = 0, info = Cp_invalid\<rparr>]"
  using parse_constant_pool_wf [OF sample_pool_parses]
  by (simp add: sample_pool_state_def read_be_def)

text \<open>C4. Parsing a constant pool never follows a null pointer: every name-and-type reference
  that the finishing loop dereferences was resolved by the LINK pass.\<close>

theorem parse_constant_pool_safe: "parse_constant_pool s \<noteq> Inl Invalid_access"
  using parse_constant_pool_no_ub [of s] by auto

end
