(* ===== verification/Bytecode.thy ===== *)
theory Bytecode
  imports Constant_Pool
begin

text \<open>
  Decoding of method bodies (\<^verbatim>\<open>parse_insn_impl\<close> and its helpers in \<^verbatim>\<open>vm/classfile.c\<close>,
  \<^verbatim>\<open>insn_code_kind\<close> and \<^verbatim>\<open>bytecode_insn\<close> in \<^verbatim>\<open>vm/classfile.h\<close>). The instruction kinds are
  the ordinals of the C enumeration, because the code compares them by order
  (\<^verbatim>\<open>kind >= insn_goto && kind <= insn_ifnull\<close>). The union of an instruction is a datatype; a
  pointer into the constant pool is an index; floats and doubles are their bit patterns.
  The one big \<^verbatim>\<open>switch\<close> is split by opcode ranges, in the order of the source.
\<close>

section \<open>Instruction kinds\<close>

abbreviation (input) insn_nop :: nat where "insn_nop \<equiv> 0"
abbreviation (input) insn_aaload :: nat where "insn_aaload \<equiv> 1"
abbreviation (input) insn_aastore :: nat where "insn_aastore \<equiv> 2"
abbreviation (input) insn_aconst_null :: nat where "insn_aconst_null \<equiv> 3"
abbreviation (input) insn_areturn :: nat where "insn_areturn \<equiv> 4"
abbreviation (input) insn_arraylength :: nat where "insn_arraylength \<equiv> 5"
abbreviation (input) insn_athrow :: nat where "insn_athrow \<equiv> 6"
abbreviation (input) insn_baload :: nat where "insn_baload \<equiv> 7"
abbreviation (input) insn_bastore :: nat where "insn_bastore \<equiv> 8"
abbreviation (input) insn_caload :: nat where "insn_caload \<equiv> 9"
abbreviation (input) insn_castore :: nat where "insn_castore \<equiv> 10"
abbreviation (input) insn_d2f :: nat where "insn_d2f \<equiv> 11"
abbreviation (input) insn_d2i :: nat where "insn_d2i \<equiv> 12"
abbreviation (input) insn_d2l :: nat where "insn_d2l \<equiv> 13"
abbreviation (input) insn_dadd :: nat where "insn_dadd \<equiv> 14"
abbreviation (input) insn_daload :: nat where "insn_daload \<equiv> 15"
abbreviation (input) insn_dastore :: nat where "insn_dastore \<equiv> 16"
abbreviation (input) insn_dcmpg :: nat where "insn_dcmpg \<equiv> 17"
abbreviation (input) insn_dcmpl :: nat where "insn_dcmpl \<equiv> 18"
abbreviation (input) insn_ddiv :: nat where "insn_ddiv \<equiv> 19"
abbreviation (input) insn_dmul :: nat where "insn_dmul \<equiv> 20"
abbreviation (input) insn_dneg :: nat where "insn_dneg \<equiv> 21"
abbreviation (input) insn_drem :: nat where "insn_drem \<equiv> 22"
abbreviation (input) insn_dreturn :: nat where "insn_dreturn \<equiv> 23"
abbreviation (input) insn_dsub :: nat where "insn_dsub \<equiv> 24"
abbreviation (input) insn_dup :: nat where "insn_dup \<equiv> 25"
abbreviation (input) insn_dup_x1 :: nat where "insn_dup_x1 \<equiv> 26"
abbreviation (input) insn_dup_x2 :: nat where "insn_dup_x2 \<equiv> 27"
abbreviation (input) insn_dup2 :: nat where "insn_dup2 \<equiv> 28"
abbreviation (input) insn_dup2_x1 :: nat where "insn_dup2_x1 \<equiv> 29"
abbreviation (input) insn_dup2_x2 :: nat where "insn_dup2_x2 \<equiv> 30"
abbreviation (input) insn_f2d :: nat where "insn_f2d \<equiv> 31"
abbreviation (input) insn_f2i :: nat where "insn_f2i \<equiv> 32"
abbreviation (input) insn_f2l :: nat where "insn_f2l \<equiv> 33"
abbreviation (input) insn_fadd :: nat where "insn_fadd \<equiv> 34"
abbreviation (input) insn_faload :: nat where "insn_faload \<equiv> 35"
abbreviation (input) insn_fastore :: nat where "insn_fastore \<equiv> 36"
abbreviation (input) insn_fcmpg :: nat where "insn_fcmpg \<equiv> 37"
abbreviation (input) insn_fcmpl :: nat where "insn_fcmpl \<equiv> 38"
abbreviation (input) insn_fdiv :: nat where "insn_fdiv \<equiv> 39"
abbreviation (input) insn_fmul :: nat where "insn_fmul \<equiv> 40"
abbreviation (input) insn_fneg :: nat where "insn_fneg \<equiv> 41"
abbreviation (input) insn_frem :: nat where "insn_frem \<equiv> 42"
abbreviation (input) insn_freturn :: nat where "insn_freturn \<equiv> 43"
abbreviation (input) insn_fsub :: nat where "insn_fsub \<equiv> 44"
abbreviation (input) insn_i2b :: nat where "insn_i2b \<equiv> 45"
abbreviation (input) insn_i2c :: nat where "insn_i2c \<equiv> 46"
abbreviation (input) insn_i2d :: nat where "insn_i2d \<equiv> 47"
abbreviation (input) insn_i2f :: nat where "insn_i2f \<equiv> 48"
abbreviation (input) insn_i2l :: nat where "insn_i2l \<equiv> 49"
abbreviation (input) insn_i2s :: nat where "insn_i2s \<equiv> 50"
abbreviation (input) insn_iadd :: nat where "insn_iadd \<equiv> 51"
abbreviation (input) insn_iaload :: nat where "insn_iaload \<equiv> 52"
abbreviation (input) insn_iand :: nat where "insn_iand \<equiv> 53"
abbreviation (input) insn_iastore :: nat where "insn_iastore \<equiv> 54"
abbreviation (input) insn_idiv :: nat where "insn_idiv \<equiv> 55"
abbreviation (input) insn_imul :: nat where "insn_imul \<equiv> 56"
abbreviation (input) insn_ineg :: nat where "insn_ineg \<equiv> 57"
abbreviation (input) insn_ior :: nat where "insn_ior \<equiv> 58"
abbreviation (input) insn_irem :: nat where "insn_irem \<equiv> 59"
abbreviation (input) insn_ireturn :: nat where "insn_ireturn \<equiv> 60"
abbreviation (input) insn_ishl :: nat where "insn_ishl \<equiv> 61"
abbreviation (input) insn_ishr :: nat where "insn_ishr \<equiv> 62"
abbreviation (input) insn_isub :: nat where "insn_isub \<equiv> 63"
abbreviation (input) insn_iushr :: nat where "insn_iushr \<equiv> 64"
abbreviation (input) insn_ixor :: nat where "insn_ixor \<equiv> 65"
abbreviation (input) insn_l2d :: nat where "insn_l2d \<equiv> 66"
abbreviation (input) insn_l2f :: nat where "insn_l2f \<equiv> 67"
abbreviation (input) insn_l2i :: nat where "insn_l2i \<equiv> 68"
abbreviation (input) insn_ladd :: nat where "insn_ladd \<equiv> 69"
abbreviation (input) insn_laload :: nat where "insn_laload \<equiv> 70"
abbreviation (input) insn_land :: nat where "insn_land \<equiv> 71"
abbreviation (input) insn_lastore :: nat where "insn_lastore \<equiv> 72"
abbreviation (input) insn_lcmp :: nat where "insn_lcmp \<equiv> 73"
abbreviation (input) insn_ldiv :: nat where "insn_ldiv \<equiv> 74"
abbreviation (input) insn_lmul :: nat where "insn_lmul \<equiv> 75"
abbreviation (input) insn_lneg :: nat where "insn_lneg \<equiv> 76"
abbreviation (input) insn_lor :: nat where "insn_lor \<equiv> 77"
abbreviation (input) insn_lrem :: nat where "insn_lrem \<equiv> 78"
abbreviation (input) insn_lreturn :: nat where "insn_lreturn \<equiv> 79"
abbreviation (input) insn_lshl :: nat where "insn_lshl \<equiv> 80"
abbreviation (input) insn_lshr :: nat where "insn_lshr \<equiv> 81"
abbreviation (input) insn_lsub :: nat where "insn_lsub \<equiv> 82"
abbreviation (input) insn_lushr :: nat where "insn_lushr \<equiv> 83"
abbreviation (input) insn_lxor :: nat where "insn_lxor \<equiv> 84"
abbreviation (input) insn_monitorenter :: nat where "insn_monitorenter \<equiv> 85"
abbreviation (input) insn_monitorexit :: nat where "insn_monitorexit \<equiv> 86"
abbreviation (input) insn_pop :: nat where "insn_pop \<equiv> 87"
abbreviation (input) insn_pop2 :: nat where "insn_pop2 \<equiv> 88"
abbreviation (input) insn_return :: nat where "insn_return \<equiv> 89"
abbreviation (input) insn_saload :: nat where "insn_saload \<equiv> 90"
abbreviation (input) insn_sastore :: nat where "insn_sastore \<equiv> 91"
abbreviation (input) insn_swap :: nat where "insn_swap \<equiv> 92"
abbreviation (input) insn_anewarray :: nat where "insn_anewarray \<equiv> 93"
abbreviation (input) insn_checkcast :: nat where "insn_checkcast \<equiv> 94"
abbreviation (input) insn_getfield :: nat where "insn_getfield \<equiv> 95"
abbreviation (input) insn_getstatic :: nat where "insn_getstatic \<equiv> 96"
abbreviation (input) insn_instanceof :: nat where "insn_instanceof \<equiv> 97"
abbreviation (input) insn_invokedynamic :: nat where "insn_invokedynamic \<equiv> 98"
abbreviation (input) insn_new :: nat where "insn_new \<equiv> 99"
abbreviation (input) insn_putfield :: nat where "insn_putfield \<equiv> 100"
abbreviation (input) insn_putstatic :: nat where "insn_putstatic \<equiv> 101"
abbreviation (input) insn_invokevirtual :: nat where "insn_invokevirtual \<equiv> 102"
abbreviation (input) insn_invokespecial :: nat where "insn_invokespecial \<equiv> 103"
abbreviation (input) insn_invokestatic :: nat where "insn_invokestatic \<equiv> 104"
abbreviation (input) insn_ldc :: nat where "insn_ldc \<equiv> 105"
abbreviation (input) insn_dload :: nat where "insn_dload \<equiv> 106"
abbreviation (input) insn_fload :: nat where "insn_fload \<equiv> 107"
abbreviation (input) insn_iload :: nat where "insn_iload \<equiv> 108"
abbreviation (input) insn_lload :: nat where "insn_lload \<equiv> 109"
abbreviation (input) insn_dstore :: nat where "insn_dstore \<equiv> 110"
abbreviation (input) insn_fstore :: nat where "insn_fstore \<equiv> 111"
abbreviation (input) insn_istore :: nat where "insn_istore \<equiv> 112"
abbreviation (input) insn_lstore :: nat where "insn_lstore \<equiv> 113"
abbreviation (input) insn_aload :: nat where "insn_aload \<equiv> 114"
abbreviation (input) insn_astore :: nat where "insn_astore \<equiv> 115"
abbreviation (input) insn_goto :: nat where "insn_goto \<equiv> 116"
abbreviation (input) insn_jsr :: nat where "insn_jsr \<equiv> 117"
abbreviation (input) insn_if_acmpeq :: nat where "insn_if_acmpeq \<equiv> 118"
abbreviation (input) insn_if_acmpne :: nat where "insn_if_acmpne \<equiv> 119"
abbreviation (input) insn_if_icmpeq :: nat where "insn_if_icmpeq \<equiv> 120"
abbreviation (input) insn_if_icmpne :: nat where "insn_if_icmpne \<equiv> 121"
abbreviation (input) insn_if_icmplt :: nat where "insn_if_icmplt \<equiv> 122"
abbreviation (input) insn_if_icmpge :: nat where "insn_if_icmpge \<equiv> 123"
abbreviation (input) insn_if_icmpgt :: nat where "insn_if_icmpgt \<equiv> 124"
abbreviation (input) insn_if_icmple :: nat where "insn_if_icmple \<equiv> 125"
abbreviation (input) insn_ifeq :: nat where "insn_ifeq \<equiv> 126"
abbreviation (input) insn_ifne :: nat where "insn_ifne \<equiv> 127"
abbreviation (input) insn_iflt :: nat where "insn_iflt \<equiv> 128"
abbreviation (input) insn_ifge :: nat where "insn_ifge \<equiv> 129"
abbreviation (input) insn_ifgt :: nat where "insn_ifgt \<equiv> 130"
abbreviation (input) insn_ifle :: nat where "insn_ifle \<equiv> 131"
abbreviation (input) insn_ifnonnull :: nat where "insn_ifnonnull \<equiv> 132"
abbreviation (input) insn_ifnull :: nat where "insn_ifnull \<equiv> 133"
abbreviation (input) insn_iconst :: nat where "insn_iconst \<equiv> 134"
abbreviation (input) insn_dconst :: nat where "insn_dconst \<equiv> 135"
abbreviation (input) insn_fconst :: nat where "insn_fconst \<equiv> 136"
abbreviation (input) insn_lconst :: nat where "insn_lconst \<equiv> 137"
abbreviation (input) insn_iinc :: nat where "insn_iinc \<equiv> 138"
abbreviation (input) insn_invokeinterface :: nat where "insn_invokeinterface \<equiv> 139"
abbreviation (input) insn_multianewarray :: nat where "insn_multianewarray \<equiv> 140"
abbreviation (input) insn_newarray :: nat where "insn_newarray \<equiv> 141"
abbreviation (input) insn_tableswitch :: nat where "insn_tableswitch \<equiv> 142"
abbreviation (input) insn_lookupswitch :: nat where "insn_lookupswitch \<equiv> 143"
abbreviation (input) insn_ret :: nat where "insn_ret \<equiv> 144"

section \<open>Instructions\<close>

record tableswitch_data =
  ts_default :: nat
  ts_low :: int
  ts_high :: int
  ts_targets :: "nat list"

record lookupswitch_data =
  ls_default :: nat
  ls_keys :: "int list"
  ls_targets :: "nat list"

datatype insn_payload =
    No_payload
  | Array_type type_kind
  | Index nat
  | Integer_imm int
  | F_imm u32
  | D_imm u64
  | Lookupswitch lookupswitch_data
  | Tableswitch tableswitch_data
  | Iinc nat int
  | Multianewarray nat u8
  | Cp nat

record bytecode_insn =
  kind :: nat
  original_pc :: u16
  payload :: insn_payload

definition make_insn :: "nat \<Rightarrow> insn_payload \<Rightarrow> bytecode_insn" where
  "make_insn k p = \<lparr>kind = k, original_pc = 0, payload = p\<rparr>"

abbreviation simple_insn :: "nat \<Rightarrow> bytecode_insn" where
  "simple_insn k \<equiv> make_insn k No_payload"

text \<open>The kinds of the operand-less instructions, by consecutive opcodes.\<close>

definition array_load_kinds :: "nat list" where
  "array_load_kinds =
     [insn_iaload, insn_laload, insn_faload, insn_daload, insn_aaload, insn_baload,
      insn_caload, insn_saload]"

definition array_store_stack_kinds :: "nat list" where
  "array_store_stack_kinds =
     [insn_iastore, insn_lastore, insn_fastore, insn_dastore, insn_aastore, insn_bastore,
      insn_castore, insn_sastore, insn_pop, insn_pop2, insn_dup, insn_dup_x1,
      insn_dup_x2, insn_dup2, insn_dup2_x1, insn_dup2_x2, insn_swap]"

definition arithmetic_kinds :: "nat list" where
  "arithmetic_kinds =
     [insn_iadd, insn_ladd, insn_fadd, insn_dadd, insn_isub, insn_lsub,
      insn_fsub, insn_dsub, insn_imul, insn_lmul, insn_fmul, insn_dmul,
      insn_idiv, insn_ldiv, insn_fdiv, insn_ddiv, insn_irem, insn_lrem,
      insn_frem, insn_drem, insn_ineg, insn_lneg, insn_fneg, insn_dneg,
      insn_ishl, insn_lshl, insn_ishr, insn_lshr, insn_iushr, insn_lushr,
      insn_iand, insn_land, insn_ior, insn_lor, insn_ixor, insn_lxor]"

definition conversion_kinds :: "nat list" where
  "conversion_kinds =
     [insn_i2l, insn_i2f, insn_i2d, insn_l2i, insn_l2f, insn_l2d,
      insn_f2i, insn_f2l, insn_f2d, insn_d2i, insn_d2l, insn_d2f,
      insn_i2b, insn_i2c, insn_i2s, insn_lcmp, insn_fcmpl, insn_fcmpg,
      insn_dcmpl, insn_dcmpg]"

definition return_kinds :: "nat list" where
  "return_kinds =
     [insn_ireturn, insn_lreturn, insn_freturn, insn_dreturn, insn_areturn, insn_return]"

section \<open>Branch targets\<close>

text \<open>\<^verbatim>\<open>__builtin_add_overflow\<close> computes the exact sum and reports whether an \<^verbatim>\<open>int\<close> holds it.\<close>

definition checked_pc :: "nat \<Rightarrow> int \<Rightarrow> nat parser" where
  "checked_pc insn_pc offset =
     bind_m (gets_m current_code_max_pc) (\<lambda>max_pc.
     let target = int insn_pc + offset; overflow = target < - (2 ^ 31) \<or> target \<ge> 2 ^ 31 in
     if overflow \<or> target < 0 \<or> target \<ge> int max_pc
     then fail_m (Static_error ''Branch target out of bounds'')
     else return_m (nat target))"

section \<open>Switches\<close>

function skip_padding :: "nat \<Rightarrow> unit parser" where
  "skip_padding pc =
     (if pc mod 4 \<noteq> 0 then bind_m (reader_next_u8 ''tableswitch padding'') (\<lambda>_. skip_padding (Suc pc))
      else return_m ())"
  by pat_completeness auto
termination
  by (relation "measure (\<lambda>pc. if pc mod 4 = 0 then 0 else 4 - pc mod 4)")
    (auto simp: mod_Suc split: if_splits)

declare skip_padding.simps [simp del]

definition parse_tableswitch_insn :: "nat \<Rightarrow> bytecode_insn parser" where
  "parse_tableswitch_insn original =
     bind_m (skip_padding (Suc original)) (\<lambda>_.
     bind_m (reader_next_s32 ''tableswitch default target'') (\<lambda>off.
     bind_m (checked_pc original off) (\<lambda>default_target.
     bind_m (reader_next_s32 ''tableswitch low'') (\<lambda>low.
     bind_m (reader_next_s32 ''tableswitch high'') (\<lambda>high.
     let targets_count = high - low + 1 in
     bind_m (guard_m (\<not> targets_count > 2 ^ 15) (Static_error ''tableswitch instruction is too large'')) (\<lambda>_.
     bind_m (guard_m (\<not> targets_count \<le> 0) (Static_error ''tableswitch high < low'')) (\<lambda>_.
     bind_m (repeat_m (nat targets_count)
              (bind_m (reader_next_s32 ''tableswitch target'') (\<lambda>off. checked_pc original off))) (\<lambda>targets.
     return_m (make_insn insn_tableswitch (Tableswitch
       \<lparr>ts_default = default_target, ts_low = low, ts_high = high, ts_targets = targets\<rparr>))))))))))"

definition parse_lookupswitch_insn :: "nat \<Rightarrow> bytecode_insn parser" where
  "parse_lookupswitch_insn original =
     bind_m (skip_padding (Suc original)) (\<lambda>_.
     bind_m (reader_next_s32 ''lookupswitch default target'') (\<lambda>off.
     bind_m (checked_pc original off) (\<lambda>default_target.
     bind_m (reader_next_s32 ''lookupswitch pairs count'') (\<lambda>pairs_count.
     bind_m (guard_m (\<not> (pairs_count > 2 ^ 15 \<or> pairs_count < 0))
              (Static_error ''lookupswitch instruction is too large'')) (\<lambda>_.
     bind_m (repeat_m (nat pairs_count)
              (bind_m (reader_next_s32 ''lookupswitch key'') (\<lambda>key.
               bind_m (reader_next_s32 ''lookupswitch target'') (\<lambda>off.
               bind_m (checked_pc original off) (\<lambda>target. return_m (key, target)))))) (\<lambda>pairs.
     return_m (make_insn insn_lookupswitch (Lookupswitch
       \<lparr>ls_default = default_target, ls_keys = map fst pairs, ls_targets = map snd pairs\<rparr>))))))))"

definition parse_atype :: "nat \<Rightarrow> type_kind parser" where
  "parse_atype atype =
     (if atype = 4 then return_m TYPE_KIND_BOOLEAN
      else if atype = 5 then return_m TYPE_KIND_CHAR
      else if atype = 6 then return_m TYPE_KIND_FLOAT
      else if atype = 7 then return_m TYPE_KIND_DOUBLE
      else if atype = 8 then return_m TYPE_KIND_BYTE
      else if atype = 9 then return_m TYPE_KIND_SHORT
      else if atype = 10 then return_m TYPE_KIND_INT
      else if atype = 11 then return_m TYPE_KIND_LONG
      else fail_m (Invalid_newarray_type atype))"

section \<open>The instruction switch\<close>

text \<open>The bit patterns of \<^verbatim>\<open>(float)n\<close> and \<^verbatim>\<open>(double)n\<close> for the small constants.\<close>

definition float_bits :: "nat \<Rightarrow> u32" where
  "float_bits n = (if n = 0 then 0 else if n = 1 then 0x3f800000 else 0x40000000)"

definition double_bits :: "nat \<Rightarrow> u64" where
  "double_bits n = (if n = 0 then 0 else 0x3ff0000000000000)"

text \<open>0x00 to 0x11: constants.\<close>

definition parse_const_insn :: "nat \<Rightarrow> bytecode_insn parser" where
  "parse_const_insn opcode =
     (if opcode = 0x00 then return_m (simple_insn insn_nop)
      else if opcode = 0x01 then return_m (simple_insn insn_aconst_null)
      else if opcode \<le> 0x08 then return_m (make_insn insn_iconst (Integer_imm (int opcode - 0x03)))
      else if opcode \<le> 0x0a then return_m (make_insn insn_lconst (Integer_imm (int opcode - 0x09)))
      else if opcode \<le> 0x0d then return_m (make_insn insn_fconst (F_imm (float_bits (opcode - 0x0b))))
      else if opcode \<le> 0x0f then return_m (make_insn insn_dconst (D_imm (double_bits (opcode - 0x0e))))
      else if opcode = 0x10 then
        bind_m (reader_next_s8 ''bipush immediate'') (\<lambda>v. return_m (make_insn insn_iconst (Integer_imm v)))
      else bind_m (reader_next_s16 ''sipush immediate'') (\<lambda>v. return_m (make_insn insn_iconst (Integer_imm v))))"

text \<open>0x12 to 0x14: ldc, ldc_w, ldc2_w. Numbers become immediates.\<close>

fun ldc_insn :: "nat \<Rightarrow> cp_info \<Rightarrow> bytecode_insn" where
  "ldc_insn p (Cp_integer v) = make_insn insn_iconst (Integer_imm v)"
| "ldc_insn p (Cp_float v) = make_insn insn_fconst (F_imm v)"
| "ldc_insn p (Cp_double v) = make_insn insn_dconst (D_imm v)"
| "ldc_insn p (Cp_long v) = make_insn insn_lconst (Integer_imm v)"
| "ldc_insn p _ = make_insn insn_ldc (Cp p)"

definition parse_ldc_insn :: "nat \<Rightarrow> bytecode_insn parser" where
  "parse_ldc_insn opcode =
     bind_m (if opcode = 0x12 then bind_m (reader_next_u8 ''ldc index'') (\<lambda>i. return_m (unat i))
             else if opcode = 0x13 then bind_m (reader_next_u16 ''ldc_w index'') (\<lambda>i. return_m (unat i))
             else bind_m (reader_next_u16 ''ldc2_w index'') (\<lambda>i. return_m (unat i))) (\<lambda>index.
     bind_m (if opcode = 0x14
             then checked_cp_entry index (CP_KIND_DOUBLE OR CP_KIND_LONG) ''ldc2_w index''
             else checked_cp_entry index (CP_KIND_INTEGER OR CP_KIND_FLOAT OR CP_KIND_STRING OR CP_KIND_CLASS)
                    ''ldc/ldc_w index'') (\<lambda>p.
     bind_m (gets_m (\<lambda>s. info (cp s ! p))) (\<lambda>e. return_m (ldc_insn p e))))"

text \<open>Loads and stores: the five typed kinds, with an explicit index byte or one of four
  implicit indices.\<close>

definition load_kinds :: "nat list" where
  "load_kinds = [insn_iload, insn_lload, insn_fload, insn_dload, insn_aload]"

definition store_kinds :: "nat list" where
  "store_kinds = [insn_istore, insn_lstore, insn_fstore, insn_dstore, insn_astore]"

definition local_index_reason :: "nat \<Rightarrow> string" where
  "local_index_reason opcode =
     (if opcode = 0x15 then ''iload index'' else if opcode = 0x16 then ''lload index''
      else if opcode = 0x17 then ''fload index'' else if opcode = 0x18 then ''dload index''
      else if opcode = 0x19 then ''aload index'' else if opcode = 0x36 then ''istore index''
      else if opcode = 0x37 then ''lstore index'' else if opcode = 0x38 then ''fstore index''
      else if opcode = 0x39 then ''dstore index'' else ''astore index'')"

definition parse_load_insn :: "nat \<Rightarrow> bytecode_insn parser" where
  "parse_load_insn opcode =
     (if opcode \<le> 0x19 then
        bind_m (reader_next_u8 (local_index_reason opcode)) (\<lambda>i.
        return_m (make_insn (load_kinds ! (opcode - 0x15)) (Index (unat i))))
      else return_m (make_insn (load_kinds ! ((opcode - 0x1a) div 4)) (Index ((opcode - 0x1a) mod 4))))"

definition parse_store_insn :: "nat \<Rightarrow> bytecode_insn parser" where
  "parse_store_insn opcode =
     (if opcode \<le> 0x3a then
        bind_m (reader_next_u8 (local_index_reason opcode)) (\<lambda>i.
        return_m (make_insn (store_kinds ! (opcode - 0x36)) (Index (unat i))))
      else return_m (make_insn (store_kinds ! ((opcode - 0x3b) div 4)) (Index ((opcode - 0x3b) mod 4))))"

definition parse_iinc_insn :: "bytecode_insn parser" where
  "parse_iinc_insn =
     bind_m (reader_next_u8 ''iinc index'') (\<lambda>index.
     bind_m (reader_next_s8 ''iinc const'') (\<lambda>const.
     return_m (make_insn insn_iinc (Iinc (unat index) const))))"

text \<open>0x99 to 0xa8, and 0xc6 to 0xc9: branches.\<close>

definition branch_kinds :: "nat list" where
  "branch_kinds =
     [insn_ifeq, insn_ifne, insn_iflt, insn_ifge, insn_ifgt, insn_ifle,
      insn_if_icmpeq, insn_if_icmpne, insn_if_icmplt, insn_if_icmpge, insn_if_icmpgt, insn_if_icmple,
      insn_if_acmpeq, insn_if_acmpne, insn_goto, insn_jsr]"

definition branch_reasons :: "string list" where
  "branch_reasons =
     [''if_eq offset'', ''if_ne offset'', ''if_lt offset'', ''if_ge offset'', ''if_gt offset'', ''if_le offset'',
      ''if_icmpeq offset'', ''if_icmpne offset'', ''if_icmplt offset'', ''if_icmpge offset'',
      ''if_icmpgt offset'', ''if_icmple offset'', ''if_acmpeq offset'', ''if_acmpne offset'',
      ''goto offset'', ''jsr offset'']"

definition parse_branch_insn :: "nat \<Rightarrow> nat \<Rightarrow> bytecode_insn parser" where
  "parse_branch_insn pc opcode =
     bind_m (reader_next_s16 (branch_reasons ! (opcode - 0x99))) (\<lambda>off.
     bind_m (checked_pc pc off) (\<lambda>target.
     return_m (make_insn (branch_kinds ! (opcode - 0x99)) (Index target))))"

definition parse_late_branch_insn :: "nat \<Rightarrow> nat \<Rightarrow> bytecode_insn parser" where
  "parse_late_branch_insn pc opcode =
     bind_m (if opcode = 0xc6 then reader_next_s16 ''ifnull offset''
             else if opcode = 0xc7 then reader_next_s16 ''ifnonnull offset''
             else if opcode = 0xc8 then reader_next_s32 ''goto_w offset''
             else reader_next_s32 ''jsr_w offset'') (\<lambda>off.
     bind_m (checked_pc pc off) (\<lambda>target.
     return_m (make_insn (if opcode = 0xc6 then insn_ifnull else if opcode = 0xc7 then insn_ifnonnull
                          else if opcode = 0xc8 then insn_goto else insn_jsr) (Index target))))"

text \<open>0xb2 to 0xb8: the field and call instructions that are a pool index and nothing else.\<close>

definition member_kinds :: "nat list" where
  "member_kinds =
     [insn_getstatic, insn_putstatic, insn_getfield, insn_putfield,
      insn_invokevirtual, insn_invokespecial, insn_invokestatic]"

definition member_names :: "string list" where
  "member_names =
     [''getstatic'', ''putstatic'', ''getfield'', ''putfield'', ''invokevirtual'', ''invokespecial'', ''invokestatic'']"

definition parse_member_insn :: "nat \<Rightarrow> bytecode_insn parser" where
  "parse_member_insn opcode =
     bind_m (reader_next_u16 (member_names ! (opcode - 0xb2) @ '' index'')) (\<lambda>index.
     bind_m (checked_cp_entry (unat index)
              (if opcode \<le> 0xb5 then CP_KIND_FIELD_REF else CP_KIND_METHOD_REF OR CP_KIND_INTERFACE_METHOD_REF)
              (member_names ! (opcode - 0xb2) @ (if opcode \<le> 0xb5 then '' field ref'' else '' method ref''))) (\<lambda>p.
     return_m (make_insn (member_kinds ! (opcode - 0xb2)) (Cp p))))"

definition parse_invokeinterface_insn :: "bytecode_insn parser" where
  "parse_invokeinterface_insn =
     bind_m (reader_next_u16 ''invokeinterface index'') (\<lambda>index.
     bind_m (checked_cp_entry (unat index) CP_KIND_INTERFACE_METHOD_REF ''invokeinterface method ref'') (\<lambda>p.
     bind_m (reader_next_u8 ''invokeinterface count'') (\<lambda>_.
     bind_m (reader_next_u8 ''invokeinterface zero'') (\<lambda>_.
     return_m (make_insn insn_invokeinterface (Cp p))))))"

definition parse_invokedynamic_insn :: "bytecode_insn parser" where
  "parse_invokedynamic_insn =
     bind_m (reader_next_u16 ''invokedynamic index'') (\<lambda>index.
     bind_m (checked_cp_entry (unat index) CP_KIND_INVOKE_DYNAMIC ''indy method ref'') (\<lambda>p.
     bind_m (reader_next_u16 ''invokedynamic zero'') (\<lambda>_.
     return_m (make_insn insn_invokedynamic (Cp p)))))"

text \<open>0xbb to 0xc3: object creation, casts and monitors.\<close>

definition parse_class_insn :: "nat \<Rightarrow> string \<Rightarrow> bytecode_insn parser" where
  "parse_class_insn k name =
     bind_m (reader_next_u16 (name @ '' index'')) (\<lambda>index.
     bind_m (checked_cp_entry (unat index) CP_KIND_CLASS (name @ '' class'')) (\<lambda>p.
     return_m (make_insn k (Cp p))))"

definition parse_object_insn :: "nat \<Rightarrow> bytecode_insn parser" where
  "parse_object_insn opcode =
     (if opcode = 0xbb then parse_class_insn insn_new ''new''
      else if opcode = 0xbc then
        bind_m (reader_next_u8 ''newarray type'') (\<lambda>atype.
        bind_m (parse_atype (unat atype)) (\<lambda>parsed.
        return_m (make_insn insn_newarray (Array_type parsed))))
      else if opcode = 0xbd then parse_class_insn insn_anewarray ''anewarray''
      else if opcode = 0xbe then return_m (simple_insn insn_arraylength)
      else if opcode = 0xbf then return_m (simple_insn insn_athrow)
      else if opcode = 0xc0 then parse_class_insn insn_checkcast ''checkcast''
      else if opcode = 0xc1 then parse_class_insn insn_instanceof ''instanceof''
      else if opcode = 0xc2 then return_m (simple_insn insn_monitorenter)
      else return_m (simple_insn insn_monitorexit))"

text \<open>0xc4: wide. The error message of the default case prints \<^verbatim>\<open>opcode\<close>, that is 0xc4.\<close>

definition parse_wide_insn :: "nat \<Rightarrow> bytecode_insn parser" where
  "parse_wide_insn opcode =
     bind_m (reader_next_u8 ''widened opcode'') (\<lambda>b.
     let w = unat b in
     if 0x15 \<le> w \<and> w \<le> 0x19 then
       bind_m (reader_next_u16 (''wide '' @ local_index_reason w)) (\<lambda>i.
       return_m (make_insn (load_kinds ! (w - 0x15)) (Index (unat i))))
     else if 0x36 \<le> w \<and> w \<le> 0x3a then
       bind_m (reader_next_u16 (''wide '' @ local_index_reason w)) (\<lambda>i.
       return_m (make_insn (store_kinds ! (w - 0x36)) (Index (unat i))))
     else if w = 0x84 then
       bind_m (reader_next_u16 ''wide iinc index'') (\<lambda>index.
       bind_m (reader_next_s16 ''wide iinc const'') (\<lambda>const.
       return_m (make_insn insn_iinc (Iinc (unat index) const))))
     else if w = 0xa9 then
       bind_m (reader_next_u16 ''wide ret index'') (\<lambda>i. return_m (make_insn insn_ret (Index (unat i))))
     else fail_m (Invalid_wide_opcode opcode))"

definition parse_multianewarray_insn :: "bytecode_insn parser" where
  "parse_multianewarray_insn =
     bind_m (reader_next_u16 ''multianewarray index'') (\<lambda>index.
     bind_m (reader_next_u8 ''multianewarray dimensions'') (\<lambda>dims.
     bind_m (checked_cp_entry (unat index) CP_KIND_CLASS ''multianewarray class'') (\<lambda>p.
     return_m (make_insn insn_multianewarray (Multianewarray p dims)))))"

definition parse_insn_switch :: "nat \<Rightarrow> nat \<Rightarrow> bytecode_insn parser" where
  "parse_insn_switch pc opcode =
     (if opcode \<le> 0x11 then parse_const_insn opcode
      else if opcode \<le> 0x14 then parse_ldc_insn opcode
      else if opcode \<le> 0x2d then parse_load_insn opcode
      else if opcode \<le> 0x35 then return_m (simple_insn (array_load_kinds ! (opcode - 0x2e)))
      else if opcode \<le> 0x4e then parse_store_insn opcode
      else if opcode \<le> 0x5f then return_m (simple_insn (array_store_stack_kinds ! (opcode - 0x4f)))
      else if opcode \<le> 0x83 then return_m (simple_insn (arithmetic_kinds ! (opcode - 0x60)))
      else if opcode = 0x84 then parse_iinc_insn
      else if opcode \<le> 0x98 then return_m (simple_insn (conversion_kinds ! (opcode - 0x85)))
      else if opcode \<le> 0xa8 then parse_branch_insn pc opcode
      else if opcode = 0xa9 then
        bind_m (reader_next_u8 ''ret index'') (\<lambda>i. return_m (make_insn insn_ret (Index (unat i))))
      else if opcode = 0xaa then parse_tableswitch_insn pc
      else if opcode = 0xab then parse_lookupswitch_insn pc
      else if opcode \<le> 0xb1 then return_m (simple_insn (return_kinds ! (opcode - 0xac)))
      else if opcode \<le> 0xb8 then parse_member_insn opcode
      else if opcode = 0xb9 then parse_invokeinterface_insn
      else if opcode = 0xba then parse_invokedynamic_insn
      else if opcode \<le> 0xc3 then parse_object_insn opcode
      else if opcode = 0xc4 then parse_wide_insn opcode
      else if opcode = 0xc5 then parse_multianewarray_insn
      else if opcode \<le> 0xc9 then parse_late_branch_insn pc opcode
      else fail_m (Invalid_opcode opcode))"

definition parse_insn_impl :: "nat \<Rightarrow> bytecode_insn parser" where
  "parse_insn_impl pc =
     bind_m (reader_next_u8 ''instruction opcode'') (\<lambda>opcode. parse_insn_switch pc (unat opcode))"

definition parse_insn :: "nat \<Rightarrow> bytecode_insn parser" where
  "parse_insn pc =
     bind_m (parse_insn_impl pc) (\<lambda>insn. return_m (insn\<lparr>original_pc := word_of_nat pc\<rparr>))"

section \<open>Every instruction takes at least its opcode\<close>

lemma consumes_checked_pc [consumes_rules]: "consumes rd 0 (checked_pc pc off)"
  unfolding checked_pc_def Let_def by (intro consumes_rules)

lemma consumes_skip_padding [consumes_rules]: "consumes rd 0 (skip_padding pc)"
  by (induction pc rule: skip_padding.induct) (subst skip_padding.simps, auto intro!: consumes_rules)

lemma consumes_parse_atype [consumes_rules]: "consumes rd 0 (parse_atype a)"
  unfolding parse_atype_def by (intro consumes_rules)

lemma consumes_switch_insns [consumes_rules]:
  "consumes rd 0 (parse_tableswitch_insn pc)" "consumes rd 0 (parse_lookupswitch_insn pc)"
  unfolding parse_tableswitch_insn_def parse_lookupswitch_insn_def Let_def by (intro consumes_rules)+

lemma consumes_class_insn [consumes_rules]: "consumes rd 0 (parse_class_insn k n)"
  unfolding parse_class_insn_def by (intro consumes_rules)

lemma consumes_insn_groups [consumes_rules]:
  "consumes rd 0 (parse_const_insn op)" "consumes rd 0 (parse_ldc_insn op)" "consumes rd 0 (parse_load_insn op)"
  "consumes rd 0 (parse_store_insn op)" "consumes rd 0 parse_iinc_insn" "consumes rd 0 (parse_branch_insn pc op)"
  "consumes rd 0 (parse_late_branch_insn pc op)" "consumes rd 0 (parse_member_insn op)"
  "consumes rd 0 parse_invokeinterface_insn" "consumes rd 0 parse_invokedynamic_insn"
  "consumes rd 0 (parse_object_insn op)" "consumes rd 0 (parse_wide_insn op)" "consumes rd 0 parse_multianewarray_insn"
  unfolding parse_const_insn_def parse_ldc_insn_def parse_load_insn_def parse_store_insn_def parse_iinc_insn_def
    parse_branch_insn_def parse_late_branch_insn_def parse_member_insn_def parse_invokeinterface_insn_def
    parse_invokedynamic_insn_def parse_object_insn_def parse_wide_insn_def parse_multianewarray_insn_def Let_def
  by (intro consumes_rules)+

lemma consumes_parse_insn_switch [consumes_rules]: "consumes rd 0 (parse_insn_switch pc op)"
  unfolding parse_insn_switch_def by (intro consumes_rules)

lemma consumes_parse_insn: "consumes rd 1 (parse_insn pc)"
proof -
  have "consumes rd (1 + 0) (parse_insn_impl pc)"
    unfolding parse_insn_impl_def by (intro consumes_bind consumes_reader_next_n consumes_rules)
  then have "consumes rd (1 + 0) (parse_insn pc)"
    unfolding parse_insn_def by (intro consumes_bind consumes_rules) simp
  then show ?thesis by simp
qed

section \<open>Method bodies\<close>

text \<open>
  The decoding loop of \<^verbatim>\<open>parse_code_attribute\<close>: \<open>table\<close> is \<^verbatim>\<open>pc_to_insn\<close> (\<open>None\<close> for
  \<^verbatim>\<open>-1\<close>), \<open>code\<close> the instructions decoded so far. The program counter is the distance from
  the start of the code.
\<close>

function parse_insns :: "nat \<Rightarrow> nat option list \<Rightarrow> bytecode_insn list \<Rightarrow>
    (nat option list \<times> bytecode_insn list) parser" where
  "parse_insns code_length table code s =
     (if rd s = [] then Inr ((table, code), s)
      else let pc = code_length - length (rd s) in
        (case parse_insn pc s of
           Inl e \<Rightarrow> Inl e
         | Inr (insn, s') \<Rightarrow>
             parse_insns code_length (table[pc := Some (length code)]) (code @ [insn])
               (s'\<lparr>indy_insns_count := indy_insns_count s' + (if kind insn = insn_invokedynamic then 1 else 0)\<rparr>)))"
  by pat_completeness auto
termination
proof (relation "measure (\<lambda>(n, table, code, s). length (rd s))")
  show "wf (measure (\<lambda>(n, table, code, s :: parse_state). length (rd s)))" by simp
next
  fix n and table :: "nat option list" and code s pc z insn s'
  assume "parse_insn pc s = Inr z" "(insn, s') = z"
  then have "length (rd s') + 1 \<le> length (rd s)"
    using consumesD(2) [OF consumes_parse_insn, of pc s insn s'] by simp
  then show "((n, table[pc := Some (length code)], code @ [insn],
      s'\<lparr>indy_insns_count := indy_insns_count s' + (if kind insn = insn_invokedynamic then 1 else 0)\<rparr>),
      n, table, code, s) \<in> measure (\<lambda>(n, table, code, s). length (rd s))"
    by simp
qed

declare parse_insns.simps [simp del]

definition convert_pc_to_insn :: "nat option list \<Rightarrow> nat \<Rightarrow> nat parser" where
  "convert_pc_to_insn table pc =
     (if length table \<le> pc then fail_m Invalid_access
      else case table ! pc of None \<Rightarrow> fail_m (Invalid_program_counter (int pc)) | Some i \<Rightarrow> return_m i)"

definition is_branch_kind :: "nat \<Rightarrow> bool" where
  "is_branch_kind k \<longleftrightarrow> k \<ge> insn_goto \<and> k \<le> insn_ifnull"

fun convert_payload :: "nat option list \<Rightarrow> nat \<Rightarrow> insn_payload \<Rightarrow> insn_payload parser" where
  "convert_payload table k (Tableswitch d) =
     bind_m (convert_pc_to_insn table (ts_default d)) (\<lambda>def.
     bind_m (map_m (convert_pc_to_insn table) (ts_targets d)) (\<lambda>targets.
     return_m (Tableswitch (d\<lparr>ts_default := def, ts_targets := targets\<rparr>))))"
| "convert_payload table k (Lookupswitch d) =
     bind_m (convert_pc_to_insn table (ls_default d)) (\<lambda>def.
     bind_m (map_m (convert_pc_to_insn table) (ls_targets d)) (\<lambda>targets.
     return_m (Lookupswitch (d\<lparr>ls_default := def, ls_targets := targets\<rparr>))))"
| "convert_payload table k (Index pc) =
     (if is_branch_kind k then bind_m (convert_pc_to_insn table pc) (\<lambda>i. return_m (Index i))
      else return_m (Index pc))"
| "convert_payload table k p = return_m p"

definition convert_insn :: "nat option list \<Rightarrow> bytecode_insn \<Rightarrow> bytecode_insn parser" where
  "convert_insn table insn =
     bind_m (convert_payload table (kind insn) (payload insn)) (\<lambda>p. return_m (insn\<lparr>payload := p\<rparr>))"

definition convert_pcs_to_insn_indices :: "nat option list \<Rightarrow> bytecode_insn list \<Rightarrow> bytecode_insn list parser" where
  "convert_pcs_to_insn_indices table code = map_m (convert_insn table) code"

text \<open>The decoding part of \<^verbatim>\<open>parse_code_attribute\<close>, on the bytes of the code.\<close>

definition parse_code_body :: "u8 list \<Rightarrow> (nat option list \<times> bytecode_insn list) parser" where
  "parse_code_body bytes =
     bind_m (modify_m (\<lambda>s. s\<lparr>current_code_max_pc := length bytes\<rparr>)) (\<lambda>_.
     bind_m (with_slice bytes (parse_insns (length bytes) (replicate (length bytes) None) [])) (\<lambda>(table, code).
     bind_m (convert_pcs_to_insn_indices table code) (\<lambda>code'. return_m (table, code'))))"

section \<open>What the decoder yields\<close>

text \<open>The program counters (later: instruction indices) an instruction may transfer control to.\<close>

definition targets :: "bytecode_insn \<Rightarrow> nat list" where
  "targets i = (case payload i of
      Tableswitch d \<Rightarrow> ts_default d # ts_targets d
    | Lookupswitch d \<Rightarrow> ls_default d # ls_targets d
    | Index t \<Rightarrow> if is_branch_kind (kind i) then [t] else []
    | _ \<Rightarrow> [])"

text \<open>The kinds of pool entries that an instruction with a pool pointer reads.\<close>

definition cp_mask :: "nat \<Rightarrow> u32" where
  "cp_mask k =
     (if k = insn_getfield \<or> k = insn_getstatic \<or> k = insn_putfield \<or> k = insn_putstatic then CP_KIND_FIELD_REF
      else if k = insn_invokedynamic then CP_KIND_INVOKE_DYNAMIC
      else if k = insn_invokevirtual \<or> k = insn_invokespecial \<or> k = insn_invokestatic
        then CP_KIND_METHOD_REF OR CP_KIND_INTERFACE_METHOD_REF
      else if k = insn_invokeinterface then CP_KIND_INTERFACE_METHOD_REF
      else if k = insn_ldc then CP_KIND_STRING OR CP_KIND_CLASS
      else CP_KIND_CLASS)"

text \<open>Which member of the union an instruction of each kind uses: the groups of the enumeration
  in \<^verbatim>\<open>classfile.h\<close> ("No operands", "Indexes into constant pool", "Indexes into local variable
  table", ...).\<close>

definition payload_ok :: "cp_entry list \<Rightarrow> nat \<Rightarrow> insn_payload \<Rightarrow> bool" where
  "payload_ok pool k p = (case p of
      No_payload \<Rightarrow> k \<le> insn_swap
    | Cp i \<Rightarrow> (insn_anewarray \<le> k \<and> k \<le> insn_ldc \<or> k = insn_invokeinterface) \<and>
        i < length pool \<and> entry_kind (pool ! i) AND cp_mask k \<noteq> 0
    | Index _ \<Rightarrow> insn_dload \<le> k \<and> k \<le> insn_ifnull \<or> k = insn_ret
    | Integer_imm _ \<Rightarrow> k = insn_iconst \<or> k = insn_lconst
    | D_imm _ \<Rightarrow> k = insn_dconst
    | F_imm _ \<Rightarrow> k = insn_fconst
    | Iinc x c \<Rightarrow> k = insn_iinc \<and> x < 2 ^ 16 \<and> - (2 ^ 15) \<le> c \<and> c < 2 ^ 15
    | Multianewarray i _ \<Rightarrow> k = insn_multianewarray \<and> i < length pool \<and> entry_kind (pool ! i) = CP_KIND_CLASS
    | Array_type a \<Rightarrow> k = insn_newarray \<and> a \<noteq> TYPE_KIND_VOID \<and> a \<noteq> TYPE_KIND_REFERENCE
    | Tableswitch d \<Rightarrow> k = insn_tableswitch \<and> ts_low d \<le> ts_high d \<and>
        int (length (ts_targets d)) = ts_high d - ts_low d + 1
    | Lookupswitch d \<Rightarrow> k = insn_lookupswitch \<and> length (ls_keys d) = length (ls_targets d))"

definition insn_ok :: "cp_entry list \<Rightarrow> nat \<Rightarrow> bytecode_insn \<Rightarrow> bool" where
  "insn_ok pool n i \<longleftrightarrow> payload_ok pool (kind i) (payload i) \<and> list_all (\<lambda>t. t < n) (targets i)"

text \<open>The context while a method body is decoded; only the reader moves.\<close>

definition code_ctx :: "cp_entry list \<Rightarrow> nat \<Rightarrow> nat \<Rightarrow> parse_state \<Rightarrow> bool" where
  "code_ctx pool n m s \<longleftrightarrow> cp s = pool \<and> current_code_max_pc s = n \<and> indy_insns_count s = m"

abbreviation yields :: "cp_entry list \<Rightarrow> nat \<Rightarrow> nat \<Rightarrow> 'a parser \<Rightarrow> ('a \<Rightarrow> bool) \<Rightarrow> bool" where
  "yields pool n m p V \<equiv> hoare (code_ctx pool n m) p (\<lambda>x s. code_ctx pool n m s \<and> V x) no_ub"

lemma reader_advance_ctx:
  "yields pool n m (reader_advance r k) (\<lambda>d. True)"
  by (auto simp: hoare_def reader_advance_def code_ctx_def split: if_splits)

lemma reader_next_ctx:
  "yields pool n m (reader_next_u8 r) (\<lambda>x. True)" "yields pool n m (reader_next_u16 r) (\<lambda>x. True)"
  "yields pool n m (reader_next_u32 r) (\<lambda>x. True)" "yields pool n m (reader_next_u64 r) (\<lambda>x. True)"
  unfolding reader_next_u8_def reader_next_u16_def reader_next_u32_def reader_next_u64_def
  by (rule hoare_seq [OF reader_advance_ctx], rule hoare_return, simp)+

lemma sint_bounds:
  "- (2 ^ 7) \<le> sint (a :: u8) \<and> sint a < 2 ^ 7" "- (2 ^ 15) \<le> sint (b :: u16) \<and> sint b < 2 ^ 15"
  "- (2 ^ 31) \<le> sint (c :: u32) \<and> sint c < 2 ^ 31" "- (2 ^ 63) \<le> sint (d :: u64) \<and> sint d < 2 ^ 63"
  using sint_range_size [of a] sint_range_size [of b] sint_range_size [of c] sint_range_size [of d]
  by (simp_all add: word_size)

lemma reader_next_s_ctx:
  "yields pool n m (reader_next_s8 r) (\<lambda>x. - (2 ^ 7) \<le> x \<and> x < 2 ^ 7)"
  "yields pool n m (reader_next_s16 r) (\<lambda>x. - (2 ^ 15) \<le> x \<and> x < 2 ^ 15)"
  "yields pool n m (reader_next_s32 r) (\<lambda>x. - (2 ^ 31) \<le> x \<and> x < 2 ^ 31)"
  unfolding reader_next_s8_def reader_next_s16_def reader_next_s32_def
  by (rule hoare_seq [OF reader_next_ctx(1)], rule hoare_return, use sint_bounds in blast)
    (rule hoare_seq [OF reader_next_ctx(2)], rule hoare_return, use sint_bounds in blast,
     rule hoare_seq [OF reader_next_ctx(3)], rule hoare_return, use sint_bounds in blast)

lemma checked_pc_ctx: "yields pool n m (checked_pc pc off) (\<lambda>t. t < n)"
  unfolding checked_pc_def Let_def
  by (auto simp: hoare_def code_ctx_def bind_m_def gets_m_def fail_m_def return_m_def)

lemma checked_cp_entry_ctx:
  "yields pool n m (checked_cp_entry i k r) (\<lambda>p. p < length pool \<and> (entry_kind (pool ! p) AND k \<noteq> 0 \<or> k = 0))"
  unfolding checked_cp_entry_def check_cp_entry_def
  by (auto simp: hoare_def code_ctx_def bind_m_def gets_m_def guard_m_def fail_m_def return_m_def)

lemma skip_padding_ctx: "yields pool n m (skip_padding pc) (\<lambda>x. True)"
proof (induction pc rule: skip_padding.induct)
  case (1 pc)
  then show ?case
    by (subst skip_padding.simps, intro hoare_if hoare_seq [OF reader_next_ctx(1)] hoare_return) auto
qed

text \<open>The groups of the switch.\<close>

lemma simple_insn_ok:
  "k \<le> insn_swap \<Longrightarrow> insn_ok pool n (simple_insn k)"
  by (simp add: insn_ok_def make_insn_def payload_ok_def targets_def)

lemma index_insn_ok:
  "insn_dload \<le> k \<and> k \<le> insn_astore \<or> k = insn_ret \<Longrightarrow> insn_ok pool n (make_insn k (Index i))"
  by (auto simp: insn_ok_def make_insn_def payload_ok_def targets_def is_branch_kind_def)

lemma branch_insn_ok:
  "is_branch_kind k \<Longrightarrow> t < n \<Longrightarrow> insn_ok pool n (make_insn k (Index t))"
  by (auto simp: insn_ok_def make_insn_def payload_ok_def targets_def is_branch_kind_def)

lemma cp_insn_ok:
  "insn_anewarray \<le> k \<and> k \<le> insn_ldc \<or> k = insn_invokeinterface \<Longrightarrow>
   i < length pool \<Longrightarrow> entry_kind (pool ! i) AND cp_mask k \<noteq> 0 \<Longrightarrow> insn_ok pool n (make_insn k (Cp i))"
  by (auto simp: insn_ok_def make_insn_def payload_ok_def targets_def)

lemma imm_insn_ok:
  "insn_ok pool n (make_insn insn_iconst (Integer_imm v))" "insn_ok pool n (make_insn insn_lconst (Integer_imm v))"
  "insn_ok pool n (make_insn insn_fconst (F_imm f))" "insn_ok pool n (make_insn insn_dconst (D_imm d))"
  "x < 2 ^ 16 \<Longrightarrow> - (2 ^ 15) \<le> c \<and> c < 2 ^ 15 \<Longrightarrow> insn_ok pool n (make_insn insn_iinc (Iinc x c))"
  by (simp_all add: insn_ok_def make_insn_def payload_ok_def targets_def)

lemma nth_kind: "list_all P ks \<Longrightarrow> j < length ks \<Longrightarrow> P (ks ! j)"
  by (simp add: list_all_length)

lemma operandless_tables:
  "list_all (\<lambda>k. k \<le> insn_swap) array_load_kinds" "list_all (\<lambda>k. k \<le> insn_swap) array_store_stack_kinds"
  "list_all (\<lambda>k. k \<le> insn_swap) arithmetic_kinds" "list_all (\<lambda>k. k \<le> insn_swap) conversion_kinds"
  "list_all (\<lambda>k. k \<le> insn_swap) return_kinds"
  by (simp_all add: array_load_kinds_def array_store_stack_kinds_def arithmetic_kinds_def conversion_kinds_def
      return_kinds_def)

lemma operand_tables:
  "list_all is_branch_kind branch_kinds"
  "list_all (\<lambda>k. insn_dload \<le> k \<and> k \<le> insn_astore \<or> k = insn_ret) load_kinds"
  "list_all (\<lambda>k. insn_dload \<le> k \<and> k \<le> insn_astore \<or> k = insn_ret) store_kinds"
  by (simp_all add: branch_kinds_def load_kinds_def store_kinds_def is_branch_kind_def)

lemma table_lengths:
  "length array_load_kinds = 8" "length array_store_stack_kinds = 17" "length arithmetic_kinds = 36"
  "length conversion_kinds = 20" "length return_kinds = 6" "length branch_kinds = 16" "length load_kinds = 5"
  "length store_kinds = 5" "length member_kinds = 7"
  by (simp_all add: array_load_kinds_def array_store_stack_kinds_def arithmetic_kinds_def conversion_kinds_def
      return_kinds_def branch_kinds_def load_kinds_def store_kinds_def member_kinds_def)

lemma parse_const_insn_ok:
  "opcode \<le> 0x11 \<Longrightarrow> yields pool n m (parse_const_insn opcode) (insn_ok pool n)"
  unfolding parse_const_insn_def
  by (intro hoare_if hoare_return hoare_seq [OF reader_next_s_ctx(1)] hoare_seq [OF reader_next_s_ctx(2)] conjI
      simple_insn_ok imm_insn_ok; simp)

lemma parse_load_insn_ok:
  "0x15 \<le> opcode \<Longrightarrow> opcode \<le> 0x2d \<Longrightarrow> yields pool n m (parse_load_insn opcode) (insn_ok pool n)"
  unfolding parse_load_insn_def
  by (intro hoare_if hoare_return hoare_seq [OF reader_next_ctx(1)] conjI index_insn_ok nth_kind [OF operand_tables(2)])
    (auto simp: table_lengths)

lemma parse_store_insn_ok:
  "0x36 \<le> opcode \<Longrightarrow> opcode \<le> 0x4e \<Longrightarrow> yields pool n m (parse_store_insn opcode) (insn_ok pool n)"
  unfolding parse_store_insn_def
  by (intro hoare_if hoare_return hoare_seq [OF reader_next_ctx(1)] conjI index_insn_ok nth_kind [OF operand_tables(3)])
    (auto simp: table_lengths)

lemma parse_iinc_insn_ok: "yields pool n m parse_iinc_insn (insn_ok pool n)"
  unfolding parse_iinc_insn_def
  by (intro hoare_return hoare_seq [OF reader_next_ctx(1)] hoare_seq [OF reader_next_s_ctx(1)] conjI imm_insn_ok)
    (auto intro: less_trans [OF unat_bound])

lemma ldc_insn_ok:
  assumes "p < length pool" and "entry_kind (pool ! p) AND k \<noteq> 0"
    and "k = CP_KIND_DOUBLE OR CP_KIND_LONG \<or> k = CP_KIND_INTEGER OR CP_KIND_FLOAT OR CP_KIND_STRING OR CP_KIND_CLASS"
  shows "insn_ok pool n (ldc_insn p (info (pool ! p)))"
  using assms
  by (cases "info (pool ! p)")
    (auto simp: insn_ok_def make_insn_def payload_ok_def targets_def cp_mask_def)

lemma parse_ldc_insn_ok: "yields pool n m (parse_ldc_insn opcode) (insn_ok pool n)"
proof -
  let ?kinds = "if opcode = 0x14 then CP_KIND_DOUBLE OR CP_KIND_LONG
    else CP_KIND_INTEGER OR CP_KIND_FLOAT OR CP_KIND_STRING OR CP_KIND_CLASS"
  have index: "yields pool n m (if opcode = 0x12 then bind_m (reader_next_u8 ''ldc index'') (\<lambda>i. return_m (unat i))
             else if opcode = 0x13 then bind_m (reader_next_u16 ''ldc_w index'') (\<lambda>i. return_m (unat i))
             else bind_m (reader_next_u16 ''ldc2_w index'') (\<lambda>i. return_m (unat i))) (\<lambda>i. True)"
    by (intro hoare_if hoare_seq [OF reader_next_ctx(1)] hoare_seq [OF reader_next_ctx(2)] hoare_return; simp)
  have entry: "yields pool n m (if opcode = 0x14
             then checked_cp_entry i (CP_KIND_DOUBLE OR CP_KIND_LONG) ''ldc2_w index''
             else checked_cp_entry i (CP_KIND_INTEGER OR CP_KIND_FLOAT OR CP_KIND_STRING OR CP_KIND_CLASS)
                    ''ldc/ldc_w index'') (\<lambda>p. p < length pool \<and> entry_kind (pool ! p) AND ?kinds \<noteq> 0)" for i
    using checked_cp_entry_ctx [of pool n m i "CP_KIND_DOUBLE OR CP_KIND_LONG" "''ldc2_w index''"]
      checked_cp_entry_ctx [of pool n m i "CP_KIND_INTEGER OR CP_KIND_FLOAT OR CP_KIND_STRING OR CP_KIND_CLASS"
        "''ldc/ldc_w index''"]
    by simp
  have last: "yields pool n m (bind_m (gets_m (\<lambda>s. info (cp s ! p))) (\<lambda>e. return_m (ldc_insn p e))) (insn_ok pool n)"
    if "p < length pool \<and> entry_kind (pool ! p) AND ?kinds \<noteq> 0" for p
    using that ldc_insn_ok [of p pool ?kinds n]
    by (auto simp: hoare_def code_ctx_def bind_m_def gets_m_def return_m_def split: if_splits)
  show ?thesis
    unfolding parse_ldc_insn_def
    by (rule hoare_seq [OF index], rule hoare_seq [OF entry]) (rule last)
qed

lemma parse_branch_insn_ok:
  "0x99 \<le> opcode \<Longrightarrow> opcode \<le> 0xa8 \<Longrightarrow> yields pool n m (parse_branch_insn pc opcode) (insn_ok pool n)"
  unfolding parse_branch_insn_def
  by (intro hoare_return hoare_seq [OF reader_next_s_ctx(2)] hoare_seq [OF checked_pc_ctx] conjI branch_insn_ok
      nth_kind [OF operand_tables(1)]) (auto simp: table_lengths)

lemma parse_late_branch_insn_ok: "yields pool n m (parse_late_branch_insn pc opcode) (insn_ok pool n)"
proof -
  have off: "yields pool n m (if opcode = 0xc6 then reader_next_s16 ''ifnull offset''
             else if opcode = 0xc7 then reader_next_s16 ''ifnonnull offset''
             else if opcode = 0xc8 then reader_next_s32 ''goto_w offset''
             else reader_next_s32 ''jsr_w offset'') (\<lambda>x. True)"
    by (intro hoare_if hoare_weaken [OF reader_next_s_ctx(2)] hoare_weaken [OF reader_next_s_ctx(3)]) simp_all
  show ?thesis
    unfolding parse_late_branch_insn_def
    by (rule hoare_seq [OF off], rule hoare_seq [OF checked_pc_ctx], intro hoare_return conjI branch_insn_ok)
      (auto simp: is_branch_kind_def)
qed

lemma parse_member_insn_ok:
  assumes "0xb2 \<le> opcode" "opcode \<le> 0xb8"
  shows "yields pool n m (parse_member_insn opcode) (insn_ok pool n)"
proof -
  define j where "j = opcode - 0xb2"
  have op: "opcode = 0xb2 + j" using assms by (simp add: j_def)
  have "j = 0 \<or> j = 1 \<or> j = 2 \<or> j = 3 \<or> j = 4 \<or> j = 5 \<or> j = 6" using assms by (simp add: j_def) presburger
  then have k: "insn_anewarray \<le> member_kinds ! j \<and> member_kinds ! j \<le> insn_ldc"
    "cp_mask (member_kinds ! j) = (if opcode \<le> 0xb5 then CP_KIND_FIELD_REF
       else CP_KIND_METHOD_REF OR CP_KIND_INTERFACE_METHOD_REF)"
    by (elim disjE; simp add: op member_kinds_def cp_mask_def)+
  show ?thesis
    unfolding parse_member_insn_def
    by (rule hoare_seq [OF reader_next_ctx(2)], rule hoare_seq [OF checked_cp_entry_ctx],
        intro hoare_return conjI cp_insn_ok) (use k in \<open>auto simp: op split: if_splits\<close>)
qed

lemma parse_pool_insns_ok:
  "yields pool n m parse_invokeinterface_insn (insn_ok pool n)"
  "yields pool n m parse_invokedynamic_insn (insn_ok pool n)"
  unfolding parse_invokeinterface_insn_def parse_invokedynamic_insn_def
  by (intro hoare_seq [OF reader_next_ctx(1)] hoare_seq [OF reader_next_ctx(2)] hoare_seq [OF checked_cp_entry_ctx]
      hoare_return conjI cp_insn_ok; simp add: cp_mask_def)+

lemma parse_class_insn_ok:
  "k = insn_new \<or> k = insn_anewarray \<or> k = insn_checkcast \<or> k = insn_instanceof \<Longrightarrow>
   yields pool n m (parse_class_insn k name) (insn_ok pool n)"
  unfolding parse_class_insn_def
  by (intro hoare_seq [OF reader_next_ctx(2)] hoare_seq [OF checked_cp_entry_ctx] hoare_return conjI cp_insn_ok)
    (auto simp: cp_mask_def)

lemma parse_atype_ok:
  "yields pool n m (parse_atype a) (\<lambda>k. k \<noteq> TYPE_KIND_VOID \<and> k \<noteq> TYPE_KIND_REFERENCE)"
  unfolding parse_atype_def by (intro hoare_if hoare_return hoare_fail; simp)

lemma parse_object_insn_ok: "yields pool n m (parse_object_insn opcode) (insn_ok pool n)"
  unfolding parse_object_insn_def
  by (intro hoare_if hoare_seq [OF reader_next_ctx(1)] hoare_seq [OF parse_atype_ok] parse_class_insn_ok hoare_return
      conjI simple_insn_ok) (auto simp: insn_ok_def make_insn_def payload_ok_def targets_def)

lemma parse_wide_insn_ok: "yields pool n m (parse_wide_insn opcode) (insn_ok pool n)"
  unfolding parse_wide_insn_def Let_def
  by (intro hoare_if hoare_seq [OF reader_next_ctx(1)] hoare_seq [OF reader_next_ctx(2)] hoare_seq [OF reader_next_s_ctx(2)]
      hoare_return hoare_fail conjI)
    (auto simp: table_lengths intro!: index_insn_ok imm_insn_ok nth_kind [OF operand_tables(2)]
      nth_kind [OF operand_tables(3)] less_le_trans [OF unat_bound])

lemma class_kind: "kind_of e AND CP_KIND_CLASS \<noteq> 0 \<Longrightarrow> kind_of e = CP_KIND_CLASS"
  by (cases e) auto

lemma parse_multianewarray_insn_ok: "yields pool n m parse_multianewarray_insn (insn_ok pool n)"
  unfolding parse_multianewarray_insn_def
  by (intro hoare_seq [OF reader_next_ctx(1)] hoare_seq [OF reader_next_ctx(2)] hoare_seq [OF checked_cp_entry_ctx]
      hoare_return conjI) (auto simp: insn_ok_def make_insn_def payload_ok_def targets_def dest: class_kind)

lemma guard_ctx: "no_ub e \<Longrightarrow> yields pool n m (guard_m b e) (\<lambda>_. b)"
  by (rule hoare_guard) auto

lemma parse_tableswitch_insn_ok: "yields pool n m (parse_tableswitch_insn pc) (insn_ok pool n)"
proof -
  have targets: "yields pool n m (repeat_m c
      (bind_m (reader_next_s32 ''tableswitch target'') (\<lambda>off. checked_pc pc off)))
      (\<lambda>ts. length ts = c \<and> (\<forall>t\<in>set ts. t < n))" for c
    by (rule hoare_repeat, rule hoare_seq [OF reader_next_s_ctx(3)], rule checked_pc_ctx)
  show ?thesis
    unfolding parse_tableswitch_insn_def Let_def
    by (rule hoare_seq [OF skip_padding_ctx], rule hoare_seq [OF reader_next_s_ctx(3)], rule hoare_seq [OF checked_pc_ctx],
        rule hoare_seq [OF reader_next_s_ctx(3)], rule hoare_seq [OF reader_next_s_ctx(3)],
        rule hoare_seq [OF guard_ctx], simp, rule hoare_seq [OF guard_ctx], simp,
        rule hoare_seq [OF targets], rule hoare_return)
      (auto simp: insn_ok_def make_insn_def payload_ok_def targets_def list_all_iff)
qed

lemma parse_lookupswitch_insn_ok: "yields pool n m (parse_lookupswitch_insn pc) (insn_ok pool n)"
proof -
  have pairs: "yields pool n m (repeat_m c
      (bind_m (reader_next_s32 ''lookupswitch key'') (\<lambda>key.
       bind_m (reader_next_s32 ''lookupswitch target'') (\<lambda>off.
       bind_m (checked_pc pc off) (\<lambda>target. return_m (key, target))))))
      (\<lambda>ts. length ts = c \<and> (\<forall>t\<in>set ts. snd t < n))" for c
    by (rule hoare_repeat, rule hoare_seq [OF reader_next_s_ctx(3)], rule hoare_seq [OF reader_next_s_ctx(3)],
        rule hoare_seq [OF checked_pc_ctx], rule hoare_return) simp
  show ?thesis
    unfolding parse_lookupswitch_insn_def
    by (rule hoare_seq [OF skip_padding_ctx], rule hoare_seq [OF reader_next_s_ctx(3)], rule hoare_seq [OF checked_pc_ctx],
        rule hoare_seq [OF reader_next_s_ctx(3)], rule hoare_seq [OF guard_ctx], simp,
        rule hoare_seq [OF pairs], rule hoare_return)
      (auto simp: insn_ok_def make_insn_def payload_ok_def targets_def list_all_iff)
qed

lemma parse_insn_switch_ok: "yields pool n m (parse_insn_switch pc opcode) (insn_ok pool n)"
  unfolding parse_insn_switch_def
  by (intro hoare_if parse_const_insn_ok parse_ldc_insn_ok parse_load_insn_ok parse_store_insn_ok parse_iinc_insn_ok
      parse_branch_insn_ok parse_tableswitch_insn_ok parse_lookupswitch_insn_ok parse_member_insn_ok parse_pool_insns_ok
      parse_object_insn_ok parse_wide_insn_ok parse_multianewarray_insn_ok parse_late_branch_insn_ok hoare_fail
      hoare_seq [OF reader_next_ctx(1)] hoare_return conjI simple_insn_ok index_insn_ok operandless_tables [THEN nth_kind];
      simp add: table_lengths)

lemma targets_original_pc [simp]: "targets (i\<lparr>original_pc := p\<rparr>) = targets i"
  by (cases "payload i") (simp_all add: targets_def)

lemma parse_insn_ok:
  "yields pool n m (parse_insn pc) (\<lambda>i. insn_ok pool n i \<and> original_pc i = word_of_nat pc)"
  unfolding parse_insn_def parse_insn_impl_def
  by (rule hoare_seq [OF hoare_seq [OF reader_next_ctx(1) parse_insn_switch_ok]], rule hoare_return)
    (simp add: insn_ok_def)

section \<open>The decoding loop\<close>

text \<open>
  The decoder is a linear sweep: the instructions tile the code, each one starting where the
  one before it ended. \<open>decodes\<close> says that the instruction is what \<open>parse_insn\<close> makes of
  the bytes from \<open>p\<close> on, and that it stops at \<open>q\<close>.
\<close>

definition decodes :: "cp_entry list \<Rightarrow> u8 list \<Rightarrow> nat \<Rightarrow> bytecode_insn \<Rightarrow> nat \<Rightarrow> bool" where
  "decodes pool bytes p i q \<longleftrightarrow> p < q \<and> q \<le> length bytes \<and>
     (\<exists>s t. cp s = pool \<and> current_code_max_pc s = length bytes \<and> rd s = drop p bytes \<and> rd t = drop q bytes \<and>
        parse_insn p s = Inr (i, t))"

fun tiles :: "cp_entry list \<Rightarrow> u8 list \<Rightarrow> nat \<Rightarrow> bytecode_insn list \<Rightarrow> bool" where
  "tiles pool bytes p [] \<longleftrightarrow> p = length bytes"
| "tiles pool bytes p (i # is) \<longleftrightarrow> (\<exists>q. decodes pool bytes p i q \<and> tiles pool bytes q is)"

definition pcs :: "bytecode_insn list \<Rightarrow> nat list" where
  "pcs code = map (\<lambda>i. unat (original_pc i)) code"

text \<open>\<^verbatim>\<open>pc_to_insn\<close> is the inverse of the list of program counters.\<close>

definition table_ok :: "nat option list \<Rightarrow> bytecode_insn list \<Rightarrow> bool" where
  "table_ok table code \<longleftrightarrow>
     (\<forall>p < length table. \<forall>k. table ! p = Some k \<longleftrightarrow> k < length code \<and> pcs code ! k = p)"

lemma table_ok_step:
  assumes "table_ok table code" "pc < length table" "\<forall>p\<in>set (pcs code). p < pc" "unat (original_pc i) = pc"
  shows "table_ok (table[pc := Some (length code)]) (code @ [i])"
  unfolding table_ok_def
proof (intro allI impI)
  fix p k
  assume p: "p < length (table[pc := Some (length code)])"
  have lt: "k < length code \<Longrightarrow> pcs code ! k < pc"
    using assms(3) by (simp add: pcs_def)
  have nth: "pcs (code @ [i]) ! k = (if k < length code then pcs code ! k else pc)" if "k < length (code @ [i])"
    using that assms(4) by (auto simp: pcs_def nth_append less_Suc_eq)
  show "table[pc := Some (length code)] ! p = Some k \<longleftrightarrow> k < length (code @ [i]) \<and> pcs (code @ [i]) ! k = p"
  proof (cases "p = pc")
    case True
    then show ?thesis using lt nth assms(2) by (auto split: if_splits)
  next
    case False
    then show ?thesis using p nth assms(1) by (auto simp: table_ok_def split: if_splits)
  qed
qed

lemma parse_insns_sweep:
  assumes "parse_insns N table code s = Inr ((table', code'), t)" "N = length bytes" "N < 2 ^ 16"
    "suffix (rd s) bytes" "cp s = pool" "current_code_max_pc s = N" "length table = N"
    "table_ok table code" "sorted_wrt (<) (pcs code)" "\<forall>p\<in>set (pcs code). p < N - length (rd s)"
  shows "\<exists>is. code' = code @ is \<and> tiles pool bytes (N - length (rd s)) is \<and> list_all (insn_ok pool N) is \<and>
    table_ok table' code' \<and> length table' = N \<and> sorted_wrt (<) (pcs code') \<and> cp t = pool \<and>
    current_code_max_pc t = N"
  using assms
proof (induction N table code s arbitrary: t rule: parse_insns.induct)
  case (1 N table code s)
  show ?case
  proof (cases "rd s = []")
    case True
    with "1.prems"(1) have "table' = table" "code' = code" "t = s"
      by (simp_all add: parse_insns.simps [of N table code s])
    with True "1.prems" show ?thesis by simp
  next
    case False
    let ?pc = "N - length (rd s)"
    from False "1.prems"(1) obtain i u where i: "parse_insn ?pc s = Inr (i, u)"
      and rest: "parse_insns N (table[?pc := Some (length code)]) (code @ [i])
        (u\<lparr>indy_insns_count := indy_insns_count u + (if kind i = insn_invokedynamic then 1 else 0)\<rparr>)
        = Inr ((table', code'), t)" (is "parse_insns N ?table ?code ?u = _")
      by (subst (asm) parse_insns.simps) (auto simp: Let_def split: sum.splits)
    have ok: "insn_ok pool N i" "original_pc i = word_of_nat ?pc" "cp u = pool" "current_code_max_pc u = N"
      using hoareD [OF parse_insn_ok [of pool N "indy_insns_count s" ?pc], of s i u] i "1.prems"(5,6)
      by (auto simp: code_ctx_def)
    note c = consumesD [OF consumes_parse_insn i]
    have len: "length (rd s) \<le> N" using "1.prems"(2,4) suffix_length_le by blast
    have pc: "unat (original_pc i) = ?pc"
      using ok(2) "1.prems"(3) by (simp add: unat_of_nat)
    have rds: "rd s = drop ?pc bytes" "rd u = drop (N - length (rd u)) bytes"
      using "1.prems"(2,4) c(1) by (auto simp: suffix_def)
    have dec: "decodes pool bytes ?pc i (N - length (rd u))"
      unfolding decodes_def using rds i "1.prems"(2,5,6) c(2) len by fastforce
    have "\<exists>is. code' = ?code @ is \<and> tiles pool bytes (N - length (rd ?u)) is \<and> list_all (insn_ok pool N) is \<and>
        table_ok table' code' \<and> length table' = N \<and> sorted_wrt (<) (pcs code') \<and> cp t = pool \<and> current_code_max_pc t = N"
    proof (rule "1.IH" [OF False refl i [symmetric, THEN sym] refl rest])
      show "table_ok ?table ?code"
        using table_ok_step [of table code ?pc i] "1.prems"(7,8,10) pc False len by (cases "rd s") auto
      show "sorted_wrt (<) (pcs ?code)" "\<forall>p\<in>set (pcs ?code). p < N - length (rd ?u)"
        using "1.prems"(9,10) pc c(2) len by (auto simp: pcs_def sorted_wrt_append)
      show "suffix (rd ?u) bytes" using c(1) "1.prems"(4) by simp
    qed (use "1.prems" ok in simp_all)
    then show ?thesis using dec ok(1) by auto
  qed
qed

lemma parse_insns_no_ub:
  assumes "parse_insns N table code s = Inl e"
  shows "no_ub e"
  using assms
proof (induction N table code s rule: parse_insns.induct)
  case (1 N table code s)
  let ?pc = "N - length (rd s)"
  have e: "no_ub e'" if "parse_insn ?pc s = Inl e'" for e'
    using hoareD_err [OF parse_insn_ok [of "cp s" "current_code_max_pc s" "indy_insns_count s" ?pc], of s] that
    by (simp add: code_ctx_def)
  have ne: "rd s \<noteq> []" using "1.prems" by (auto simp: parse_insns.simps [of N table code s])
  show ?case
  proof (cases "parse_insn ?pc s")
    case (Inl e')
    with "1.prems" ne e show ?thesis by (simp add: parse_insns.simps [of N table code s] Let_def)
  next
    case (Inr z)
    obtain i u where z: "z = (i, u)" by (cases z)
    have "parse_insns N (table[?pc := Some (length code)]) (code @ [i])
        (u\<lparr>indy_insns_count := indy_insns_count u + (if kind i = insn_invokedynamic then 1 else 0)\<rparr>) = Inl e"
      using "1.prems" ne Inr z by (simp add: parse_insns.simps [of N table code s] Let_def)
    with "1.IH" [OF ne refl Inr z [symmetric]] z show ?thesis by simp
  qed
qed

section \<open>From program counters to instruction indices\<close>

lemma convert_pc_ok:
  assumes "table_ok table code" "p < length table"
  shows "hoare C (convert_pc_to_insn table p) (\<lambda>i s. C s \<and> i < length code \<and> pcs code ! i = p) no_ub"
  using assms by (auto simp: hoare_def convert_pc_to_insn_def fail_m_def return_m_def table_ok_def split: option.splits)

lemma convert_pcs_ok:
  assumes "table_ok table code" "list_all (\<lambda>p. p < length table) ps"
  shows "hoare C (map_m (convert_pc_to_insn table) ps)
    (\<lambda>is s. C s \<and> list_all2 (\<lambda>p i. i < length code \<and> pcs code ! i = p) ps is) no_ub"
  using assms by (intro hoare_map convert_pc_ok) (auto simp: list_all_iff)

text \<open>The converted instruction is the raw one with every target replaced by the index of the
  instruction that starts there.\<close>

definition converted :: "bytecode_insn list \<Rightarrow> bytecode_insn \<Rightarrow> bytecode_insn \<Rightarrow> bool" where
  "converted code r c \<longleftrightarrow> kind c = kind r \<and> original_pc c = original_pc r \<and>
     list_all2 (\<lambda>p i. i < length code \<and> pcs code ! i = p) (targets r) (targets c) \<and>
     (\<forall>pool. payload_ok pool (kind r) (payload r) \<longrightarrow> payload_ok pool (kind c) (payload c))"

lemma convert_insn_ok:
  assumes t: "table_ok table code" and r: "insn_ok pool (length table) r"
  shows "hoare C (convert_insn table r) (\<lambda>c s. C s \<and> converted code r c) no_ub"
proof (cases "payload r")
  case (Tableswitch d)
  from r Tableswitch have "ts_default d < length table" "list_all (\<lambda>p. p < length table) (ts_targets d)"
    by (auto simp: insn_ok_def targets_def)
  note c = convert_pc_ok [where C = C, OF t this(1)] convert_pcs_ok [where C = C, OF t this(2)]
  show ?thesis
    unfolding convert_insn_def Tableswitch convert_payload.simps bind_m_assoc bind_m_return
    by (rule hoare_seq [OF c(1)], rule hoare_seq [OF c(2)], rule hoare_return)
      (auto simp: converted_def Tableswitch targets_def payload_ok_def dest!: list_all2_lengthD)
next
  case (Lookupswitch d)
  from r Lookupswitch have "ls_default d < length table" "list_all (\<lambda>p. p < length table) (ls_targets d)"
    by (auto simp: insn_ok_def targets_def)
  note c = convert_pc_ok [where C = C, OF t this(1)] convert_pcs_ok [where C = C, OF t this(2)]
  show ?thesis
    unfolding convert_insn_def Lookupswitch convert_payload.simps bind_m_assoc bind_m_return
    by (rule hoare_seq [OF c(1)], rule hoare_seq [OF c(2)], rule hoare_return)
      (auto simp: converted_def Lookupswitch targets_def payload_ok_def dest!: list_all2_lengthD)
next
  case (Index p)
  show ?thesis
  proof (cases "is_branch_kind (kind r)")
    case True
    with r Index have "p < length table" by (simp add: insn_ok_def targets_def)
    note c = convert_pc_ok [where C = C, OF t this]
    from True show ?thesis
      unfolding convert_insn_def Index convert_payload.simps
      by (simp add: bind_m_assoc bind_m_return, intro hoare_seq [OF c] hoare_return)
        (auto simp: converted_def Index targets_def payload_ok_def)
  qed (auto simp: convert_insn_def Index hoare_def bind_m_def return_m_def converted_def targets_def payload_ok_def)
qed (auto simp: convert_insn_def hoare_def bind_m_def return_m_def converted_def targets_def payload_ok_def)

text \<open>How many \<^verbatim>\<open>invokedynamic\<close> instructions the context has counted.\<close>

definition indy_count :: "bytecode_insn list \<Rightarrow> nat" where
  "indy_count body = length (filter (\<lambda>i. kind i = insn_invokedynamic) body)"

lemma parse_insns_indy:
  assumes "parse_insns N table body s = Inr ((table', body'), t)"
  shows "indy_insns_count t + indy_count body = indy_insns_count s + indy_count body'"
  using assms
proof (induction N table body s arbitrary: t rule: parse_insns.induct)
  case (1 N table body s)
  show ?case
  proof (cases "rd s = []")
    case True
    with "1.prems" show ?thesis by (auto simp: parse_insns.simps [of N table body s])
  next
    case False
    let ?pc = "N - length (rd s)"
    from False "1.prems"(1) obtain i u where i: "parse_insn ?pc s = Inr (i, u)"
      and rest: "parse_insns N (table[?pc := Some (length body)]) (body @ [i])
        (u\<lparr>indy_insns_count := indy_insns_count u + (if kind i = insn_invokedynamic then 1 else 0)\<rparr>)
        = Inr ((table', body'), t)"
      by (subst (asm) parse_insns.simps) (auto simp: Let_def split: sum.splits)
    have "indy_insns_count u = indy_insns_count s"
      using hoareD [OF parse_insn_ok [of "cp s" "current_code_max_pc s" "indy_insns_count s" ?pc], of s i u] i
      by (auto simp: code_ctx_def)
    with "1.IH" [OF False refl i refl rest] show ?thesis by (auto simp: indy_count_def split: if_splits)
  qed
qed

lemma tiles_length: "tiles pool bytes p is \<Longrightarrow> length is + p \<le> length bytes"
  by (induction "is" arbitrary: p) (fastforce simp: decodes_def)+

lemma converted_indy: "list_all2 (converted raw') raw code \<Longrightarrow> indy_count code = indy_count raw"
  by (induction rule: list_all2_induct) (auto simp: indy_count_def converted_def)

lemma converted_pcs: "list_all2 (converted raw') raw code \<Longrightarrow> pcs code = pcs raw"
  by (induction rule: list_all2_induct) (auto simp: pcs_def converted_def)

lemma table_ok_init: "table_ok (replicate n None) []"
  by (simp add: table_ok_def)

lemma parse_code_body_Inr:
  assumes "parse_code_body bytes s = Inr ((table, code), t)" "length bytes < 2 ^ 16"
  obtains raw where "tiles (cp s) bytes 0 raw" "list_all (insn_ok (cp s) (length bytes)) raw"
    "list_all2 (converted raw) raw code" "table_ok table raw" "length table = length bytes"
    "sorted_wrt (<) (pcs raw)" "cp t = cp s" "rd t = rd s" "current_code_max_pc t = length bytes"
    "indy_insns_count t = indy_insns_count s + indy_count code"
proof -
  let ?n = "length bytes"
  let ?s = "s\<lparr>current_code_max_pc := ?n, rd := bytes\<rparr>"
  from assms(1) obtain raw u where
    p: "parse_insns ?n (replicate ?n None) [] ?s = Inr ((table, raw), u)"
    and c: "convert_pcs_to_insn_indices table raw (u\<lparr>rd := rd s\<rparr>) = Inr (code, t)"
    by (auto simp: parse_code_body_def bind_m_Inr_iff with_slice_def split: sum.splits prod.splits)
  have sweep: "tiles (cp s) bytes 0 raw \<and> list_all (insn_ok (cp s) ?n) raw \<and> table_ok table raw \<and> length table = ?n \<and>
      sorted_wrt (<) (pcs raw) \<and> cp u = cp s \<and> current_code_max_pc u = ?n"
    using parse_insns_sweep [OF p refl assms(2)] by (auto simp: table_ok_init pcs_def)
  let ?C = "\<lambda>x. x = u\<lparr>rd := rd s\<rparr>"
  have "hoare ?C (convert_pcs_to_insn_indices table raw) (\<lambda>code x. ?C x \<and> list_all2 (converted raw) raw code) no_ub"
    unfolding convert_pcs_to_insn_indices_def
    using sweep by (intro hoare_map convert_insn_ok [of table raw "cp s"]) (auto simp: list_all_iff)
  from hoareD [OF this _ c] have conv: "t = u\<lparr>rd := rd s\<rparr>" "list_all2 (converted raw) raw code" by auto
  have "indy_insns_count u = indy_insns_count s + indy_count raw"
    using parse_insns_indy [OF p] by (simp add: indy_count_def)
  with conv sweep converted_indy [OF conv(2)] show ?thesis by (intro that [of raw]) auto
qed

lemma parse_code_body_no_ub:
  assumes "parse_code_body bytes s = Inl e" "length bytes < 2 ^ 16"
  shows "no_ub e"
proof -
  let ?n = "length bytes"
  let ?s = "s\<lparr>current_code_max_pc := ?n, rd := bytes\<rparr>"
  from assms(1) consider "parse_insns ?n (replicate ?n None) [] ?s = Inl e"
    | table raw u where "parse_insns ?n (replicate ?n None) [] ?s = Inr ((table, raw), u)"
      "convert_pcs_to_insn_indices table raw (u\<lparr>rd := rd s\<rparr>) = Inl e"
    by (auto simp: parse_code_body_def bind_m_Inl_iff with_slice_def split: sum.splits prod.splits)
  then show ?thesis
  proof cases
    case 1
    then show ?thesis by (rule parse_insns_no_ub)
  next
    case 2
    have sweep: "list_all (insn_ok (cp s) ?n) raw" "table_ok table raw" "length table = ?n"
      using parse_insns_sweep [OF 2(1) refl assms(2)] by (auto simp: table_ok_init pcs_def)
    have "hoare (\<lambda>_. True) (convert_pcs_to_insn_indices table raw)
        (\<lambda>code x. True \<and> list_all2 (converted raw) raw code) no_ub"
      unfolding convert_pcs_to_insn_indices_def
      using sweep by (intro hoare_map convert_insn_ok [of table raw "cp s"]) (auto simp: list_all_iff)
    from hoareD_err [OF this _ 2(2)] show ?thesis by simp
  qed
qed

lemma converted_targets:
  assumes "converted raw r c"
  shows "map ((!) (pcs raw)) (targets c) = targets r" "list_all (\<lambda>i. i < length raw) (targets c)"
proof -
  have "list_all2 (\<lambda>p i. i < length raw \<and> pcs raw ! i = p) (targets r) (targets c)"
    using assms by (simp add: converted_def)
  then show "map ((!) (pcs raw)) (targets c) = targets r" "list_all (\<lambda>i. i < length raw) (targets c)"
    by (auto simp: list_all2_conv_all_nth list_all_length intro: nth_equalityI)
qed

lemma parse_code_body_facts:
  assumes "parse_code_body bytes s = Inr ((table, code), t)" "length bytes < 2 ^ 16"
  shows "list_all (insn_ok (cp s) (length code)) code" "table_ok table code" "length table = length bytes"
    "sorted_wrt (<) (pcs code)" "length code \<le> length bytes" "bytes \<noteq> [] \<Longrightarrow> code \<noteq> []"
proof -
  from parse_code_body_Inr [OF assms] obtain raw where raw: "tiles (cp s) bytes 0 raw" "table_ok table raw"
      "list_all (insn_ok (cp s) (length bytes)) raw" "list_all2 (converted raw) raw code" "length table = length bytes"
      "sorted_wrt (<) (pcs raw)" .
  have len: "length raw = length code" using raw(4) by (rule list_all2_lengthD)
  have pcs: "pcs code = pcs raw" by (rule converted_pcs [OF raw(4)])
  have "insn_ok (cp s) (length code) (code ! i)" if "i < length code" for i
    using that raw(3,4) len converted_targets(2) [of raw "raw ! i" "code ! i"]
    by (auto simp: list_all2_conv_all_nth list_all_length insn_ok_def converted_def)
  then show "list_all (insn_ok (cp s) (length code)) code" by (simp add: list_all_length)
  show "table_ok table code" using raw(2) len pcs by (simp add: table_ok_def)
  show "length table = length bytes" "sorted_wrt (<) (pcs code)" using raw(5,6) pcs by simp_all
  show "length code \<le> length bytes" using tiles_length [OF raw(1)] len by simp
  show "bytes \<noteq> [] \<Longrightarrow> code \<noteq> []" using raw(1) len by (cases raw) auto
qed

section \<open>Properties\<close>

text \<open>C5. Every instruction of a decoded method body is well formed: it uses the member of the
  union that its kind calls for, its pointer into the constant pool is in range and leads to an
  entry of a kind the instruction can use, a tableswitch has one target per value of its range,
  and every branch or switch target is the index of an instruction of the body.\<close>

theorem parse_code_body_wf:
  assumes "parse_code_body bytes s = Inr ((table, code), t)" "length bytes < 2 ^ 16"
  shows "list_all (insn_ok (cp s) (length code)) code"
  using parse_code_body_facts(1) [OF assms] .

text \<open>C6. Decoding is a linear sweep that tiles the code, and conversion keeps its meaning: the
  decoded body is the list of instructions found from offset 0 on, each starting where the one
  before it ended, with increasing program counters, and every target is the index of the
  instruction at the byte offset that the class file named.\<close>

theorem parse_code_body_targets:
  assumes "parse_code_body bytes s = Inr ((table, code), t)" "length bytes < 2 ^ 16"
  shows "\<exists>raw. tiles (cp s) bytes 0 raw \<and> sorted_wrt (<) (pcs code) \<and>
    list_all2 (\<lambda>r c. kind c = kind r \<and> original_pc c = original_pc r \<and>
      map ((!) (pcs code)) (targets c) = targets r) raw code"
proof -
  from parse_code_body_Inr [OF assms] obtain raw where raw: "tiles (cp s) bytes 0 raw" "sorted_wrt (<) (pcs raw)"
      "list_all2 (converted raw) raw code" .
  have pcs: "pcs code = pcs raw" by (rule converted_pcs [OF raw(3)])
  have "list_all2 (\<lambda>r c. kind c = kind r \<and> original_pc c = original_pc r \<and>
      map ((!) (pcs raw)) (targets c) = targets r) raw code"
    using raw(3) by (rule list_all2_mono) (use converted_targets(1) in \<open>auto simp: converted_def\<close>)
  with raw(1,2) pcs show ?thesis by auto
qed

text \<open>\<^verbatim>\<open>iconst_0; ifeq 0; return\<close> as a sample.\<close>

definition sample_code :: "u8 list" where
  "sample_code = [0x03, 0x99, 0xff, 0xff, 0xb1]"

definition sample_code_state :: parse_state where
  "sample_code_state = \<lparr>rd = [], cp = [], current_code_max_pc = 0, indy_insns_count = 0\<rparr>"

definition sample_body :: "bytecode_insn list" where
  "sample_body = [\<lparr>kind = insn_iconst, original_pc = 0, payload = Integer_imm 0\<rparr>,
     \<lparr>kind = insn_ifeq, original_pc = 1, payload = Index 0\<rparr>, \<lparr>kind = insn_return, original_pc = 4, payload = No_payload\<rparr>]"

lemma sample_offset: "sint (read_be [0xff, 0xff] :: u16) = - 1"
  by (simp add: read_be_def)

lemma sample_insns:
  "parse_insn 0 \<lparr>rd = 0x03 # bs, cp = [], current_code_max_pc = 5, indy_insns_count = 0\<rparr> =
     Inr (\<lparr>kind = insn_iconst, original_pc = 0, payload = Integer_imm 0\<rparr>,
       \<lparr>rd = bs, cp = [], current_code_max_pc = 5, indy_insns_count = 0\<rparr>)"
  "parse_insn 1 \<lparr>rd = 0x99 # 0xff # 0xff # bs, cp = [], current_code_max_pc = 5, indy_insns_count = 0\<rparr> =
     Inr (\<lparr>kind = insn_ifeq, original_pc = 1, payload = Index 0\<rparr>,
       \<lparr>rd = bs, cp = [], current_code_max_pc = 5, indy_insns_count = 0\<rparr>)"
  "parse_insn 4 \<lparr>rd = 0xb1 # bs, cp = [], current_code_max_pc = 5, indy_insns_count = 0\<rparr> =
     Inr (\<lparr>kind = insn_return, original_pc = 4, payload = No_payload\<rparr>,
       \<lparr>rd = bs, cp = [], current_code_max_pc = 5, indy_insns_count = 0\<rparr>)"
  by (simp_all add: parse_insn_def parse_insn_impl_def parse_insn_switch_def parse_const_insn_def parse_branch_insn_def
      branch_kinds_def return_kinds_def make_insn_def checked_pc_def sample_offset monad_simps)

lemma sample_code_parses:
  "parse_code_body sample_code sample_code_state =
     Inr (([Some 0, Some 1, None, None, Some 2], sample_body), sample_code_state\<lparr>current_code_max_pc := 5\<rparr>)"
proof -
  have len: "length sample_code = 5" "replicate 5 (None :: nat option) = [None, None, None, None, None]"
    by (simp_all add: sample_code_def numeral_eq_Suc)
  show ?thesis
    unfolding parse_code_body_def len using sample_insns
    by (simp add: sample_code_def sample_code_state_def sample_body_def parse_insns.simps
        convert_pcs_to_insn_indices_def convert_insn_def convert_pc_to_insn_def is_branch_kind_def monad_simps)
qed

theorem parse_code_body_wf_witness: "list_all (insn_ok [] 3) sample_body"
  using parse_code_body_wf [OF sample_code_parses]
  by (simp add: sample_code_def sample_code_state_def sample_body_def numeral_3_eq_3)

theorem parse_code_body_targets_witness:
  "\<exists>raw. tiles [] sample_code 0 raw \<and> sorted_wrt (<) (pcs sample_body) \<and>
    list_all2 (\<lambda>r c. kind c = kind r \<and> original_pc c = original_pc r \<and>
      map ((!) (pcs sample_body)) (targets c) = targets r) raw sample_body"
  using parse_code_body_targets [OF sample_code_parses]
  by (simp add: sample_code_def sample_code_state_def)

end
