(* ===== verification/Attribute.thy ===== *)
theory Attribute
  imports Bytecode
begin

text \<open>
  Attributes (\<^verbatim>\<open>attribute\<close> in \<^verbatim>\<open>vm/classfile.h\<close>; \<^verbatim>\<open>parse_code_attribute\<close>,
  \<^verbatim>\<open>parse_attribute\<close> and their helpers in \<^verbatim>\<open>vm/classfile.c\<close>). An attribute has a slice
  of its own, so a malformed attribute cannot read past its end; a Code attribute holds further
  attributes, and the two parsers call each other. The recursion is on the nesting depth: the
  parser takes a bound, and \<open>parse_attribute_fuel\<close> shows that the number of bytes left is
  always enough and that a larger bound changes nothing. \<^verbatim>\<open>frame_size\<close>, which depends on the
  layout of \<^verbatim>\<open>stack_frame\<close>, is left out. Running out of memory is not modelled.
\<close>

section \<open>Data\<close>

record exception_table_entry =
  start_insn :: nat
  end_insn :: nat
  handler_insn :: nat
  catch_type :: "nat option"

record line_number_table_entry =
  lnt_start_pc :: nat
  lnt_line :: nat

record attribute_lvt_entry =
  lvt_start_pc :: nat
  lvt_end_pc :: nat
  lvt_index :: nat
  lvt_name :: string
  lvt_descriptor :: string

record method_parameter_info =
  param_name :: string
  param_access_flags :: u16

record bootstrap_method =
  bm_ref :: nat
  bm_args :: "nat list"

record inner_class_entry =
  inner_class :: nat
  outer_class :: "nat option"
  inner_name :: string
  inner_access_flags :: u16

text \<open>The tagged union of \<^verbatim>\<open>attribute\<close>; a pointer into the array of attributes
  (\<^verbatim>\<open>line_number_table\<close>, \<^verbatim>\<open>local_variable_table\<close>) is an index.\<close>

datatype attribute =
    Attribute (attr_name: string) (attr_length: u32) (attr_info: attribute_info)
and attribute_info =
    Attr_code attribute_code
  | Attr_constant_value nat
  | Attr_unknown
  | Attr_bootstrap_methods "bootstrap_method list"
  | Attr_enclosing_method "nat option" "nat option"
  | Attr_source_file string
  | Attr_line_number_table "line_number_table_entry list"
  | Attr_method_parameters "method_parameter_info list"
  | Attr_runtime_visible_annotations "u8 list"
  | Attr_signature string
  | Attr_runtime_visible_parameter_annotations "u8 list"
  | Attr_runtime_visible_type_annotations "u8 list"
  | Attr_annotation_default "u8 list"
  | Attr_nest_host nat
  | Attr_local_variable_table "attribute_lvt_entry list"
  | Attr_stack_map_table nat "u8 list"
  | Attr_inner_classes "inner_class_entry list"
  | Attr_permitted_subclasses "nat list"
and attribute_code =
    Attribute_code (max_stack: u16) (max_locals: u16) (max_formal_pc: nat) (insns: "bytecode_insn list")
      (exception_table: "exception_table_entry list option") (line_number_table: "nat option")
      (local_variable_table: "nat option") (code_attributes: "attribute list")

section \<open>Lookups\<close>

definition local_variable_table_lookup :: "nat \<Rightarrow> nat \<Rightarrow> attribute_lvt_entry list \<Rightarrow> string option" where
  "local_variable_table_lookup i pc table =
     (case find (\<lambda>e. lvt_index e = i \<and> lvt_start_pc e \<le> pc \<and> lvt_end_pc e > pc) table of
        None \<Rightarrow> None | Some e \<Rightarrow> Some (lvt_name e))"

section \<open>Names\<close>

definition bad_name_char :: "bool \<Rightarrow> char \<Rightarrow> bool" where
  "bad_name_char is_method c \<longleftrightarrow>
     c = CHR ''.'' \<or> c = CHR '';'' \<or> c = CHR ''['' \<or> c = CHR ''/'' \<or>
     (is_method \<and> (c = CHR ''<'' \<or> c = CHR ''>''))"

definition check_unqualified_name :: "string \<Rightarrow> bool \<Rightarrow> string \<Rightarrow> unit parser" where
  "check_unqualified_name nm is_method reading =
     (if nm = [] then fail_m (Empty_name reading)
      else if nm = ''<init>'' \<or> nm = ''<clinit>'' then return_m ()
      else if list_ex (bad_name_char is_method) nm then fail_m (Invalid_name reading nm)
      else return_m ())"

section \<open>The attributes without nesting\<close>

text \<open>An index that may be 0 for "none".\<close>

definition optional_cp_entry :: "nat \<Rightarrow> u32 \<Rightarrow> string \<Rightarrow> nat option parser" where
  "optional_cp_entry i expected reason =
     (if i = 0 then return_m None
      else bind_m (checked_cp_entry i expected reason) (\<lambda>p. return_m (Some p)))"

abbreviation bootstrap_arg_kinds :: u32 where
  "bootstrap_arg_kinds \<equiv> CP_KIND_STRING OR CP_KIND_INTEGER OR CP_KIND_FLOAT OR CP_KIND_LONG OR CP_KIND_DOUBLE OR
     CP_KIND_METHOD_HANDLE OR CP_KIND_METHOD_TYPE OR CP_KIND_CLASS OR CP_KIND_DYNAMIC_CONSTANT"

definition parse_bootstrap_method :: "bootstrap_method parser" where
  "parse_bootstrap_method =
     bind_m (reader_next_u16 ''bootstrap method ref'') (\<lambda>i.
     bind_m (checked_cp_entry (unat i) CP_KIND_METHOD_HANDLE ''bootstrap method ref'') (\<lambda>r.
     bind_m (reader_next_u16 ''bootstrap method arg count'') (\<lambda>arg_count.
     bind_m (repeat_m (unat arg_count)
              (bind_m (reader_next_u16 ''bootstrap method arg'') (\<lambda>j.
               checked_cp_entry (unat j) bootstrap_arg_kinds ''bootstrap method arg''))) (\<lambda>as.
     return_m \<lparr>bm_ref = r, bm_args = as\<rparr>))))"

definition parse_bootstrap_methods_attribute :: "attribute_info parser" where
  "parse_bootstrap_methods_attribute =
     bind_m (reader_next_u16 ''bootstrap methods count'') (\<lambda>count.
     bind_m (repeat_m (unat count) parse_bootstrap_method) (\<lambda>methods.
     return_m (Attr_bootstrap_methods methods)))"

definition parse_inner_class :: "inner_class_entry parser" where
  "parse_inner_class =
     bind_m (reader_next_u16 ''inner class index'') (\<lambda>i.
     bind_m (checked_cp_entry (unat i) CP_KIND_CLASS ''inner class'') (\<lambda>inner.
     bind_m (reader_next_u16 ''outer class index'') (\<lambda>outer_index.
     bind_m (reader_next_u16 ''inner class name index'') (\<lambda>inner_name_index.
     bind_m (optional_cp_entry (unat outer_index) CP_KIND_CLASS ''outer class'') (\<lambda>outer.
     bind_m (if inner_name_index = 0 then return_m []
             else checked_get_utf8 (unat inner_name_index) ''inner class name'') (\<lambda>nm.
     bind_m (reader_next_u16 ''inner class access flags'') (\<lambda>flags.
     return_m \<lparr>inner_class = inner, outer_class = outer, inner_name = nm, inner_access_flags = flags\<rparr>)))))))"

definition parse_inner_classes_attribute :: "attribute_info parser" where
  "parse_inner_classes_attribute =
     bind_m (reader_next_u16 ''inner classes count'') (\<lambda>count.
     bind_m (repeat_m (unat count) parse_inner_class) (\<lambda>classes.
     return_m (Attr_inner_classes classes)))"

definition parse_stack_map_table_attribute :: "attribute_info parser" where
  "parse_stack_map_table_attribute =
     bind_m (reader_next_u16 ''stack map table count'') (\<lambda>count.
     bind_m (gets_m rd) (\<lambda>data. return_m (Attr_stack_map_table (unat count) data)))"

definition parse_constant_value_attribute :: "attribute_info parser" where
  "parse_constant_value_attribute =
     bind_m (reader_next_u16 ''constant value index'') (\<lambda>i.
     bind_m (checked_cp_entry (unat i)
              (CP_KIND_STRING OR CP_KIND_INTEGER OR CP_KIND_FLOAT OR CP_KIND_LONG OR CP_KIND_DOUBLE)
              ''constant value'') (\<lambda>p.
     return_m (Attr_constant_value p)))"

definition parse_enclosing_method_attribute :: "attribute_info parser" where
  "parse_enclosing_method_attribute =
     bind_m (reader_next_u16 ''enclosing class index'') (\<lambda>class_index.
     bind_m (reader_next_u16 ''enclosing method index'') (\<lambda>method_index.
     bind_m (optional_cp_entry (unat class_index) CP_KIND_CLASS ''enclosing class'') (\<lambda>c.
     bind_m (optional_cp_entry (unat method_index) CP_KIND_NAME_AND_TYPE ''enclosing method'') (\<lambda>m.
     return_m (Attr_enclosing_method c m)))))"

definition parse_permitted_subclasses_attribute :: "attribute_info parser" where
  "parse_permitted_subclasses_attribute =
     bind_m (reader_next_u16 ''permitted subclasses count'') (\<lambda>count.
     bind_m (repeat_m (unat count)
              (bind_m (reader_next_u16 ''permitted subclass index'') (\<lambda>i.
               checked_cp_entry (unat i) CP_KIND_CLASS ''permitted subclass''))) (\<lambda>entries.
     return_m (Attr_permitted_subclasses entries)))"

definition parse_source_file_attribute :: "attribute_info parser" where
  "parse_source_file_attribute =
     bind_m (reader_next_u16 ''source file index'') (\<lambda>i.
     bind_m (checked_get_utf8 (unat i) ''source file'') (\<lambda>nm. return_m (Attr_source_file nm)))"

definition parse_line_number_table_attribute :: "attribute_info parser" where
  "parse_line_number_table_attribute =
     bind_m (reader_next_u16 ''line number table count'') (\<lambda>count.
     bind_m (repeat_m (unat count)
              (bind_m (reader_next_u16 ''line number start pc'') (\<lambda>pc.
               bind_m (reader_next_u16 ''line number'') (\<lambda>l.
               return_m \<lparr>lnt_start_pc = unat pc, lnt_line = unat l\<rparr>)))) (\<lambda>entries.
     return_m (Attr_line_number_table entries)))"

definition parse_method_parameter :: "method_parameter_info parser" where
  "parse_method_parameter =
     bind_m (reader_next_u16 ''method parameter name'') (\<lambda>name_index.
     bind_m (if name_index \<noteq> 0
             then bind_m (checked_get_utf8 (unat name_index) ''method parameter name'') (\<lambda>nm.
                  bind_m (check_unqualified_name nm False ''method parameter name'') (\<lambda>_. return_m nm))
             else return_m []) (\<lambda>nm.
     bind_m (reader_next_u16 ''method parameter access flags'') (\<lambda>flags.
     return_m \<lparr>param_name = nm, param_access_flags = flags\<rparr>)))"

definition parse_method_parameters_attribute :: "attribute_info parser" where
  "parse_method_parameters_attribute =
     bind_m (reader_next_u8 ''method parameters count'') (\<lambda>count.
     bind_m (repeat_m (unat count) parse_method_parameter) (\<lambda>params.
     return_m (Attr_method_parameters params)))"

text \<open>\<^verbatim>\<open>entry->end_pc = entry->start_pc + length\<close> is computed in \<^verbatim>\<open>int\<close>, so it cannot wrap.\<close>

definition parse_lvt_entry :: "attribute_lvt_entry parser" where
  "parse_lvt_entry =
     bind_m (reader_next_u16 ''local variable start pc'') (\<lambda>start.
     bind_m (reader_next_u16 ''local variable length'') (\<lambda>len.
     bind_m (reader_next_u16 ''local variable name'') (\<lambda>i.
     bind_m (checked_get_utf8 (unat i) ''local variable name'') (\<lambda>nm.
     bind_m (reader_next_u16 ''local variable descriptor'') (\<lambda>j.
     bind_m (checked_get_utf8 (unat j) ''local variable descriptor'') (\<lambda>desc.
     bind_m (reader_next_u16 ''local variable index'') (\<lambda>k.
     return_m \<lparr>lvt_start_pc = unat start, lvt_end_pc = unat start + unat len, lvt_index = unat k,
                lvt_name = nm, lvt_descriptor = desc\<rparr>)))))))"

definition parse_local_variable_table_attribute :: "attribute_info parser" where
  "parse_local_variable_table_attribute =
     bind_m (reader_next_u16 ''local variable table count'') (\<lambda>count.
     bind_m (repeat_m (unat count) parse_lvt_entry) (\<lambda>entries.
     return_m (Attr_local_variable_table entries)))"

definition parse_signature_attribute :: "attribute_info parser" where
  "parse_signature_attribute =
     bind_m (reader_next_u16 ''Signature index'') (\<lambda>i.
     bind_m (checked_get_utf8 (unat i) ''Signature index'') (\<lambda>t. return_m (Attr_signature t)))"

definition parse_nest_host_attribute :: "attribute_info parser" where
  "parse_nest_host_attribute =
     bind_m (reader_next_u16 ''NestHost index'') (\<lambda>i.
     bind_m (checked_cp_entry (unat i) CP_KIND_CLASS ''NestHost index'') (\<lambda>p. return_m (Attr_nest_host p)))"

definition byte_array_annotation :: "(u8 list \<Rightarrow> attribute_info) \<Rightarrow> attribute_info parser" where
  "byte_array_annotation member = bind_m (gets_m rd) (\<lambda>data. return_m (member data))"

section \<open>Code\<close>

definition parse_exception_entry :: "nat \<Rightarrow> nat option list \<Rightarrow> exception_table_entry parser" where
  "parse_exception_entry code_length table =
     bind_m (reader_next_u16 ''exception start pc'') (\<lambda>start.
     bind_m (reader_next_u16 ''exception end pc'') (\<lambda>end'.
     bind_m (reader_next_u16 ''exception handler pc'') (\<lambda>handler.
     bind_m (reader_next_u16 ''exception catch type'') (\<lambda>catch.
     bind_m (guard_m (\<not> (unat start \<ge> code_length \<or> unat end' > code_length \<or> unat handler \<ge> code_length))
              (Static_error ''exception table entry out of bounds'')) (\<lambda>_.
     bind_m (guard_m (\<not> start \<ge> end') (Static_error ''exception table entry start >= end'')) (\<lambda>_.
     bind_m (convert_pc_to_insn table (unat start)) (\<lambda>s.
     bind_m (if unat end' = code_length then return_m code_length else convert_pc_to_insn table (unat end')) (\<lambda>e.
     bind_m (convert_pc_to_insn table (unat handler)) (\<lambda>h.
     bind_m (optional_cp_entry (unat catch) CP_KIND_CLASS ''exception catch type'') (\<lambda>c.
     return_m \<lparr>start_insn = s, end_insn = e, handler_insn = h, catch_type = c\<rparr>))))))))))"

text \<open>The last attribute of a kind, as the loop over the attributes leaves it.\<close>

fun is_lnt :: "attribute_info \<Rightarrow> bool" where
  "is_lnt (Attr_line_number_table _) = True"
| "is_lnt _ = False"

fun is_lvt :: "attribute_info \<Rightarrow> bool" where
  "is_lvt (Attr_local_variable_table _) = True"
| "is_lvt _ = False"

definition last_attr :: "(attribute_info \<Rightarrow> bool) \<Rightarrow> attribute list \<Rightarrow> nat option" where
  "last_attr P as = find (\<lambda>i. P (attr_info (as ! i))) (rev [0..<length as])"

text \<open>What follows the instructions: the exception table and the attributes of the code, for which
  \<open>nested\<close> is the call of \<^verbatim>\<open>parse_attribute\<close>. \<^verbatim>\<open>max_formal_pc\<close> is read from the context
  after that loop.\<close>

definition parse_code_rest ::
  "attribute parser \<Rightarrow> u16 \<Rightarrow> u16 \<Rightarrow> nat \<Rightarrow> nat option list \<times> bytecode_insn list \<Rightarrow> attribute_code parser" where
  "parse_code_rest nested stack locals code_length r =
     bind_m (reader_next_u16 ''exception table length'') (\<lambda>n.
     bind_m (if n = 0 then return_m None
             else bind_m (repeat_m (unat n) (parse_exception_entry code_length (fst r))) (\<lambda>es. return_m (Some es)))
       (\<lambda>exceptions.
     bind_m (reader_next_u16 ''code attributes count'') (\<lambda>attributes_count.
     bind_m (repeat_m (unat attributes_count) nested) (\<lambda>as.
     bind_m (gets_m current_code_max_pc) (\<lambda>max_pc.
     return_m (Attribute_code stack locals max_pc (snd r) exceptions (last_attr is_lnt as) (last_attr is_lvt as) as))))))"

definition parse_code_attribute :: "attribute parser \<Rightarrow> attribute_code parser" where
  "parse_code_attribute nested =
     bind_m (reader_next_u16 ''max stack'') (\<lambda>stack.
     bind_m (reader_next_u16 ''max locals'') (\<lambda>locals.
     bind_m (reader_next_u32 ''code length'') (\<lambda>code_length.
     bind_m (guard_m (\<not> (code_length = 0 \<or> code_length > 0xffff))
              (Static_error ''Code attribute length must be between 1 and 65535 bytes'')) (\<lambda>_.
     bind_m (reader_get_slice (unat code_length) ''code'') (\<lambda>bytes.
     bind_m (parse_code_body bytes) (\<lambda>r.
     parse_code_rest nested stack locals (unat code_length) r))))))"

definition parse_attribute_info :: "attribute_code parser \<Rightarrow> string \<Rightarrow> attribute_info parser" where
  "parse_attribute_info parse_code nm =
     (if nm = ''Code'' then bind_m parse_code (\<lambda>c. return_m (Attr_code c))
      else if nm = ''StackMapTable'' then parse_stack_map_table_attribute
      else if nm = ''ConstantValue'' then parse_constant_value_attribute
      else if nm = ''BootstrapMethods'' then parse_bootstrap_methods_attribute
      else if nm = ''InnerClasses'' then parse_inner_classes_attribute
      else if nm = ''EnclosingMethod'' then parse_enclosing_method_attribute
      else if nm = ''PermittedSubclasses'' then parse_permitted_subclasses_attribute
      else if nm = ''SourceFile'' then parse_source_file_attribute
      else if nm = ''LineNumberTable'' then parse_line_number_table_attribute
      else if nm = ''MethodParameters'' then parse_method_parameters_attribute
      else if nm = ''RuntimeVisibleAnnotations'' then byte_array_annotation Attr_runtime_visible_annotations
      else if nm = ''RuntimeVisibleParameterAnnotations''
        then byte_array_annotation Attr_runtime_visible_parameter_annotations
      else if nm = ''RuntimeVisibleTypeAnnotations'' then byte_array_annotation Attr_runtime_visible_type_annotations
      else if nm = ''AnnotationDefault'' then byte_array_annotation Attr_annotation_default
      else if nm = ''Signature'' then parse_signature_attribute
      else if nm = ''NestHost'' then parse_nest_host_attribute
      else if nm = ''LocalVariableTable'' then parse_local_variable_table_attribute
      else return_m Attr_unknown)"

text \<open>The numeral argument bounds the nesting depth.\<close>

primrec parse_attribute :: "nat \<Rightarrow> attribute parser" where
  "parse_attribute 0 = fail_m Out_of_fuel"
| "parse_attribute (Suc depth) =
     bind_m (reader_next_u16 ''method attribute name'') (\<lambda>i.
     bind_m (checked_get_utf8 (unat i) ''method attribute name'') (\<lambda>nm.
     bind_m (reader_next_u32 ''method attribute length'') (\<lambda>len.
     bind_m (reader_get_slice (unat len) ''Attribute data'') (\<lambda>data.
     bind_m (with_slice data (parse_attribute_info (parse_code_attribute (parse_attribute depth)) nm)) (\<lambda>body.
     return_m (Attribute nm len body))))))"

section \<open>Well-formed attributes\<close>

definition ptr_is :: "cp_entry list \<Rightarrow> u32 \<Rightarrow> nat \<Rightarrow> bool" where
  "ptr_is pool km p \<longleftrightarrow> p < length pool \<and> entry_kind (pool ! p) AND km \<noteq> 0"

definition exception_ok :: "cp_entry list \<Rightarrow> nat \<Rightarrow> exception_table_entry \<Rightarrow> bool" where
  "exception_ok pool n e \<longleftrightarrow> start_insn e < n \<and> start_insn e < end_insn e \<and> handler_insn e < n \<and>
     pred_option (ptr_is pool CP_KIND_CLASS) (catch_type e)"

definition bootstrap_ok :: "cp_entry list \<Rightarrow> bootstrap_method \<Rightarrow> bool" where
  "bootstrap_ok pool b \<longleftrightarrow> ptr_is pool CP_KIND_METHOD_HANDLE (bm_ref b) \<and>
     list_all (ptr_is pool bootstrap_arg_kinds) (bm_args b)"

definition inner_ok :: "cp_entry list \<Rightarrow> inner_class_entry \<Rightarrow> bool" where
  "inner_ok pool c \<longleftrightarrow> ptr_is pool CP_KIND_CLASS (inner_class c) \<and>
     pred_option (ptr_is pool CP_KIND_CLASS) (outer_class c)"

text \<open>A pointer to the last attribute of a kind, null only if there is none.\<close>

definition attr_ptr_ok :: "(attribute_info \<Rightarrow> bool) \<Rightarrow> attribute list \<Rightarrow> nat option \<Rightarrow> bool" where
  "attr_ptr_ok P as p \<longleftrightarrow> (case p of
      None \<Rightarrow> list_all (\<lambda>a. \<not> P (attr_info a)) as
    | Some i \<Rightarrow> i < length as \<and> P (attr_info (as ! i)))"

fun attr_ok :: "cp_entry list \<Rightarrow> attribute \<Rightarrow> bool"
  and info_ok :: "cp_entry list \<Rightarrow> attribute_info \<Rightarrow> bool"
  and code_ok :: "cp_entry list \<Rightarrow> attribute_code \<Rightarrow> bool" where
  "attr_ok pool (Attribute _ _ i) \<longleftrightarrow> info_ok pool i"
| "info_ok pool (Attr_code c) \<longleftrightarrow> code_ok pool c"
| "info_ok pool (Attr_constant_value p) \<longleftrightarrow>
     ptr_is pool (CP_KIND_STRING OR CP_KIND_INTEGER OR CP_KIND_FLOAT OR CP_KIND_LONG OR CP_KIND_DOUBLE) p"
| "info_ok pool (Attr_bootstrap_methods bs) \<longleftrightarrow> list_all (bootstrap_ok pool) bs"
| "info_ok pool (Attr_enclosing_method c m) \<longleftrightarrow>
     pred_option (ptr_is pool CP_KIND_CLASS) c \<and> pred_option (ptr_is pool CP_KIND_NAME_AND_TYPE) m"
| "info_ok pool (Attr_nest_host p) \<longleftrightarrow> ptr_is pool CP_KIND_CLASS p"
| "info_ok pool (Attr_inner_classes cs) \<longleftrightarrow> list_all (inner_ok pool) cs"
| "info_ok pool (Attr_permitted_subclasses ps) \<longleftrightarrow> list_all (ptr_is pool CP_KIND_CLASS) ps"
| "info_ok pool _ \<longleftrightarrow> True"
| "code_ok pool (Attribute_code _ _ _ body exceptions lnt lvt as) \<longleftrightarrow>
     body \<noteq> [] \<and> list_all (insn_ok pool (length body)) body \<and>
     pred_option (\<lambda>es. es \<noteq> [] \<and> list_all (exception_ok pool (length body)) es) exceptions \<and>
     attr_ptr_ok is_lnt as lnt \<and> attr_ptr_ok is_lvt as lvt \<and> list_all (attr_ok pool) as"

text \<open>\<^verbatim>\<open>invokedynamic\<close> instructions of an attribute, if it is a Code attribute.\<close>

fun info_indy :: "attribute_info \<Rightarrow> nat" where
  "info_indy (Attr_code c) = indy_count (insns c)"
| "info_indy _ = 0"

abbreviation attr_indy :: "attribute \<Rightarrow> nat" where
  "attr_indy a \<equiv> info_indy (attr_info a)"

section \<open>The context of the attribute parsers\<close>

text \<open>The pool stays, at most \<open>k\<close> bytes are left, at least \<open>m\<close> \<^verbatim>\<open>invokedynamic\<close>
  instructions have been counted.\<close>

definition actx :: "cp_entry list \<Rightarrow> nat \<Rightarrow> nat \<Rightarrow> parse_state \<Rightarrow> bool" where
  "actx pool k m s \<longleftrightarrow> cp s = pool \<and> length (rd s) \<le> k \<and> m \<le> indy_insns_count s"

abbreviation gives :: "cp_entry list \<Rightarrow> nat \<Rightarrow> nat \<Rightarrow> 'a parser \<Rightarrow> ('a \<Rightarrow> bool) \<Rightarrow> bool" where
  "gives pool k m p V \<equiv> hoare (actx pool k m) p (\<lambda>x s. actx pool k m s \<and> V x) no_ub"

lemma actx_mono: "actx pool k m s \<Longrightarrow> k \<le> k' \<Longrightarrow> m' \<le> m \<Longrightarrow> actx pool k' m' s"
  by (simp add: actx_def)

lemma reader_next_gives:
  "gives pool k m (reader_next_u8 r) (\<lambda>_. True)" "gives pool k m (reader_next_u16 r) (\<lambda>_. True)"
  "gives pool k m (reader_next_u32 r) (\<lambda>_. True)"
  by (auto simp: hoare_def reader_next_u8_def reader_next_u16_def reader_next_u32_def reader_advance_def bind_m_def
      return_m_def actx_def split: if_splits)

lemma reader_get_slice_gives: "gives pool k m (reader_get_slice n r) (\<lambda>bs. length bs = n \<and> length bs \<le> k)"
  by (auto simp: hoare_def reader_get_slice_def actx_def split: if_splits)

lemma reader_next_u16_less:
  "hoare (actx pool k m) (reader_next_u16 r) (\<lambda>_ s. actx pool (k - 2) m s \<and> 2 \<le> k) no_ub"
  by (auto simp: hoare_def reader_next_u16_def reader_advance_def bind_m_def return_m_def actx_def split: if_splits)

lemma checked_cp_entry_gives:
  "km \<noteq> 0 \<Longrightarrow> gives pool k m (checked_cp_entry i km r) (ptr_is pool km)"
  by (auto simp: hoare_def actx_def checked_cp_entry_def check_cp_entry_def bind_m_def gets_m_def guard_m_def fail_m_def
      return_m_def ptr_is_def)

lemma checked_get_utf8_gives: "gives pool k m (checked_get_utf8 i r) (\<lambda>_. True)"
  unfolding checked_get_utf8_def
  by (rule hoare_seq [OF checked_cp_entry_gives]) (simp_all add: hoare_def gets_m_def actx_def)

lemma optional_cp_entry_gives:
  "km \<noteq> 0 \<Longrightarrow> gives pool k m (optional_cp_entry i km r) (pred_option (ptr_is pool km))"
  unfolding optional_cp_entry_def
  by (intro hoare_if hoare_return hoare_seq [OF checked_cp_entry_gives]) auto

lemma check_unqualified_name_gives: "gives pool k m (check_unqualified_name nm b r) (\<lambda>_. True)"
  unfolding check_unqualified_name_def by (intro hoare_if hoare_return hoare_fail) auto

lemma repeat_gives:
  assumes "gives pool k m p V"
  shows "gives pool k m (repeat_m n p) (\<lambda>xs. length xs = n \<and> list_all V xs)"
  by (rule hoare_weaken [OF hoare_repeat [OF assms]]) (simp add: list_all_iff)

lemmas gives_seq =
  hoare_seq [OF reader_next_gives(1)] hoare_seq [OF reader_next_gives(2)] hoare_seq [OF reader_next_gives(3)]
  hoare_seq [OF checked_get_utf8_gives] hoare_seq [OF checked_cp_entry_gives] hoare_seq [OF optional_cp_entry_gives]
  hoare_seq [OF check_unqualified_name_gives]

section \<open>What the attribute parsers yield\<close>

abbreviation flat_info :: "cp_entry list \<Rightarrow> attribute_info \<Rightarrow> bool" where
  "flat_info pool i \<equiv> info_ok pool i \<and> info_indy i = 0"

lemma parse_bootstrap_methods_attribute_ok:
  "gives pool k m parse_bootstrap_methods_attribute (flat_info pool)"
proof -
  have args: "gives pool k m (bind_m (reader_next_u16 ''bootstrap method arg'') (\<lambda>j.
      checked_cp_entry (unat j) bootstrap_arg_kinds ''bootstrap method arg'')) (ptr_is pool bootstrap_arg_kinds)"
    by (intro gives_seq checked_cp_entry_gives) simp
  have "gives pool k m parse_bootstrap_method (bootstrap_ok pool)"
    unfolding parse_bootstrap_method_def
    by (intro gives_seq hoare_seq [OF repeat_gives [OF args]] hoare_return) (auto simp: bootstrap_ok_def)
  from repeat_gives [OF this] show ?thesis
    unfolding parse_bootstrap_methods_attribute_def by (intro gives_seq) (rule hoare_seq, assumption, rule hoare_return, simp)
qed

lemma parse_inner_classes_attribute_ok: "gives pool k m parse_inner_classes_attribute (flat_info pool)"
proof -
  have nm: "gives pool k m (if w = 0 then return_m [] else checked_get_utf8 (unat w) r) (\<lambda>_. True)" for w :: u16 and r
    by (intro hoare_if hoare_return checked_get_utf8_gives) simp
  have "gives pool k m parse_inner_class (inner_ok pool)"
    unfolding parse_inner_class_def
    by (intro gives_seq hoare_seq [OF nm] hoare_return) (auto simp: inner_ok_def)
  from repeat_gives [OF this] show ?thesis
    unfolding parse_inner_classes_attribute_def by (intro gives_seq) (rule hoare_seq, assumption, rule hoare_return, simp)
qed

lemma parse_permitted_subclasses_attribute_ok:
  "gives pool k m parse_permitted_subclasses_attribute (flat_info pool)"
proof -
  have "gives pool k m (bind_m (reader_next_u16 ''permitted subclass index'') (\<lambda>i.
      checked_cp_entry (unat i) CP_KIND_CLASS ''permitted subclass'')) (ptr_is pool CP_KIND_CLASS)"
    by (intro gives_seq checked_cp_entry_gives) simp
  from repeat_gives [OF this] show ?thesis
    unfolding parse_permitted_subclasses_attribute_def
    by (intro gives_seq) (rule hoare_seq, assumption, rule hoare_return, simp)
qed

lemma parse_method_parameters_attribute_ok:
  "gives pool k m parse_method_parameters_attribute (flat_info pool)"
proof -
  have nm: "gives pool k m (if w \<noteq> 0
      then bind_m (checked_get_utf8 (unat w) r) (\<lambda>nm. bind_m (check_unqualified_name nm False r) (\<lambda>_. return_m nm))
      else return_m []) (\<lambda>_. True)" for w :: u16 and r
    by (intro hoare_if gives_seq hoare_return) simp_all
  have "gives pool k m parse_method_parameter (\<lambda>_. True)"
    unfolding parse_method_parameter_def by (intro gives_seq hoare_seq [OF nm] hoare_return) simp
  from repeat_gives [OF this] show ?thesis
    unfolding parse_method_parameters_attribute_def
    by (intro gives_seq) (rule hoare_seq, assumption, rule hoare_return, simp)
qed

lemma parse_tables_ok:
  "gives pool k m parse_line_number_table_attribute (flat_info pool)"
  "gives pool k m parse_local_variable_table_attribute (flat_info pool)"
proof -
  have "gives pool k m (bind_m (reader_next_u16 ''line number start pc'') (\<lambda>pc.
      bind_m (reader_next_u16 ''line number'') (\<lambda>l. return_m \<lparr>lnt_start_pc = unat pc, lnt_line = unat l\<rparr>))) (\<lambda>_. True)"
    by (intro gives_seq hoare_return) simp
  from repeat_gives [OF this] show "gives pool k m parse_line_number_table_attribute (flat_info pool)"
    unfolding parse_line_number_table_attribute_def
    by (intro gives_seq) (rule hoare_seq, assumption, rule hoare_return, simp)
  have "gives pool k m parse_lvt_entry (\<lambda>_. True)"
    unfolding parse_lvt_entry_def by (intro gives_seq hoare_return) simp
  from repeat_gives [OF this] show "gives pool k m parse_local_variable_table_attribute (flat_info pool)"
    unfolding parse_local_variable_table_attribute_def
    by (intro gives_seq) (rule hoare_seq, assumption, rule hoare_return, simp)
qed

lemma gets_gives: "gives pool k m (gets_m f) (\<lambda>_. True)"
  by (rule hoare_gets) simp

lemma parse_flat_attributes_ok:
  "gives pool k m parse_stack_map_table_attribute (flat_info pool)"
  "gives pool k m parse_constant_value_attribute (flat_info pool)"
  "gives pool k m parse_enclosing_method_attribute (flat_info pool)"
  "gives pool k m parse_source_file_attribute (flat_info pool)"
  "gives pool k m parse_signature_attribute (flat_info pool)"
  "gives pool k m parse_nest_host_attribute (flat_info pool)"
  unfolding parse_stack_map_table_attribute_def parse_constant_value_attribute_def parse_enclosing_method_attribute_def
    parse_source_file_attribute_def parse_signature_attribute_def parse_nest_host_attribute_def
  by (intro gives_seq hoare_seq [OF gets_gives] hoare_return; simp)+

lemma byte_array_annotation_ok:
  "(\<And>d. flat_info pool (f d)) \<Longrightarrow> gives pool k m (byte_array_annotation f) (flat_info pool)"
  unfolding byte_array_annotation_def by (intro hoare_seq [OF gets_gives] hoare_return) simp

section \<open>Code attributes\<close>

lemma guard_gives: "no_ub e \<Longrightarrow> gives pool k m (guard_m b e) (\<lambda>_. b)"
  by (rule hoare_guard) auto

lemma pcs_less:
  assumes "sorted_wrt (<) (pcs body)" "i < length body" "j < length body" "pcs body ! i < pcs body ! j"
  shows "i < j"
proof (rule ccontr)
  assume "\<not> i < j"
  then have "j = i \<or> pcs body ! j < pcs body ! i"
    using assms(2) sorted_wrt_nth_less [OF assms(1), of j i] by (cases "j = i") (auto simp: pcs_def)
  with assms(4) show False by auto
qed

lemma parse_exception_entry_ok:
  assumes t: "table_ok table body" and n: "length table = n" and sorted: "sorted_wrt (<) (pcs body)"
    and len: "length body \<le> n"
  shows "gives pool k m (parse_exception_entry n table) (exception_ok pool (length body))"
proof -
  have conv: "gives pool k m (convert_pc_to_insn table p) (\<lambda>i. i < length body \<and> pcs body ! i = p)" if "p < n" for p
    using convert_pc_ok [OF t, of p "actx pool k m"] that n by simp
  have end': "gives pool k m (if p = n then return_m n else convert_pc_to_insn table p)
      (\<lambda>i. p = n \<and> i = n \<or> i < length body \<and> pcs body ! i = p)" if "p \<le> n" for p
    using that by (intro hoare_if hoare_return hoare_weaken [OF conv]) auto
  show ?thesis
    unfolding parse_exception_entry_def
    by (intro gives_seq hoare_seq [OF guard_gives] hoare_seq [OF conv] hoare_seq [OF end'] hoare_return)
      (use sorted len in \<open>auto simp: exception_ok_def not_le word_less_nat_alt intro: pcs_less [of body]\<close>)
qed

lemma last_attr_ok: "attr_ptr_ok P as (last_attr P as)"
proof (cases "last_attr P as")
  case None
  then have "\<forall>i < length as. \<not> P (attr_info (as ! i))" by (simp add: last_attr_def find_None_iff)
  then show ?thesis by (simp add: None attr_ptr_ok_def list_all_length)
next
  case (Some i)
  then have "P (attr_info (as ! i)) \<and> i < length as"
    unfolding last_attr_def find_Some_iff by (auto simp: rev_nth)
  then show ?thesis by (simp add: Some attr_ptr_ok_def)
qed

definition body_ok :: "cp_entry list \<Rightarrow> nat \<Rightarrow> nat option list \<times> bytecode_insn list \<Rightarrow> bool" where
  "body_ok pool n = (\<lambda>(table, body). list_all (insn_ok pool (length body)) body \<and> table_ok table body \<and>
     length table = n \<and> sorted_wrt (<) (pcs body) \<and> length body \<le> n \<and> body \<noteq> [])"

lemma parse_code_body_gives:
  assumes "length bytes < 2 ^ 16" "bytes \<noteq> []"
  shows "hoare (actx pool k m) (parse_code_body bytes)
    (\<lambda>r s. actx pool k (m + indy_count (snd r)) s \<and> body_ok pool (length bytes) r) no_ub"
proof (rule hoareI)
  fix s r t assume s: "actx pool k m s" and r: "parse_code_body bytes s = Inr (r, t)"
  obtain table body where tb: "r = (table, body)" by (cases r)
  note p = r [unfolded tb]
  from parse_code_body_Inr [OF p assms(1)] have "cp t = cp s \<and> rd t = rd s \<and>
      indy_insns_count t = indy_insns_count s + indy_count body" by metis
  then have "actx pool k (m + indy_count body) t" using s by (simp add: actx_def)
  moreover have "body_ok pool (length bytes) r"
    using parse_code_body_facts [OF p assms(1)] assms(2) s by (simp add: body_ok_def tb actx_def)
  ultimately show "actx pool k (m + indy_count (snd r)) t \<and> body_ok pool (length bytes) r" by (simp add: tb)
next
  fix s e assume "parse_code_body bytes s = Inl e"
  then show "no_ub e" using assms(1) by (rule parse_code_body_no_ub)
qed

lemma parse_code_rest_ok:
  assumes nested: "\<And>m. hoare (actx pool k m) nested (\<lambda>a s. actx pool k (m + attr_indy a) s \<and> attr_ok pool a) no_ub"
    and body: "body_ok pool n r"
  shows "gives pool k m (parse_code_rest nested stack locals n r) (\<lambda>c. code_ok pool c \<and> insns c = snd r)"
proof -
  have "gives pool k m (parse_exception_entry n (fst r)) (exception_ok pool (length (snd r)))"
    using body by (intro parse_exception_entry_ok) (auto simp: body_ok_def)
  note entries = repeat_gives [OF this]
  have exceptions: "gives pool k m (if w = 0 then return_m None
      else bind_m (repeat_m (unat w) (parse_exception_entry n (fst r))) (\<lambda>es. return_m (Some es)))
      (pred_option (\<lambda>es. es \<noteq> [] \<and> list_all (exception_ok pool (length (snd r))) es))" for w :: u16
    by (intro hoare_if hoare_return hoare_seq [OF entries]) (auto simp: unat_eq_zero)
  have attrs: "gives pool k m (repeat_m c nested) (\<lambda>as. list_all (attr_ok pool) as)" for c
    by (rule hoare_post [OF hoare_repeat_sum [OF nested]]) (auto elim: actx_mono)
  show ?thesis
    unfolding parse_code_rest_def
    by (intro gives_seq hoare_seq [OF exceptions] hoare_seq [OF attrs] hoare_seq [OF gets_gives] hoare_return)
      (use body last_attr_ok in \<open>auto simp: body_ok_def\<close>)
qed

lemma parse_code_attribute_ok:
  assumes nested: "\<And>m. hoare (actx pool k m) nested (\<lambda>a s. actx pool k (m + attr_indy a) s \<and> attr_ok pool a) no_ub"
  shows "hoare (actx pool k m) (parse_code_attribute nested)
    (\<lambda>c s. actx pool k (m + indy_count (insns c)) s \<and> code_ok pool c) no_ub"
  unfolding parse_code_attribute_def
proof (rule gives_seq(2), rule gives_seq(2), rule gives_seq(3), rule hoare_seq [OF guard_gives], simp,
    rule hoare_seq [OF reader_get_slice_gives], rule hoare_bind [OF parse_code_body_gives])
  fix cl :: u32 and bytes :: "u8 list" and stack locals r
  assume cl: "\<not> (cl = 0 \<or> cl > 0xffff)" and bytes: "length bytes = unat cl \<and> length bytes \<le> k"
  show "length bytes < 2 ^ 16" using cl bytes by (simp add: word_less_nat_alt)
  show "bytes \<noteq> []" using cl bytes by (auto simp: unat_eq_zero)
  have "hoare (actx pool k (m + indy_count (snd r))) (parse_code_rest nested stack locals (unat cl) r)
      (\<lambda>c s. actx pool k (m + indy_count (insns c)) s \<and> code_ok pool c) no_ub" if "body_ok pool (length bytes) r"
    using parse_code_rest_ok [OF nested that, of "m + indy_count (snd r)" stack locals] bytes
    by (auto elim!: hoare_post)
  then show "hoare (\<lambda>s. actx pool k (m + indy_count (snd r)) s \<and> body_ok pool (length bytes) r)
      (parse_code_rest nested stack locals (unat cl) r)
      (\<lambda>c s. actx pool k (m + indy_count (insns c)) s \<and> code_ok pool c) no_ub"
    by (cases "body_ok pool (length bytes) r") (simp_all add: hoare_def)
qed

section \<open>The attribute parser\<close>

lemma parse_attribute_info_ok:
  assumes "hoare (actx pool k m) p (\<lambda>c s. actx pool k (m + indy_count (insns c)) s \<and> code_ok pool c) no_ub"
  shows "hoare (actx pool k m) (parse_attribute_info p nm)
    (\<lambda>i s. actx pool k (m + info_indy i) s \<and> info_ok pool i) no_ub"
proof -
  have flat: "hoare (actx pool k m) q (\<lambda>i s. actx pool k (m + info_indy i) s \<and> info_ok pool i) no_ub"
    if "gives pool k m q (flat_info pool)" for q
    by (rule hoare_post [OF that]) auto
  have unknown: "gives pool k m (return_m Attr_unknown) (flat_info pool)"
    by (rule hoare_return) simp
  have code: "hoare (actx pool k m) (bind_m p (\<lambda>c. return_m (Attr_code c)))
      (\<lambda>i s. actx pool k (m + info_indy i) s \<and> info_ok pool i) no_ub"
    by (rule hoare_bind [OF assms], rule hoare_return) auto
  show ?thesis
    unfolding parse_attribute_info_def
    by (intro hoare_if code flat parse_bootstrap_methods_attribute_ok parse_inner_classes_attribute_ok
        parse_permitted_subclasses_attribute_ok parse_method_parameters_attribute_ok parse_tables_ok
        parse_flat_attributes_ok byte_array_annotation_ok unknown; simp)
qed

lemma with_slice_actx:
  assumes "hoare (actx pool (length bs) m) p (\<lambda>x s. actx pool (length bs) (m + f x) s \<and> V x) no_ub"
  shows "hoare (actx pool k m) (with_slice bs p) (\<lambda>x s. actx pool k (m + f x) s \<and> V x) no_ub"
proof (rule hoareI)
  fix s x t assume s: "actx pool k m s" and p: "with_slice bs p s = Inr (x, t)"
  from p obtain u where u: "p (s\<lparr>rd := bs\<rparr>) = Inr (x, u)" "t = u\<lparr>rd := rd s\<rparr>"
    by (auto simp: with_slice_def split: sum.splits)
  have "actx pool (length bs) m (s\<lparr>rd := bs\<rparr>)" using s by (simp add: actx_def)
  from hoareD [OF assms this u(1)] u(2) s show "actx pool k (m + f x) t \<and> V x" by (simp add: actx_def)
next
  fix s e assume s: "actx pool k m s" and p: "with_slice bs p s = Inl e"
  have "actx pool (length bs) m (s\<lparr>rd := bs\<rparr>)" using s by (simp add: actx_def)
  from hoareD_err [OF assms this] p show "no_ub e" by (auto simp: with_slice_def split: sum.splits)
qed

lemma parse_attribute_ok:
  "k < depth \<Longrightarrow> hoare (actx pool k m) (parse_attribute depth)
    (\<lambda>a s. actx pool k (m + attr_indy a) s \<and> attr_ok pool a) no_ub"
proof (induction depth arbitrary: k m)
  case 0
  then show ?case by simp
next
  case (Suc depth)
  have slice: "hoare (actx pool j m) (bind_m (reader_get_slice n r) (\<lambda>data.
      bind_m (with_slice data (parse_attribute_info (parse_code_attribute (parse_attribute depth)) nm)) (\<lambda>body.
      return_m (Attribute nm len body)))) (\<lambda>a s. actx pool j (m + attr_indy a) s \<and> attr_ok pool a) no_ub"
    if "j < depth" for j nm len n r
  proof (rule hoare_seq [OF reader_get_slice_gives], rule hoare_bind [OF with_slice_actx], rule parse_attribute_info_ok,
      rule parse_code_attribute_ok, rule Suc.IH)
    fix bs :: "u8 list" assume "length bs = n \<and> length bs \<le> j"
    then show "length bs < depth" using that by simp
  qed (rule hoare_return, simp)
  show ?case
    unfolding parse_attribute.simps
  proof (rule hoare_bind [OF reader_next_u16_less])
    fix i :: u16
    show "hoare (\<lambda>s. actx pool (k - 2) m s \<and> 2 \<le> k) (bind_m (checked_get_utf8 (unat i) ''method attribute name'') (\<lambda>nm.
       bind_m (reader_next_u32 ''method attribute length'') (\<lambda>len.
       bind_m (reader_get_slice (unat len) ''Attribute data'') (\<lambda>data.
       bind_m (with_slice data (parse_attribute_info (parse_code_attribute (parse_attribute depth)) nm)) (\<lambda>body.
       return_m (Attribute nm len body)))))) (\<lambda>a s. actx pool k (m + attr_indy a) s \<and> attr_ok pool a) no_ub"
    proof (cases "2 \<le> k")
      case True
      then have j: "k - 2 < depth" using Suc.prems by simp
      show ?thesis
        by (rule hoare_pre [where P' = "actx pool (k - 2) m"], rule gives_seq(4), rule gives_seq(3))
          (rule hoare_post [OF slice [OF j]], auto elim: actx_mono)
    qed (simp add: hoare_def)
  qed
qed

section \<open>The depth bound\<close>

text \<open>\<open>refines p q\<close>: wherever \<open>p\<close> does not run out of fuel, \<open>q\<close> does the same.\<close>

definition refines :: "'a parser \<Rightarrow> 'a parser \<Rightarrow> bool" where
  "refines p q \<longleftrightarrow> (\<forall>s. p s \<noteq> Inl Out_of_fuel \<longrightarrow> q s = p s)"

lemma refines_refl: "refines p p"
  by (simp add: refines_def)

lemma refines_bind: "refines p q \<Longrightarrow> (\<And>x. refines (f x) (g x)) \<Longrightarrow> refines (bind_m p f) (bind_m q g)"
  by (fastforce simp: refines_def bind_m_def split: sum.splits)

lemma refines_with_slice: "refines p q \<Longrightarrow> refines (with_slice bs p) (with_slice bs q)"
  by (fastforce simp: refines_def with_slice_def split: sum.splits)

lemma refines_if: "(b \<Longrightarrow> refines p q) \<Longrightarrow> (\<not> b \<Longrightarrow> refines p' q') \<Longrightarrow> refines (if b then p else p') (if b then q else q')"
  by simp

lemma refines_repeat: "refines p q \<Longrightarrow> refines (repeat_m n p) (repeat_m n q)"
  by (induction n) (auto intro: refines_refl refines_bind)

lemmas refines_rules = refines_bind refines_with_slice refines_repeat refines_if refines_refl

lemma parse_code_attribute_refines: "refines p q \<Longrightarrow> refines (parse_code_attribute p) (parse_code_attribute q)"
  unfolding parse_code_attribute_def parse_code_rest_def by (intro refines_rules)

lemma parse_attribute_info_refines: "refines p q \<Longrightarrow> refines (parse_attribute_info p nm) (parse_attribute_info q nm)"
  unfolding parse_attribute_info_def by (intro refines_rules)

lemma parse_attribute_refines: "refines (parse_attribute depth) (parse_attribute (Suc depth))"
proof (induction depth)
  case 0
  show ?case by (simp add: refines_def fail_m_def)
next
  case (Suc depth)
  from parse_attribute_info_refines [OF parse_code_attribute_refines [OF Suc]] show ?case
    by (subst parse_attribute.simps(2), subst parse_attribute.simps(2)) (intro refines_rules)
qed

lemma parse_attribute_enough: "parse_attribute (length (rd s) + 1) s \<noteq> Inl Out_of_fuel"
proof
  assume err: "parse_attribute (length (rd s) + 1) s = Inl Out_of_fuel"
  have ctx: "actx (cp s) (length (rd s)) 0 s" by (simp add: actx_def)
  have "no_ub Out_of_fuel" by (rule hoareD_err [OF parse_attribute_ok ctx err]) simp
  then show False by simp
qed

section \<open>Properties\<close>

text \<open>C7. The mutual recursion of the attribute and code parsers ends, however attributes are
  nested: a depth of one more than the number of bytes left never runs out, and every larger
  bound gives the same result.\<close>

theorem parse_attribute_fuel:
  "parse_attribute (length (rd s) + 1 + j) s = parse_attribute (length (rd s) + 1) s \<and>
   parse_attribute (length (rd s) + 1) s \<noteq> Inl Out_of_fuel"
proof (induction j)
  case 0
  show ?case using parse_attribute_enough by simp
next
  case (Suc j)
  then show ?case
    using parse_attribute_refines [of "length (rd s) + 1 + j"] unfolding refines_def by (metis add_Suc_right)
qed

end
