(* ===== verification/Classfile.thy ===== *)
theory Classfile
  imports Attribute
begin

text \<open>
  The class file parser (\<^verbatim>\<open>parse_classfile\<close>, \<^verbatim>\<open>parse_method\<close>, \<^verbatim>\<open>read_field\<close>,
  \<^verbatim>\<open>link_bootstrap_methods\<close>, \<^verbatim>\<open>no_smt_found\<close> of \<^verbatim>\<open>vm/classfile.c\<close>) and the parsed
  part of \<^verbatim>\<open>classdesc\<close>, \<^verbatim>\<open>cp_method\<close> and \<^verbatim>\<open>cp_field\<close>. The fields that linking and
  execution fill in later are not part of the parsed form. The result is a sum: an error stands
  for \<^verbatim>\<open>PARSE_ERR\<close> with \<^verbatim>\<open>CD_STATE_LINKAGE_ERROR\<close>, a class for \<^verbatim>\<open>PARSE_SUCCESS\<close>
  with \<^verbatim>\<open>CD_STATE_LOADED\<close>. The initialisers of a field are read in the order they are written.
\<close>

section \<open>Data\<close>

abbreviation (input) ACCESS_NATIVE :: u16 where "ACCESS_NATIVE \<equiv> 0x0100"
abbreviation (input) ACCESS_SYNCHRONIZED :: u16 where "ACCESS_SYNCHRONIZED \<equiv> 0x0020"
abbreviation (input) ACCESS_MODULE :: u16 where "ACCESS_MODULE \<equiv> 0x8000"

record cp_field =
  f_access_flags :: u16
  f_name :: string
  f_descriptor :: string
  f_attributes :: "attribute list"
  f_parsed_descriptor :: field_descriptor

text \<open>\<^verbatim>\<open>m_code\<close>, a pointer into the attributes, is an index.\<close>

record cp_method =
  m_access_flags :: u16
  m_name :: string
  unparsed_descriptor :: string
  m_descriptor :: method_descriptor
  m_attributes :: "attribute list"
  m_code :: "nat option"
  missing_smt :: bool
  is_signature_polymorphic :: bool
  is_ctor :: bool
  is_clinit :: bool
  m_index :: nat

text \<open>\<^verbatim>\<open>indy_insns\<close>: for each slot the method and the instruction it points to, or null.\<close>

record classdesc =
  c_pool :: "cp_entry list"
  c_name :: string
  self :: nat
  super_class :: "nat option"
  c_access_flags :: u16
  interfaces :: "nat list"
  c_fields :: "cp_field list"
  c_methods :: "cp_method list"
  c_attributes :: "attribute list"
  source_file :: "nat option"
  nest_host :: "nat option"
  inner_classes :: "nat option"
  indy_insns :: "(nat \<times> nat) option list"

section \<open>Attribute lookups\<close>

fun is_code :: "attribute_info \<Rightarrow> bool" where
  "is_code (Attr_code _) = True"
| "is_code _ = False"

fun is_bootstrap :: "attribute_info \<Rightarrow> bool" where
  "is_bootstrap (Attr_bootstrap_methods _) = True"
| "is_bootstrap _ = False"

fun is_source_file :: "attribute_info \<Rightarrow> bool" where
  "is_source_file (Attr_source_file _) = True"
| "is_source_file _ = False"

fun is_nest_host :: "attribute_info \<Rightarrow> bool" where
  "is_nest_host (Attr_nest_host _) = True"
| "is_nest_host _ = False"

fun is_inner_classes :: "attribute_info \<Rightarrow> bool" where
  "is_inner_classes (Attr_inner_classes _) = True"
| "is_inner_classes _ = False"

fun is_smt :: "attribute_info \<Rightarrow> bool" where
  "is_smt (Attr_stack_map_table _ _) = True"
| "is_smt _ = False"

text \<open>The kind of an attribute is its constructor; a search names the constructor's test.\<close>

definition find_attribute_by_kind :: "attribute list \<Rightarrow> (attribute_info \<Rightarrow> bool) \<Rightarrow> attribute option" where
  "find_attribute_by_kind as is_kind = find (\<lambda>a. is_kind (attr_info a)) as"

fun code_of :: "attribute_info \<Rightarrow> attribute_code option" where
  "code_of (Attr_code c) = Some c"
| "code_of _ = None"

text \<open>\<^verbatim>\<open>method->code\<close> followed.\<close>

definition method_code :: "cp_method \<Rightarrow> attribute_code option" where
  "method_code m = (case m_code m of None \<Rightarrow> None | Some i \<Rightarrow> code_of (attr_info (m_attributes m ! i)))"

definition no_smt_found :: "attribute_code \<Rightarrow> bool" where
  "no_smt_found c \<longleftrightarrow> \<not> list_ex (\<lambda>a. is_smt (attr_info a)) (code_attributes c)"

definition nest_host_of :: "attribute list \<Rightarrow> nat option" where
  "nest_host_of as = (case last_attr is_nest_host as of None \<Rightarrow> None
     | Some i \<Rightarrow> (case attr_info (as ! i) of Attr_nest_host p \<Rightarrow> Some p | _ \<Rightarrow> None))"

section \<open>Methods and fields\<close>

definition lift_descriptor :: "descriptor_error + 'a \<Rightarrow> 'a parser" where
  "lift_descriptor r = (case r of Inl e \<Rightarrow> fail_m (Descriptor_error e) | Inr d \<Rightarrow> return_m d)"

text \<open>An attribute read at the current nesting: the bytes left bound the depth.\<close>

definition next_attribute :: "attribute parser" where
  "next_attribute = (\<lambda>s. parse_attribute (length (rd s) + 1) s)"

definition parse_method :: "cp_method parser" where
  "parse_method =
     bind_m (reader_next_u16 ''method access flags'') (\<lambda>flags.
     bind_m (reader_next_u16 ''method name'') (\<lambda>i.
     bind_m (checked_get_utf8 (unat i) ''method name'') (\<lambda>nm.
     bind_m (reader_next_u16 ''method descriptor'') (\<lambda>j.
     bind_m (checked_get_utf8 (unat j) ''method descriptor'') (\<lambda>desc.
     bind_m (reader_next_u16 ''method attributes count'') (\<lambda>count.
     bind_m (lift_descriptor (parse_method_descriptor desc)) (\<lambda>d.
     bind_m (repeat_m (unat count) next_attribute) (\<lambda>as.
     return_m \<lparr>m_access_flags = flags, m_name = nm, unparsed_descriptor = desc, m_descriptor = d, m_attributes = as,
       m_code = last_attr is_code as, missing_smt = False, is_signature_polymorphic = False,
       is_ctor = (nm = ''<init>''), is_clinit = (nm = ''<clinit>''), m_index = 0\<rparr>))))))))"

definition read_field :: "cp_field parser" where
  "read_field =
     bind_m (reader_next_u16 ''field access flags'') (\<lambda>flags.
     bind_m (reader_next_u16 ''field name'') (\<lambda>i.
     bind_m (checked_get_utf8 (unat i) ''field name'') (\<lambda>nm.
     bind_m (reader_next_u16 ''field descriptor'') (\<lambda>j.
     bind_m (checked_get_utf8 (unat j) ''field descriptor'') (\<lambda>desc.
     bind_m (reader_next_u16 ''field attributes count'') (\<lambda>count.
     bind_m (repeat_m (unat count) next_attribute) (\<lambda>as.
     bind_m (lift_descriptor (parse_complete_field_descriptor desc)) (\<lambda>d.
     return_m \<lparr>f_access_flags = flags, f_name = nm, f_descriptor = desc, f_attributes = as,
       f_parsed_descriptor = d\<rparr>))))))))"

text \<open>The rest of the loop body over the methods in \<^verbatim>\<open>parse_classfile\<close>.\<close>

definition finish_method :: "bool \<Rightarrow> bool \<Rightarrow> nat \<Rightarrow> cp_method \<Rightarrow> cp_method" where
  "finish_method maybe_missing_smt in_MethodHandle i m =
     m\<lparr>missing_smt := maybe_missing_smt \<and> (case method_code m of None \<Rightarrow> False | Some c \<Rightarrow> no_smt_found c),
       m_index := i,
       is_signature_polymorphic := in_MethodHandle \<and> m_access_flags m AND ACCESS_NATIVE \<noteq> 0\<rparr>"

definition parse_methods :: "bool \<Rightarrow> bool \<Rightarrow> nat \<Rightarrow> cp_method list parser" where
  "parse_methods maybe_missing_smt in_MethodHandle n =
     map_m (\<lambda>i. bind_m parse_method (\<lambda>m. return_m (finish_method maybe_missing_smt in_MethodHandle i m))) [0..<n]"

section \<open>Bootstrap methods\<close>

fun bootstrap_count :: "attribute_info \<Rightarrow> nat" where
  "bootstrap_count (Attr_bootstrap_methods bs) = length bs"
| "bootstrap_count _ = 0"

fun link_bootstrap_entry :: "attribute list \<Rightarrow> cp_info \<Rightarrow> format_error + cp_info" where
  "link_bootstrap_entry as (Cp_invoke_dynamic (Method_index i) n d) =
     (case find_attribute_by_kind as is_bootstrap of
        None \<Rightarrow> Inl (Static_error ''Missing BootstrapMethods attribute'')
      | Some a \<Rightarrow>
          if unat i \<ge> bootstrap_count (attr_info a) then Inl (Static_error ''Invalid bootstrap method index'')
          else Inr (Cp_invoke_dynamic (Linked_method (unat i)) n d))"
| "link_bootstrap_entry as (Cp_invoke_dynamic (Linked_method _) n d) = Inl Invalid_access"
| "link_bootstrap_entry as e = Inr e"

definition link_bootstrap_at :: "attribute list \<Rightarrow> nat \<Rightarrow> unit parser" where
  "link_bootstrap_at as i = (\<lambda>s.
     (case link_bootstrap_entry as (info (cp s ! i)) of
        Inl e \<Rightarrow> Inl e
      | Inr e \<Rightarrow> Inr ((), s\<lparr>cp := (cp s)[i := (cp s ! i)\<lparr>info := e\<rparr>]\<rparr>)))"

definition link_bootstrap_methods :: "attribute list \<Rightarrow> unit parser" where
  "link_bootstrap_methods as =
     bind_m (gets_m cp) (\<lambda>pool. bind_m (map_m (link_bootstrap_at as) [1..<length pool]) (\<lambda>_. return_m ()))"

section \<open>Class files\<close>

text \<open>The pointers to the \<^verbatim>\<open>invokedynamic\<close> instructions of the methods' code, in order.\<close>

definition indy_insns_of :: "cp_method list \<Rightarrow> (nat \<times> nat) list" where
  "indy_insns_of ms = concat (map (\<lambda>i. case method_code (ms ! i) of None \<Rightarrow> []
     | Some c \<Rightarrow> map (Pair i) (filter (\<lambda>j. kind (insns c ! j) = insn_invokedynamic) [0..<length (insns c)]))
     [0..<length ms])"

text \<open>They are written to an array of \<^verbatim>\<open>ctx.indy_insns_count\<close> zeroed slots; writing past its end is
  what the \<^verbatim>\<open>DCHECK\<close> there excludes.\<close>

definition fill_indy_insns :: "nat \<Rightarrow> (nat \<times> nat) list \<Rightarrow> (nat \<times> nat) option list parser" where
  "fill_indy_insns count ptrs =
     (if length ptrs \<le> count then return_m (map Some ptrs @ replicate (count - length ptrs) None)
      else fail_m Invalid_access)"

text \<open>\<^verbatim>\<open>this_class->name\<close>: the pointer leads to a class entry.\<close>

fun class_name_of :: "cp_info \<Rightarrow> string" where
  "class_name_of (Cp_class nm) = nm"
| "class_name_of _ = []"

text \<open>From \<^verbatim>\<open>this class\<close> to the interfaces.\<close>

definition parse_class_head :: "u16 \<Rightarrow> (nat \<times> string \<times> nat option \<times> nat list) parser" where
  "parse_class_head flags =
     bind_m (reader_next_u16 ''this class'') (\<lambda>i.
     bind_m (checked_cp_entry (unat i) CP_KIND_CLASS ''this class'') (\<lambda>this.
     bind_m (gets_m (\<lambda>s. class_name_of (info (cp s ! this)))) (\<lambda>nm.
     bind_m (reader_next_u16 ''super class'') (\<lambda>super_index.
     bind_m (if flags AND ACCESS_MODULE \<noteq> 0 \<or> nm = ''java/lang/Object'' then return_m None
             else bind_m (checked_cp_entry (unat super_index) CP_KIND_CLASS ''super class'') (\<lambda>p. return_m (Some p)))
       (\<lambda>super.
     bind_m (reader_next_u16 ''interfaces count'') (\<lambda>n.
     bind_m (repeat_m (unat n)
              (bind_m (reader_next_u16 ''interface'') (\<lambda>j.
               checked_cp_entry (unat j) CP_KIND_CLASS ''superinterface''))) (\<lambda>ifs.
     return_m (this, nm, super, ifs))))))))"

text \<open>From the fields to the check for trailing bytes.\<close>

definition parse_class_members ::
  "bool \<Rightarrow> bool \<Rightarrow> (cp_field list \<times> cp_method list \<times> attribute list) parser" where
  "parse_class_members maybe_missing_smt in_MethodHandle =
     bind_m (reader_next_u16 ''fields count'') (\<lambda>fields_count.
     bind_m (repeat_m (unat fields_count) read_field) (\<lambda>fs.
     bind_m (reader_next_u16 ''methods count'') (\<lambda>methods_count.
     bind_m (parse_methods maybe_missing_smt in_MethodHandle (unat methods_count)) (\<lambda>ms.
     bind_m (reader_next_u16 ''class attributes count'') (\<lambda>attributes_count.
     bind_m (repeat_m (unat attributes_count) next_attribute) (\<lambda>as.
     bind_m (gets_m rd) (\<lambda>left.
     bind_m (guard_m (\<not> length left > 0) (Static_error ''Trailing bytes in classfile'')) (\<lambda>_.
     return_m (fs, ms, as)))))))))"

definition finish_class ::
  "u16 \<Rightarrow> nat \<times> string \<times> nat option \<times> nat list \<Rightarrow> cp_field list \<times> cp_method list \<times> attribute list \<Rightarrow> classdesc parser" where
  "finish_class flags = (\<lambda>(this, nm, super, ifs) (fs, ms, as).
     bind_m (link_bootstrap_methods as) (\<lambda>_.
     bind_m (gets_m indy_insns_count) (\<lambda>count.
     bind_m (fill_indy_insns count (indy_insns_of ms)) (\<lambda>indy.
     bind_m (gets_m cp) (\<lambda>pool.
     return_m \<lparr>c_pool = pool, c_name = nm, self = this, super_class = super, c_access_flags = flags, interfaces = ifs,
       c_fields = fs, c_methods = ms, c_attributes = as, source_file = last_attr is_source_file as,
       nest_host = nest_host_of as, inner_classes = last_attr is_inner_classes as, indy_insns = indy\<rparr>)))))"

definition parse_class :: "classdesc parser" where
  "parse_class =
     bind_m (reader_next_u32 ''magic'') (\<lambda>magic.
     bind_m (guard_m (magic = 0xCAFEBABE) (Invalid_magic magic)) (\<lambda>_.
     bind_m (reader_next_u16 ''minor version'') (\<lambda>minor.
     bind_m (reader_next_u16 ''major version'') (\<lambda>major.
     bind_m parse_constant_pool (\<lambda>_.
     bind_m (reader_next_u16 ''access flags'') (\<lambda>raw_flags.
     let flags = raw_flags AND NOT ACCESS_SYNCHRONIZED in
     bind_m (parse_class_head flags) (\<lambda>head.
     bind_m (parse_class_members (major < 50)
              (fst (snd head) = ''java/lang/invoke/MethodHandle'' \<or> fst (snd head) = ''java/lang/invoke/VarHandle'')) (\<lambda>members.
     finish_class flags head members))))))))"

definition parse_classfile :: "u8 list \<Rightarrow> format_error + classdesc" where
  "parse_classfile bytes =
     (case parse_class \<lparr>rd = bytes, cp = [], current_code_max_pc = 0, indy_insns_count = 0\<rparr> of
        Inl e \<Rightarrow> Inl e | Inr (c, _) \<Rightarrow> Inr c)"

section \<open>Well-formed methods and fields\<close>

definition field_ok :: "cp_entry list \<Rightarrow> cp_field \<Rightarrow> bool" where
  "field_ok pool f \<longleftrightarrow> parse_complete_field_descriptor (f_descriptor f) = Inr (f_parsed_descriptor f) \<and>
     list_all (attr_ok pool) (f_attributes f)"

definition method_ok :: "cp_entry list \<Rightarrow> cp_method \<Rightarrow> bool" where
  "method_ok pool m \<longleftrightarrow> parse_method_descriptor (unparsed_descriptor m) = Inr (m_descriptor m) \<and>
     list_all (attr_ok pool) (m_attributes m) \<and> attr_ptr_ok is_code (m_attributes m) (m_code m) \<and>
     is_ctor m = (m_name m = ''<init>'') \<and> is_clinit m = (m_name m = ''<clinit>'')"

definition method_indy :: "cp_method \<Rightarrow> nat" where
  "method_indy m = (case method_code m of None \<Rightarrow> 0 | Some c \<Rightarrow> indy_count (insns c))"

lemma next_attribute_ok:
  "hoare (actx pool k m) next_attribute (\<lambda>a s. actx pool k (m + attr_indy a) s \<and> attr_ok pool a) no_ub"
proof (rule hoareI)
  fix s a t assume s: "actx pool k m s" and p: "next_attribute s = Inr (a, t)"
  have "actx pool (length (rd s)) m s" using s by (simp add: actx_def)
  from hoareD [OF parse_attribute_ok this p [unfolded next_attribute_def]] s
  show "actx pool k (m + attr_indy a) t \<and> attr_ok pool a" by (auto simp: actx_def)
next
  fix s e assume s: "actx pool k m s" and p: "next_attribute s = Inl e"
  have "actx pool (length (rd s)) m s" using s by (simp add: actx_def)
  from hoareD_err [OF parse_attribute_ok this p [unfolded next_attribute_def]] show "no_ub e" by simp
qed

lemma lift_descriptor_ok: "gives pool k m (lift_descriptor r) (\<lambda>d. r = Inr d)"
  by (cases r) (auto simp: lift_descriptor_def intro!: hoare_fail hoare_return)

lemma method_indy_le:
  assumes "attr_ptr_ok is_code (m_attributes x) (m_code x)"
  shows "method_indy x \<le> sum_list (map (\<lambda>a. attr_indy a) (m_attributes x))"
proof (cases "m_code x")
  case (Some i)
  then have i: "i < length (m_attributes x)" using assms by (simp add: attr_ptr_ok_def)
  have "attr_indy (m_attributes x ! i) \<le> sum_list (map (\<lambda>a. attr_indy a) (m_attributes x))"
    using elem_le_sum_list [of i "map (\<lambda>a. attr_indy a) (m_attributes x)"] i by simp
  then show ?thesis
    by (cases "attr_info (m_attributes x ! i)") (simp_all add: Some method_indy_def method_code_def)
qed (simp add: method_indy_def method_code_def)

lemma parse_method_ok:
  "hoare (actx pool k m) parse_method (\<lambda>x s. actx pool k (m + method_indy x) s \<and> method_ok pool x) no_ub"
proof -
  have "hoare (actx pool k m) parse_method
      (\<lambda>x s. actx pool k (m + sum_list (map (\<lambda>a. attr_indy a) (m_attributes x))) s \<and> method_ok pool x) no_ub"
    unfolding parse_method_def
    by (intro gives_seq hoare_seq [OF lift_descriptor_ok] hoare_bind [OF hoare_repeat_sum [OF next_attribute_ok]]
        hoare_return) (simp add: method_ok_def last_attr_ok)
  then show ?thesis
    by (rule hoare_post) (auto simp: method_ok_def elim!: actx_mono intro!: method_indy_le)
qed

lemma read_field_ok: "gives pool k m read_field (field_ok pool)"
proof -
  have attrs: "gives pool k m (repeat_m n next_attribute) (\<lambda>as. list_all (attr_ok pool) as)" for n
    by (rule hoare_post [OF hoare_repeat_sum [OF next_attribute_ok]]) (auto elim: actx_mono)
  show ?thesis
    unfolding read_field_def
    by (intro gives_seq hoare_seq [OF lift_descriptor_ok] hoare_seq [OF attrs] hoare_return) (simp add: field_ok_def)
qed

lemma finish_method_simps [simp]:
  "method_ok pool (finish_method b h i m) = method_ok pool m" "m_index (finish_method b h i m) = i"
  "method_indy (finish_method b h i m) = method_indy m"
proof -
  have same: "m_code (finish_method b h i m) = m_code m" "m_attributes (finish_method b h i m) = m_attributes m"
    by (simp_all add: finish_method_def)
  show "method_indy (finish_method b h i m) = method_indy m" unfolding method_indy_def method_code_def same ..
qed (simp_all add: method_ok_def finish_method_def)

lemma parse_methods_ok:
  "hoare (actx pool k m) (parse_methods b h n)
    (\<lambda>ms s. actx pool k (m + sum_list (map method_indy ms)) s \<and> list_all (method_ok pool) ms \<and> map m_index ms = [0..<n]) no_ub"
proof -
  have "hoare (actx pool k m) (bind_m parse_method (\<lambda>x. return_m (finish_method b h i x)))
      (\<lambda>x s. actx pool k (m + method_indy x) s \<and> method_ok pool x \<and> m_index x = i) no_ub" for i m
    by (rule hoare_bind [OF parse_method_ok], rule hoare_return) simp
  note all = hoare_map_sum [where C = "actx pool k", OF this]
  have "map m_index ms = is \<and> list_all (method_ok pool) ms"
    if "list_all2 (\<lambda>i x. method_ok pool x \<and> m_index x = i) is ms" for "is" ms
    using that by (induction rule: list_all2_induct) auto
  then show ?thesis
    unfolding parse_methods_def by (rule_tac hoare_post [OF all]) blast+
qed

section \<open>The array of invokedynamic instructions\<close>

lemma length_filter_nth: "length (filter (\<lambda>j. P (xs ! j)) [0..<length xs]) = length (filter P xs)"
proof -
  have "filter P xs = map ((!) xs) (filter (P \<circ> (!) xs) [0..<length xs])"
    by (metis filter_map map_nth)
  then show ?thesis by (simp add: comp_def)
qed

lemma length_indy_insns_of: "length (indy_insns_of ms) = sum_list (map method_indy ms)"
proof -
  have each: "length (case method_code m of None \<Rightarrow> []
      | Some c \<Rightarrow> map (Pair i) (filter (\<lambda>j. kind (insns c ! j) = insn_invokedynamic) [0..<length (insns c)])) = method_indy m"
    for m i
    using length_filter_nth [where P = "\<lambda>x. kind x = insn_invokedynamic"]
    by (auto simp: method_indy_def indy_count_def split: option.split)
  have "length (indy_insns_of ms) = sum_list (map (\<lambda>i. method_indy (ms ! i)) [0..<length ms])"
    unfolding indy_insns_of_def length_concat map_map comp_def each ..
  also have "map (\<lambda>i. method_indy (ms ! i)) [0..<length ms] = map method_indy (map ((!) ms) [0..<length ms])" by simp
  finally show ?thesis by (simp only: map_nth)
qed

section \<open>Linking bootstrap methods\<close>

text \<open>An entry after linking: its bootstrap method exists in the first BootstrapMethods attribute.\<close>

fun bootstrap_linked :: "attribute list \<Rightarrow> cp_info \<Rightarrow> bool" where
  "bootstrap_linked as (Cp_invoke_dynamic m _ _) \<longleftrightarrow> (case m of
      Method_index _ \<Rightarrow> False
    | Linked_method i \<Rightarrow> pred_option (\<lambda>a. i < bootstrap_count (attr_info a)) (find_attribute_by_kind as is_bootstrap) \<and>
        find_attribute_by_kind as is_bootstrap \<noteq> None)"
| "bootstrap_linked as _ \<longleftrightarrow> True"

fun unlinked_indy :: "cp_info \<Rightarrow> bool" where
  "unlinked_indy (Cp_invoke_dynamic m _ _) \<longleftrightarrow> is_Method_index m"
| "unlinked_indy _ \<longleftrightarrow> True"

lemma linked_unlinked_indy: "linked ks e \<Longrightarrow> unlinked_indy e"
  by (cases e) auto

lemma link_bootstrap_entry_Inr:
  "link_bootstrap_entry as e = Inr e' \<Longrightarrow> kind_of e' = kind_of e \<and> bootstrap_linked as e'"
  by (induction as e rule: link_bootstrap_entry.induct) (auto split: option.splits if_splits)

lemma link_bootstrap_entry_Cp_class:
  "link_bootstrap_entry as e = Inr e' \<Longrightarrow> class_name_of e' = class_name_of e"
  by (induction as e rule: link_bootstrap_entry.induct) (auto split: option.splits if_splits)

lemma link_bootstrap_entry_Inl: "link_bootstrap_entry as e = Inl err \<Longrightarrow> unlinked_indy e \<Longrightarrow> no_ub err"
  by (induction as e rule: link_bootstrap_entry.induct) (auto split: option.splits if_splits)

lemma link_loop:
  assumes "distinct is" "\<forall>i\<in>set is. i < length (cp s)"
  shows "map_m (link_bootstrap_at as) is s = Inr (x, t) \<Longrightarrow>
      length (cp t) = length (cp s) \<and> indy_insns_count t = indy_insns_count s \<and> (\<forall>j. j \<notin> set is \<longrightarrow> cp t ! j = cp s ! j) \<and>
      (\<forall>j\<in>set is. link_bootstrap_entry as (info (cp s ! j)) = Inr (info (cp t ! j)))"
    and "map_m (link_bootstrap_at as) is s = Inl err \<Longrightarrow> \<forall>i\<in>set is. unlinked_indy (info (cp s ! i)) \<Longrightarrow> no_ub err"
  using assms
proof (induction "is" arbitrary: s x)
  case Nil
  { case 1 then show ?case by simp }
  { case 2 then show ?case by simp }
next
  case (Cons i "is")
  have step: "length (cp u) = length (cp s) \<and> indy_insns_count u = indy_insns_count s \<and> (\<forall>j. j \<noteq> i \<longrightarrow> cp u ! j = cp s ! j) \<and>
      link_bootstrap_entry as (info (cp s ! i)) = Inr (info (cp u ! i))"
    if "link_bootstrap_at as i s = Inr (y, u)" "i < length (cp s)" for s u y
    using that by (auto simp: link_bootstrap_at_def split: sum.splits)
  { case 1
    then obtain u ys where u: "link_bootstrap_at as i s = Inr ((), u)" and r: "map_m (link_bootstrap_at as) is u = Inr (ys, t)"
      by (auto simp: bind_m_Inr_iff)
    have st: "length (cp u) = length (cp s) \<and> indy_insns_count u = indy_insns_count s \<and> (\<forall>j. j \<noteq> i \<longrightarrow> cp u ! j = cp s ! j) \<and>
      link_bootstrap_entry as (info (cp s ! i)) = Inr (info (cp u ! i))"
      using step [OF u] 1 by simp
    have IH: "length (cp t) = length (cp u) \<and> indy_insns_count t = indy_insns_count u \<and>
      (\<forall>j. j \<notin> set is \<longrightarrow> cp t ! j = cp u ! j) \<and>
      (\<forall>j\<in>set is. link_bootstrap_entry as (info (cp u ! j)) = Inr (info (cp t ! j)))"
      using Cons.IH(1) [OF r] 1 st by simp
    have "i \<notin> set is" using 1 by simp
    with IH st show ?case by (auto, metis) }
  { case 2
    show ?case
    proof (cases "link_bootstrap_at as i s")
      case (Inl e)
      then have "err = e" "link_bootstrap_entry as (info (cp s ! i)) = Inl e"
        using 2 by (auto simp: bind_m_def link_bootstrap_at_def split: sum.splits)
      with 2 link_bootstrap_entry_Inl show ?thesis by auto
    next
      case (Inr z)
      then obtain u where u: "link_bootstrap_at as i s = Inr ((), u)" by (cases z) simp
      then have r: "map_m (link_bootstrap_at as) is u = Inl err" using 2 by (auto simp: bind_m_def split: sum.splits)
      have "length (cp u) = length (cp s) \<and> (\<forall>j. j \<noteq> i \<longrightarrow> cp u ! j = cp s ! j)" using step [OF u] 2 by simp
      with Cons.IH(2) [OF r] 2 show ?thesis by (auto, metis)
    qed }
qed

section \<open>Linking keeps what the instructions rely on\<close>

lemma ptr_is_kinds:
  assumes "map entry_kind pool = map entry_kind pool'"
  shows "ptr_is pool = ptr_is pool'"
proof (intro ext)
  fix km p
  have len: "length pool = length pool'" using assms by (rule map_eq_imp_length_eq)
  have "entry_kind (pool ! p) = entry_kind (pool' ! p)" if "p < length pool"
    using arg_cong [OF assms, of "\<lambda>ks. ks ! p"] that len by simp
  then show "ptr_is pool km p = ptr_is pool' km p" using len by (auto simp: ptr_is_def)
qed

lemma payload_ok_kinds:
  assumes "map entry_kind pool = map entry_kind pool'"
  shows "payload_ok pool = payload_ok pool'"
proof (intro ext)
  fix k p
  have len: "length pool = length pool'" using assms by (rule map_eq_imp_length_eq)
  have "entry_kind (pool ! p) = entry_kind (pool' ! p)" if "p < length pool" for p
    using arg_cong [OF assms, of "\<lambda>ks. ks ! p"] that len by simp
  then show "payload_ok pool k p = payload_ok pool' k p"
    using len by (cases p) (auto simp: payload_ok_def)
qed

lemma ok_kinds:
  assumes "map entry_kind pool = map entry_kind pool'"
  shows "insn_ok pool = insn_ok pool'" "exception_ok pool = exception_ok pool'" "bootstrap_ok pool = bootstrap_ok pool'"
    "inner_ok pool = inner_ok pool'"
  using ptr_is_kinds [OF assms] payload_ok_kinds [OF assms]
  by (intro ext; simp add: insn_ok_def exception_ok_def bootstrap_ok_def inner_ok_def)+

lemma attr_ok_kinds:
  assumes eq: "map entry_kind pool = map entry_kind pool'"
  shows "attr_ok pool a = attr_ok pool' a" "info_ok pool i = info_ok pool' i" "code_ok pool c = code_ok pool' c"
proof (induction a and i and c rule: attribute.induct attribute_info.induct attribute_code.induct)
  case (Attribute_code x1 x2 x3 x4 x5 x6 x7 x8)
  have "list_all (attr_ok pool) x8 = list_all (attr_ok pool') x8"
    using Attribute_code by (induction x8) auto
  then show ?case by (simp add: ok_kinds [OF eq])
qed (simp_all add: ok_kinds [OF eq] ptr_is_kinds [OF eq])

lemma member_ok_kinds:
  assumes "map entry_kind pool = map entry_kind pool'"
  shows "attr_ok pool = attr_ok pool'" "field_ok pool = field_ok pool'" "method_ok pool = method_ok pool'"
proof -
  show "attr_ok pool = attr_ok pool'" using attr_ok_kinds(1) [OF assms] by blast
  then show "field_ok pool = field_ok pool'" "method_ok pool = method_ok pool'"
    by (auto simp: field_ok_def method_ok_def)
qed

section \<open>The whole class file\<close>

type_synonym class_head = "nat \<times> string \<times> nat option \<times> nat list"
type_synonym class_members = "cp_field list \<times> cp_method list \<times> attribute list"

definition head_ok :: "cp_entry list \<Rightarrow> u16 \<Rightarrow> class_head \<Rightarrow> bool" where
  "head_ok pool flags = (\<lambda>(this, nm, super, ifs).
     ptr_is pool CP_KIND_CLASS this \<and> class_name_of (info (pool ! this)) = nm \<and>
     (super = None \<longleftrightarrow> flags AND ACCESS_MODULE \<noteq> 0 \<or> nm = ''java/lang/Object'') \<and>
     pred_option (ptr_is pool CP_KIND_CLASS) super \<and> list_all (ptr_is pool CP_KIND_CLASS) ifs)"

definition members_ok :: "cp_entry list \<Rightarrow> class_members \<Rightarrow> bool" where
  "members_ok pool = (\<lambda>(fs, ms, as). list_all (field_ok pool) fs \<and> list_all (method_ok pool) ms \<and>
     map m_index ms = [0..<length ms] \<and> list_all (attr_ok pool) as)"

abbreviation members_indy :: "class_members \<Rightarrow> nat" where
  "members_indy x \<equiv> sum_list (map method_indy (fst (snd x)))"

lemma parse_class_head_ok: "gives pool k m (parse_class_head flags) (head_ok pool flags)"
proof -
  have nm: "gives pool k m (gets_m (\<lambda>s. class_name_of (info (cp s ! this)))) (\<lambda>nm. nm = class_name_of (info (pool ! this)))"
    for this
    by (rule hoare_gets) (simp add: actx_def)
  have super: "gives pool k m (if b then return_m None
      else bind_m (checked_cp_entry i CP_KIND_CLASS r) (\<lambda>p. return_m (Some p)))
      (\<lambda>x. (x = None \<longleftrightarrow> b) \<and> pred_option (ptr_is pool CP_KIND_CLASS) x)" for b i r
    by (intro hoare_if gives_seq hoare_return) auto
  have "gives pool k m (bind_m (reader_next_u16 ''interface'') (\<lambda>j.
      checked_cp_entry (unat j) CP_KIND_CLASS ''superinterface'')) (ptr_is pool CP_KIND_CLASS)"
    by (intro gives_seq checked_cp_entry_gives) simp
  note ifs = repeat_gives [OF this]
  show ?thesis
    unfolding parse_class_head_def
    by (intro gives_seq hoare_seq [OF nm] hoare_seq [OF super] hoare_seq [OF ifs] hoare_return)
      (auto simp: head_ok_def)
qed

lemma parse_class_members_ok:
  "hoare (actx pool k m) (parse_class_members b h)
    (\<lambda>x s. actx pool k (m + members_indy x) s \<and> members_ok pool x) no_ub"
proof -
  have attrs: "gives pool k m (repeat_m n next_attribute) (\<lambda>as. list_all (attr_ok pool) as)" for n m
    by (rule hoare_post [OF hoare_repeat_sum [OF next_attribute_ok]]) (auto elim: actx_mono)
  have rest: "hoare (\<lambda>s. actx pool k m' s \<and> list_all (method_ok pool) ms \<and> map m_index ms = [0..<n])
    (bind_m (reader_next_u16 ''class attributes count'') (\<lambda>attributes_count.
     bind_m (repeat_m (unat attributes_count) next_attribute) (\<lambda>as.
     bind_m (gets_m rd) (\<lambda>left.
     bind_m (guard_m (\<not> length left > 0) (Static_error ''Trailing bytes in classfile'')) (\<lambda>_.
     return_m (fs, ms, as))))))
    (\<lambda>x s. actx pool k m' s \<and> members_ok pool x \<and> fst (snd x) = ms) no_ub"
    if fs: "list_all (field_ok pool) fs" for m' fs ms n
  proof (cases "list_all (method_ok pool) ms \<and> map m_index ms = [0..<n]")
    case True
    then have "length (map m_index ms) = length [0..<n]" by metis
    then have "length ms = n" by simp
    with True fs show ?thesis
      by (rule_tac hoare_pre [where P' = "actx pool k m'"], intro gives_seq hoare_seq [OF attrs] hoare_seq [OF gets_gives]
          hoare_seq [OF guard_gives] hoare_return) (auto simp: members_ok_def)
  qed (auto simp: hoare_def)
  show ?thesis
    unfolding parse_class_members_def
    by (rule gives_seq(2), rule hoare_seq [OF repeat_gives [OF read_field_ok]], rule gives_seq(2),
        rule hoare_bind [OF parse_methods_ok], rule hoare_post [OF rest]) auto
qed

text \<open>A parsed class: every pointer into the pool is in range and of the right kind, the bootstrap
  methods are linked, and \<^verbatim>\<open>indy_insns\<close> starts with the instructions of the methods' code.\<close>

definition classdesc_ok :: "classdesc \<Rightarrow> bool" where
  "classdesc_ok c \<longleftrightarrow>
     head_ok (c_pool c) (c_access_flags c) (self c, c_name c, super_class c, interfaces c) \<and>
     members_ok (c_pool c) (c_fields c, c_methods c, c_attributes c) \<and>
     list_all (\<lambda>e. bootstrap_linked (c_attributes c) (info e)) (c_pool c) \<and>
     attr_ptr_ok is_source_file (c_attributes c) (source_file c) \<and>
     attr_ptr_ok is_inner_classes (c_attributes c) (inner_classes c) \<and>
     pred_option (ptr_is (c_pool c) CP_KIND_CLASS) (nest_host c) \<and>
     prefix (map Some (indy_insns_of (c_methods c))) (indy_insns c)"

lemma link_bootstrap_methods_Inr:
  assumes "link_bootstrap_methods as s = Inr (x, t)" "info (cp s ! 0) = Cp_invalid"
  shows "map entry_kind (cp t) = map entry_kind (cp s)" "indy_insns_count t = indy_insns_count s"
    "list_all (\<lambda>e. bootstrap_linked as (info e)) (cp t)"
    "\<And>j. j < length (cp s) \<Longrightarrow> class_name_of (info (cp t ! j)) = class_name_of (info (cp s ! j))"
proof -
  from assms(1) obtain y where "map_m (link_bootstrap_at as) [1..<length (cp s)] s = Inr (y, t)"
    by (auto simp: link_bootstrap_methods_def bind_m_Inr_iff)
  from link_loop(1) [OF _ _ this] have l: "length (cp t) = length (cp s)" "indy_insns_count t = indy_insns_count s"
      "\<And>j. j \<notin> {1..<length (cp s)} \<Longrightarrow> cp t ! j = cp s ! j"
      "\<And>j. j \<in> {1..<length (cp s)} \<Longrightarrow> link_bootstrap_entry as (info (cp s ! j)) = Inr (info (cp t ! j))"
    by auto
  have each: "link_bootstrap_entry as (info (cp s ! j)) = Inr (info (cp t ! j))" if "j < length (cp s)" for j
    using that l(3,4) [of j] assms(2) by (cases "j = 0") auto
  show "map entry_kind (cp t) = map entry_kind (cp s)"
    using link_bootstrap_entry_Inr [OF each] l(1) by (auto intro!: nth_equalityI)
  show "list_all (\<lambda>e. bootstrap_linked as (info e)) (cp t)"
    using each link_bootstrap_entry_Inr l(1) by (auto simp: list_all_length)
  show "\<And>j. j < length (cp s) \<Longrightarrow> class_name_of (info (cp t ! j)) = class_name_of (info (cp s ! j))"
    using each link_bootstrap_entry_Cp_class by blast
  show "indy_insns_count t = indy_insns_count s" by (rule l(2))
qed

lemma nest_host_ok:
  assumes "list_all (attr_ok pool) as"
  shows "pred_option (ptr_is pool CP_KIND_CLASS) (nest_host_of as)"
proof (cases "last_attr is_nest_host as")
  case (Some i)
  then have "i < length as" using last_attr_ok [of is_nest_host as] by (simp add: attr_ptr_ok_def)
  then have "attr_ok pool (as ! i)" using assms by (simp add: list_all_length)
  then show ?thesis
    by (cases "as ! i"; cases "attr_info (as ! i)") (auto simp: nest_host_of_def Some)
qed (simp add: nest_host_of_def)

lemma finish_class_Inr:
  assumes "finish_class flags head members s = Inr (c, t)"
    and "head_ok (cp s) flags head" "members_ok (cp s) members" "info (cp s ! 0) = Cp_invalid"
  shows "classdesc_ok c"
proof -
  obtain this nm super ifs where head: "head = (this, nm, super, ifs)" by (cases head)
  obtain fs ms as where members: "members = (fs, ms, as)" by (cases members)
  from assms(1) obtain u count where u: "link_bootstrap_methods as s = Inr ((), u)"
    and len: "length (indy_insns_of ms) \<le> count"
    and c: "c = \<lparr>c_pool = cp u, c_name = nm, self = this, super_class = super, c_access_flags = flags,
      interfaces = ifs, c_fields = fs, c_methods = ms, c_attributes = as, source_file = last_attr is_source_file as,
      nest_host = nest_host_of as, inner_classes = last_attr is_inner_classes as,
      indy_insns = map Some (indy_insns_of ms) @ replicate (count - length (indy_insns_of ms)) None\<rparr>"
    by (auto simp: finish_class_def head members bind_m_Inr_iff fill_indy_insns_def split: if_splits)
  note l = link_bootstrap_methods_Inr [OF u assms(4)]
  have "this < length (cp s)" using assms(2) by (simp add: head head_ok_def ptr_is_def)
  then have "head_ok (cp u) flags (this, nm, super, ifs)"
    using assms(2) l(4) by (simp add: head head_ok_def ptr_is_kinds [OF l(1)])
  moreover have mem: "members_ok (cp u) (fs, ms, as)"
    using assms(3) by (simp add: members members_ok_def member_ok_kinds [OF l(1)])
  moreover have "pred_option (ptr_is (cp u) CP_KIND_CLASS) (nest_host_of as)"
    using mem by (intro nest_host_ok) (simp add: members_ok_def)
  ultimately show ?thesis using l(3) last_attr_ok by (simp add: classdesc_ok_def c)
qed

lemma finish_class_no_ub:
  assumes "finish_class flags head members s = Inl e" "members_indy members \<le> indy_insns_count s"
    "info (cp s ! 0) = Cp_invalid" "list_all (\<lambda>e. unlinked_indy (info e)) (cp s)"
  shows "no_ub e"
proof -
  obtain this nm super ifs where head: "head = (this, nm, super, ifs)" by (cases head)
  obtain fs ms as where members: "members = (fs, ms, as)" by (cases members)
  from assms(1) consider "link_bootstrap_methods as s = Inl e"
    | u where "link_bootstrap_methods as s = Inr ((), u)" "\<not> length (indy_insns_of ms) \<le> indy_insns_count u"
    by (auto simp: finish_class_def head members bind_m_Inl_iff fill_indy_insns_def split: if_splits)
  then show ?thesis
  proof cases
    case 1
    then have "map_m (link_bootstrap_at as) [1..<length (cp s)] s = Inl e"
      by (auto simp: link_bootstrap_methods_def bind_m_Inl_iff)
    from link_loop(2) [OF _ _ this] assms(4) show ?thesis by (auto simp: list_all_length)
  next
    case 2
    with link_bootstrap_methods_Inr(2) [OF 2(1) assms(3)] assms(2) show ?thesis
      by (simp add: length_indy_insns_of members)
  qed
qed

lemma wf_pool_facts:
  assumes "wf_pool n pool"
  shows "info (pool ! 0) = Cp_invalid" "list_all (\<lambda>e. unlinked_indy (info e)) pool"
  using assms linked_unlinked_indy by (auto simp: wf_pool_def list_all_iff)

text \<open>The state after the constant pool and the flags, where the rest of the file is parsed.\<close>

lemma parse_class_members_state:
  assumes "wf_pool n (cp s)"
    and "parse_class_head flags s = Inr (head, u)" "parse_class_members b h u = Inr (members, v)"
  shows "head_ok (cp v) flags head" "members_ok (cp v) members" "members_indy members \<le> indy_insns_count v" "cp v = cp s"
proof -
  have "actx (cp s) (length (rd s)) 0 s" by (simp add: actx_def)
  from hoareD [OF parse_class_head_ok this assms(2)]
  have u: "actx (cp s) (length (rd s)) 0 u" and head: "head_ok (cp s) flags head" by auto
  from hoareD [OF parse_class_members_ok u assms(3)]
  have v: "actx (cp s) (length (rd s)) (members_indy members) v" and members: "members_ok (cp s) members" by auto
  from v show eq: "cp v = cp s" and "members_indy members \<le> indy_insns_count v" by (auto simp: actx_def)
  show "head_ok (cp v) flags head" "members_ok (cp v) members" using head members by (simp_all add: eq)
qed

lemma parse_class_ok: "hoare (\<lambda>_. True) parse_class (\<lambda>c _. classdesc_ok c) no_ub"
proof -
  have rest: "hoare (\<lambda>s. \<exists>n. wf_pool n (cp s)) (bind_m (parse_class_head flags) (\<lambda>head.
     bind_m (parse_class_members b (h head)) (\<lambda>members. finish_class flags head members)))
     (\<lambda>c _. classdesc_ok c) no_ub" for flags b h
  proof (rule hoareI)
    fix s c t
    assume wf: "\<exists>n. wf_pool n (cp s)" and p: "bind_m (parse_class_head flags) (\<lambda>head.
      bind_m (parse_class_members b (h head)) (\<lambda>members. finish_class flags head members)) s = Inr (c, t)"
    from p obtain head u members v where q: "parse_class_head flags s = Inr (head, u)"
        "parse_class_members b (h head) u = Inr (members, v)" "finish_class flags head members v = Inr (c, t)"
      by (auto simp: bind_m_Inr_iff)
    from wf obtain n where n: "wf_pool n (cp s)" by blast
    note st = parse_class_members_state [OF n q(1,2)]
    show "classdesc_ok c" using finish_class_Inr [OF q(3) st(1,2)] wf_pool_facts(1) [OF n] st(4) by simp
  next
    fix s e
    assume wf: "\<exists>n. wf_pool n (cp s)" and p: "bind_m (parse_class_head flags) (\<lambda>head.
      bind_m (parse_class_members b (h head)) (\<lambda>members. finish_class flags head members)) s = Inl e"
    from wf obtain n where n: "wf_pool n (cp s)" by blast
    have ctx: "actx (cp s) (length (rd s)) 0 s" by (simp add: actx_def)
    from p consider "parse_class_head flags s = Inl e"
      | head u where "parse_class_head flags s = Inr (head, u)" "parse_class_members b (h head) u = Inl e"
      | head u members v where "parse_class_head flags s = Inr (head, u)"
        "parse_class_members b (h head) u = Inr (members, v)" "finish_class flags head members v = Inl e"
      by (auto simp: bind_m_Inl_iff)
    then show "no_ub e"
    proof cases
      case 1
      then show ?thesis by (rule hoareD_err [OF parse_class_head_ok ctx])
    next
      case 2
      have "actx (cp s) (length (rd s)) 0 u" using hoareD [OF parse_class_head_ok ctx 2(1)] by simp
      then show ?thesis using 2(2) by (rule hoareD_err [OF parse_class_members_ok])
    next
      case 3
      note st = parse_class_members_state [OF n 3(1,2)]
      show ?thesis using finish_class_no_ub [OF 3(3) st(3)] wf_pool_facts [OF n] st(4) by simp
    qed
  qed
  have pool: "hoare (\<lambda>_. True) parse_constant_pool (\<lambda>_ s. \<exists>n. wf_pool n (cp s)) no_ub"
    by (rule hoareI) (auto dest: parse_constant_pool_Inr(1) parse_constant_pool_no_ub)
  have reads: "hoare (\<lambda>_. True) (reader_next_u16 r) (\<lambda>_ _. True) no_ub" "hoare (\<lambda>_. True) (reader_next_u32 r) (\<lambda>_ _. True) no_ub"
    for r
    by (rule hoareI; auto dest: safeD [OF safe_reader_next(2)] safeD [OF safe_reader_next(3)])+
  have flags: "hoare (\<lambda>s :: parse_state. \<exists>n. wf_pool n (cp s)) (reader_next_u16 r) (\<lambda>_ s. \<exists>n. wf_pool n (cp s)) no_ub" for r
    by (rule hoareI) (auto simp: reader_next_Inr_iff dest: safeD [OF safe_reader_next(2)])
  show ?thesis
    unfolding parse_class_def Let_def
    by (rule hoare_bind [OF reads(2)], rule hoare_bind [where R = "\<lambda>_ _. True"], rule hoare_guard, simp, simp,
        rule hoare_bind [OF reads(1)], rule hoare_bind [OF reads(1)], rule hoare_bind [OF pool], rule hoare_bind [OF flags])
      (rule rest)
qed

section \<open>Properties\<close>

text \<open>C8. A class file that is accepted yields a well-formed class: the class, its superclass and
  its interfaces are class entries of the pool, every attribute of the class, its fields and its
  methods is well formed (bodies with valid targets and exception tables included), descriptors are
  parsed from their text, every \<^verbatim>\<open>invokedynamic\<close> entry is linked to an existing bootstrap method,
  and the array of GC roots starts with exactly the \<^verbatim>\<open>invokedynamic\<close> instructions of the methods.\<close>

theorem parse_classfile_wf:
  assumes "parse_classfile bytes = Inr c"
  shows "classdesc_ok c"
  using assms hoareD [OF parse_class_ok] by (auto simp: parse_classfile_def split: sum.splits)


text \<open>The class \<^verbatim>\<open>A extends A\<close>, without members.\<close>

definition sample_class :: "u8 list" where
  "sample_class = [0xca, 0xfe, 0xba, 0xbe, 0, 0, 0, 52, 0, 3, 1, 0, 1, 65, 7, 0, 1, 0, 0x21, 0, 2, 0, 2, 0, 0, 0, 0, 0, 0, 0, 0]"

definition sample_classdesc :: classdesc where
  "sample_classdesc = \<lparr>c_pool = [\<lparr>my_index = 0, info = Cp_invalid\<rparr>, \<lparr>my_index = 1, info = Cp_utf8 ''A''\<rparr>,
       \<lparr>my_index = 2, info = Cp_class ''A''\<rparr>, \<lparr>my_index = 0, info = Cp_invalid\<rparr>],
     c_name = ''A'', self = 2, super_class = Some 2, c_access_flags = 1, interfaces = [], c_fields = [], c_methods = [],
     c_attributes = [], source_file = None, nest_host = None, inner_classes = None, indy_insns = []\<rparr>"

lemma sample_class_pool:
  "parse_constant_pool \<lparr>rd = [0, 3, 1, 0, 1, 65, 7, 0, 1, 0, 0x21, 0, 2, 0, 2, 0, 0, 0, 0, 0, 0, 0, 0], cp = [],
       current_code_max_pc = 0, indy_insns_count = 0\<rparr> =
     Inr ((), \<lparr>rd = [0, 0x21, 0, 2, 0, 2, 0, 0, 0, 0, 0, 0, 0, 0], cp = c_pool sample_classdesc,
       current_code_max_pc = 0, indy_insns_count = 0\<rparr>)"
  by code_simp

lemma sample_class_parses: "parse_classfile sample_class = Inr sample_classdesc"
  by (simp add: parse_classfile_def sample_class_def parse_class_def monad_simps read_be_def sample_class_pool)
    (simp add: sample_classdesc_def parse_class_head_def parse_class_members_def finish_class_def parse_methods_def
      link_bootstrap_methods_def link_bootstrap_at_def fill_indy_insns_def indy_insns_of_def last_attr_def nest_host_of_def
      checked_cp_entry_def check_cp_entry_def monad_simps read_be_def)

theorem parse_classfile_wf_witness: "classdesc_ok sample_classdesc"
  by (rule parse_classfile_wf [OF sample_class_parses])

end
