(* ===== verification/Stack_Map.thy ===== *)
theory Stack_Map
  imports Classfile
begin

text \<open>
  The stack map frame iterator (\<^verbatim>\<open>vm/stackmaptable.c\<close>, \<^verbatim>\<open>vm/stackmaptable.h\<close>). The iterator owns
  two buffers, of \<^verbatim>\<open>max_locals + 1\<close> and \<^verbatim>\<open>max_stack + 1\<close> entries, and decodes the table in place.
  The buffers are lists of that length; an access outside them is the error
  \<open>Smt_invalid_access\<close>, so that whether the code stays inside them is a theorem and not an
  assumption. The class names that the C code leaves as null pointers are left out; the marker
  \<^verbatim>\<open>IMPLICIT_TOP\<close> of a \<^verbatim>\<open>top\<close> that follows a long or a double is a flag. Allocation failure is not
  modelled.
\<close>

section \<open>Data\<close>

datatype validation_kind =
    VALIDATION_TYPE_TOP | VALIDATION_TYPE_INTEGER | VALIDATION_TYPE_FLOAT | VALIDATION_TYPE_DOUBLE
  | VALIDATION_TYPE_LONG | VALIDATION_TYPE_NULL | VALIDATION_TYPE_UNINIT_THIS | VALIDATION_TYPE_OBJECT
  | VALIDATION_TYPE_UNINIT

record validation_type =
  vkind :: validation_kind
  implicit :: bool

text \<open>The enumeration by its ordinals.\<close>

definition validation_kinds :: "validation_kind list" where
  "validation_kinds =
     [VALIDATION_TYPE_TOP, VALIDATION_TYPE_INTEGER, VALIDATION_TYPE_FLOAT, VALIDATION_TYPE_DOUBLE,
      VALIDATION_TYPE_LONG, VALIDATION_TYPE_NULL, VALIDATION_TYPE_UNINIT_THIS, VALIDATION_TYPE_OBJECT,
      VALIDATION_TYPE_UNINIT]"

definition explicit_type :: "validation_kind \<Rightarrow> validation_type" where
  "explicit_type k = \<lparr>vkind = k, implicit = False\<rparr>"

definition implicit_top :: validation_type where
  "implicit_top = \<lparr>vkind = VALIDATION_TYPE_TOP, implicit = True\<rparr>"

definition is_implicit_top :: "validation_type \<Rightarrow> bool" where
  "is_implicit_top l \<longleftrightarrow> vkind l = VALIDATION_TYPE_TOP \<and> implicit l"

datatype smt_error = Smt_error string | Smt_invalid_access

text \<open>\<^verbatim>\<open>stack_map_frame_iterator\<close> and its \<^verbatim>\<open>impl\<close>; \<open>rd\<close> is what is left of \<^verbatim>\<open>table_copy\<close>.\<close>

record smt_iter = rstate +
  smt_max_locals :: nat
  smt_max_stack :: nat
  has_next :: bool
  is_first :: bool
  it_pc :: nat
  it_stack :: "validation_type list"
  it_stack_size :: nat
  it_locals :: "validation_type list"
  it_locals_size :: nat

type_synonym 'a smt = "(smt_iter, smt_error, 'a) sem"

section \<open>Buffers\<close>

definition allocate_validation_buffer :: "nat \<Rightarrow> validation_type list" where
  "allocate_validation_buffer count = replicate (count + 1) (explicit_type VALIDATION_TYPE_TOP)"

definition set_local :: "nat \<Rightarrow> validation_type \<Rightarrow> unit smt" where
  "set_local i v =
     bind_m (gets_m it_locals) (\<lambda>ls.
     bind_m (guard_m (i < length ls) Smt_invalid_access) (\<lambda>_.
     modify_m (\<lambda>s. s\<lparr>it_locals := (it_locals s)[i := v]\<rparr>)))"

definition set_stack :: "nat \<Rightarrow> validation_type \<Rightarrow> unit smt" where
  "set_stack i v =
     bind_m (gets_m it_stack) (\<lambda>st.
     bind_m (guard_m (i < length st) Smt_invalid_access) (\<lambda>_.
     modify_m (\<lambda>s. s\<lparr>it_stack := (it_stack s)[i := v]\<rparr>)))"

text \<open>\<^verbatim>\<open>iter->locals + iter->locals_size++\<close>, then a store there.\<close>

definition push_local :: "validation_type \<Rightarrow> unit smt" where
  "push_local v =
     bind_m (gets_m it_locals_size) (\<lambda>n.
     bind_m (set_local n v) (\<lambda>_.
     modify_m (\<lambda>s. s\<lparr>it_locals_size := n + 1\<rparr>)))"

section \<open>Initialisation\<close>

fun type_to_validation_type :: "type_kind \<Rightarrow> validation_kind" where
  "type_to_validation_type TYPE_KIND_REFERENCE = VALIDATION_TYPE_OBJECT"
| "type_to_validation_type TYPE_KIND_INT = VALIDATION_TYPE_INTEGER"
| "type_to_validation_type TYPE_KIND_LONG = VALIDATION_TYPE_LONG"
| "type_to_validation_type TYPE_KIND_FLOAT = VALIDATION_TYPE_FLOAT"
| "type_to_validation_type TYPE_KIND_DOUBLE = VALIDATION_TYPE_DOUBLE"
| "type_to_validation_type _ = VALIDATION_TYPE_TOP"

definition init_arg :: "type_kind \<Rightarrow> unit smt" where
  "init_arg k =
     bind_m (push_local (explicit_type (type_to_validation_type k))) (\<lambda>_.
     if k = TYPE_KIND_DOUBLE \<or> k = TYPE_KIND_LONG then push_local implicit_top else return_m ())"

text \<open>\<open>arg_kinds\<close> are the representable kinds of the method's arguments. The C code keeps the
  count in \<^verbatim>\<open>local_i\<close> and stores it at the end.\<close>

definition init_locals :: "bool \<Rightarrow> bool \<Rightarrow> type_kind list \<Rightarrow> unit smt" where
  "init_locals is_static ctor arg_kinds =
     bind_m (if is_static then return_m ()
             else push_local (explicit_type (if ctor then VALIDATION_TYPE_UNINIT_THIS else VALIDATION_TYPE_OBJECT))) (\<lambda>_.
     bind_m (map_m init_arg arg_kinds) (\<lambda>_. return_m ()))"

section \<open>Reading\<close>

definition read_u8 :: "u8 smt" where
  "read_u8 = (\<lambda>s. case rd s of
      [] \<Rightarrow> Inl (Smt_error ''Unexpected end of stackmaptable'')
    | b # bs \<Rightarrow> Inr (b, s\<lparr>rd := bs\<rparr>))"

definition read_u16 :: "u16 smt" where
  "read_u16 = (\<lambda>s. case rd s of
      b # c # bs \<Rightarrow> Inr (push_bit 8 (ucast b) OR ucast c, s\<lparr>rd := bs\<rparr>)
    | _ \<Rightarrow> Inl (Smt_error ''Unexpected end of stackmaptable''))"

text \<open>The result is the type and \<^verbatim>\<open>is_wide\<close>.\<close>

definition read_verification_type :: "(validation_type \<times> bool) smt" where
  "read_verification_type =
     bind_m read_u8 (\<lambda>b.
     bind_m (guard_m (\<not> unat b > 8) (Smt_error ''Invalid verification type'')) (\<lambda>_.
     let k = validation_kinds ! unat b in
     bind_m (if k = VALIDATION_TYPE_OBJECT \<or> k = VALIDATION_TYPE_UNINIT
             then bind_m read_u16 (\<lambda>_. return_m ()) else return_m ()) (\<lambda>_.
     return_m (explicit_type k, k = VALIDATION_TYPE_DOUBLE \<or> k = VALIDATION_TYPE_LONG))))"

definition increment_pc :: "nat \<Rightarrow> smt_iter \<Rightarrow> smt_iter" where
  "increment_pc offset_delta s =
     (if is_first s then s\<lparr>it_pc := it_pc s + offset_delta, is_first := False\<rparr>
      else s\<lparr>it_pc := it_pc s + (offset_delta + 1)\<rparr>)"

section \<open>Frames\<close>

text \<open>One round of the loops of \<^verbatim>\<open>append_frame\<close> and \<^verbatim>\<open>full_frame\<close> over the locals. The slot is
  claimed before the type is read, and the bound is checked after the stores.\<close>

definition read_local :: "string \<Rightarrow> unit smt" where
  "read_local msg =
     bind_m (gets_m it_locals_size) (\<lambda>n.
     bind_m (modify_m (\<lambda>s. s\<lparr>it_locals_size := n + 1\<rparr>)) (\<lambda>_.
     bind_m read_verification_type (\<lambda>(v, is_wide).
     bind_m (set_local n v) (\<lambda>_.
     bind_m (if is_wide then push_local implicit_top else return_m ()) (\<lambda>_.
     bind_m (gets_m (\<lambda>s. it_locals_size s > smt_max_locals s)) (\<lambda>overflow.
     guard_m (\<not> overflow) (Smt_error msg)))))))"

definition read_stack_entry :: "unit smt" where
  "read_stack_entry =
     bind_m (gets_m it_stack_size) (\<lambda>n.
     bind_m (modify_m (\<lambda>s. s\<lparr>it_stack_size := n + 1\<rparr>)) (\<lambda>_.
     bind_m read_verification_type (\<lambda>(v, is_wide).
     bind_m (set_stack n v) (\<lambda>_.
     bind_m (gets_m (\<lambda>s. it_stack_size s > smt_max_stack s)) (\<lambda>overflow.
     guard_m (\<not> overflow) (Smt_error ''full_frame stack overflow''))))))"

text \<open>\<^verbatim>\<open>chop_frame\<close>: \<open>n\<close> is \<^verbatim>\<open>locals_size\<close>; reading entry \<^verbatim>\<open>n - 1\<close> of an empty list of locals is
  an access before the buffer.\<close>

fun chop_locals :: "validation_type list \<Rightarrow> nat \<Rightarrow> nat \<Rightarrow> smt_error + nat" where
  "chop_locals ls 0 n = Inr n"
| "chop_locals ls (Suc pops) n =
     (if n = 0 \<or> length ls < n then Inl Smt_invalid_access
      else if is_implicit_top (ls ! (n - 1)) then
        (if n < 2 then Inl (Smt_error ''chop_frame underflow'') else chop_locals ls pops (n - 2))
      else chop_locals ls pops (n - 1))"

definition chop_frame :: "nat \<Rightarrow> nat smt" where
  "chop_frame pop_count = (\<lambda>s. case chop_locals (it_locals s) pop_count (it_locals_size s) of
      Inl e \<Rightarrow> Inl e
    | Inr n \<Rightarrow> bind_m read_u16 (\<lambda>d. return_m (unat d)) (s\<lparr>it_locals_size := n, it_stack_size := 0\<rparr>))"

definition append_frame :: "nat \<Rightarrow> nat smt" where
  "append_frame additional =
     bind_m read_u16 (\<lambda>d.
     bind_m (modify_m (\<lambda>s. s\<lparr>it_stack_size := 0\<rparr>)) (\<lambda>_.
     bind_m (repeat_m additional (read_local ''append_frame locals overflow'')) (\<lambda>_.
     return_m (unat d))))"

definition full_frame :: "nat smt" where
  "full_frame =
     bind_m read_u16 (\<lambda>d.
     bind_m read_u16 (\<lambda>num_locals.
     bind_m (modify_m (\<lambda>s. s\<lparr>it_locals_size := 0, it_stack_size := 0\<rparr>)) (\<lambda>_.
     bind_m (repeat_m (unat num_locals) (read_local ''full_frame locals overflow'')) (\<lambda>_.
     bind_m read_u16 (\<lambda>num_stack.
     bind_m (repeat_m (unat num_stack) read_stack_entry) (\<lambda>_.
     return_m (unat d)))))))"

definition same_locals_1_frame :: "nat \<Rightarrow> nat smt" where
  "same_locals_1_frame frame_kind =
     bind_m (modify_m (\<lambda>s. s\<lparr>it_stack_size := 1\<rparr>)) (\<lambda>_.
     bind_m (if frame_kind = 247 then bind_m read_u16 (\<lambda>d. return_m (unat d)) else return_m (frame_kind - 64)) (\<lambda>d.
     bind_m read_verification_type (\<lambda>(v, _).
     bind_m (set_stack 0 v) (\<lambda>_. return_m d))))"

text \<open>The chain of conditions on the frame kind; the result is \<^verbatim>\<open>offset_delta\<close>.\<close>

definition read_frame :: "nat \<Rightarrow> nat smt" where
  "read_frame frame_kind =
     (if frame_kind \<le> 63 then bind_m (modify_m (\<lambda>s. s\<lparr>it_stack_size := 0\<rparr>)) (\<lambda>_. return_m frame_kind)
      else if 64 \<le> frame_kind \<and> frame_kind \<le> 127 \<or> frame_kind = 247 then same_locals_1_frame frame_kind
      else if 128 \<le> frame_kind \<and> frame_kind \<le> 246 then fail_m (Smt_error ''Reserved frame kind'')
      else if 248 \<le> frame_kind \<and> frame_kind \<le> 250 then chop_frame (251 - frame_kind)
      else if frame_kind = 251 then
        bind_m read_u16 (\<lambda>d. bind_m (modify_m (\<lambda>s. s\<lparr>it_stack_size := 0\<rparr>)) (\<lambda>_. return_m (unat d)))
      else if 252 \<le> frame_kind \<and> frame_kind \<le> 254 then append_frame (frame_kind - 251)
      else full_frame)"

definition stack_map_frame_iterator_next :: "unit smt" where
  "stack_map_frame_iterator_next =
     bind_m read_u8 (\<lambda>frame_kind.
     bind_m (read_frame (unat frame_kind)) (\<lambda>offset_delta.
     bind_m (gets_m (\<lambda>s. it_stack_size s > smt_max_stack s \<or> it_locals_size s > smt_max_locals s)) (\<lambda>overflow.
     bind_m (guard_m (\<not> overflow) (Smt_error ''Stack map frame overflow'')) (\<lambda>_.
     modify_m (\<lambda>s. increment_pc offset_delta (s\<lparr>has_next := length (rd s) > 0\<rparr>))))))"

text \<open>The first StackMapTable among the attributes of the code.\<close>

fun smt_data :: "attribute list \<Rightarrow> u8 list option" where
  "smt_data [] = None"
| "smt_data (a # as) = (case attr_info a of Attr_stack_map_table _ d \<Rightarrow> Some d | _ \<Rightarrow> smt_data as)"

definition initial_iter :: "u16 \<Rightarrow> u16 \<Rightarrow> u8 list option \<Rightarrow> smt_iter" where
  "initial_iter max_l max_s data =
     \<lparr>rd = (case data of None \<Rightarrow> [] | Some d \<Rightarrow> d), smt_max_locals = unat max_l, smt_max_stack = unat max_s,
      has_next = (data \<noteq> None), is_first = True, it_pc = 0,
      it_stack = allocate_validation_buffer (unat max_s), it_stack_size = 0,
      it_locals = allocate_validation_buffer (unat max_l), it_locals_size = 0\<rparr>"

text \<open>\<^verbatim>\<open>stack_map_frame_iterator_init\<close>: a first frame \<^verbatim>\<open>same_frame\<close> with offset 0 is skipped; the
  call passes a null error pointer, so an error there is a null dereference.\<close>

definition stack_map_frame_iterator_init :: "u16 \<Rightarrow> u16 \<Rightarrow> attribute list \<Rightarrow> bool \<Rightarrow> bool \<Rightarrow> type_kind list \<Rightarrow> smt_error + smt_iter" where
  "stack_map_frame_iterator_init max_l max_s as is_static ctor arg_kinds =
     (case init_locals is_static ctor arg_kinds (initial_iter max_l max_s (smt_data as)) of
        Inl e \<Rightarrow> Inl e
      | Inr (_, s) \<Rightarrow>
          (if rd s \<noteq> [] \<and> hd (rd s) = 0 then
             (case stack_map_frame_iterator_next s of Inl _ \<Rightarrow> Inl Smt_invalid_access | Inr (_, t) \<Rightarrow> Inr t)
           else Inr s))"

section \<open>The reader interface, again\<close>

lemma word_cat_be: "push_bit 8 (ucast b) OR ucast c = (read_be [b, c] :: u16)" for b c :: u8
proof -
  have "push_bit 8 (ucast b) OR ucast c = push_bit 8 (ucast b :: u16) + ucast c"
    by (rule disjunctive_add [symmetric]) (auto simp: bit_push_bit_iff bit_ucast_iff dest: bit_imp_le_length)
  then show ?thesis by (simp add: read_be_def push_bit_eq_mult add.commute mult.commute)
qed

interpretation smt: byte_reader rd read_u8 read_u16
proof
  fix s t :: smt_iter and w
  assume "read_u16 s = Inr (w, t)"
  then obtain b c bs where s: "rd s = b # c # bs" and w: "w = read_be [b, c]" and t: "t = s\<lparr>rd := bs\<rparr>"
    by (auto simp: read_u16_def word_cat_be split: list.splits)
  have "write_be 2 w = [b, c]" using write_be_read_be [of "[b, c]", where 'w = 16] w by (simp add: numeral_2_eq_2)
  then show "rd s = write_be 2 w @ rd t" by (simp add: s t)
qed (auto simp: read_u8_def read_u16_def split: list.splits)

section \<open>The invariant of the iterator\<close>

definition iter_ok :: "smt_iter \<Rightarrow> bool" where
  "iter_ok s \<longleftrightarrow> length (it_locals s) = smt_max_locals s + 1 \<and> length (it_stack s) = smt_max_stack s + 1 \<and>
     it_locals_size s \<le> smt_max_locals s \<and> it_stack_size s \<le> smt_max_stack s"

text \<open>What decoding a frame leaves alone: the sizes of the buffers, the bounds, the position. At
  most \<open>k\<close> bytes are left.\<close>

definition sctx :: "smt_iter \<Rightarrow> nat \<Rightarrow> smt_iter \<Rightarrow> bool" where
  "sctx s0 k s \<longleftrightarrow> length (it_locals s) = length (it_locals s0) \<and> length (it_stack s) = length (it_stack s0) \<and>
     smt_max_locals s = smt_max_locals s0 \<and> smt_max_stack s = smt_max_stack s0 \<and> it_pc s = it_pc s0 \<and>
     is_first s = is_first s0 \<and> length (rd s) \<le> k"

abbreviation keeps :: "smt_iter \<Rightarrow> nat \<Rightarrow> 'a smt \<Rightarrow> bool" where
  "keeps s0 k p \<equiv> hoare (sctx s0 k) p (\<lambda>_. sctx s0 k) (\<lambda>_. True)"

lemma keeps_seq: "keeps s0 k p \<Longrightarrow> (\<And>x. keeps s0 k (f x)) \<Longrightarrow> keeps s0 k (bind_m p f)"
  by (rule hoare_bind)

lemma keeps_repeat: "keeps s0 k p \<Longrightarrow> keeps s0 k (repeat_m n p)"
  by (induction n) (auto intro!: keeps_seq hoare_return)

lemma keeps_reads: "keeps s0 k read_u8" "keeps s0 k read_u16"
  by (auto simp: hoare_def read_u8_def read_u16_def sctx_def split: list.splits)

lemma keeps_modify: "(\<And>s. sctx s0 k s \<Longrightarrow> sctx s0 k (f s)) \<Longrightarrow> keeps s0 k (modify_m f)"
  by (rule hoare_modify)

lemma keeps_guard: "keeps s0 k (guard_m b e)"
  by (rule hoare_guard) auto

lemma keeps_gets: "keeps s0 k (gets_m f)"
  by (rule hoare_gets) auto

lemma keeps_return: "keeps s0 k (return_m x)"
  by (rule hoare_return) auto

lemma keeps_fail: "keeps s0 k (fail_m e)"
  by (rule hoare_fail) simp

lemma keeps_case_prod: "(\<And>x y. keeps s0 k (f x y)) \<Longrightarrow> keeps s0 k (case z of (x, y) \<Rightarrow> f x y)"
  by (cases z) simp

lemmas keeps_rules =
  keeps_seq keeps_repeat keeps_reads keeps_modify keeps_guard keeps_gets keeps_return keeps_fail keeps_case_prod hoare_if

lemma keeps_read_frame: "keeps s0 k (read_frame kind')"
proof -
  have ty: "keeps s0 k read_verification_type"
    unfolding read_verification_type_def Let_def by (intro keeps_rules)
  have put: "keeps s0 k (set_local i v)" "keeps s0 k (set_stack i v)" for i v
    unfolding set_local_def set_stack_def by (intro keeps_rules; simp add: sctx_def)+
  have push: "keeps s0 k (push_local v)" for v
    unfolding push_local_def by (intro keeps_rules put) (simp add: sctx_def)
  have entries: "keeps s0 k (read_local msg)" "keeps s0 k read_stack_entry" for msg
    unfolding read_local_def read_stack_entry_def by (intro keeps_rules ty put push; simp add: sctx_def)+
  have chop: "keeps s0 k (chop_frame n)" for n
  proof -
    have rd: "keeps s0 k (bind_m read_u16 (\<lambda>d. return_m (unat d)))" by (intro keeps_rules)
    show ?thesis
    proof (rule hoareI)
      fix s x t assume s: "sctx s0 k s" and c: "chop_frame n s = Inr (x, t)"
      from c obtain j where r: "bind_m read_u16 (\<lambda>d. return_m (unat d)) (s\<lparr>it_locals_size := j, it_stack_size := 0\<rparr>) = Inr (x, t)"
        by (auto simp: chop_frame_def split: sum.splits)
      have "sctx s0 k (s\<lparr>it_locals_size := j, it_stack_size := 0\<rparr>)" using s by (simp add: sctx_def)
      from hoareD [OF rd this r] show "sctx s0 k t" .
    qed simp
  qed
  show ?thesis
    unfolding read_frame_def append_frame_def full_frame_def same_locals_1_frame_def
    by (intro keeps_rules ty put entries chop; simp add: sctx_def)
qed

lemma stack_map_frame_iterator_next_Inr:
  assumes "stack_map_frame_iterator_next s = Inr (x, t)"
  obtains d where "sctx s (length (rd s) - 1) (t\<lparr>it_pc := it_pc s, is_first := is_first s\<rparr>)" "rd s \<noteq> []"
    "it_locals_size t \<le> smt_max_locals t" "it_stack_size t \<le> smt_max_stack t" "has_next t = (rd t \<noteq> [])" "\<not> is_first t"
    "it_pc t = it_pc s + d + (if is_first s then 0 else 1)"
proof -
  from assms obtain b s1 d s2 where r: "read_u8 s = Inr (b, s1)" "read_frame (unat b) s1 = Inr (d, s2)"
    and le: "it_stack_size s2 \<le> smt_max_stack s2" "it_locals_size s2 \<le> smt_max_locals s2"
    and t: "t = increment_pc d (s2\<lparr>has_next := length (rd s2) > 0\<rparr>)"
    by (auto simp: stack_map_frame_iterator_next_def bind_m_Inr_iff not_less)
  from smt.next_u8_Inr [OF r(1)] have ne: "rd s \<noteq> []" by auto
  have "sctx s (length (rd s) - 1) s1"
    using r(1) by (auto simp: read_u8_def sctx_def split: list.splits)
  from hoareD [OF keeps_read_frame this r(2)] have "sctx s (length (rd s) - 1) s2" .
  with ne le t show ?thesis
    by (intro that [of d]) (auto simp: sctx_def increment_pc_def)
qed

section \<open>Initialisation stays inside the buffer\<close>

text \<open>How many local slots the arguments take.\<close>

definition arg_slots :: "type_kind \<Rightarrow> nat" where
  "arg_slots k = (if k = TYPE_KIND_DOUBLE \<or> k = TYPE_KIND_LONG then 2 else 1)"

definition entry_slots :: "bool \<Rightarrow> type_kind list \<Rightarrow> nat" where
  "entry_slots is_static ks = (if is_static then 0 else 1) + sum_list (map arg_slots ks)"

lemma push_local_ok:
  assumes "it_locals_size s < length (it_locals s)"
  shows "push_local v s = Inr ((), s\<lparr>it_locals := (it_locals s)[it_locals_size s := v], it_locals_size := it_locals_size s + 1\<rparr>)"
  using assms by (simp add: push_local_def set_local_def monad_simps)

lemma init_arg_ok:
  assumes "it_locals_size s + arg_slots k \<le> length (it_locals s)"
  shows "\<exists>ls. init_arg k s = Inr ((), s\<lparr>it_locals := ls, it_locals_size := it_locals_size s + arg_slots k\<rparr>) \<and>
    length ls = length (it_locals s)"
proof (cases "k = TYPE_KIND_DOUBLE \<or> k = TYPE_KIND_LONG")
  case True
  let ?s = "s\<lparr>it_locals := (it_locals s)[it_locals_size s := explicit_type (type_to_validation_type k)],
    it_locals_size := it_locals_size s + 1\<rparr>"
  have p: "push_local (explicit_type (type_to_validation_type k)) s = Inr ((), ?s)"
    using True assms by (intro push_local_ok) (auto simp: arg_slots_def)
  have q: "push_local implicit_top ?s = Inr ((), ?s\<lparr>it_locals := (it_locals ?s)[it_locals_size ?s := implicit_top],
      it_locals_size := it_locals_size ?s + 1\<rparr>)"
    using True assms by (intro push_local_ok) (auto simp: arg_slots_def)
  from True p q show ?thesis
    by (intro exI [of _ "(it_locals ?s)[it_locals_size ?s := implicit_top]"])
      (auto simp: init_arg_def bind_m_def arg_slots_def)
next
  case False
  then show ?thesis
    using assms push_local_ok [of s "explicit_type (type_to_validation_type k)"]
    by (auto simp: init_arg_def bind_m_def return_m_def arg_slots_def)
qed

lemma init_args_ok:
  assumes "it_locals_size s + sum_list (map arg_slots ks) \<le> length (it_locals s)"
  shows "\<exists>x ls. map_m init_arg ks s = Inr (x, s\<lparr>it_locals := ls,
      it_locals_size := it_locals_size s + sum_list (map arg_slots ks)\<rparr>) \<and> length ls = length (it_locals s)"
  using assms
proof (induction ks arbitrary: s)
  case Nil
  then show ?case by (auto simp: return_m_def intro!: exI [of _ "it_locals s"])
next
  case (Cons k ks)
  from init_arg_ok [of s k] Cons.prems obtain ls where
    k: "init_arg k s = Inr ((), s\<lparr>it_locals := ls, it_locals_size := it_locals_size s + arg_slots k\<rparr>)"
    and len: "length ls = length (it_locals s)" by auto
  let ?s = "s\<lparr>it_locals := ls, it_locals_size := it_locals_size s + arg_slots k\<rparr>"
  obtain x ls' where "map_m init_arg ks ?s = Inr (x, ?s\<lparr>it_locals := ls',
      it_locals_size := it_locals_size ?s + sum_list (map arg_slots ks)\<rparr>)" "length ls' = length ls"
    using Cons.IH [of ?s] Cons.prems len by auto
  with k len show ?case by (auto simp: bind_m_def return_m_def add.assoc intro!: exI)
qed

lemma init_locals_ok:
  assumes "entry_slots is_static ks \<le> unat max_l"
  obtains ls where "init_locals is_static ctor ks (initial_iter max_l max_s d) =
      Inr ((), (initial_iter max_l max_s d)\<lparr>it_locals := ls, it_locals_size := entry_slots is_static ks\<rparr>)"
    "length ls = unat max_l + 1"
proof -
  let ?i = "initial_iter max_l max_s d"
  have len: "length (it_locals ?i) = unat max_l + 1" "it_locals_size ?i = 0"
    by (simp_all add: initial_iter_def allocate_validation_buffer_def)
  show ?thesis
  proof (cases is_static)
    case True
    from init_args_ok [of ?i ks] assms True len obtain x ls where
      "map_m init_arg ks ?i = Inr (x, ?i\<lparr>it_locals := ls, it_locals_size := sum_list (map arg_slots ks)\<rparr>)"
      "length ls = unat max_l + 1"
      by (auto simp: entry_slots_def)
    with True show ?thesis by (intro that [of ls]) (auto simp: init_locals_def bind_m_def return_m_def entry_slots_def)
  next
    case False
    let ?this = "explicit_type (if ctor then VALIDATION_TYPE_UNINIT_THIS else VALIDATION_TYPE_OBJECT)"
    let ?s = "?i\<lparr>it_locals := (it_locals ?i)[0 := ?this], it_locals_size := 1\<rparr>"
    have p: "push_local ?this ?i = Inr ((), ?s)" using push_local_ok [of ?i ?this] len by simp
    from init_args_ok [of ?s ks] assms False len obtain x ls where
      "map_m init_arg ks ?s = Inr (x, ?s\<lparr>it_locals := ls, it_locals_size := 1 + sum_list (map arg_slots ks)\<rparr>)"
      "length ls = unat max_l + 1"
      by (auto simp: entry_slots_def)
    with False p show ?thesis
      by (intro that [of ls]) (auto simp: init_locals_def bind_m_def return_m_def entry_slots_def)
  qed
qed

lemma same_frame_0:
  assumes "iter_ok s" "rd s = 0 # bs" "is_first s"
  shows "stack_map_frame_iterator_next s =
    Inr ((), s\<lparr>rd := bs, it_stack_size := 0, has_next := bs \<noteq> [], is_first := False\<rparr>)"
  using assms
  by (auto simp: stack_map_frame_iterator_next_def read_u8_def read_frame_def increment_pc_def iter_ok_def monad_simps)

section \<open>Frames that stay inside the buffers\<close>

definition in_bounds :: "smt_error \<Rightarrow> bool" where
  "in_bounds e \<longleftrightarrow> e \<noteq> Smt_invalid_access"

text \<open>The buffer of the stack has room for one entry, whatever \<^verbatim>\<open>max_stack\<close> is.\<close>

abbreviation stays :: "'a smt \<Rightarrow> bool" where
  "stays p \<equiv> hoare (\<lambda>s. it_stack s \<noteq> []) p (\<lambda>_ s. it_stack s \<noteq> []) in_bounds"

lemma stays_reads: "stays read_u8" "stays read_u16"
  by (auto simp: hoare_def read_u8_def read_u16_def in_bounds_def split: list.splits)

lemma stays_seq: "stays p \<Longrightarrow> (\<And>x. stays (f x)) \<Longrightarrow> stays (bind_m p f)"
  by (rule hoare_bind)

lemma stays_basic:
  "stays (return_m x)" "stays (gets_m f)" "stays (guard_m b (Smt_error r))" "stays (fail_m (Smt_error r))"
  by (auto simp: hoare_def return_m_def gets_m_def guard_m_def fail_m_def in_bounds_def)

lemma stays_case_prod: "(\<And>x y. stays (f x y)) \<Longrightarrow> stays (case z of (x, y) \<Rightarrow> f x y)"
  by (cases z) simp

lemmas stays_rules = stays_reads stays_seq stays_basic stays_case_prod hoare_if hoare_modify

lemma stays_read_verification_type: "stays read_verification_type"
  unfolding read_verification_type_def Let_def by (intro stays_rules)

lemma stays_set_stack_0: "stays (set_stack 0 v)"
  by (auto simp: hoare_def set_stack_def bind_m_def gets_m_def guard_m_def return_m_def modify_m_def)

lemma stays_simple_frame:
  assumes "frame_kind \<le> 247 \<or> frame_kind = 251"
  shows "stays (read_frame frame_kind)"
proof -
  have "stays (same_locals_1_frame frame_kind)"
    unfolding same_locals_1_frame_def
    by (intro stays_rules stays_read_verification_type stays_set_stack_0; simp)
  with assms show ?thesis
    unfolding read_frame_def by (intro stays_rules; simp)
qed

lemma iterator_init_facts:
  assumes "entry_slots is_static ks \<le> unat max_l"
  shows "\<exists>s. stack_map_frame_iterator_init max_l max_s as is_static ctor ks = Inr s \<and> iter_ok s \<and> it_pc s = 0 \<and>
    it_locals_size s = entry_slots is_static ks \<and> it_stack_size s = 0 \<and>
    smt_max_locals s = unat max_l \<and> smt_max_stack s = unat max_s"
proof -
  let ?i = "initial_iter max_l max_s (smt_data as)"
  from init_locals_ok [OF assms] obtain ls where
    l: "init_locals is_static ctor ks ?i = Inr ((), ?i\<lparr>it_locals := ls, it_locals_size := entry_slots is_static ks\<rparr>)"
    and len: "length ls = unat max_l + 1" .
  let ?s = "?i\<lparr>it_locals := ls, it_locals_size := entry_slots is_static ks\<rparr>"
  have ok: "iter_ok ?s" using len assms by (simp add: iter_ok_def initial_iter_def allocate_validation_buffer_def)
  have first: "is_first ?s" "it_pc ?s = 0" "it_stack_size ?s = 0" "smt_max_locals ?s = unat max_l"
      "smt_max_stack ?s = unat max_s" by (simp_all add: initial_iter_def)
  show ?thesis
  proof (cases "rd ?s \<noteq> [] \<and> hd (rd ?s) = 0")
    case True
    then obtain bs where "rd ?s = 0 # bs" by (cases "rd ?s") auto
    from same_frame_0 [OF ok this first(1)] True l ok first show ?thesis
      by (auto simp: stack_map_frame_iterator_init_def iter_ok_def)
  next
    case False
    with l ok first show ?thesis by (auto simp: stack_map_frame_iterator_init_def)
  qed
qed

lemma iterator_next_facts:
  assumes "iter_ok s" "stack_map_frame_iterator_next s = Inr (x, t)"
  shows "iter_ok t" "smt_max_locals t = smt_max_locals s" "smt_max_stack t = smt_max_stack s"
proof -
  from stack_map_frame_iterator_next_Inr [OF assms(2)] obtain d where
    "sctx s (length (rd s) - 1) (t\<lparr>it_pc := it_pc s, is_first := is_first s\<rparr>)"
    "it_locals_size t \<le> smt_max_locals t" "it_stack_size t \<le> smt_max_stack t" .
  with assms(1) show "iter_ok t" "smt_max_locals t = smt_max_locals s" "smt_max_stack t = smt_max_stack s"
    by (simp_all add: iter_ok_def sctx_def)
qed

section \<open>Properties\<close>

text \<open>C10. A step of the iterator keeps its invariant (both buffers keep their sizes, both counts are
  within \<^verbatim>\<open>max_locals\<close> and \<^verbatim>\<open>max_stack\<close>), moves forward in the code (strictly, after the first
  frame), consumes input, so that iteration ends, and knows whether a frame is left.\<close>

theorem stack_map_frame_iterator_next_inv:
  assumes "iter_ok s" "stack_map_frame_iterator_next s = Inr ((), t)"
  shows "iter_ok t \<and> it_pc s \<le> it_pc t \<and> (is_first s \<or> it_pc s < it_pc t) \<and> length (rd t) < length (rd s) \<and>
    has_next t = (rd t \<noteq> [])"
proof -
  from stack_map_frame_iterator_next_Inr [OF assms(2)] obtain d where
    t: "sctx s (length (rd s) - 1) (t\<lparr>it_pc := it_pc s, is_first := is_first s\<rparr>)" "rd s \<noteq> []"
      "it_locals_size t \<le> smt_max_locals t" "it_stack_size t \<le> smt_max_stack t" "has_next t = (rd t \<noteq> [])"
      "it_pc t = it_pc s + d + (if is_first s then 0 else 1)" .
  have "length (rd t) \<le> length (rd s) - 1" using t(1) by (simp add: sctx_def)
  moreover have "0 < length (rd s)" using t(2) by simp
  ultimately have "length (rd t) < length (rd s)" by linarith
  moreover have "iter_ok t" using t(1,3,4) assms(1) by (simp add: iter_ok_def sctx_def)
  ultimately show ?thesis using t(5,6) by simp
qed

definition sample_iter :: smt_iter where
  "sample_iter = \<lparr>rd = [66, 1], smt_max_locals = 0, smt_max_stack = 1, has_next = True, is_first = True, it_pc = 0,
     it_stack = [explicit_type VALIDATION_TYPE_TOP, explicit_type VALIDATION_TYPE_TOP], it_stack_size = 0,
     it_locals = [explicit_type VALIDATION_TYPE_TOP], it_locals_size = 0\<rparr>"

lemma sample_iter_next:
  "stack_map_frame_iterator_next sample_iter = Inr ((), sample_iter\<lparr>rd := [], has_next := False, is_first := False, it_pc := 2,
     it_stack := [explicit_type VALIDATION_TYPE_INTEGER, explicit_type VALIDATION_TYPE_TOP], it_stack_size := 1\<rparr>)"
  by (simp add: stack_map_frame_iterator_next_def sample_iter_def read_u8_def read_frame_def same_locals_1_frame_def
      read_verification_type_def validation_kinds_def set_stack_def increment_pc_def monad_simps)

theorem stack_map_frame_iterator_next_inv_witness:
  "iter_ok (sample_iter\<lparr>rd := [], has_next := False, is_first := False, it_pc := 2,
     it_stack := [explicit_type VALIDATION_TYPE_INTEGER, explicit_type VALIDATION_TYPE_TOP], it_stack_size := 1\<rparr>)"
  using stack_map_frame_iterator_next_inv [OF _ sample_iter_next] by (simp add: iter_ok_def sample_iter_def)

text \<open>When \<^verbatim>\<open>this\<close> and the arguments fit into \<^verbatim>\<open>max_locals\<close> slots, initialisation succeeds without
  leaving the buffer, the skipped first frame included, and the iterator starts at program counter
  0 with exactly the slots of the arguments.\<close>

theorem stack_map_frame_iterator_init_ok:
  assumes "entry_slots is_static ks \<le> unat max_l"
  shows "\<exists>s. stack_map_frame_iterator_init max_l max_s as is_static ctor ks = Inr s \<and> iter_ok s \<and> it_pc s = 0 \<and>
    it_locals_size s = entry_slots is_static ks \<and> it_stack_size s = 0"
  using iterator_init_facts [OF assms] by blast

theorem stack_map_frame_iterator_init_ok_witness:
  "\<exists>s. stack_map_frame_iterator_init 3 0 [] False False [TYPE_KIND_LONG] = Inr s \<and> iter_ok s \<and> it_pc s = 0 \<and>
    it_locals_size s = 3 \<and> it_stack_size s = 0"
proof -
  have "entry_slots False [TYPE_KIND_LONG] = 3" by (simp add: entry_slots_def arg_slots_def)
  then show ?thesis using stack_map_frame_iterator_init_ok [of False "[TYPE_KIND_LONG]" 3 0 "[]" False] by simp
qed

text \<open>The frames that do not change the number of locals (\<^verbatim>\<open>same_frame\<close>,
  \<^verbatim>\<open>same_locals_1_stack_item\<close> and their extended forms, and the reserved kinds) never access memory outside
  the buffers, whatever the input is.\<close>

theorem simple_frames_in_bounds:
  assumes "iter_ok s" "rd s = b # bs" "unat b \<le> 247 \<or> unat b = 251"
  shows "stack_map_frame_iterator_next s \<noteq> Inl Smt_invalid_access"
proof
  assume err: "stack_map_frame_iterator_next s = Inl Smt_invalid_access"
  have "it_stack (s\<lparr>rd := bs\<rparr>) \<noteq> []" using assms(1) by (auto simp: iter_ok_def)
  moreover have "read_frame (unat b) (s\<lparr>rd := bs\<rparr>) = Inl Smt_invalid_access"
    using err assms(2) by (auto simp: stack_map_frame_iterator_next_def read_u8_def bind_m_Inl_iff)
  ultimately have "in_bounds Smt_invalid_access"
    using hoareD_err [OF stays_simple_frame [OF assms(3)]] by blast
  then show False by (simp add: in_bounds_def)
qed

theorem simple_frames_in_bounds_witness: "stack_map_frame_iterator_next sample_iter \<noteq> Inl Smt_invalid_access"
  by (rule simple_frames_in_bounds [where b = 66 and bs = "[1]"]) (simp_all add: iter_ok_def sample_iter_def)

text \<open>\<^verbatim>\<open>append_frame\<close> writes behind the buffer: when the locals already fill \<^verbatim>\<open>max_locals\<close> and a long or
  double is appended, the implicit \<^verbatim>\<open>top\<close> is stored at index \<^verbatim>\<open>max_locals + 1\<close> of a buffer of
  \<^verbatim>\<open>max_locals + 1\<close> entries, because the bound is only checked after both stores.\<close>

theorem append_frame_overflow:
  assumes "iter_ok s" "it_locals_size s = smt_max_locals s" "rd s = 252 # d # d' # w # bs" "w = 3 \<or> w = 4"
  shows "stack_map_frame_iterator_next s = Inl Smt_invalid_access"
  using assms
  by (auto simp: stack_map_frame_iterator_next_def read_u8_def read_u16_def read_frame_def append_frame_def read_local_def
      read_verification_type_def validation_kinds_def set_local_def push_local_def iter_ok_def monad_simps)

definition full_iter :: smt_iter where
  "full_iter = sample_iter\<lparr>rd := [252, 0, 0, 4]\<rparr>"

theorem append_frame_overflow_witness: "stack_map_frame_iterator_next full_iter = Inl Smt_invalid_access"
  by (rule append_frame_overflow [where d = 0 and d' = 0 and w = 4 and bs = "[]"])
    (simp_all add: full_iter_def sample_iter_def iter_ok_def)

end
