(* ===== verification/Stack_Analysis.thy ===== *)
theory Stack_Analysis
  imports Stack_Map "HOL-Library.Multiset"
begin

text \<open>
  The abstract interpretation of one instruction (\<^verbatim>\<open>vm/analysis.c\<close>, up to \<^verbatim>\<open>analyze_instruction\<close>):
  the types on the operand stack and in the locals, the renumbering of the locals so that a long or
  a double takes one slot, and the rewriting of the stack instructions to one slot per value.

  The stack and the locals are arrays with a count and a capacity, as in the source; an access
  outside the array is the error \<open>Bad_access\<close>, \<^verbatim>\<open>UNREACHABLE()\<close> is the error \<open>Unreachable\<close> and a
  failed \<^verbatim>\<open>CHECK\<close> or \<^verbatim>\<open>DCHECK\<close> is the error \<open>Check_failed\<close>. The text of the error messages is not
  modelled, nor is the failure of an allocation.
\<close>

section \<open>Types and their sources\<close>

datatype variable_source_kind =
    VARIABLE_SRC_KIND_PARAMETER | VARIABLE_SRC_KIND_LOCAL | VARIABLE_SRC_KIND_INSN | VARIABLE_SRC_KIND_UNK

record stack_variable_source =
  src_index :: u16
  src_kind :: variable_source_kind

record analy_stack_entry =
  e_type :: type_kind
  e_source :: stack_variable_source

record analy_stack_state =
  st_entries :: "analy_stack_entry list"
  st_count :: nat
  st_cap :: nat

definition is_kind_wide :: "type_kind \<Rightarrow> bool" where
  "is_kind_wide k \<longleftrightarrow> k = TYPE_KIND_LONG \<or> k = TYPE_KIND_DOUBLE"

definition is_field_wide :: "field_descriptor \<Rightarrow> bool" where
  "is_field_wide d \<longleftrightarrow> is_kind_wide (base_kind d) \<and> dimensions d = 0"

definition parameter_source :: "type_kind \<Rightarrow> nat \<Rightarrow> analy_stack_entry" where
  "parameter_source k j =
     \<lparr>e_type = k, e_source = \<lparr>src_index = of_nat j, src_kind = VARIABLE_SRC_KIND_PARAMETER\<rparr>\<rparr>"

definition this_source :: analy_stack_entry where
  "this_source = parameter_source TYPE_KIND_REFERENCE 0"

definition insn_source :: "type_kind \<Rightarrow> nat \<Rightarrow> analy_stack_entry" where
  "insn_source k j =
     \<lparr>e_type = k, e_source = \<lparr>src_index = of_nat j, src_kind = VARIABLE_SRC_KIND_INSN\<rparr>\<rparr>"

definition local_source :: "type_kind \<Rightarrow> nat \<Rightarrow> analy_stack_entry" where
  "local_source k j =
     \<lparr>e_type = k, e_source = \<lparr>src_index = of_nat j, src_kind = VARIABLE_SRC_KIND_LOCAL\<rparr>\<rparr>"

text \<open>What \<^verbatim>\<open>calloc\<close> leaves in an entry.\<close>

definition zero_entry :: analy_stack_entry where
  "zero_entry =
     \<lparr>e_type = TYPE_KIND_BOOLEAN, e_source = \<lparr>src_index = 0, src_kind = VARIABLE_SRC_KIND_PARAMETER\<rparr>\<rparr>"

datatype analysis_error =
    Local_type_mismatch | Local_overflow | Stack_overflow | Stack_underflow | Stack_type_mismatch
  | Locals_do_not_fit | Bad_lvt_index | Bad_stack_map smt_error
  | Bad_access | Bad_npe_access | Unreachable | Check_failed | Unknown_state | Analysis_out_of_fuel

section \<open>Locals on method entry\<close>

text \<open>The loop over the arguments: \<open>i\<close> counts them, \<open>j\<close> is the formal local, \<open>off\<close> is
  \<^verbatim>\<open>!is_static\<close>. In the swizzle, \<open>None\<close> is -1.\<close>

fun place_args :: "nat \<Rightarrow> nat \<Rightarrow> field_descriptor list \<Rightarrow> nat \<Rightarrow> nat \<Rightarrow> analy_stack_entry list \<Rightarrow>
    nat option list \<Rightarrow> analysis_error + (analy_stack_entry list \<times> nat option list)" where
  "place_args ml off [] i j es sw = Inr (es, sw)"
| "place_args ml off (arg # rest) i j es sw =
     (if j < ml then
        let swizzled = i + off;
            es' = es[swizzled := parameter_source (repr_kind arg) (i + 1)];
            sw' = sw[j := Some swizzled] in
        if \<not> swizzled < length es then Inl Bad_access
        else if is_field_wide arg then
          if j + 1 \<ge> ml then Inl Locals_do_not_fit
          else place_args ml off rest (i + 1) (j + 2) es' sw'
        else place_args ml off rest (i + 1) (j + 1) es' sw'
      else Inl Locals_do_not_fit)"

text \<open>The last loop maps the locals that no argument took.\<close>

fun map_rest :: "nat \<Rightarrow> nat option list \<Rightarrow> nat list" where
  "map_rest k [] = []"
| "map_rest k (None # sw) = k # map_rest (k + 1) sw"
| "map_rest k (Some v # sw) = v # map_rest k sw"

definition locals_on_method_entry ::
    "bool \<Rightarrow> field_descriptor list \<Rightarrow> nat \<Rightarrow> analysis_error + (analy_stack_state \<times> nat list)" where
  "locals_on_method_entry is_static argds ml =
     (let es = replicate ml (zero_entry\<lparr>e_type := TYPE_KIND_VOID\<rparr>);
          sw = replicate ml None;
          off = (if is_static then 0 else 1) in
      if \<not> is_static \<and> ml = 0 then Inl Locals_do_not_fit
      else case place_args ml off argds 0 off
                  (if is_static then es else es[0 := this_source])
                  (if is_static then sw else sw[0 := Some 0]) of
        Inl e \<Rightarrow> Inl e
      | Inr (es', sw') \<Rightarrow>
          Inr (\<lparr>st_entries = es', st_count = ml, st_cap = ml\<rparr>,
               map_rest (length argds + off) sw'))"

section \<open>Copying and intersecting states\<close>

text \<open>\<^verbatim>\<open>realloc\<close> gives exactly \<^verbatim>\<open>src->count\<close> entries and leaves \<^verbatim>\<open>entries_cap\<close> as it was.\<close>

definition copy_analy_stack_state :: "analy_stack_state \<Rightarrow> analy_stack_state \<Rightarrow> analy_stack_state" where
  "copy_analy_stack_state dst src =
     dst\<lparr>st_entries := take (st_count src) (st_entries src) @
            (if st_cap dst < st_count src then [] else drop (st_count src) (st_entries dst)),
         st_count := st_count src\<rparr>"

text \<open>The loop over the common entries, with what it makes of \<^verbatim>\<open>ctx->changed\<close>.\<close>

fun merge_entries :: "analy_stack_entry list \<Rightarrow> analy_stack_entry list \<Rightarrow> bool \<times> analy_stack_entry list" where
  "merge_entries (d # ds) (s # ss) =
     (let (c, rs) = merge_entries ds ss in
      if e_type d \<noteq> e_type s \<and> e_type d \<noteq> TYPE_KIND_VOID then (True, d\<lparr>e_type := TYPE_KIND_VOID\<rparr> # rs)
      else (c, d # rs))"
| "merge_entries ds _ = (False, ds)"

definition intersect_analy_stack_state ::
    "analy_stack_state option \<Rightarrow> analy_stack_state \<Rightarrow> bool \<times> analy_stack_state" where
  "intersect_analy_stack_state dst src = (case dst of
      None \<Rightarrow> (True, copy_analy_stack_state \<lparr>st_entries = [], st_count = 0, st_cap = 0\<rparr> src)
    | Some d \<Rightarrow>
        let min_entries = min (st_count d) (st_count src);
            (c, es) = merge_entries (take min_entries (st_entries d)) (take min_entries (st_entries src)) in
        (c, d\<lparr>st_entries := es @ drop min_entries (st_entries d), st_count := min_entries\<rparr>))"

section \<open>The analysis context\<close>

datatype reduced_tos_kind = TOS_VOID | TOS_DOUBLE | TOS_INT | TOS_FLOAT

record analyzed_insn = bytecode_insn +
  tos_before :: reduced_tos_kind
  tos_after :: reduced_tos_kind
  i_delta :: int

text \<open>\<^verbatim>\<open>method_analysis_ctx\<close>, the parts of \<^verbatim>\<open>attribute_code\<close> that the analysis reads, and the
  instruction under analysis. \<open>a_insn_size\<close> is \<^verbatim>\<open>sizeof(bytecode_insn)\<close>, which depends on the
  target. The known states are null outside of the mode without a StackMapTable.\<close>

record method_analysis_ctx =
  a_pool :: "cp_entry list"
  a_max_locals :: nat
  a_insn_count :: nat
  a_insn_size :: int
  a_stack :: analy_stack_state
  a_locals :: analy_stack_state
  a_swizzle :: "nat list"
  a_edges :: "(nat \<times> nat) list"
  a_known_stacks :: "analy_stack_state option list option"
  a_known_locals :: "analy_stack_state option list option"
  a_changed :: bool
  a_insn :: analyzed_insn
  a_terminated :: bool

type_synonym 'a an = "(method_analysis_ctx, analysis_error, 'a) sem"

definition intersect_at :: "nat \<Rightarrow> analy_stack_state option list \<Rightarrow> analy_stack_state \<Rightarrow>
    analysis_error + (bool \<times> analy_stack_state option list)" where
  "intersect_at target known src =
     (if \<not> target < length known then Inl Bad_access
      else let (c, d) = intersect_analy_stack_state (known ! target) src in Inr (c, known[target := Some d]))"

definition intersect_known_stack :: "nat \<Rightarrow> analy_stack_state \<Rightarrow> unit an" where
  "intersect_known_stack target src = (\<lambda>s. case a_known_stacks s of
      None \<Rightarrow> Inl Bad_access
    | Some known \<Rightarrow> (case intersect_at target known src of
        Inl e \<Rightarrow> Inl e
      | Inr (c, known') \<Rightarrow> Inr ((), s\<lparr>a_known_stacks := Some known', a_changed := (a_changed s \<or> c)\<rparr>)))"

definition intersect_known_locals :: "nat \<Rightarrow> analy_stack_state \<Rightarrow> unit an" where
  "intersect_known_locals target src = (\<lambda>s. case a_known_locals s of
      None \<Rightarrow> Inl Bad_access
    | Some known \<Rightarrow> (case intersect_at target known src of
        Inl e \<Rightarrow> Inl e
      | Inr (c, known') \<Rightarrow> Inr ((), s\<lparr>a_known_locals := Some known', a_changed := (a_changed s \<or> c)\<rparr>)))"

definition push_branch_target :: "nat \<Rightarrow> nat \<Rightarrow> unit an" where
  "push_branch_target at_insn target =
     bind_m (gets_m (\<lambda>s. s)) (\<lambda>s.
     bind_m (guard_m (target < a_insn_count s) Check_failed) (\<lambda>_.
     bind_m (modify_m (\<lambda>s. s\<lparr>a_edges := a_edges s @ [(at_insn, target)]\<rparr>)) (\<lambda>_.
     if a_known_stacks s \<noteq> None then
       bind_m (intersect_known_stack target (a_stack s)) (\<lambda>_.
       intersect_known_locals target (a_locals s))
     else return_m ())))"

fun reduce_tos :: "type_kind \<Rightarrow> reduced_tos_kind option" where
  "reduce_tos TYPE_KIND_FLOAT = Some TOS_FLOAT"
| "reduce_tos TYPE_KIND_DOUBLE = Some TOS_DOUBLE"
| "reduce_tos TYPE_KIND_VOID = None"
| "reduce_tos _ = Some TOS_INT"

definition calculate_tos_type :: "reduced_tos_kind an" where
  "calculate_tos_type =
     bind_m (gets_m a_stack) (\<lambda>st.
     if st_count st = 0 then return_m TOS_VOID
     else bind_m (guard_m (st_count st - 1 < length (st_entries st)) Bad_access) (\<lambda>_.
       case reduce_tos (e_type (st_entries st ! (st_count st - 1))) of
         None \<Rightarrow> fail_m Unreachable
       | Some r \<Rightarrow> return_m r))"

text \<open>The index and the delta share a member of the union of the instruction.\<close>

definition insn_index :: "analyzed_insn \<Rightarrow> nat" where
  "insn_index i = (case payload i of Index x \<Rightarrow> x | Iinc x _ \<Rightarrow> x | _ \<Rightarrow> 0)"

definition set_delta :: "int \<Rightarrow> unit an" where
  "set_delta d = modify_m (\<lambda>s. s\<lparr>a_insn := (a_insn s)\<lparr>i_delta := d\<rparr>\<rparr>)"

definition calculate_local_modifying_insn_delta :: "unit an" where
  "calculate_local_modifying_insn_delta =
     bind_m (gets_m (\<lambda>s. int (a_max_locals s) - int (insn_index (a_insn s)))) set_delta"

definition calculate_branch_delta :: "nat \<Rightarrow> unit an" where
  "calculate_branch_delta at_insn =
     bind_m (gets_m (\<lambda>s. (int (insn_index (a_insn s)) - int at_insn) * a_insn_size s)) set_delta"

section \<open>The macros\<close>

definition pop_val :: "analy_stack_entry an" where
  "pop_val =
     bind_m (gets_m a_stack) (\<lambda>st.
     if st_count st = 0 then fail_m Stack_underflow
     else bind_m (guard_m (st_count st - 1 < length (st_entries st)) Bad_access) (\<lambda>_.
       bind_m (modify_m (\<lambda>s. s\<lparr>a_stack := st\<lparr>st_count := st_count st - 1\<rparr>\<rparr>)) (\<lambda>_.
       return_m (st_entries st ! (st_count st - 1)))))"

definition pop_kind :: "type_kind \<Rightarrow> unit an" where
  "pop_kind k = bind_m pop_val (\<lambda>e. guard_m (k = e_type e) Stack_type_mismatch)"

definition push_entry :: "analy_stack_entry \<Rightarrow> unit an" where
  "push_entry e =
     bind_m (gets_m a_stack) (\<lambda>st.
     if st_count st = st_cap st then fail_m Stack_overflow
     else if e_type e = TYPE_KIND_VOID then return_m ()
     else bind_m (guard_m (st_count st < length (st_entries st)) Bad_access) (\<lambda>_.
       bind_m (modify_m (\<lambda>s. s\<lparr>a_stack :=
         st\<lparr>st_entries := (st_entries st)[st_count st := e], st_count := st_count st + 1\<rparr>\<rparr>)) (\<lambda>_.
       guard_m (e_type e \<noteq> TYPE_KIND_BOOLEAN) Unreachable)))"

definition push_kind :: "type_kind \<Rightarrow> nat \<Rightarrow> unit an" where
  "push_kind k at = push_entry (insn_source k at)"

text \<open>\<^verbatim>\<open>LOCAL_INDEX\<close>, with the read of the swizzle that it makes when nothing is rewritten.\<close>

definition local_index :: "bool \<Rightarrow> nat an" where
  "local_index do_rewrite =
     bind_m (gets_m (\<lambda>s. insn_index (a_insn s))) (\<lambda>i.
     if do_rewrite then return_m i
     else bind_m (gets_m a_swizzle) (\<lambda>sw.
       bind_m (guard_m (i < length sw) Bad_access) (\<lambda>_. return_m (sw ! i))))"

definition get_local_entry :: "bool \<Rightarrow> analy_stack_entry an" where
  "get_local_entry do_rewrite =
     bind_m (local_index do_rewrite) (\<lambda>i.
     bind_m (gets_m (\<lambda>s. st_entries (a_locals s))) (\<lambda>es.
     bind_m (guard_m (i < length es) Bad_access) (\<lambda>_. return_m (es ! i))))"

definition set_local_kind :: "bool \<Rightarrow> type_kind \<Rightarrow> nat \<Rightarrow> unit an" where
  "set_local_kind do_rewrite k at =
     bind_m (gets_m (\<lambda>s. insn_index (a_insn s) < a_max_locals s)) (\<lambda>fits.
     bind_m (guard_m fits Local_overflow) (\<lambda>_.
     bind_m (local_index do_rewrite) (\<lambda>i.
     bind_m (gets_m (\<lambda>s. i < length (st_entries (a_locals s)))) (\<lambda>inside.
     bind_m (guard_m inside Bad_access) (\<lambda>_.
     modify_m (\<lambda>s. s\<lparr>a_locals := (a_locals s)\<lparr>st_entries := (st_entries (a_locals s))[i := local_source k at]\<rparr>\<rparr>))))))"

fun with_index :: "insn_payload \<Rightarrow> nat \<Rightarrow> insn_payload" where
  "with_index (Index _) x = Index x"
| "with_index (Iinc _ c) x = Iinc x c"
| "with_index p _ = p"

definition swizzle_local :: "bool \<Rightarrow> unit an" where
  "swizzle_local do_rewrite =
     bind_m (gets_m (\<lambda>s. s)) (\<lambda>s.
     let i = insn_index (a_insn s) in
     bind_m (guard_m (i < a_max_locals s) Local_overflow) (\<lambda>_.
     if do_rewrite then
       bind_m (guard_m (i < length (a_swizzle s)) Bad_access) (\<lambda>_.
       modify_m (\<lambda>s. s\<lparr>a_insn := (a_insn s)\<lparr>payload := with_index (payload (a_insn s)) (a_swizzle s ! i)\<rparr>\<rparr>))
     else return_m ()))"

definition check_local :: "bool \<Rightarrow> type_kind \<Rightarrow> unit an" where
  "check_local do_rewrite k =
     bind_m (get_local_entry do_rewrite) (\<lambda>e. guard_m (e_type e = k) Local_type_mismatch)"

definition rewrite_to :: "bool \<Rightarrow> nat \<Rightarrow> unit an" where
  "rewrite_to do_rewrite k =
     (if do_rewrite then modify_m (\<lambda>s. s\<lparr>a_insn := (a_insn s)\<lparr>kind := k\<rparr>\<rparr>) else return_m ())"

definition terminate_state :: "unit an" where
  "terminate_state = modify_m (\<lambda>s. s\<lparr>a_terminated := True\<rparr>)"

section \<open>Instructions with a fixed effect\<close>

abbreviation (input) Int_k :: type_kind where "Int_k \<equiv> TYPE_KIND_INT"
abbreviation (input) Long_k :: type_kind where "Long_k \<equiv> TYPE_KIND_LONG"
abbreviation (input) Float_k :: type_kind where "Float_k \<equiv> TYPE_KIND_FLOAT"
abbreviation (input) Double_k :: type_kind where "Double_k \<equiv> TYPE_KIND_DOUBLE"
abbreviation (input) Ref_k :: type_kind where "Ref_k \<equiv> TYPE_KIND_REFERENCE"

text \<open>A row of the switch: the kinds that share the case, what it pops (in the order of the
  \<^verbatim>\<open>POP\<close>s), what it pushes, and whether it sets \<^verbatim>\<open>state_terminated\<close>.\<close>

type_synonym effect_row = "nat list \<times> type_kind list \<times> type_kind list \<times> bool"

definition effects_a_to_d :: "effect_row list" where
  "effects_a_to_d =
     [([insn_nop, insn_ret], [], [], False),
      ([insn_aaload], [Int_k, Ref_k], [Ref_k], False),
      ([insn_aastore], [Ref_k, Int_k, Ref_k], [], False),
      ([insn_aconst_null], [], [Ref_k], False),
      ([insn_areturn], [Ref_k], [], True),
      ([insn_arraylength], [Ref_k], [Int_k], False),
      ([insn_athrow], [Ref_k], [], True),
      ([insn_baload, insn_caload, insn_saload, insn_iaload], [Int_k, Ref_k], [Int_k], False),
      ([insn_bastore, insn_castore, insn_sastore, insn_iastore], [Int_k, Int_k, Ref_k], [], False),
      ([insn_d2f], [Double_k], [Float_k], False),
      ([insn_d2i], [Double_k], [Int_k], False),
      ([insn_d2l], [Double_k], [Long_k], False),
      ([insn_dadd, insn_ddiv, insn_dmul, insn_drem, insn_dsub], [Double_k, Double_k], [Double_k], False),
      ([insn_daload], [Int_k, Ref_k], [Double_k], False),
      ([insn_dastore], [Double_k, Int_k, Ref_k], [], False),
      ([insn_dcmpg, insn_dcmpl], [Double_k, Double_k], [Int_k], False),
      ([insn_dneg], [Double_k], [Double_k], False),
      ([insn_dreturn], [Double_k], [], True)]"

definition effects_f_to_i :: "effect_row list" where
  "effects_f_to_i =
     [([insn_f2d], [Float_k], [Double_k], False),
      ([insn_f2i], [Float_k], [Int_k], False),
      ([insn_f2l], [Float_k], [Long_k], False),
      ([insn_fadd], [Float_k, Float_k], [Float_k], False),
      ([insn_faload], [Int_k, Ref_k], [Float_k], False),
      ([insn_fastore], [Float_k, Int_k, Ref_k], [], False),
      ([insn_fcmpg, insn_fcmpl], [Float_k, Float_k], [Int_k], False),
      ([insn_fdiv, insn_fmul, insn_frem, insn_fsub], [Float_k, Float_k], [Float_k], False),
      ([insn_fneg], [Float_k], [Float_k], False),
      ([insn_freturn], [Float_k], [], True),
      ([insn_i2b, insn_i2c], [Int_k], [Int_k], False),
      ([insn_i2d], [Int_k], [Double_k], False),
      ([insn_i2f], [Int_k], [Float_k], False),
      ([insn_i2l], [Int_k], [Long_k], False),
      ([insn_i2s], [Int_k], [Int_k], False),
      ([insn_iadd, insn_iand, insn_idiv, insn_imul, insn_irem, insn_ior, insn_ishl, insn_ishr, insn_isub,
        insn_ixor, insn_iushr], [Int_k, Int_k], [Int_k], False),
      ([insn_ineg], [Int_k], [Int_k], False),
      ([insn_ireturn], [Int_k], [], True)]"

definition effects_l_to_m :: "effect_row list" where
  "effects_l_to_m =
     [([insn_l2d], [Long_k], [Double_k], False),
      ([insn_l2f], [Long_k], [Float_k], False),
      ([insn_l2i], [Long_k], [Int_k], False),
      ([insn_ladd, insn_land, insn_ldiv, insn_lmul, insn_lor, insn_lrem, insn_lsub, insn_lxor],
        [Long_k, Long_k], [Long_k], False),
      ([insn_lshl, insn_lshr, insn_lushr], [Int_k, Long_k], [Long_k], False),
      ([insn_laload], [Int_k, Ref_k], [Long_k], False),
      ([insn_lastore], [Long_k, Int_k, Ref_k], [], False),
      ([insn_lcmp], [Long_k, Long_k], [Int_k], False),
      ([insn_lneg], [Long_k], [Long_k], False),
      ([insn_lreturn], [Long_k], [], True),
      ([insn_monitorenter], [Ref_k], [], False),
      ([insn_monitorexit], [Ref_k], [], False)]"

definition effects_rest :: "effect_row list" where
  "effects_rest =
     [([insn_return], [], [], True),
      ([insn_anewarray], [Int_k], [Ref_k], False),
      ([insn_checkcast], [Ref_k], [Ref_k], False),
      ([insn_instanceof], [Ref_k], [Int_k], False),
      ([insn_new], [], [Ref_k], False),
      ([insn_ldc], [], [Ref_k], False),
      ([insn_iconst], [], [Int_k], False),
      ([insn_dconst], [], [Double_k], False),
      ([insn_fconst], [], [Float_k], False),
      ([insn_lconst], [], [Long_k], False),
      ([insn_newarray], [Int_k], [Ref_k], False)]"

definition fixed_effects :: "effect_row list" where
  "fixed_effects = effects_a_to_d @ effects_f_to_i @ effects_l_to_m @ effects_rest"

fun find_effect :: "effect_row list \<Rightarrow> nat \<Rightarrow> (type_kind list \<times> type_kind list \<times> bool) option" where
  "find_effect [] k = None"
| "find_effect ((ks, e) # rows) k = (if k \<in> set ks then Some e else find_effect rows k)"

definition do_pops :: "type_kind list \<Rightarrow> unit an" where
  "do_pops ks = bind_m (map_m pop_kind ks) (\<lambda>_. return_m ())"

definition do_effect :: "nat \<Rightarrow> type_kind list \<times> type_kind list \<times> bool \<Rightarrow> unit an" where
  "do_effect at e = (case e of (pops, pushes, term) \<Rightarrow>
     bind_m (do_pops pops) (\<lambda>_.
     bind_m (map_m (\<lambda>k. push_kind k at) pushes) (\<lambda>_.
     if term then terminate_state else return_m ())))"

section \<open>Stack instructions\<close>

text \<open>A sequence of \<^verbatim>\<open>PUSH_ENTRY\<close>.\<close>

definition push_all :: "analy_stack_entry list \<Rightarrow> unit an" where
  "push_all es = bind_m (map_m push_entry es) (\<lambda>_. return_m ())"

abbreviation wide :: "analy_stack_entry \<Rightarrow> bool" where
  "wide e \<equiv> is_kind_wide (e_type e)"

definition do_dup :: "unit an" where
  "do_dup =
     bind_m (gets_m a_stack) (\<lambda>st.
     bind_m (guard_m (st_count st \<noteq> 0) Stack_underflow) (\<lambda>_.
     bind_m (guard_m (st_count st - 1 < length (st_entries st)) Bad_access) (\<lambda>_.
     push_entry (st_entries st ! (st_count st - 1)))))"

definition do_dup_x1 :: "unit an" where
  "do_dup_x1 =
     bind_m (gets_m a_stack) (\<lambda>st.
     bind_m (guard_m (\<not> st_count st \<le> 1) Stack_underflow) (\<lambda>_.
     bind_m pop_val (\<lambda>kind1. bind_m pop_val (\<lambda>kind2.
     bind_m (guard_m (\<not> (wide kind1 \<or> wide kind2)) Stack_type_mismatch) (\<lambda>_.
     push_all [kind1, kind2, kind1])))))"

definition do_dup_x2 :: "bool \<Rightarrow> unit an" where
  "do_dup_x2 rw =
     bind_m pop_val (\<lambda>to_dup. bind_m pop_val (\<lambda>kind2.
     bind_m (guard_m (\<not> wide to_dup) Stack_type_mismatch) (\<lambda>_.
     bind_m (if wide kind2 then
               bind_m (push_all [to_dup, kind2]) (\<lambda>_. rewrite_to rw insn_dup_x1)
             else bind_m pop_val (\<lambda>kind3. push_all [to_dup, kind3, kind2])) (\<lambda>_.
     push_entry to_dup))))"

definition do_dup2 :: "bool \<Rightarrow> unit an" where
  "do_dup2 rw =
     bind_m pop_val (\<lambda>to_dup.
     if wide to_dup then bind_m (push_all [to_dup, to_dup]) (\<lambda>_. rewrite_to rw insn_dup)
     else bind_m pop_val (\<lambda>kind2.
       bind_m (guard_m (\<not> wide kind2) Stack_type_mismatch) (\<lambda>_.
       push_all [kind2, to_dup, kind2, to_dup])))"

definition do_dup2_x1 :: "bool \<Rightarrow> unit an" where
  "do_dup2_x1 rw =
     bind_m pop_val (\<lambda>to_dup. bind_m pop_val (\<lambda>kind2.
     if wide to_dup then bind_m (push_all [to_dup, kind2, to_dup]) (\<lambda>_. rewrite_to rw insn_dup_x1)
     else bind_m pop_val (\<lambda>kind3.
       bind_m (guard_m (\<not> wide kind3) Stack_type_mismatch) (\<lambda>_.
       push_all [kind2, to_dup, kind3, kind2, to_dup]))))"

definition do_dup2_x2 :: "bool \<Rightarrow> unit an" where
  "do_dup2_x2 rw =
     bind_m pop_val (\<lambda>to_dup. bind_m pop_val (\<lambda>kind2.
     if wide to_dup then
       if wide kind2 then bind_m (push_all [to_dup, kind2, to_dup]) (\<lambda>_. rewrite_to rw insn_dup_x1)
       else bind_m pop_val (\<lambda>kind3.
         bind_m (guard_m (\<not> wide kind3) Stack_type_mismatch) (\<lambda>_.
         bind_m (push_all [to_dup, kind3, kind2, to_dup]) (\<lambda>_. rewrite_to rw insn_dup_x2)))
     else bind_m pop_val (\<lambda>kind3.
       if wide kind3 then
         bind_m (push_all [kind2, to_dup, kind3, kind2, to_dup]) (\<lambda>_. rewrite_to rw insn_dup2_x1)
       else bind_m pop_val (\<lambda>kind4.
         bind_m (guard_m (\<not> wide kind4) Stack_type_mismatch) (\<lambda>_.
         push_all [kind2, to_dup, kind4, kind3, kind2, to_dup])))))"

definition do_pop :: "unit an" where
  "do_pop = bind_m pop_val (\<lambda>kind. guard_m (\<not> wide kind) Stack_type_mismatch)"

definition do_pop2 :: "bool \<Rightarrow> unit an" where
  "do_pop2 rw =
     bind_m pop_val (\<lambda>kind.
     if \<not> wide kind then bind_m pop_val (\<lambda>kind2. guard_m (\<not> wide kind2) Stack_type_mismatch)
     else rewrite_to rw insn_pop)"

definition do_swap :: "unit an" where
  "do_swap =
     bind_m pop_val (\<lambda>kind1. bind_m pop_val (\<lambda>kind2.
     bind_m (guard_m (\<not> (wide kind1 \<or> wide kind2)) Stack_type_mismatch) (\<lambda>_.
     push_all [kind1, kind2])))"

section \<open>Instructions that read the constant pool\<close>

text \<open>\<^verbatim>\<open>check_cp_entry\<close> does not return when the kind is wrong; a null descriptor would be
  dereferenced.\<close>

definition pool_info :: "cp_info an" where
  "pool_info = (\<lambda>s. case payload (a_insn s) of
      Cp i \<Rightarrow> if i < length (a_pool s) then Inr (info (a_pool s ! i), s) else Inl Bad_access
    | _ \<Rightarrow> Inl Bad_access)"

definition the_descriptor :: "'d option \<Rightarrow> 'd an" where
  "the_descriptor d = (case d of None \<Rightarrow> fail_m Bad_access | Some x \<Rightarrow> return_m x)"

definition field_descriptor_of :: "field_descriptor an" where
  "field_descriptor_of =
     bind_m pool_info (\<lambda>i. case i of
       Cp_field_ref _ _ d \<Rightarrow> the_descriptor d
     | _ \<Rightarrow> fail_m Check_failed)"

definition invoke_descriptor_of :: "method_descriptor an" where
  "invoke_descriptor_of =
     bind_m pool_info (\<lambda>i. case i of
       Cp_method_ref _ _ d \<Rightarrow> the_descriptor d
     | Cp_interface_method_ref _ _ d \<Rightarrow> the_descriptor d
     | _ \<Rightarrow> fail_m Check_failed)"

definition indy_descriptor_of :: "method_descriptor an" where
  "indy_descriptor_of =
     bind_m pool_info (\<lambda>i. case i of
       Cp_invoke_dynamic _ _ d \<Rightarrow> the_descriptor d
     | _ \<Rightarrow> fail_m Check_failed)"

definition do_getstatic :: "nat \<Rightarrow> unit an" where
  "do_getstatic at = bind_m field_descriptor_of (\<lambda>fd. push_entry (insn_source (repr_kind fd) at))"

definition do_getfield :: "nat \<Rightarrow> unit an" where
  "do_getfield at = bind_m (pop_kind Ref_k) (\<lambda>_. do_getstatic at)"

definition pop_args :: "method_descriptor \<Rightarrow> unit an" where
  "pop_args desc = do_pops (map repr_kind (rev (args desc)))"

definition push_result :: "method_descriptor \<Rightarrow> nat \<Rightarrow> unit an" where
  "push_result desc at =
     (if base_kind (return_type desc) \<noteq> TYPE_KIND_VOID
      then push_entry (insn_source (repr_kind (return_type desc)) at) else return_m ())"

definition do_invokedynamic :: "nat \<Rightarrow> unit an" where
  "do_invokedynamic at =
     bind_m indy_descriptor_of (\<lambda>desc.
     bind_m (pop_args desc) (\<lambda>_. push_result desc at))"

definition do_putfield :: "nat \<Rightarrow> unit an" where
  "do_putfield k = bind_m pop_val (\<lambda>_. if k = insn_putfield then pop_kind Ref_k else return_m ())"

definition do_invoke :: "nat \<Rightarrow> nat \<Rightarrow> unit an" where
  "do_invoke k at =
     bind_m invoke_descriptor_of (\<lambda>desc.
     bind_m (pop_args desc) (\<lambda>_.
     bind_m (if k \<noteq> insn_invokestatic then pop_kind Ref_k else return_m ()) (\<lambda>_.
     push_result desc at)))"

definition do_multianewarray :: "nat \<Rightarrow> unit an" where
  "do_multianewarray at =
     bind_m (gets_m (\<lambda>s. payload (a_insn s))) (\<lambda>p. case p of
       Multianewarray _ dims \<Rightarrow>
         bind_m (do_pops (replicate (unat dims) Int_k)) (\<lambda>_. push_kind Ref_k at)
     | _ \<Rightarrow> fail_m Bad_access)"

section \<open>Locals\<close>

definition do_load :: "bool \<Rightarrow> type_kind \<Rightarrow> unit an" where
  "do_load rw k =
     bind_m (swizzle_local rw) (\<lambda>_.
     bind_m (get_local_entry rw) (\<lambda>e.
     bind_m (push_entry e) (\<lambda>_.
     bind_m (check_local rw k) (\<lambda>_.
     calculate_local_modifying_insn_delta))))"

definition do_store :: "bool \<Rightarrow> type_kind \<Rightarrow> nat \<Rightarrow> unit an" where
  "do_store rw k at =
     bind_m (pop_kind k) (\<lambda>_.
     bind_m (swizzle_local rw) (\<lambda>_.
     bind_m (set_local_kind rw k at) (\<lambda>_.
     calculate_local_modifying_insn_delta)))"

definition local_load_kinds :: "(nat \<times> type_kind) list" where
  "local_load_kinds = [(insn_dload, Double_k), (insn_fload, Float_k), (insn_iload, Int_k), (insn_lload, Long_k),
     (insn_aload, Ref_k)]"

definition local_store_kinds :: "(nat \<times> type_kind) list" where
  "local_store_kinds = [(insn_dstore, Double_k), (insn_fstore, Float_k), (insn_istore, Int_k), (insn_lstore, Long_k),
     (insn_astore, Ref_k)]"

section \<open>Branches\<close>

definition branch_to_index :: "nat \<Rightarrow> unit an" where
  "branch_to_index at = bind_m (gets_m (\<lambda>s. insn_index (a_insn s))) (push_branch_target at)"

definition do_goto :: "nat \<Rightarrow> unit an" where
  "do_goto at =
     bind_m (calculate_branch_delta at) (\<lambda>_.
     bind_m (branch_to_index at) (\<lambda>_. terminate_state))"

definition do_jsr :: "nat \<Rightarrow> unit an" where
  "do_jsr at = bind_m (push_kind Ref_k at) (\<lambda>_. branch_to_index at)"

definition branch_pops :: "nat \<Rightarrow> type_kind list" where
  "branch_pops k =
     (if k = insn_if_acmpeq \<or> k = insn_if_acmpne then [Ref_k, Ref_k]
      else if k \<in> set [insn_if_icmpeq, insn_if_icmpne, insn_if_icmplt, insn_if_icmpge, insn_if_icmpgt, insn_if_icmple]
        then [Int_k, Int_k]
      else if k \<in> set [insn_ifeq, insn_ifne, insn_iflt, insn_ifge, insn_ifgt, insn_ifle] then [Int_k]
      else [Ref_k])"

definition do_branch :: "nat \<Rightarrow> nat \<Rightarrow> unit an" where
  "do_branch k at =
     bind_m (do_pops (branch_pops k)) (\<lambda>_.
     bind_m (calculate_branch_delta at) (\<lambda>_. branch_to_index at))"

definition do_switch :: "nat \<Rightarrow> unit an" where
  "do_switch at =
     bind_m (pop_kind Int_k) (\<lambda>_.
     bind_m (gets_m (\<lambda>s. payload (a_insn s))) (\<lambda>p.
     bind_m (case p of
         Tableswitch d \<Rightarrow> map_m (push_branch_target at) (ts_default d # ts_targets d)
       | Lookupswitch d \<Rightarrow> map_m (push_branch_target at) (ls_default d # ls_targets d)
       | _ \<Rightarrow> fail_m Bad_access) (\<lambda>_.
     terminate_state)))"

section \<open>The switch\<close>

definition stack_insn :: "nat \<Rightarrow> bool \<Rightarrow> unit an option" where
  "stack_insn k rw =
     map_of [(insn_dup, do_dup), (insn_dup_x1, do_dup_x1), (insn_dup_x2, do_dup_x2 rw), (insn_dup2, do_dup2 rw),
       (insn_dup2_x1, do_dup2_x1 rw), (insn_dup2_x2, do_dup2_x2 rw), (insn_pop, do_pop), (insn_pop2, do_pop2 rw),
       (insn_swap, do_swap)] k"

definition other_insn :: "nat \<Rightarrow> nat \<Rightarrow> bool \<Rightarrow> unit an" where
  "other_insn k at rw =
     (if k = insn_getfield then do_getfield at
      else if k = insn_getstatic then do_getstatic at
      else if k = insn_invokedynamic then do_invokedynamic at
      else if k = insn_putfield \<or> k = insn_putstatic then do_putfield k
      else if k \<in> set [insn_invokespecial, insn_invokevirtual, insn_invokeinterface, insn_invokestatic]
        then do_invoke k at
      else if map_of local_load_kinds k \<noteq> None then do_load rw (the (map_of local_load_kinds k))
      else if map_of local_store_kinds k \<noteq> None then do_store rw (the (map_of local_store_kinds k)) at
      else if k = insn_goto then do_goto at
      else if k = insn_jsr then do_jsr at
      else if insn_if_acmpeq \<le> k \<and> k \<le> insn_ifnull then do_branch k at
      else if k = insn_iinc then swizzle_local rw
      else if k = insn_multianewarray then do_multianewarray at
      else if k = insn_tableswitch \<or> k = insn_lookupswitch then do_switch at
      else fail_m Unreachable)"

definition insn_switch :: "nat \<Rightarrow> nat \<Rightarrow> bool \<Rightarrow> unit an" where
  "insn_switch k at rw = (case find_effect fixed_effects k of
      Some e \<Rightarrow> do_effect at e
    | None \<Rightarrow> (case stack_insn k rw of
        Some m \<Rightarrow> m
      | None \<Rightarrow> other_insn k at rw))"

definition analyze_instruction :: "nat \<Rightarrow> bool \<Rightarrow> unit an" where
  "analyze_instruction at do_rewrite =
     bind_m calculate_tos_type (\<lambda>before.
     bind_m (modify_m (\<lambda>s. s\<lparr>a_insn := (a_insn s)\<lparr>tos_before := before\<rparr>\<rparr>)) (\<lambda>_.
     bind_m (gets_m (\<lambda>s. kind (a_insn s))) (\<lambda>k.
     bind_m (insn_switch k at do_rewrite) (\<lambda>_.
     bind_m calculate_tos_type (\<lambda>after.
     modify_m (\<lambda>s. s\<lparr>a_insn := (a_insn s)\<lparr>tos_after := after\<rparr>\<rparr>))))))"

section \<open>The renumbering of the locals\<close>

text \<open>The formal slots of an argument, and the formal local of the \<open>m\<close>-th argument.\<close>

definition slots :: "field_descriptor \<Rightarrow> nat" where
  "slots d = (if is_field_wide d then 2 else 1)"

definition formal_slot :: "nat \<Rightarrow> field_descriptor list \<Rightarrow> nat \<Rightarrow> nat" where
  "formal_slot start ds m = start + sum_list (map slots (take m ds))"

definition somes :: "'a option list \<Rightarrow> 'a list" where
  "somes xs = map the (filter (\<lambda>x. x \<noteq> None) xs)"

lemma mset_upt_join: "a \<le> b \<Longrightarrow> mset [a..<b] + mset [b..<b + n] = mset [a..<b + n]"
  using upt_add_eq_append [of a b n] by (metis mset_append)

lemma slots_pos: "0 < slots d"
  by (simp add: slots_def)

lemma somes_simps [simp]:
  "somes [] = []" "somes (None # xs) = somes xs" "somes (Some v # xs) = v # somes xs"
  "somes (replicate n None) = []"
  by (simp_all add: somes_def)

lemma somes_update:
  "j < length sw \<Longrightarrow> sw ! j = None \<Longrightarrow> mset (somes (sw[j := Some v])) = add_mset v (mset (somes sw))"
proof (induction sw arbitrary: j)
  case (Cons x sw)
  then show ?case by (cases j; cases x) (auto simp: add_mset_commute)
qed simp

lemma map_rest_length [simp]: "length (map_rest k sw) = length sw"
  by (induction k sw rule: map_rest.induct) auto

lemma map_rest_nth: "m < length sw \<Longrightarrow> sw ! m = Some v \<Longrightarrow> map_rest k sw ! m = v"
  by (induction k sw arbitrary: m rule: map_rest.induct) (auto simp: nth_Cons split: nat.splits)

lemma length_somes: "length (somes sw) \<le> length sw"
  by (simp add: somes_def)

lemma map_rest_mset:
  "mset (map_rest k sw) = mset (somes sw) + mset [k..<k + (length sw - length (somes sw))]"
proof (induction k sw rule: map_rest.induct)
  case (2 k sw)
  then show ?case using length_somes [of sw] by (auto simp: Suc_diff_le upt_rec [of k] simp del: upt_Suc)
qed auto

lemma formal_slot_less:
  assumes "m < length ds" "start + sum_list (map slots ds) \<le> ml"
  shows "formal_slot start ds m < ml"
proof -
  have "sum_list (map slots ds) = sum_list (map slots (take m ds)) + slots (ds ! m) + sum_list (map slots (drop (Suc m) ds))"
    using id_take_nth_drop [OF assms(1)] by (metis map_append sum_list_append list.simps(9) sum_list.Cons add.assoc)
  with assms(2) slots_pos [of "ds ! m"] show ?thesis by (simp add: formal_slot_def)
qed

text \<open>The loop over the arguments, from argument \<open>i\<close> at the formal local \<open>j\<close>.\<close>

lemma place_args_overflow:
  assumes "length es = ml" "i + off \<le> j" "j \<le> ml" "\<not> j + sum_list (map slots ds) \<le> ml"
  shows "place_args ml off ds i j es sw = Inl Locals_do_not_fit"
  using assms
proof (induction ds arbitrary: i j es sw)
  case (Cons d ds)
  show ?case
  proof (cases "j + slots d \<le> ml")
    case True
    then have "place_args ml off ds (Suc i) (j + slots d) (es[i + off := parameter_source (repr_kind d) (i + 1)])
        (sw[j := Some (i + off)]) = Inl Locals_do_not_fit"
      using Cons.prems slots_pos [of d] by (intro Cons.IH) auto
    with Cons.prems True show ?thesis by (auto simp: Let_def slots_def split: if_splits)
  next
    case False
    with Cons.prems show ?thesis by (cases ds) (auto simp: Let_def slots_def split: if_splits)
  qed
qed simp

lemma place_args_fit:
  assumes "length es = ml" "length sw = ml" "i + off \<le> j" "j + sum_list (map slots ds) \<le> ml"
    and "\<And>m. j \<le> m \<Longrightarrow> m < ml \<Longrightarrow> sw ! m = None"
  shows "\<exists>es' sw'. place_args ml off ds i j es sw = Inr (es', sw') \<and> length es' = ml \<and> length sw' = ml \<and>
    mset (somes sw') = mset (somes sw) + mset [i + off..<i + off + length ds] \<and>
    (\<forall>m<j. sw' ! m = sw ! m) \<and> (\<forall>m<length ds. sw' ! formal_slot j ds m = Some (i + off + m)) \<and>
    (\<forall>m<ml. es' ! m = (if i + off \<le> m \<and> m < i + off + length ds
       then parameter_source (repr_kind (ds ! (m - (i + off)))) (m - off + 1) else es ! m))"
  using assms
proof (induction ds arbitrary: i j es sw)
  case Nil
  then show ?case by auto
next
  case (Cons d ds)
  let ?es = "es[i + off := parameter_source (repr_kind d) (i + 1)]" and ?sw = "sw[j := Some (i + off)]"
  have j: "j < ml" "j + slots d + sum_list (map slots ds) \<le> ml" "i + off < ml"
    using Cons.prems slots_pos [of d] by auto
  have step: "place_args ml off (d # ds) i j es sw = place_args ml off ds (Suc i) (j + slots d) ?es ?sw"
    using Cons.prems(1) j by (auto simp: Let_def slots_def)
  have "\<And>m. j + slots d \<le> m \<Longrightarrow> m < ml \<Longrightarrow> ?sw ! m = None"
    using Cons.prems(5) slots_pos [of d] by simp
  from Cons.IH [of ?es ?sw "Suc i" "j + slots d", OF _ _ _ j(2) this] obtain es' sw' where
    r: "place_args ml off ds (Suc i) (j + slots d) ?es ?sw = Inr (es', sw')" "length es' = ml" "length sw' = ml"
      "mset (somes sw') = mset (somes ?sw) + mset [Suc i + off..<Suc i + off + length ds]"
      "\<forall>m<j + slots d. sw' ! m = ?sw ! m" "\<forall>m<length ds. sw' ! formal_slot (j + slots d) ds m = Some (Suc i + off + m)"
      "\<forall>m<ml. es' ! m = (if Suc i + off \<le> m \<and> m < Suc i + off + length ds
         then parameter_source (repr_kind (ds ! (m - (Suc i + off)))) (m - off + 1) else ?es ! m)"
    using Cons.prems(1-3) slots_pos [of d] by auto
  have "mset (somes sw') = mset (somes sw) + mset [i + off..<i + off + length (d # ds)]"
    using r(4) somes_update [of j sw "i + off"] Cons.prems(2,5) j(1) by (auto simp: upt_rec [of "i + off"] simp del: upt_Suc)
  moreover have "\<forall>m<j. sw' ! m = sw ! m" using r(5) by simp
  moreover have "\<forall>m<length (d # ds). sw' ! formal_slot j (d # ds) m = Some (i + off + m)"
  proof (intro allI impI)
    fix m assume "m < length (d # ds)"
    then show "sw' ! formal_slot j (d # ds) m = Some (i + off + m)"
      using r(5,6) j(1) Cons.prems(2) slots_pos [of d] by (cases m) (auto simp: formal_slot_def add.assoc)
  qed
  moreover have "\<forall>m<ml. es' ! m = (if i + off \<le> m \<and> m < i + off + length (d # ds)
     then parameter_source (repr_kind ((d # ds) ! (m - (i + off)))) (m - off + 1) else es ! m)"
  proof (intro allI impI)
    fix m assume m: "m < ml"
    consider "m = i + off" | "Suc i + off \<le> m" | "m < i + off" by linarith
    then show "es' ! m = (if i + off \<le> m \<and> m < i + off + length (d # ds)
       then parameter_source (repr_kind ((d # ds) ! (m - (i + off)))) (m - off + 1) else es ! m)"
    proof cases
      case 2
      then have "m - (i + off) = Suc (m - (Suc i + off))" by simp
      with r(7) m 2 Cons.prems(1) show ?thesis by auto
    qed (use r(7) m Cons.prems(1) in auto)
  qed
  ultimately show ?case using r(1-3) step by auto
qed

lemma locals_on_method_entry_facts:
  assumes "(if st then 0 else 1) + sum_list (map slots ds) \<le> ml"
  shows "\<exists>es sw. locals_on_method_entry st ds ml = Inr (\<lparr>st_entries = es, st_count = ml, st_cap = ml\<rparr>, sw) \<and>
    length es = ml \<and> length sw = ml \<and> mset sw = mset [0..<ml] \<and> (\<not> st \<longrightarrow> sw ! 0 = 0) \<and>
    (\<forall>m<length ds. sw ! formal_slot (if st then 0 else 1) ds m = m + (if st then 0 else 1)) \<and>
    map e_type es = (if st then [] else [TYPE_KIND_REFERENCE]) @ map repr_kind ds @
      replicate (ml - length ds - (if st then 0 else 1)) TYPE_KIND_VOID"
proof -
  define off where "off = (if st then 0 else 1 :: nat)"
  define es0 where "es0 = replicate ml (zero_entry\<lparr>e_type := TYPE_KIND_VOID\<rparr>)"
  define sw0 :: "nat option list" where "sw0 = replicate ml None"
  define es1 where "es1 = (if st then es0 else es0[0 := this_source])"
  define sw1 where "sw1 = (if st then sw0 else sw0[0 := Some 0])"
  have fit: "off + sum_list (map slots ds) \<le> ml" using assms by (simp add: off_def)
  have "length ds \<le> sum_list (map slots ds)" by (induction ds) (auto simp: slots_def)
  with fit have n: "off + length ds \<le> ml" by simp
  have len: "length es1 = ml" "length sw1 = ml" by (simp_all add: es1_def sw1_def es0_def sw0_def)
  have none: "sw1 ! m = None" if "off \<le> m" "m < ml" for m using that by (auto simp: sw1_def sw0_def off_def split: if_splits)
  have ms1: "mset (somes sw1) = mset [0..<off]"
    using fit by (cases ml) (auto simp: sw1_def sw0_def off_def)
  have "0 + off \<le> off" by simp
  from place_args_fit [OF len this fit none] obtain es sw where
    r: "place_args ml off ds 0 off es1 sw1 = Inr (es, sw)" "length es = ml" "length sw = ml"
      "mset (somes sw) = mset (somes sw1) + mset [off..<off + length ds]"
      "\<forall>m<off. sw ! m = sw1 ! m" "\<forall>m<length ds. sw ! formal_slot off ds m = Some (off + m)"
      "\<forall>m<ml. es ! m = (if off \<le> m \<and> m < off + length ds
         then parameter_source (repr_kind (ds ! (m - off))) (m - off + 1) else es1 ! m)"
    by (auto simp del: mset_upt)
  let ?sw = "map_rest (length ds + off) sw"
  have res: "locals_on_method_entry st ds ml = Inr (\<lparr>st_entries = es, st_count = ml, st_cap = ml\<rparr>, ?sw)"
    using r(1) fit by (auto simp: locals_on_method_entry_def Let_def es1_def sw1_def es0_def sw0_def off_def)
  have ms: "mset (somes sw) = mset [0..<off + length ds]"
    using r(4) ms1 mset_upt_join [of 0 off] by simp
  have "length (somes sw) = off + length ds" using arg_cong [OF ms, of size] by simp
  then have perm: "mset ?sw = mset [0..<ml]"
    unfolding map_rest_mset ms
    using n r(3) mset_upt_join [of 0 "length ds + off" "ml - (length ds + off)"] by (simp add: add.commute)
  have args: "\<forall>m<length ds. ?sw ! formal_slot off ds m = m + off"
    using r(3,6) formal_slot_less [OF _ fit] by (auto intro!: map_rest_nth)
  have first: "\<not> st \<longrightarrow> ?sw ! 0 = 0"
    using r(3,5) fit by (cases ml) (auto intro!: map_rest_nth simp: off_def sw1_def sw0_def)
  have types: "map e_type es = (if st then [] else [TYPE_KIND_REFERENCE]) @ map repr_kind ds @
      replicate (ml - length ds - off) TYPE_KIND_VOID"
  proof (rule nth_equalityI)
    show "length (map e_type es) = length ((if st then [] else [TYPE_KIND_REFERENCE]) @ map repr_kind ds @
        replicate (ml - length ds - off) TYPE_KIND_VOID)"
      using n r(2) by (auto simp: off_def)
  next
    fix m assume "m < length (map e_type es)"
    then show "map e_type es ! m = ((if st then [] else [TYPE_KIND_REFERENCE]) @ map repr_kind ds @
        replicate (ml - length ds - off) TYPE_KIND_VOID) ! m"
      using r(2,7) n by (cases m) (auto simp: nth_append es1_def es0_def off_def parameter_source_def this_source_def
        zero_entry_def)
  qed
  show ?thesis using res r(2,3) perm args first types unfolding off_def by auto
qed

lemma locals_on_method_entry_overflow:
  assumes "\<not> (if st then 0 else 1) + sum_list (map slots ds) \<le> ml"
  shows "locals_on_method_entry st ds ml = Inl Locals_do_not_fit"
  using assms place_args_overflow [of _ ml 0 "if st then 0 else 1" "if st then 0 else 1" ds]
  by (cases "\<not> st \<and> ml = 0") (auto simp: locals_on_method_entry_def Let_def)

text \<open>C14. The locals of a method can be laid out exactly when \<^verbatim>\<open>this\<close> and the arguments, a long or a
  double counting twice, fit into \<^verbatim>\<open>max_locals\<close>; otherwise the analysis reports an error, and in no
  case does it store outside the arrays it has allocated.\<close>

theorem locals_on_method_entry_error_iff:
  "locals_on_method_entry is_static ds ml = Inl e \<longleftrightarrow>
     e = Locals_do_not_fit \<and> ml < (if is_static then 0 else 1) + sum_list (map slots ds)"
  using locals_on_method_entry_overflow [of is_static ds ml] locals_on_method_entry_facts [of is_static ds ml]
  by (cases "(if is_static then 0 else 1) + sum_list (map slots ds) \<le> ml") auto

text \<open>C15. The renumbering of the locals is a permutation of \<^verbatim>\<open>0..max_locals-1\<close> that sends \<^verbatim>\<open>this\<close> and the
  first formal slot of each argument to consecutive locals, so that an argument takes one slot
  whatever its type, and the types of the locals on entry are those of \<^verbatim>\<open>this\<close> and the arguments, in
  order, and then \<^verbatim>\<open>void\<close>.\<close>

theorem locals_on_method_entry_permutation:
  assumes "locals_on_method_entry is_static ds ml = Inr (ls, sw)"
  shows "mset sw = mset [0..<ml] \<and> (\<not> is_static \<longrightarrow> sw ! 0 = 0) \<and>
    (\<forall>m<length ds. sw ! formal_slot (if is_static then 0 else 1) ds m = m + (if is_static then 0 else 1)) \<and>
    map e_type (st_entries ls) = (if is_static then [] else [TYPE_KIND_REFERENCE]) @ map repr_kind ds @
      replicate (ml - length ds - (if is_static then 0 else 1)) TYPE_KIND_VOID"
proof -
  have "(if is_static then 0 else 1) + sum_list (map slots ds) \<le> ml"
    using locals_on_method_entry_overflow [of is_static ds ml] assms by (rule_tac ccontr) simp
  from locals_on_method_entry_facts [OF this] assms show ?thesis by auto
qed

text \<open>An instance method with a long and an int argument and five locals: the formal locals 0, 1 and 3
  become 0, 1 and 2.\<close>

definition long_int_args :: "field_descriptor list" where
  "long_int_args =
     [\<lparr>base_kind = TYPE_KIND_LONG, repr_kind = TYPE_KIND_LONG, dimensions = 0, class_name = None, unparsed = ''J''\<rparr>,
      \<lparr>base_kind = TYPE_KIND_INT, repr_kind = TYPE_KIND_INT, dimensions = 0, class_name = None, unparsed = ''I''\<rparr>]"

theorem locals_on_method_entry_permutation_witness:
  "snd (projr (locals_on_method_entry False long_int_args 5)) = [0, 1, 3, 2, 4] \<and>
   mset [0, 1, 3, 2, 4 :: nat] = mset [0..<5]"
proof -
  have "locals_on_method_entry False long_int_args 5 =
      Inr (fst (projr (locals_on_method_entry False long_int_args 5)), [0, 1, 3, 2, 4])"
    by (simp add: locals_on_method_entry_def long_int_args_def is_field_wide_def is_kind_wide_def numeral_eq_Suc Let_def)
  from arg_cong [OF this, of "\<lambda>r. snd (projr r)"] locals_on_method_entry_permutation [OF this]
  show ?thesis by (simp only: sum.sel snd_conv simp_thms)
qed

end
