(* ===== verification/Analysis_Safety.thy ===== *)
theory Analysis_Safety
  imports Stack_Analysis
begin

text \<open>
  The analysis of one instruction retains its arrays in bounds. \<open>an_inv\<close> is the invariant of the
  context: the stack within its capacity, the locals and the swizzle of \<^verbatim>\<open>max_locals\<close> entries, the
  recorded edges and the known states inside the code. It is stated over a frame, the parts of the
  context that no instruction changes, a flag that says whether \<^verbatim>\<open>void\<close> may be on the stack, and a
  bound on the number of changes that are still possible.
\<close>

section \<open>The invariant\<close>

definition ty_ok :: "bool \<Rightarrow> type_kind \<Rightarrow> bool" where
  "ty_ok v k \<longleftrightarrow> k \<in> {TYPE_KIND_INT, TYPE_KIND_LONG, TYPE_KIND_FLOAT, TYPE_KIND_DOUBLE, TYPE_KIND_REFERENCE} \<or>
     v \<and> k = TYPE_KIND_VOID"

definition state_ok :: "bool \<Rightarrow> analy_stack_state \<Rightarrow> bool" where
  "state_ok v st \<longleftrightarrow> st_count st \<le> length (st_entries st) \<and>
     list_all (\<lambda>e. ty_ok v (e_type e)) (take (st_count st) (st_entries st))"

record an_frame =
  f_void :: bool
  f_pool :: "cp_entry list"
  f_locals :: nat
  f_insns :: nat
  f_cap :: nat
  f_swizzle :: "nat list"
  f_weight :: nat
  f_known :: bool

definition known_ok :: "(analy_stack_state \<Rightarrow> bool) \<Rightarrow> nat \<Rightarrow> analy_stack_state option list option \<Rightarrow> bool" where
  "known_ok P n known = pred_option (\<lambda>ks. length ks = n \<and> list_all (pred_option P) ks) known"

abbreviation stack_known :: "nat \<Rightarrow> analy_stack_state \<Rightarrow> bool" where
  "stack_known cap d \<equiv> state_ok True d \<and> st_count d \<le> cap"

abbreviation locals_known :: "nat \<Rightarrow> analy_stack_state \<Rightarrow> bool" where
  "locals_known n d \<equiv> state_ok True d \<and> st_count d = n"

text \<open>How often the known states can still change: an unknown state may become known, and a type may
  become \<^verbatim>\<open>void\<close>.\<close>

definition nonvoid :: "analy_stack_entry list \<Rightarrow> nat" where
  "nonvoid es = length (filter (\<lambda>e. e_type e \<noteq> TYPE_KIND_VOID) es)"

fun weight_of :: "nat \<Rightarrow> analy_stack_state option \<Rightarrow> nat" where
  "weight_of cap None = cap + 1"
| "weight_of cap (Some d) = nonvoid (take (st_count d) (st_entries d))"

definition known_weight :: "nat \<Rightarrow> analy_stack_state option list option \<Rightarrow> nat" where
  "known_weight cap known = (case known of None \<Rightarrow> 0 | Some ks \<Rightarrow> sum_list (map (weight_of cap) ks))"

definition weight :: "an_frame \<Rightarrow> method_analysis_ctx \<Rightarrow> nat" where
  "weight F s = known_weight (f_cap F) (a_known_stacks s) + known_weight (f_locals F) (a_known_locals s)"

definition frame_ok :: "an_frame \<Rightarrow> method_analysis_ctx \<Rightarrow> bool" where
  "frame_ok F s \<longleftrightarrow> a_pool s = f_pool F \<and> a_max_locals s = f_locals F \<and> a_insn_count s = f_insns F \<and>
     a_swizzle s = f_swizzle F \<and> length (f_swizzle F) = f_locals F \<and> list_all (\<lambda>x. x < f_locals F) (f_swizzle F) \<and>
     f_locals F \<le> 2 ^ 16"

definition stack_ok :: "an_frame \<Rightarrow> method_analysis_ctx \<Rightarrow> bool" where
  "stack_ok F s \<longleftrightarrow> state_ok (f_void F) (a_stack s) \<and> st_cap (a_stack s) = f_cap F \<and>
     length (st_entries (a_stack s)) = f_cap F"

definition locals_ok :: "an_frame \<Rightarrow> method_analysis_ctx \<Rightarrow> bool" where
  "locals_ok F s \<longleftrightarrow> state_ok True (a_locals s) \<and> st_count (a_locals s) = f_locals F \<and>
     st_cap (a_locals s) = f_locals F \<and> length (st_entries (a_locals s)) = f_locals F"

definition edges_ok :: "an_frame \<Rightarrow> method_analysis_ctx \<Rightarrow> bool" where
  "edges_ok F s \<longleftrightarrow> list_all (\<lambda>e. snd e < f_insns F) (a_edges s)"

definition knowns_ok :: "an_frame \<Rightarrow> method_analysis_ctx \<Rightarrow> bool" where
  "knowns_ok F s \<longleftrightarrow> known_ok (stack_known (f_cap F)) (f_insns F) (a_known_stacks s) \<and>
     known_ok (locals_known (f_locals F)) (f_insns F) (a_known_locals s) \<and>
     (a_known_stacks s \<noteq> None) = f_known F \<and> (a_known_locals s \<noteq> None) = f_known F"

definition changes_ok :: "an_frame \<Rightarrow> method_analysis_ctx \<Rightarrow> bool" where
  "changes_ok F s \<longleftrightarrow> weight F s + (if a_changed s then 1 else 0) \<le> f_weight F"

definition an_inv :: "an_frame \<Rightarrow> method_analysis_ctx \<Rightarrow> bool" where
  "an_inv F s \<longleftrightarrow> frame_ok F s \<and> stack_ok F s \<and> locals_ok F s \<and> edges_ok F s \<and> knowns_ok F s \<and> changes_ok F s"

lemmas inv_defs = an_inv_def frame_ok_def stack_ok_def locals_ok_def edges_ok_def knowns_ok_def changes_ok_def weight_def

text \<open>The errors that the code reports; the others are an access out of bounds or an abort.\<close>

definition an_err :: "an_frame \<Rightarrow> analysis_error \<Rightarrow> bool" where
  "an_err F e \<longleftrightarrow> e \<notin> {Bad_access, Check_failed, Analysis_out_of_fuel} \<and> (\<not> f_void F \<longrightarrow> e \<noteq> Unreachable)"

lemma an_err_simps [simp]:
  "an_err F Local_type_mismatch" "an_err F Local_overflow" "an_err F Stack_overflow"
  "an_err F Stack_underflow" "an_err F Stack_type_mismatch"
  by (simp_all add: an_err_def)

text \<open>An instruction as the parser leaves it.\<close>

definition insn_fine :: "an_frame \<Rightarrow> analyzed_insn \<Rightarrow> bool" where
  "insn_fine F i \<longleftrightarrow> insn_ok (f_pool F) (f_insns F) (bytecode_insn.truncate i)"

lemma truncate_sel [simp]:
  "kind (bytecode_insn.truncate i) = kind i" "payload (bytecode_insn.truncate i) = payload i"
  by (simp_all add: bytecode_insn.defs)

lemma insn_fine_payload: "insn_fine F i \<Longrightarrow> payload_ok (f_pool F) (kind i) (payload i)"
  by (simp add: insn_fine_def insn_ok_def)

text \<open>\<open>retains\<close>: the operation retains the invariant and the current instruction; \<open>sustains\<close>: it retains
  the invariant and may rewrite the instruction to another one that the parser could have left.\<close>

definition retains :: "an_frame \<Rightarrow> 'a an \<Rightarrow> ('a \<Rightarrow> bool) \<Rightarrow> bool" where
  "retains F m R \<longleftrightarrow> (\<forall>I. hoare (\<lambda>s. an_inv F s \<and> a_insn s = I) m (\<lambda>x s. (an_inv F s \<and> a_insn s = I) \<and> R x) (an_err F))"

abbreviation sustains :: "an_frame \<Rightarrow> (analyzed_insn \<Rightarrow> bool) \<Rightarrow> 'a an \<Rightarrow> bool" where
  "sustains F P m \<equiv> hoare (\<lambda>s. an_inv F s \<and> P (a_insn s)) m (\<lambda>x s. an_inv F s \<and> insn_fine F (a_insn s)) (an_err F)"

lemma retainsI:
  assumes "\<And>s x t. an_inv F s \<Longrightarrow> m s = Inr (x, t) \<Longrightarrow> an_inv F t \<and> a_insn t = a_insn s \<and> R x"
    and "\<And>s e. an_inv F s \<Longrightarrow> m s = Inl e \<Longrightarrow> an_err F e"
  shows "retains F m R"
  unfolding retains_def by (intro allI hoareI) (metis assms)+

lemma retains_bind:
  assumes "retains F m R" "\<And>x. R x \<Longrightarrow> retains F (f x) Q"
  shows "retains F (bind_m m f) Q"
  unfolding retains_def
proof
  fix I
  show "hoare (\<lambda>s. an_inv F s \<and> a_insn s = I) (bind_m m f) (\<lambda>x s. (an_inv F s \<and> a_insn s = I) \<and> Q x) (an_err F)"
    by (rule hoare_seq [where V = R]) (use assms in \<open>simp_all add: retains_def\<close>)
qed

lemma retains_return: "R x \<Longrightarrow> retains F (return_m x) R"
  by (rule retainsI) auto

lemma retains_guard: "an_err F e \<Longrightarrow> (b \<Longrightarrow> R ()) \<Longrightarrow> retains F (guard_m b e) R"
  by (rule retainsI) auto

lemma retains_fail: "an_err F e \<Longrightarrow> retains F (fail_m e) R"
  by (rule retainsI) auto

lemma retains_weaken: "retains F m R \<Longrightarrow> (\<And>x. R x \<Longrightarrow> Q x) \<Longrightarrow> retains F m Q"
  unfolding retains_def by (blast intro: hoare_weaken)

lemma retains_map:
  assumes "\<And>y. y \<in> set ys \<Longrightarrow> retains F (f y) (\<lambda>_. True)"
  shows "retains F (map_m f ys) (\<lambda>_. True)"
  using assms
proof (induction ys)
  case Nil
  show ?case unfolding map_m.simps by (rule retains_return) simp
next
  case (Cons y ys)
  show ?case
    unfolding map_m.simps
    by (rule retains_bind [OF Cons.prems], simp, rule retains_bind [OF Cons.IH]) (use Cons.prems in \<open>auto intro: retains_return\<close>)
qed

lemma retains_stays:
  assumes "retains F m R"
  shows "hoare (\<lambda>s. an_inv F s \<and> P (a_insn s)) m (\<lambda>x s. an_inv F s \<and> P (a_insn s) \<and> R x) (an_err F)"
proof (rule hoareI)
  fix s x t assume s: "an_inv F s \<and> P (a_insn s)" "m s = Inr (x, t)"
  from hoareD [OF spec [OF assms [unfolded retains_def], of "a_insn s"] _ s(2)] s(1)
  show "an_inv F t \<and> P (a_insn t) \<and> R x" by simp
next
  fix s e assume s: "an_inv F s \<and> P (a_insn s)" "m s = Inl e"
  from hoareD_err [OF spec [OF assms [unfolded retains_def], of "a_insn s"] _ s(2)] s(1)
  show "an_err F e" by simp
qed

lemma bind_gets: "bind_m (gets_m f) g s = g (f s) s"
  by (simp add: bind_m_def gets_m_def)

section \<open>The stack\<close>

lemma ty_ok_mono: "ty_ok v k \<Longrightarrow> ty_ok True k"
  by (auto simp: ty_ok_def)

lemma ty_ok_not_boolean: "ty_ok v k \<Longrightarrow> k \<noteq> TYPE_KIND_BOOLEAN"
  by (auto simp: ty_ok_def)

lemma state_ok_nth: "state_ok v st \<Longrightarrow> i < st_count st \<Longrightarrow> ty_ok v (e_type (st_entries st ! i))"
  by (auto simp: state_ok_def list_all_length)

lemma state_ok_pop: "state_ok v st \<Longrightarrow> state_ok v (st\<lparr>st_count := st_count st - n\<rparr>)"
  by (auto simp: state_ok_def list_all_length)

lemma state_ok_push:
  assumes "state_ok v st" "st_count st < length (st_entries st)" "ty_ok v (e_type e)"
  shows "state_ok v (st\<lparr>st_entries := (st_entries st)[st_count st := e], st_count := st_count st + 1\<rparr>)"
  using assms by (auto simp: state_ok_def list_all_length nth_list_update less_Suc_eq)

lemma pop_val_retains: "retains F pop_val (\<lambda>e. ty_ok (f_void F) (e_type e))"
proof (rule retainsI)
  fix s x t assume "an_inv F s" "pop_val s = Inr (x, t)"
  then show "an_inv F t \<and> a_insn t = a_insn s \<and> ty_ok (f_void F) (e_type x)"
    using state_ok_pop [of _ "a_stack s" 1]
    by (auto simp: pop_val_def bind_m_Inr_iff inv_defs state_ok_nth split: if_splits)
next
  fix s e assume "an_inv F s" "pop_val s = Inl e"
  then show "an_err F e"
    by (auto simp: pop_val_def bind_m_Inl_iff inv_defs state_ok_def split: if_splits)
qed

lemma push_entry_retains:
  assumes "ty_ok True (e_type x)"
  shows "retains F (push_entry x) (\<lambda>_. True)"
proof (rule retainsI)
  fix s y t assume "an_inv F s" "push_entry x s = Inr (y, t)"
  then show "an_inv F t \<and> a_insn t = a_insn s \<and> True"
    using assms state_ok_push [of "f_void F" "a_stack s" x]
    by (auto simp: push_entry_def bind_m_Inr_iff inv_defs ty_ok_def split: if_splits)
next
  fix s e assume "an_inv F s" "push_entry x s = Inl e"
  then show "an_err F e"
    using ty_ok_not_boolean [OF assms]
    by (auto simp: push_entry_def bind_m_Inl_iff inv_defs state_ok_def split: if_splits)
qed

lemma pop_kind_retains: "retains F (pop_kind k) (\<lambda>_. ty_ok (f_void F) k)"
  unfolding pop_kind_def by (rule retains_bind [OF pop_val_retains]) (auto intro: retains_guard)

lemma do_pops_retains: "retains F (do_pops ks) (\<lambda>_. True)"
  unfolding do_pops_def
  by (rule retains_bind [OF retains_map]) (auto intro: retains_weaken [OF pop_kind_retains] retains_return)

lemma push_all_retains: "list_all (\<lambda>e. ty_ok True (e_type e)) es \<Longrightarrow> retains F (push_all es) (\<lambda>_. True)"
  unfolding push_all_def
  by (rule retains_bind [OF retains_map]) (auto simp: list_all_iff intro: push_entry_retains retains_return)

lemma push_kind_retains: "ty_ok True k \<Longrightarrow> retains F (push_kind k at) (\<lambda>_. True)"
  unfolding push_kind_def by (rule push_entry_retains) (simp add: insn_source_def)

lemma calculate_tos_type_retains: "retains F calculate_tos_type (\<lambda>_. True)"
proof (rule retainsI)
  fix s e assume inv: "an_inv F s" and e: "calculate_tos_type s = Inl e"
  then have "ty_ok (f_void F) (e_type (st_entries (a_stack s) ! (st_count (a_stack s) - 1)))" if "st_count (a_stack s) \<noteq> 0"
    using that by (auto simp: inv_defs intro!: state_ok_nth)
  with inv e show "an_err F e"
    by (auto simp: calculate_tos_type_def bind_m_Inl_iff inv_defs state_ok_def ty_ok_def an_err_def split: if_splits option.splits)
qed (auto simp: calculate_tos_type_def bind_m_Inr_iff split: if_splits option.splits)

section \<open>Intersections\<close>

lemma merge_entries_length [simp]: "length (snd (merge_entries ds ss)) = length ds"
  by (induction ds ss rule: merge_entries.induct) (auto simp: Let_def split: prod.splits)

lemma merge_entries_ty:
  "list_all (\<lambda>e. ty_ok True (e_type e)) ds \<Longrightarrow> list_all (\<lambda>e. ty_ok True (e_type e)) (snd (merge_entries ds ss))"
  by (induction ds ss rule: merge_entries.induct) (auto simp: Let_def ty_ok_def split: prod.splits)

lemma state_ok_mono: "state_ok v st \<Longrightarrow> state_ok True st"
  by (auto simp: state_ok_def list_all_iff intro: ty_ok_mono)

lemma intersect_None:
  "snd (intersect_analy_stack_state None src) =
     \<lparr>st_entries = take (st_count src) (st_entries src), st_count = st_count src, st_cap = 0\<rparr>"
  by (simp add: intersect_analy_stack_state_def copy_analy_stack_state_def)

lemma intersect_count:
  "st_count (snd (intersect_analy_stack_state (Some d) src)) = min (st_count d) (st_count src)"
  by (simp add: intersect_analy_stack_state_def Let_def split: prod.splits)

lemma intersect_ok:
  assumes "pred_option (state_ok True) dst" "state_ok v src"
  shows "state_ok True (snd (intersect_analy_stack_state dst src))"
proof (cases dst)
  case None
  then show ?thesis
    using state_ok_mono [OF assms(2)] by (simp only: None intersect_None) (simp add: state_ok_def min_absorb2)
next
  case (Some d)
  let ?m = "min (st_count d) (st_count src)"
  let ?r = "merge_entries (take ?m (st_entries d)) (take ?m (st_entries src))"
  have d: "state_ok True d" using assms(1) Some by simp
  then have m: "length (snd ?r) = ?m" by (simp add: state_ok_def min_def)
  have "list_all (\<lambda>e. ty_ok True (e_type e)) (take ?m (st_entries d))"
    using d by (auto simp: state_ok_def list_all_length)
  from merge_entries_ty [OF this] have "list_all (\<lambda>e. ty_ok True (e_type e)) (snd ?r)" .
  moreover have "snd (intersect_analy_stack_state dst src) =
      d\<lparr>st_entries := snd ?r @ drop ?m (st_entries d), st_count := ?m\<rparr>"
    by (simp add: Some intersect_analy_stack_state_def Let_def split: prod.splits)
  ultimately show ?thesis using m d by (simp add: state_ok_def)
qed

lemma intersect_stack_known:
  assumes "pred_option (stack_known cap) dst" "state_ok v src" "st_count src \<le> cap"
  shows "stack_known cap (snd (intersect_analy_stack_state dst src))"
  using assms intersect_ok [of dst v src] by (cases dst) (auto simp: intersect_None intersect_count)

lemma intersect_locals_known:
  assumes "pred_option (locals_known n) dst" "state_ok v src" "st_count src = n"
  shows "locals_known n (snd (intersect_analy_stack_state dst src))"
  using assms intersect_ok [of dst v src] by (cases dst) (auto simp: intersect_None intersect_count)

lemma merge_entries_weight:
  "nonvoid (snd (merge_entries ds ss)) + (if fst (merge_entries ds ss) then 1 else 0) \<le> nonvoid ds"
  by (induction ds ss rule: merge_entries.induct) (auto simp: Let_def nonvoid_def split: prod.splits if_splits)

lemma nonvoid_take: "m \<le> n \<Longrightarrow> nonvoid (take m xs) \<le> nonvoid (take n xs)"
  by (metis append_take_drop_id filter_append length_append le_add1 min_absorb1 nonvoid_def take_take)

lemma nonvoid_le: "nonvoid xs \<le> length xs"
  by (simp add: nonvoid_def)

lemma intersect_weight:
  assumes "pred_option (state_ok True) dst" "state_ok v src" "st_count src \<le> cap"
  shows "weight_of cap (Some (snd (intersect_analy_stack_state dst src))) +
      (if fst (intersect_analy_stack_state dst src) then 1 else 0) \<le> weight_of cap dst"
proof (cases dst)
  case None
  have "nonvoid (take (st_count src) (st_entries src)) \<le> cap"
    using assms(2,3) nonvoid_le [of "take (st_count src) (st_entries src)"] by (simp add: state_ok_def)
  then show ?thesis
    by (auto simp: None intersect_analy_stack_state_def copy_analy_stack_state_def nonvoid_def min_def)
next
  case (Some d)
  let ?m = "min (st_count d) (st_count src)"
  let ?r = "merge_entries (take ?m (st_entries d)) (take ?m (st_entries src))"
  have "length (snd ?r) = ?m" using assms(1) Some by (simp add: state_ok_def min_def)
  then have "take ?m (snd ?r @ drop ?m (st_entries d)) = snd ?r" by simp
  moreover have "snd (intersect_analy_stack_state dst src) =
      d\<lparr>st_entries := snd ?r @ drop ?m (st_entries d), st_count := ?m\<rparr>" "fst (intersect_analy_stack_state dst src) = fst ?r"
    by (simp_all add: Some intersect_analy_stack_state_def Let_def split: prod.splits)
  ultimately show ?thesis
    using merge_entries_weight [of "take ?m (st_entries d)" "take ?m (st_entries src)"]
      nonvoid_take [of ?m "st_count d" "st_entries d"] by (simp add: Some)
qed

lemma intersect_at_ok:
  assumes "length ks = n" "list_all (pred_option P) ks" "target < n"
    and "\<And>dst. pred_option P dst \<Longrightarrow> P (snd (intersect_analy_stack_state dst src))"
    and "\<And>dst. pred_option P dst \<Longrightarrow> pred_option (state_ok True) dst" "state_ok v src" "st_count src \<le> cap"
  shows "\<exists>c ks'. intersect_at target ks src = Inr (c, ks') \<and> length ks' = n \<and> list_all (pred_option P) ks' \<and>
    known_weight cap (Some ks') + (if c then 1 else 0) \<le> known_weight cap (Some ks)"
proof -
  let ?r = "intersect_analy_stack_state (ks ! target) src"
  have P: "pred_option P (ks ! target)" using assms(1-3) by (simp add: list_all_length)
  have "intersect_at target ks src = Inr (fst ?r, ks[target := Some (snd ?r)])"
    using assms(1,3) by (simp add: intersect_at_def split: prod.splits)
  moreover have "list_all (pred_option P) (ks[target := Some (snd ?r)])"
    using assms(2) assms(4) [OF P] by (auto simp: list_all_iff dest!: set_update_subset_insert [THEN subsetD])
  moreover have "known_weight cap (Some (ks[target := Some (snd ?r)])) + (if fst ?r then 1 else 0) \<le> known_weight cap (Some ks)"
  proof -
    have t: "target < length (map (weight_of cap) ks)" using assms(1,3) by simp
    from sum_list_update [OF t, of "weight_of cap (Some (snd ?r))"] member_le_sum_list [of "weight_of cap (ks ! target)" "map (weight_of cap) ks"]
    have "known_weight cap (Some (ks[target := Some (snd ?r)])) + weight_of cap (ks ! target) =
        known_weight cap (Some ks) + weight_of cap (Some (snd ?r))"
      using t by (simp add: known_weight_def map_update del: weight_of.simps)
    with intersect_weight [OF assms(5) [OF P] assms(6,7)] show ?thesis by linarith
  qed
  ultimately show ?thesis using assms(1) by simp
qed

lemma stack_known_state: "pred_option (stack_known cap) dst \<Longrightarrow> pred_option (state_ok True) dst"
  and locals_known_state: "pred_option (locals_known n) dst \<Longrightarrow> pred_option (state_ok True) dst"
  by (cases dst; simp)+

lemma intersect_known_stack_retains:
  assumes "target < f_insns F" "state_ok v src" "st_count src \<le> f_cap F"
  shows "hoare (\<lambda>s. (an_inv F s \<and> a_insn s = I) \<and> a_known_stacks s \<noteq> None) (intersect_known_stack target src)
    (\<lambda>_ s. (an_inv F s \<and> a_insn s = I) \<and> a_known_stacks s \<noteq> None) (an_err F)"
  unfolding hoare_def
proof (intro allI impI)
  fix s assume s: "(an_inv F s \<and> a_insn s = I) \<and> a_known_stacks s \<noteq> None"
  then obtain ks where ks: "a_known_stacks s = Some ks" "length ks = f_insns F"
      "list_all (pred_option (stack_known (f_cap F))) ks"
    by (auto simp: inv_defs known_ok_def)
  from intersect_at_ok [OF ks(2,3) assms(1) intersect_stack_known [OF _ assms(2,3)] stack_known_state [where cap = "f_cap F"] assms(2,3)] s ks
  show "case intersect_known_stack target src s of Inl e \<Rightarrow> an_err F e
      | Inr (x, t) \<Rightarrow> (an_inv F t \<and> a_insn t = I) \<and> a_known_stacks t \<noteq> None"
    by (auto simp: intersect_known_stack_def inv_defs known_ok_def)
qed

lemma intersect_known_locals_retains:
  assumes "target < f_insns F" "state_ok v src" "st_count src = f_locals F"
  shows "hoare (\<lambda>s. (an_inv F s \<and> a_insn s = I) \<and> a_known_stacks s \<noteq> None) (intersect_known_locals target src)
    (\<lambda>_ s. an_inv F s \<and> a_insn s = I) (an_err F)"
  unfolding hoare_def
proof (intro allI impI)
  fix s assume s: "(an_inv F s \<and> a_insn s = I) \<and> a_known_stacks s \<noteq> None"
  then obtain ks where ks: "a_known_locals s = Some ks" "length ks = f_insns F"
      "list_all (pred_option (locals_known (f_locals F))) ks"
    by (auto simp: inv_defs known_ok_def)
  from intersect_at_ok [OF ks(2,3) assms(1) intersect_locals_known [OF _ assms(2,3)] locals_known_state [where n = "f_locals F"] assms(2)
    eq_imp_le [OF assms(3)]] s ks
  show "case intersect_known_locals target src s of Inl e \<Rightarrow> an_err F e
      | Inr (x, t) \<Rightarrow> an_inv F t \<and> a_insn t = I"
    by (auto simp: intersect_known_locals_def inv_defs known_ok_def)
qed

lemma push_branch_target_retains:
  assumes "target < f_insns F"
  shows "retains F (push_branch_target at target) (\<lambda>_. True)"
  unfolding retains_def
proof
  fix I
  have edge: "an_inv F (s\<lparr>a_edges := a_edges s @ [(at, target)]\<rparr>)" if "an_inv F s" for s
    using that assms by (auto simp: inv_defs)
  have main: "hoare (\<lambda>s. s = u) (push_branch_target at target) (\<lambda>_ s. an_inv F s \<and> a_insn s = I) (an_err F)"
    if u: "an_inv F u" "a_insn u = I" for u
  proof (cases "a_known_stacks u")
    case None
    then show ?thesis using u assms edge [OF u(1)]
      by (auto simp: hoare_def push_branch_target_def monad_simps inv_defs)
  next
    case (Some ks)
    let ?u = "u\<lparr>a_edges := a_edges u @ [(at, target)]\<rparr>"
    have ok: "state_ok (f_void F) (a_stack u)" "st_count (a_stack u) \<le> f_cap F" "state_ok True (a_locals u)"
        "st_count (a_locals u) = f_locals F"
      using u(1) by (auto simp: inv_defs state_ok_def)
    have "push_branch_target at target u = bind_m (intersect_known_stack target (a_stack u))
        (\<lambda>_. intersect_known_locals target (a_locals u)) ?u"
      using u(1) Some assms by (simp add: push_branch_target_def monad_simps inv_defs)
    moreover have "hoare (\<lambda>s. (an_inv F s \<and> a_insn s = I) \<and> a_known_stacks s \<noteq> None)
        (bind_m (intersect_known_stack target (a_stack u)) (\<lambda>_. intersect_known_locals target (a_locals u)))
        (\<lambda>_ s. an_inv F s \<and> a_insn s = I) (an_err F)"
      by (rule hoare_bind [OF intersect_known_stack_retains [OF assms ok(1,2)]])
        (rule intersect_known_locals_retains [OF assms ok(3,4)])
    ultimately show ?thesis using edge [OF u(1)] u Some unfolding hoare_def by simp
  qed
  then show "hoare (\<lambda>s. an_inv F s \<and> a_insn s = I) (push_branch_target at target)
      (\<lambda>x s. (an_inv F s \<and> a_insn s = I) \<and> True) (an_err F)"
    unfolding hoare_def simp_thms by blast
qed

section \<open>Operations that change the instruction\<close>

lemma an_inv_insn [simp]: "an_inv F (a_insn_update f s) = an_inv F s"
  by (simp add: inv_defs)

lemma an_inv_terminated [simp]: "an_inv F (a_terminated_update f s) = an_inv F s"
  by (simp add: inv_defs)

lemma terminate_state_retains: "retains F terminate_state (\<lambda>_. True)"
  by (rule retainsI) (auto simp: terminate_state_def)

text \<open>The stack instructions have no operand, and stay so when they are rewritten; the instructions on
  locals are not branches, so their index can change.\<close>

definition bare :: "an_frame \<Rightarrow> analyzed_insn \<Rightarrow> bool" where
  "bare F i \<longleftrightarrow> insn_fine F i \<and> payload i = No_payload"

definition on_local :: "an_frame \<Rightarrow> analyzed_insn \<Rightarrow> bool" where
  "on_local F i \<longleftrightarrow> insn_fine F i \<and> \<not> is_branch_kind (kind i)"

lemma bare_fine: "bare F i \<Longrightarrow> insn_fine F i"
  by (simp add: bare_def)

lemma rewrite_to_stays: "k \<le> insn_swap \<Longrightarrow> sustains F (bare F) (rewrite_to rw k)"
  by (auto simp: hoare_def rewrite_to_def monad_simps bare_def insn_fine_def insn_ok_def payload_ok_def targets_def)

lemma insn_fine_update [simp]:
  "insn_fine F (i\<lparr>i_delta := d\<rparr>) = insn_fine F i" "insn_fine F (i\<lparr>tos_before := b\<rparr>) = insn_fine F i"
  "insn_fine F (i\<lparr>tos_after := b\<rparr>) = insn_fine F i"
  by (simp_all add: insn_fine_def bytecode_insn.defs)

lemma set_delta_stays: "sustains F (insn_fine F) (bind_m (gets_m f) set_delta)"
  by (auto simp: hoare_def set_delta_def monad_simps)

lemma retains_then:
  assumes "retains F m R" "\<And>x. R x \<Longrightarrow> sustains F P (f x)"
  shows "sustains F P (bind_m m f)"
  by (rule hoare_bind [OF retains_stays [OF assms(1), of P]]) (auto simp: hoare_def dest!: assms(2) [unfolded hoare_def, rule_format])

lemma retains_end:
  assumes "retains F m R" "\<And>i. P i \<Longrightarrow> insn_fine F i"
  shows "sustains F P m"
  by (rule hoare_post [OF retains_stays [OF assms(1)]]) (use assms(2) in auto)

lemma retains_inv: "retains F m R \<Longrightarrow> hoare (an_inv F) m (\<lambda>_. an_inv F) (an_err F)"
  by (drule retains_stays [where P = "\<lambda>_. True"]) (auto simp: hoare_def split: sum.splits)

lemma swizzle_less: "frame_ok F s \<Longrightarrow> i < f_locals F \<Longrightarrow> a_swizzle s ! i < f_locals F"
  by (auto simp: frame_ok_def list_all_length)

lemma insn_index_with_index: "insn_index (i\<lparr>payload := with_index (payload i) x\<rparr>) \<in> {x, 0}"
  by (cases "payload i") (auto simp: insn_index_def)

lemma with_index_fine:
  assumes "on_local F i" "x < 2 ^ 16"
  shows "insn_fine F (i\<lparr>payload := with_index (payload i) x\<rparr>)"
  using assms by (cases "payload i") (auto simp: on_local_def insn_fine_def insn_ok_def payload_ok_def targets_def)

lemma swizzle_local_stays:
  "hoare (\<lambda>s. an_inv F s \<and> on_local F (a_insn s)) (swizzle_local rw)
     (\<lambda>_ s. an_inv F s \<and> insn_fine F (a_insn s) \<and> insn_index (a_insn s) < f_locals F) (an_err F)"
  unfolding hoare_def
proof (intro allI impI)
  fix s assume s: "an_inv F s \<and> on_local F (a_insn s)"
  then have "frame_ok F s" by (simp add: an_inv_def)
  note sw = swizzle_less [OF this, of "insn_index (a_insn s)"]
  from insn_index_with_index [of "a_insn s" "a_swizzle s ! insn_index (a_insn s)"] s sw \<open>frame_ok F s\<close>
    with_index_fine [of F "a_insn s" "a_swizzle s ! insn_index (a_insn s)"]
  show "case swizzle_local rw s of Inl e \<Rightarrow> an_err F e
      | Inr (x, t) \<Rightarrow> an_inv F t \<and> insn_fine F (a_insn t) \<and> insn_index (a_insn t) < f_locals F"
    by (auto simp: swizzle_local_def Let_def monad_simps frame_ok_def on_local_def)
qed

lemma local_index_ok:
  assumes "an_inv F s" "insn_index (a_insn s) < f_locals F"
  shows "\<exists>i<f_locals F. local_index rw s = Inr (i, s)"
  using assms swizzle_less [of F s "insn_index (a_insn s)"]
  by (auto simp: local_index_def monad_simps an_inv_def frame_ok_def)

lemma get_local_entry_ok:
  assumes "an_inv F s" "insn_index (a_insn s) < f_locals F"
  shows "\<exists>e. get_local_entry rw s = Inr (e, s) \<and> ty_ok True (e_type e)"
proof -
  from local_index_ok [OF assms, of rw] obtain i where i: "i < f_locals F" "local_index rw s = Inr (i, s)" by blast
  have "locals_ok F s" using assms(1) by (simp add: an_inv_def)
  then have "i < length (st_entries (a_locals s))" "ty_ok True (e_type (st_entries (a_locals s) ! i))"
    using i(1) state_ok_nth [of True "a_locals s" i] by (auto simp: locals_ok_def)
  then show ?thesis using i(2) by (simp add: get_local_entry_def monad_simps)
qed

lemma state_ok_update:
  "state_ok v st \<Longrightarrow> ty_ok v (e_type e) \<Longrightarrow> state_ok v (st\<lparr>st_entries := (st_entries st)[i := e]\<rparr>)"
  by (auto simp: state_ok_def list_all_length) (metis nth_list_update_eq nth_list_update_neq order.strict_trans2)

lemma set_local_kind_retains:
  assumes "ty_ok True k"
  shows "retains F (set_local_kind rw k at) (\<lambda>_. True)"
proof -
  have main: "case set_local_kind rw k at s of Inl e \<Rightarrow> an_err F e | Inr (x, t) \<Rightarrow> an_inv F t \<and> a_insn t = a_insn s"
    if inv: "an_inv F s" for s
  proof (cases "insn_index (a_insn s) < f_locals F")
    case True
    have "an_inv F (s\<lparr>a_locals := (a_locals s)\<lparr>st_entries := (st_entries (a_locals s))[i := local_source k at]\<rparr>\<rparr>)" for i
      using inv assms state_ok_update [of True "a_locals s" "local_source k at" i] by (auto simp: inv_defs local_source_def)
    moreover from local_index_ok [OF inv True, of rw] obtain i where "i < f_locals F" "local_index rw s = Inr (i, s)" by blast
    ultimately show ?thesis using True inv by (auto simp: set_local_kind_def monad_simps inv_defs)
  next
    case False
    then show ?thesis using inv by (simp add: set_local_kind_def monad_simps inv_defs)
  qed
  show ?thesis by (rule retainsI) (use main in fastforce)+
qed

section \<open>Descriptors in the pool\<close>

fun descs_ok :: "cp_info \<Rightarrow> bool" where
  "descs_ok (Cp_field_ref _ _ d) \<longleftrightarrow> (\<exists>x. d = Some x \<and> ty_ok True (repr_kind x))"
| "descs_ok (Cp_method_ref _ _ d) \<longleftrightarrow> (\<exists>x. d = Some x \<and> ty_ok True (repr_kind (return_type x)))"
| "descs_ok (Cp_interface_method_ref _ _ d) \<longleftrightarrow> (\<exists>x. d = Some x \<and> ty_ok True (repr_kind (return_type x)))"
| "descs_ok (Cp_invoke_dynamic _ _ d) \<longleftrightarrow> (\<exists>x. d = Some x \<and> ty_ok True (repr_kind (return_type x)))"
| "descs_ok _ \<longleftrightarrow> True"

definition pool_descs :: "cp_entry list \<Rightarrow> bool" where
  "pool_descs pool \<longleftrightarrow> list_all (\<lambda>e. descs_ok (info e)) pool"

text \<open>A parsed pool has them.\<close>

lemma ty_ok_representable: "ty_ok True (kind_to_representable_kind k)"
  by (cases k) (simp_all add: ty_ok_def)

lemma repr_kind_desc_of: "ty_ok True (repr_kind (desc_of t))"
  by (cases "elem_of t") (auto simp: desc_of_def ty_ok_representable, simp_all add: ty_ok_def)

lemma repr_kind_parsed: "parse_field_descriptor cs = Inr (d, rest) \<Longrightarrow> ty_ok True (repr_kind d)"
  by (auto simp: parse_field_descriptor_iff intro: repr_kind_desc_of)

lemma finished_descs_ok: "finished pool e \<Longrightarrow> descs_ok e"
  by (cases e) (auto simp: finished_def parse_complete_field_descriptor_def parse_method_descriptor_def
    intro: repr_kind_parsed split: option.splits sum.splits prod.splits if_splits list.splits)

lemma wf_pool_descs: "wf_pool n pool \<Longrightarrow> pool_descs pool"
  by (auto simp: wf_pool_def pool_descs_def list_all_iff intro: finished_descs_ok)

lemma kind_of_masks:
  "kind_of e AND CP_KIND_FIELD_REF \<noteq> 0 \<Longrightarrow> \<exists>c n d. e = Cp_field_ref c n d"
  "kind_of e AND CP_KIND_INVOKE_DYNAMIC \<noteq> 0 \<Longrightarrow> \<exists>c n d. e = Cp_invoke_dynamic c n d"
  "kind_of e AND (CP_KIND_METHOD_REF OR CP_KIND_INTERFACE_METHOD_REF) \<noteq> 0 \<Longrightarrow>
     (\<exists>c n d. e = Cp_method_ref c n d) \<or> (\<exists>c n d. e = Cp_interface_method_ref c n d)"
  "kind_of e AND CP_KIND_INTERFACE_METHOD_REF \<noteq> 0 \<Longrightarrow> \<exists>c n d. e = Cp_interface_method_ref c n d"
  by (cases e; simp)+

abbreviation at_kind :: "an_frame \<Rightarrow> nat \<Rightarrow> analyzed_insn \<Rightarrow> bool" where
  "at_kind F k i \<equiv> insn_fine F i \<and> kind i = k"

text \<open>What the instructions that read the pool find there.\<close>

lemma insn_cp:
  assumes "at_kind F k i" "k \<in> {insn_getfield, insn_getstatic, insn_invokedynamic, insn_invokevirtual,
    insn_invokespecial, insn_invokestatic, insn_invokeinterface}"
  shows "\<exists>j. payload i = Cp j \<and> j < length (f_pool F) \<and> entry_kind (f_pool F ! j) AND cp_mask k \<noteq> 0"
  using insn_fine_payload [of F i] assms by (cases "payload i") (auto simp: payload_ok_def)

lemma field_descriptor_of_ok:
  assumes "pool_descs (f_pool F)" "k = insn_getfield \<or> k = insn_getstatic"
  shows "hoare (\<lambda>s. an_inv F s \<and> at_kind F k (a_insn s)) field_descriptor_of
    (\<lambda>d s. (an_inv F s \<and> at_kind F k (a_insn s)) \<and> ty_ok True (repr_kind d)) (an_err F)"
  unfolding hoare_def
proof (intro allI impI)
  fix s assume s: "an_inv F s \<and> at_kind F k (a_insn s)"
  then obtain j where j: "payload (a_insn s) = Cp j" "j < length (f_pool F)" "entry_kind (f_pool F ! j) AND CP_KIND_FIELD_REF \<noteq> 0"
    using insn_cp [where F = F and k = k and i = "a_insn s"] assms(2) by (auto simp: cp_mask_def)
  from kind_of_masks(1) [OF j(3)] obtain c n d where e: "info (f_pool F ! j) = Cp_field_ref c n d" by blast
  moreover have "descs_ok (info (f_pool F ! j))" using assms(1) j(2) by (simp add: pool_descs_def list_all_length)
  ultimately obtain x where "d = Some x" "ty_ok True (repr_kind x)" by auto
  moreover have "a_pool s = f_pool F" using s by (simp add: inv_defs)
  ultimately show "case field_descriptor_of s of Inl e \<Rightarrow> an_err F e
      | Inr (d, t) \<Rightarrow> (an_inv F t \<and> at_kind F k (a_insn t)) \<and> ty_ok True (repr_kind d)"
    using s j e by (auto simp: field_descriptor_of_def pool_info_def the_descriptor_def monad_simps)
qed

lemma invoke_descriptor_of_ok:
  assumes "pool_descs (f_pool F)" "k \<in> {insn_invokevirtual, insn_invokespecial, insn_invokestatic, insn_invokeinterface}"
  shows "hoare (\<lambda>s. an_inv F s \<and> at_kind F k (a_insn s)) invoke_descriptor_of
    (\<lambda>d s. (an_inv F s \<and> at_kind F k (a_insn s)) \<and> ty_ok True (repr_kind (return_type d))) (an_err F)"
  unfolding hoare_def
proof (intro allI impI)
  fix s assume s: "an_inv F s \<and> at_kind F k (a_insn s)"
  then obtain j where j: "payload (a_insn s) = Cp j" "j < length (f_pool F)" "entry_kind (f_pool F ! j) AND cp_mask k \<noteq> 0"
    using insn_cp [where F = F and k = k and i = "a_insn s"] assms(2) by auto
  then obtain c n d where
      e: "info (f_pool F ! j) = Cp_method_ref c n d \<or> info (f_pool F ! j) = Cp_interface_method_ref c n d"
    using kind_of_masks(3,4) [of "info (f_pool F ! j)"] assms(2) by (auto simp: cp_mask_def split: if_splits)
  moreover have "descs_ok (info (f_pool F ! j))" using assms(1) j(2) by (simp add: pool_descs_def list_all_length)
  ultimately obtain x where "d = Some x" "ty_ok True (repr_kind (return_type x))" by auto
  moreover have "a_pool s = f_pool F" using s by (simp add: inv_defs)
  ultimately show "case invoke_descriptor_of s of Inl e \<Rightarrow> an_err F e
      | Inr (d, t) \<Rightarrow> (an_inv F t \<and> at_kind F k (a_insn t)) \<and> ty_ok True (repr_kind (return_type d))"
    using s j e by (auto simp: invoke_descriptor_of_def pool_info_def the_descriptor_def monad_simps)
qed

lemma indy_descriptor_of_ok:
  assumes "pool_descs (f_pool F)"
  shows "hoare (\<lambda>s. an_inv F s \<and> at_kind F insn_invokedynamic (a_insn s)) indy_descriptor_of
    (\<lambda>d s. (an_inv F s \<and> at_kind F insn_invokedynamic (a_insn s)) \<and> ty_ok True (repr_kind (return_type d))) (an_err F)"
  unfolding hoare_def
proof (intro allI impI)
  fix s assume s: "an_inv F s \<and> at_kind F insn_invokedynamic (a_insn s)"
  then obtain j where j: "payload (a_insn s) = Cp j" "j < length (f_pool F)"
      "entry_kind (f_pool F ! j) AND CP_KIND_INVOKE_DYNAMIC \<noteq> 0"
    using insn_cp [where F = F and k = insn_invokedynamic and i = "a_insn s"] by (auto simp: cp_mask_def)
  from kind_of_masks(2) [OF j(3)] obtain c n d where e: "info (f_pool F ! j) = Cp_invoke_dynamic c n d" by blast
  moreover have "descs_ok (info (f_pool F ! j))" using assms(1) j(2) by (simp add: pool_descs_def list_all_length)
  ultimately obtain x where "d = Some x" "ty_ok True (repr_kind (return_type x))" by auto
  moreover have "a_pool s = f_pool F" using s by (simp add: inv_defs)
  ultimately show "case indy_descriptor_of s of Inl e \<Rightarrow> an_err F e
      | Inr (d, t) \<Rightarrow> (an_inv F t \<and> at_kind F insn_invokedynamic (a_insn t)) \<and> ty_ok True (repr_kind (return_type d))"
    using s j e by (auto simp: indy_descriptor_of_def pool_info_def the_descriptor_def monad_simps)
qed

section \<open>The cases of the switch\<close>

lemma find_effect_rows: "find_effect rows k = Some e \<Longrightarrow> \<exists>ks. (ks, e) \<in> set rows"
  by (induction rows k rule: find_effect.induct) (auto split: if_splits)

lemma fixed_effects_push: "list_all (\<lambda>(ks, pops, pushes, t). list_all (ty_ok False) pushes) fixed_effects"
  by (simp add: fixed_effects_def effects_a_to_d_def effects_f_to_i_def effects_l_to_m_def effects_rest_def ty_ok_def)

lemma do_effect_retains:
  assumes "find_effect fixed_effects k = Some e"
  shows "retains F (do_effect at e) (\<lambda>_. True)"
proof -
  obtain pops pushes t where e: "e = (pops, pushes, t)" by (cases e)
  with find_effect_rows [OF assms] fixed_effects_push have "list_all (ty_ok False) pushes"
    by (auto simp: list_all_iff)
  then have ps: "retains F (map_m (\<lambda>k. push_kind k at) pushes) (\<lambda>_. True)"
    by (intro retains_map push_kind_retains) (auto simp: list_all_iff intro: ty_ok_mono)
  show ?thesis
    unfolding do_effect_def e prod.case
    by (rule retains_bind [OF do_pops_retains], rule retains_bind [OF ps])
      (auto intro: terminate_state_retains retains_return)
qed

lemma pops_then:
  assumes "\<And>e. ty_ok True (e_type e) \<Longrightarrow> sustains F P (f e)"
  shows "sustains F P (bind_m pop_val f)"
  by (rule retains_then [OF pop_val_retains]) (use assms ty_ok_mono in blast)

lemma guard_then: "an_err F x \<Longrightarrow> (b \<Longrightarrow> sustains F P (f ())) \<Longrightarrow> sustains F P (bind_m (guard_m b x) f)"
  by (rule retains_then [OF retains_guard [where R = "\<lambda>_. b"]]) auto

lemma pushes_then:
  assumes "list_all (\<lambda>e. ty_ok True (e_type e)) es" "sustains F P (f ())"
  shows "sustains F P (bind_m (push_all es) f)"
  by (rule retains_then [OF push_all_retains [OF assms(1)]]) (use assms(2) in simp)

lemmas stack_steps = pops_then guard_then pushes_then rewrite_to_stays hoare_if
  retains_end [OF push_all_retains bare_fine] retains_end [OF retains_guard bare_fine]

lemma do_dup_retains: "retains F do_dup (\<lambda>_. True)"
proof -
  have main: "case do_dup s of Inl e \<Rightarrow> an_err F e | Inr (x, t) \<Rightarrow> an_inv F t \<and> a_insn t = a_insn s"
    if s: "an_inv F s" for s
  proof (cases "st_count (a_stack s) = 0")
    case False
    let ?e = "st_entries (a_stack s) ! (st_count (a_stack s) - 1)"
    have e: "ty_ok True (e_type ?e)" "st_count (a_stack s) - 1 < length (st_entries (a_stack s))"
      using s False state_ok_nth [of "f_void F" "a_stack s" "st_count (a_stack s) - 1"]
      by (auto simp: inv_defs state_ok_def dest: ty_ok_mono)
    from retains_stays [OF push_entry_retains [OF e(1)], where P = "\<lambda>i. i = a_insn s"] s have
      "case push_entry ?e s of Inl e \<Rightarrow> an_err F e | Inr (x, t) \<Rightarrow> an_inv F t \<and> a_insn t = a_insn s"
      unfolding hoare_def simp_thms by blast
    moreover have "do_dup s = push_entry ?e s" using False e(2) by (simp add: do_dup_def monad_simps)
    ultimately show ?thesis by simp
  qed (simp add: do_dup_def monad_simps)
  show ?thesis by (rule retainsI) (use main in fastforce)+
qed

lemma do_dup_x1_stays: "sustains F (bare F) do_dup_x1"
  unfolding do_dup_x1_def
proof (rule retains_then [where R = "\<lambda>_. True"])
  show "retains F (gets_m a_stack) (\<lambda>_. True)" by (rule retainsI) auto
qed (intro stack_steps; simp)

lemma do_dup_x2_stays: "sustains F (bare F) (do_dup_x2 rw)"
proof -
  have "sustains F (bare F) (bind_m (if b then bind_m (push_all [x, y]) (\<lambda>_. rewrite_to rw insn_dup_x1)
       else bind_m pop_val (\<lambda>z. push_all [x, z, y])) (\<lambda>_. push_entry x))"
    if "ty_ok True (e_type x)" "ty_ok True (e_type y)" for x y b
    by (rule hoare_bind [where R = "\<lambda>_ s. an_inv F s \<and> insn_fine F (a_insn s)"], intro stack_steps; (simp add: that)?)
      (use retains_end [OF push_entry_retains [OF that(1)], where P = "insn_fine F"] in simp)
  then show ?thesis unfolding do_dup_x2_def by (intro pops_then guard_then) simp_all
qed

lemma do_dup2_stays: "sustains F (bare F) (do_dup2 rw)"
  unfolding do_dup2_def by (intro stack_steps; simp)

lemma do_dup2_x1_stays: "sustains F (bare F) (do_dup2_x1 rw)"
  unfolding do_dup2_x1_def by (intro stack_steps; simp)

lemma do_dup2_x2_stays: "sustains F (bare F) (do_dup2_x2 rw)"
  unfolding do_dup2_x2_def by (intro stack_steps; simp)

lemma do_pop_stays: "sustains F (bare F) do_pop"
  unfolding do_pop_def by (intro stack_steps; simp)

lemma do_pop2_stays: "sustains F (bare F) (do_pop2 rw)"
  unfolding do_pop2_def by (intro stack_steps; simp)

lemma do_swap_stays: "sustains F (bare F) do_swap"
  unfolding do_swap_def by (intro stack_steps; simp)

lemma stack_insn_stays: "stack_insn k rw = Some m \<Longrightarrow> sustains F (bare F) m"
  by (auto simp: stack_insn_def intro: retains_end [OF do_dup_retains bare_fine] do_dup_x1_stays do_dup_x2_stays do_dup2_stays do_dup2_x1_stays
    do_dup2_x2_stays do_pop_stays do_pop2_stays do_swap_stays split: if_splits)

lemma insn_source_ty [simp]: "e_type (insn_source k at) = k"
  by (simp add: insn_source_def)

lemma do_getstatic_stays:
  assumes "pool_descs (f_pool F)" "k = insn_getfield \<or> k = insn_getstatic"
  shows "sustains F (at_kind F k) (do_getstatic at)"
  unfolding do_getstatic_def
  by (rule hoare_seq [OF field_descriptor_of_ok [OF assms]]) (auto intro: retains_end [OF push_entry_retains])

lemma do_getfield_stays: "pool_descs (f_pool F) \<Longrightarrow> sustains F (at_kind F insn_getfield) (do_getfield at)"
  unfolding do_getfield_def by (rule retains_then [OF pop_kind_retains]) (auto intro: do_getstatic_stays)

lemma pop_args_retains: "retains F (pop_args d) (\<lambda>_. True)"
  unfolding pop_args_def by (rule do_pops_retains)

lemma push_result_retains: "ty_ok True (repr_kind (return_type d)) \<Longrightarrow> retains F (push_result d at) (\<lambda>_. True)"
  unfolding push_result_def by (auto intro: push_entry_retains retains_return)

lemma do_invokedynamic_stays:
  "pool_descs (f_pool F) \<Longrightarrow> sustains F (at_kind F insn_invokedynamic) (do_invokedynamic at)"
  unfolding do_invokedynamic_def
  by (rule hoare_seq [OF indy_descriptor_of_ok])
    (auto intro: retains_then [OF pop_args_retains] retains_end [OF push_result_retains])

lemma do_invoke_stays:
  assumes "pool_descs (f_pool F)" "k \<in> {insn_invokevirtual, insn_invokespecial, insn_invokestatic, insn_invokeinterface}"
  shows "sustains F (at_kind F k) (do_invoke k at)"
proof -
  have rcv: "retains F (if k \<noteq> insn_invokestatic then pop_kind Ref_k else return_m ()) (\<lambda>_. True)"
    by (auto intro: retains_weaken [OF pop_kind_retains] retains_return)
  show ?thesis
    unfolding do_invoke_def
    by (rule hoare_seq [OF invoke_descriptor_of_ok [OF assms]], rule retains_then [OF pop_args_retains],
        rule retains_then [OF rcv], rule retains_end [OF push_result_retains]) auto
qed

lemma do_putfield_stays: "sustains F (at_kind F k) (do_putfield k)"
  unfolding do_putfield_def by (rule pops_then) (auto intro: retains_end [OF pop_kind_retains] retains_end [OF retains_return])

lemma do_multianewarray_stays: "sustains F (at_kind F insn_multianewarray) (do_multianewarray at)"
proof -
  have "retains F (bind_m (do_pops ks) (\<lambda>_. push_kind Ref_k at)) (\<lambda>_. True)" for ks
    by (rule retains_bind [OF do_pops_retains], rule push_kind_retains) (simp add: ty_ok_def)
  from retains_end [OF this, where P = "insn_fine F"] have
    r: "case bind_m (do_pops ks) (\<lambda>_. push_kind Ref_k at) s of Inl e \<Rightarrow> an_err F e
      | Inr (x, t) \<Rightarrow> an_inv F t \<and> insn_fine F (a_insn t)" if "an_inv F s" "insn_fine F (a_insn s)" for ks s
    using that unfolding hoare_def by blast
  show ?thesis
    unfolding hoare_def
  proof (intro allI impI)
    fix s assume s: "an_inv F s \<and> at_kind F insn_multianewarray (a_insn s)"
    then obtain i d where "payload (a_insn s) = Multianewarray i d"
      using insn_fine_payload [of F "a_insn s"] by (cases "payload (a_insn s)") (auto simp: payload_ok_def)
    then have "do_multianewarray at s = bind_m (do_pops (replicate (unat d) Int_k)) (\<lambda>_. push_kind Ref_k at) s"
      by (simp add: do_multianewarray_def bind_gets)
    with r [of s] s
    show "case do_multianewarray at s of Inl e \<Rightarrow> an_err F e
        | Inr (x, t) \<Rightarrow> an_inv F t \<and> insn_fine F (a_insn t)" by simp
  qed
qed

lemma do_load_stays: "sustains F (on_local F) (do_load rw k)"
proof -
  let ?C = "\<lambda>s. an_inv F s \<and> insn_fine F (a_insn s) \<and> insn_index (a_insn s) < f_locals F"
  have get: "hoare ?C (get_local_entry rw) (\<lambda>e s. ?C s \<and> ty_ok True (e_type e)) (an_err F)"
    by (rule hoareI) (use get_local_entry_ok [where rw = rw and F = F] in fastforce)+
  have chk: "hoare ?C (check_local rw k) (\<lambda>_ s. ?C s \<and> True) (an_err F)"
    unfolding check_local_def by (rule hoare_seq [OF get]) (auto intro: hoare_guard)
  have dlt: "hoare ?C calculate_local_modifying_insn_delta (\<lambda>_ s. an_inv F s \<and> insn_fine F (a_insn s)) (an_err F)"
    unfolding calculate_local_modifying_insn_delta_def by (rule hoare_pre [OF set_delta_stays]) simp
  have psh: "hoare ?C (push_entry e) (\<lambda>_ s. ?C s \<and> True) (an_err F)" if "ty_ok True (e_type e)" for e
    using retains_stays [OF push_entry_retains [OF that], of F "\<lambda>i. insn_fine F i \<and> insn_index i < f_locals F"] by simp
  show ?thesis
    unfolding do_load_def
    by (rule hoare_bind [OF swizzle_local_stays], rule hoare_seq [OF get], rule hoare_seq [OF psh], assumption,
        rule hoare_seq [OF chk], rule dlt)
qed

lemma do_store_stays:
  assumes "ty_ok True k"
  shows "sustains F (on_local F) (do_store rw k at)"
proof -
  have "sustains F (insn_fine F) (bind_m (set_local_kind rw k at) (\<lambda>_. calculate_local_modifying_insn_delta))"
    unfolding calculate_local_modifying_insn_delta_def
    by (rule retains_then [OF set_local_kind_retains [OF assms]]) (rule set_delta_stays)
  then have st: "hoare (\<lambda>s. an_inv F s \<and> insn_fine F (a_insn s) \<and> insn_index (a_insn s) < f_locals F)
      (bind_m (set_local_kind rw k at) (\<lambda>_. calculate_local_modifying_insn_delta))
      (\<lambda>_ s. an_inv F s \<and> insn_fine F (a_insn s)) (an_err F)"
    by (rule hoare_pre) simp
  show ?thesis
    unfolding do_store_def
    by (rule retains_then [OF pop_kind_retains], rule hoare_bind [OF swizzle_local_stays], rule st)
qed

lemma load_store_kinds: "map_of local_store_kinds k = Some t \<Longrightarrow> ty_ok True t"
  by (auto simp: local_store_kinds_def ty_ok_def split: if_splits)

lemma insn_target:
  assumes "at_kind F k i" "insn_goto \<le> k" "k \<le> insn_ifnull"
  shows "insn_index i < f_insns F"
  using assms insn_fine_payload [of F i]
  by (cases "payload i") (auto simp: payload_ok_def insn_index_def insn_fine_def insn_ok_def targets_def is_branch_kind_def)

lemma branch_to_index_stays:
  assumes "insn_goto \<le> k" "k \<le> insn_ifnull"
  shows "sustains F (at_kind F k) (branch_to_index at)"
  unfolding hoare_def
proof (intro allI impI)
  fix s assume s: "an_inv F s \<and> at_kind F k (a_insn s)"
  then have "insn_index (a_insn s) < f_insns F" using insn_target [of F _ k] assms by blast
  from retains_end [OF push_branch_target_retains [OF this, of at], where P = "insn_fine F"] s
  have "case push_branch_target at (insn_index (a_insn s)) s of Inl e \<Rightarrow> an_err F e
      | Inr (x, t) \<Rightarrow> an_inv F t \<and> insn_fine F (a_insn t)"
    unfolding hoare_def by blast
  then show "case branch_to_index at s of Inl e \<Rightarrow> an_err F e
      | Inr (x, t) \<Rightarrow> an_inv F t \<and> insn_fine F (a_insn t)"
    by (simp add: branch_to_index_def bind_gets)
qed

lemma calculate_branch_delta_stays:
  "hoare (\<lambda>s. an_inv F s \<and> at_kind F k (a_insn s)) (calculate_branch_delta at)
     (\<lambda>_ s. (an_inv F s \<and> at_kind F k (a_insn s)) \<and> True) (an_err F)"
  by (auto simp: hoare_def calculate_branch_delta_def set_delta_def monad_simps)

lemma terminate_after:
  "hoare (\<lambda>s. an_inv F s \<and> insn_fine F (a_insn s)) terminate_state (\<lambda>_ s. an_inv F s \<and> insn_fine F (a_insn s)) E"
  by (auto simp: hoare_def terminate_state_def monad_simps)

lemma do_goto_stays: "sustains F (at_kind F insn_goto) (do_goto at)"
  unfolding do_goto_def
  by (rule hoare_seq [OF calculate_branch_delta_stays], rule hoare_bind [OF branch_to_index_stays])
    (auto intro: terminate_after)

lemma do_jsr_stays: "sustains F (at_kind F insn_jsr) (do_jsr at)"
  unfolding do_jsr_def
  by (rule retains_then [OF push_kind_retains]) (auto simp: ty_ok_def intro: branch_to_index_stays)

lemma do_branch_stays:
  assumes "insn_if_acmpeq \<le> k" "k \<le> insn_ifnull"
  shows "sustains F (at_kind F k) (do_branch k at)"
  unfolding do_branch_def
  by (rule retains_then [OF do_pops_retains], rule hoare_seq [OF calculate_branch_delta_stays], rule branch_to_index_stays)
    (use assms in auto)

lemma branches_retain:
  assumes "list_all (\<lambda>t. t < f_insns F) ts"
  shows "retains F (map_m (push_branch_target at) ts) (\<lambda>_. True)"
  by (rule retains_map) (use assms in \<open>auto simp: list_all_iff intro: push_branch_target_retains\<close>)

lemma do_switch_stays:
  assumes "k = insn_tableswitch \<or> k = insn_lookupswitch"
  shows "sustains F (at_kind F k) (do_switch at)"
  unfolding do_switch_def
proof (rule retains_then [OF pop_kind_retains])
  show "sustains F (at_kind F k) (bind_m (gets_m (\<lambda>s. payload (a_insn s))) (\<lambda>p.
     bind_m (case p of
         Tableswitch d \<Rightarrow> map_m (push_branch_target at) (ts_default d # ts_targets d)
       | Lookupswitch d \<Rightarrow> map_m (push_branch_target at) (ls_default d # ls_targets d)
       | _ \<Rightarrow> fail_m Bad_access) (\<lambda>_. terminate_state)))" (is "sustains F _ (bind_m _ ?f)")
    unfolding hoare_def
  proof (intro allI impI)
    fix s assume s: "an_inv F s \<and> at_kind F k (a_insn s)"
    let ?ts = "targets (bytecode_insn.truncate (a_insn s))"
    have "list_all (\<lambda>t. t < f_insns F) ?ts" using s by (simp add: insn_fine_def insn_ok_def)
    note m = retains_end [OF retains_bind [OF branches_retain [OF this] terminate_state_retains],
      where P = "at_kind F k", unfolded hoare_def, rule_format, OF _ s]
    have "?f (payload (a_insn s)) = bind_m (map_m (push_branch_target at) ?ts) (\<lambda>_. terminate_state)"
      using s insn_fine_payload [of F "a_insn s"] assms
      by (cases "payload (a_insn s)") (auto simp: payload_ok_def targets_def)
    with m [of at] show "case bind_m (gets_m (\<lambda>s. payload (a_insn s))) ?f s of Inl e \<Rightarrow> an_err F e
        | Inr (x, t) \<Rightarrow> an_inv F t \<and> insn_fine F (a_insn t)"
      by (simp add: bind_gets)
  qed
qed

section \<open>The whole instruction\<close>

lemma insn_fine_kind: "insn_fine F i \<Longrightarrow> kind i < 145"
  using insn_fine_payload [of F i] by (cases "payload i") (auto simp: payload_ok_def)

text \<open>Every kind of the parser has a case.\<close>

definition stack_kinds :: "nat list" where
  "stack_kinds = [insn_dup, insn_dup_x1, insn_dup_x2, insn_dup2, insn_dup2_x1, insn_dup2_x2, insn_pop, insn_pop2, insn_swap]"

lemma find_effect_None: "find_effect rows k = None \<longleftrightarrow> k \<notin> set (concat (map fst rows))"
  by (induction rows k rule: find_effect.induct) auto

lemma stack_insn_None: "stack_insn k rw = None \<longleftrightarrow> k \<notin> set stack_kinds"
  by (auto simp: stack_insn_def stack_kinds_def map_of_eq_None_iff)

lemma kinds_cover:
  assumes "k < 145"
  shows "k \<in> set (stack_kinds @ concat (map fst fixed_effects)) \<or>
     k \<in> set [95, 96, 98, 100, 101, 102, 103, 104] \<or> 106 \<le> k \<and> k < 134 \<or> k \<in> set [138, 139, 140, 142, 143]"
proof -
  consider "k < 25" | "25 \<le> k" "k < 50" | "50 \<le> k" "k < 75" | "75 \<le> k" "k < 100" | "100 \<le> k"
    by linarith
  then show ?thesis
    using assms
    unfolding stack_kinds_def fixed_effects_def effects_a_to_d_def effects_f_to_i_def effects_l_to_m_def effects_rest_def
    by cases (simp, presburger)+
qed

lemma other_insn_stays:
  assumes "pool_descs (f_pool F)" "find_effect fixed_effects k = None" "stack_insn k rw = None" "k < 145"
  shows "sustains F (at_kind F k) (other_insn k at rw)"
proof -
  have k: "k \<in> set [95, 96, 98, 100, 101, 102, 103, 104] \<or> 106 \<le> k \<and> k < 134 \<or> k \<in> set [138, 139, 140, 142, 143]"
    using kinds_cover [OF assms(4)] assms(2,3) by (simp add: find_effect_None stack_insn_None)
  have loc: "sustains F (at_kind F k) m" if "sustains F (on_local F) m" "\<not> is_branch_kind k" for m :: "unit an"
    by (rule hoare_pre [OF that(1)]) (use that(2) in \<open>auto simp: on_local_def\<close>)
  have "sustains F (on_local F) (swizzle_local rw)" by (rule hoare_post [OF swizzle_local_stays]) auto
  note iinc = loc [OF this]
  have store: "ty_ok True (the (map_of local_store_kinds k))" if "map_of local_store_kinds k \<noteq> None"
    using that load_store_kinds by auto
  have ls: "map_of local_load_kinds k \<noteq> None \<or> map_of local_store_kinds k \<noteq> None" if "106 \<le> k" "k < 116"
  proof -
    have "k \<in> set [106, 107, 108, 109, 110, 111, 112, 113, 114, 115]" using that by simp presburger
    then show ?thesis by (auto simp: local_load_kinds_def local_store_kinds_def)
  qed
  have "k \<in> {95, 96, 98, 100, 101, 102, 103, 104, 116, 117, 138, 139, 140, 142, 143} \<or> 106 \<le> k \<and> k < 116 \<or>
      insn_if_acmpeq \<le> k \<and> k \<le> insn_ifnull"
    using k by auto
  then consider "k \<in> {95, 96, 98, 100, 101, 102, 103, 104, 116, 117, 138, 139, 140, 142, 143}"
    | "106 \<le> k" "k < 116" | "insn_if_acmpeq \<le> k" "k \<le> insn_ifnull" by blast
  then show ?thesis
  proof cases
    case 1
    note g = do_getstatic_stays [OF assms(1)] do_invoke_stays [OF assms(1)]
    from 1 iinc show ?thesis
      by (elim insertE emptyE) (simp_all add: is_branch_kind_def other_insn_def local_load_kinds_def local_store_kinds_def g
        do_putfield_stays [where k = insn_putfield] do_putfield_stays [where k = insn_putstatic]
        do_getfield_stays [OF assms(1)] do_invokedynamic_stays [OF assms(1)] do_goto_stays do_jsr_stays
        do_multianewarray_stays do_switch_stays)
  next
    case 2
    then show ?thesis
      using ls store loc [OF do_load_stays] loc [OF do_store_stays] by (auto simp: other_insn_def is_branch_kind_def)
  next
    case 3
    then have "map_of local_load_kinds k = None" "map_of local_store_kinds k = None"
      by (auto simp: local_load_kinds_def local_store_kinds_def)
    with 3 do_branch_stays [OF 3, of F at] show ?thesis by (simp add: other_insn_def)
  qed
qed

lemma insn_switch_stays:
  assumes "pool_descs (f_pool F)" "k < 145"
  shows "sustains F (at_kind F k) (insn_switch k at rw)"
proof (cases "find_effect fixed_effects k")
  case None
  note n = None
  show ?thesis
  proof (cases "stack_insn k rw")
    case None
    with n other_insn_stays [OF assms(1) n None assms(2)] show ?thesis by (simp add: insn_switch_def)
  next
    case (Some m)
    have "bare F i" if "at_kind F k i" for i
    proof -
      have "k \<le> insn_swap" "k \<in> set stack_kinds" using Some stack_insn_None [of k rw] by (auto simp: stack_kinds_def)
      with that insn_fine_payload [of F i] show ?thesis by (cases "payload i") (auto simp: bare_def payload_ok_def)
    qed
    then have "sustains F (at_kind F k) m" by (intro hoare_pre [OF stack_insn_stays [OF Some]]) auto
    with n Some show ?thesis by (simp add: insn_switch_def)
  qed
next
  case (Some e)
  then show ?thesis using retains_end [OF do_effect_retains [OF Some], where P = "at_kind F k"] by (simp add: insn_switch_def)
qed

abbreviation fine :: "an_frame \<Rightarrow> method_analysis_ctx \<Rightarrow> bool" where
  "fine F s \<equiv> an_inv F s \<and> insn_fine F (a_insn s)"

lemma switch_then:
  assumes "pool_descs (f_pool F)" "hoare (fine F) (f ()) (\<lambda>_. fine F) (an_err F)"
  shows "hoare (fine F) (bind_m (gets_m (\<lambda>s. kind (a_insn s))) (\<lambda>k. bind_m (insn_switch k at rw) f)) (\<lambda>_. fine F) (an_err F)"
  unfolding hoare_def
proof (intro allI impI)
  fix s assume s: "fine F s"
  then have "kind (a_insn s) < 145" using insn_fine_kind by blast
  have "hoare (\<lambda>u. an_inv F u \<and> at_kind F (kind (a_insn s)) (a_insn u)) (bind_m (insn_switch (kind (a_insn s)) at rw) f)
      (\<lambda>_. fine F) (an_err F)"
    by (rule hoare_bind [OF insn_switch_stays [OF assms(1) \<open>kind (a_insn s) < 145\<close>]]) (use assms(2) in simp)
  with s show "case bind_m (gets_m (\<lambda>s. kind (a_insn s))) (\<lambda>k. bind_m (insn_switch k at rw) f) s of
      Inl e \<Rightarrow> an_err F e | Inr (x, t) \<Rightarrow> fine F t"
    by (simp add: bind_gets hoare_def)
qed

lemma analyze_instruction_stays:
  assumes "pool_descs (f_pool F)"
  shows "hoare (fine F) (analyze_instruction at rw) (\<lambda>_. fine F) (an_err F)"
proof -
  have tos: "hoare (fine F) calculate_tos_type (\<lambda>_. fine F) (an_err F)"
    using retains_end [OF calculate_tos_type_retains, where P = "insn_fine F"] by simp
  have before: "hoare (fine F) (modify_m (\<lambda>s. s\<lparr>a_insn := (a_insn s)\<lparr>tos_before := r\<rparr>\<rparr>)) (\<lambda>_. fine F) (an_err F)"
    and after: "hoare (fine F) (modify_m (\<lambda>s. s\<lparr>a_insn := (a_insn s)\<lparr>tos_after := r\<rparr>\<rparr>)) (\<lambda>_. fine F) (an_err F)" for r
    by (rule hoare_modify, simp)+
  show ?thesis
    unfolding analyze_instruction_def
    by (rule hoare_bind [OF tos], rule hoare_bind [OF before], rule switch_then [OF assms], rule hoare_bind [OF tos], rule after)
qed


definition sample_frame :: an_frame where
  "sample_frame = \<lparr>f_void = False, f_pool = [], f_locals = 1, f_insns = 1, f_cap = 2, f_swizzle = [0], f_weight = 0, f_known = False\<rparr>"

definition sample_insn :: "nat \<Rightarrow> insn_payload \<Rightarrow> analyzed_insn" where
  "sample_insn k p = \<lparr>kind = k, original_pc = 0, payload = p, tos_before = TOS_VOID, tos_after = TOS_VOID, i_delta = 0\<rparr>"

definition sample_ctx :: method_analysis_ctx where
  "sample_ctx = \<lparr>a_pool = [], a_max_locals = 1, a_insn_count = 1, a_insn_size = 48,
     a_stack = \<lparr>st_entries = [zero_entry, zero_entry], st_count = 0, st_cap = 2\<rparr>,
     a_locals = \<lparr>st_entries = [parameter_source TYPE_KIND_LONG 1], st_count = 1, st_cap = 1\<rparr>,
     a_swizzle = [0], a_edges = [], a_known_stacks = None, a_known_locals = None, a_changed = False,
     a_insn = sample_insn insn_lload (Index 0), a_terminated = False\<rparr>"


end
