(* ===== verification/Method_Analysis.thy ===== *)
theory Method_Analysis
  imports Analysis_Safety
begin

text \<open>
  The analysis of a method body (\<^verbatim>\<open>vm/analysis.c\<close>, from \<^verbatim>\<open>use_stack_map_frame\<close> to
  \<^verbatim>\<open>analyze_method_code\<close>): one pass over the instructions with the types that the StackMapTable
  gives, or, for a class file without one, passes that are repeated until nothing changes and then
  a last pass that rewrites and records. The repetition is bounded by fuel; the bound is shown to be
  enough.
\<close>

section \<open>Stack map frames\<close>

fun validation_type_kind_to_representation :: "validation_kind \<Rightarrow> type_kind" where
  "validation_type_kind_to_representation VALIDATION_TYPE_INTEGER = TYPE_KIND_INT"
| "validation_type_kind_to_representation VALIDATION_TYPE_FLOAT = TYPE_KIND_FLOAT"
| "validation_type_kind_to_representation VALIDATION_TYPE_LONG = TYPE_KIND_LONG"
| "validation_type_kind_to_representation VALIDATION_TYPE_DOUBLE = TYPE_KIND_DOUBLE"
| "validation_type_kind_to_representation VALIDATION_TYPE_OBJECT = TYPE_KIND_REFERENCE"
| "validation_type_kind_to_representation VALIDATION_TYPE_NULL = TYPE_KIND_REFERENCE"
| "validation_type_kind_to_representation VALIDATION_TYPE_UNINIT_THIS = TYPE_KIND_REFERENCE"
| "validation_type_kind_to_representation VALIDATION_TYPE_UNINIT = TYPE_KIND_REFERENCE"
| "validation_type_kind_to_representation VALIDATION_TYPE_TOP = TYPE_KIND_VOID"

definition set_type :: "nat \<Rightarrow> validation_type \<Rightarrow> analy_stack_entry list \<Rightarrow> analy_stack_entry list" where
  "set_type i v es = es[i := (es ! i)\<lparr>e_type := validation_type_kind_to_representation (vkind v)\<rparr>]"

text \<open>Only the types are set: the sources are those of the last value that was in the slot.\<close>

definition frame_stack :: "smt_iter \<Rightarrow> analy_stack_state \<Rightarrow> analy_stack_state" where
  "frame_stack it st = st\<lparr>st_count := it_stack_size it,
     st_entries := fold (\<lambda>i. set_type i (it_stack it ! i)) [0..<it_stack_size it] (st_entries st)\<rparr>"

definition void_all :: "analy_stack_state \<Rightarrow> analy_stack_entry list" where
  "void_all st = map (\<lambda>e. e\<lparr>e_type := TYPE_KIND_VOID\<rparr>) (take (st_count st) (st_entries st)) @
     drop (st_count st) (st_entries st)"

definition frame_locals :: "smt_iter \<Rightarrow> nat list \<Rightarrow> analy_stack_state \<Rightarrow> analy_stack_state" where
  "frame_locals it sw st = st\<lparr>st_entries :=
     fold (\<lambda>i. set_type (sw ! i) (it_locals it ! i)) [0..<it_locals_size it] (void_all st)\<rparr>"

definition use_stack_map_frame :: "smt_iter \<Rightarrow> unit an" where
  "use_stack_map_frame it = (\<lambda>s.
     if it_stack_size it \<le> length (st_entries (a_stack s)) \<and> it_stack_size it \<le> length (it_stack it) \<and>
        it_locals_size it \<le> length (a_swizzle s) \<and> it_locals_size it \<le> length (it_locals it) \<and>
        list_all (\<lambda>i. a_swizzle s ! i < length (st_entries (a_locals s))) [0..<it_locals_size it]
     then Inr ((), s\<lparr>a_stack := frame_stack it (a_stack s), a_locals := frame_locals it (a_swizzle s) (a_locals s)\<rparr>)
     else Inl Bad_access)"

section \<open>Sources of null pointers\<close>

text \<open>\<^verbatim>\<open>stack->entries[sd - k].source\<close>. The code reads it before anything has checked that the stack is
  that deep (for the invocations there is a \<^verbatim>\<open>DCHECK\<close>); a read below the bottom of the stack is the
  error \<open>Bad_npe_access\<close>.\<close>

definition npe_source :: "analy_stack_state \<Rightarrow> nat \<Rightarrow> analysis_error + stack_variable_source" where
  "npe_source st k =
     (if k \<le> st_count st \<and> st_count st - k < length (st_entries st)
      then Inr (e_source (st_entries st ! (st_count st - k))) else Inl Bad_npe_access)"

definition npe_loads :: "nat list" where
  "npe_loads = [insn_putfield, insn_aaload, insn_baload, insn_caload, insn_faload, insn_iaload, insn_daload,
     insn_laload, insn_saload]"

definition npe_stores :: "nat list" where
  "npe_stores = [insn_aastore, insn_bastore, insn_castore, insn_fastore, insn_dastore, insn_iastore, insn_lastore,
     insn_sastore]"

definition npe_invokes :: "nat list" where
  "npe_invokes = [insn_invokevirtual, insn_invokeinterface, insn_invokespecial]"

definition npe_objects :: "nat list" where
  "npe_objects = [insn_arraylength, insn_athrow, insn_monitorenter, insn_monitorexit, insn_getfield]"

text \<open>\<^verbatim>\<open>insn->cp->methodref.descriptor->args_count\<close>.\<close>

definition npe_argc :: "cp_entry list \<Rightarrow> insn_payload \<Rightarrow> nat option" where
  "npe_argc pool p = (case p of
      Cp i \<Rightarrow> if i < length pool then (case info (pool ! i) of
          Cp_method_ref _ _ (Some d) \<Rightarrow> Some (length (args d))
        | Cp_interface_method_ref _ _ (Some d) \<Rightarrow> Some (length (args d))
        | _ \<Rightarrow> None) else None
    | _ \<Rightarrow> None)"

definition write_npe_sources :: "cp_entry list \<Rightarrow> nat \<Rightarrow> insn_payload \<Rightarrow> analy_stack_state \<Rightarrow>
    stack_variable_source \<times> stack_variable_source \<Rightarrow> analysis_error + (stack_variable_source \<times> stack_variable_source)" where
  "write_npe_sources pool k p st ab =
     (if k \<in> set npe_loads then
        (case (npe_source st 2, npe_source st 1) of (Inr a, Inr b) \<Rightarrow> Inr (a, b) | _ \<Rightarrow> Inl Bad_npe_access)
      else if k \<in> set npe_stores then
        (case (npe_source st 3, npe_source st 2) of (Inr a, Inr b) \<Rightarrow> Inr (a, b) | _ \<Rightarrow> Inl Bad_npe_access)
      else if k \<in> set npe_invokes then
        (case npe_argc pool p of
           None \<Rightarrow> Inl Bad_access
         | Some argc \<Rightarrow> (case npe_source st (argc + 1) of Inl e \<Rightarrow> Inl e | Inr a \<Rightarrow> Inr (a, snd ab)))
      else if k \<in> set npe_objects then
        (case npe_source st 1 of Inl e \<Rightarrow> Inl e | Inr a \<Rightarrow> Inr (a, snd ab))
      else Inr ab)"

section \<open>Exception handlers\<close>

definition one_ref :: analy_stack_state where
  "one_ref = \<lparr>st_entries = [zero_entry\<lparr>e_type := TYPE_KIND_REFERENCE\<rparr>], st_count = 1, st_cap = 1\<rparr>"

definition fill_exception_handlers :: "exception_table_entry list option \<Rightarrow> unit an" where
  "fill_exception_handlers et = (case et of
      None \<Rightarrow> return_m ()
    | Some es \<Rightarrow> bind_m (map_m (\<lambda>e. intersect_known_stack (handler_insn e) one_ref) es) (\<lambda>_. return_m ()))"

definition intersect_exception_handlers :: "exception_table_entry list option \<Rightarrow> nat \<Rightarrow> unit an" where
  "intersect_exception_handlers et i = (case et of
      None \<Rightarrow> return_m ()
    | Some es \<Rightarrow>
        bind_m (map_m (\<lambda>e.
          if start_insn e \<le> i \<and> i < end_insn e
          then bind_m (gets_m a_locals) (intersect_known_locals (handler_insn e)) else return_m ()) es) (\<lambda>_.
        return_m ()))"

section \<open>The loop over the instructions\<close>

text \<open>\<^verbatim>\<open>stack_summary\<close>: the types on the stack, from the bottom, and in the locals.\<close>

record stack_summary =
  sum_stack :: "type_kind list"
  sum_locals :: "type_kind list"

text \<open>The method, and what the analysis writes: the code, the iterator and \<^verbatim>\<open>code_analysis\<close>.\<close>

record method_info =
  mi_static :: bool
  mi_ctor :: bool
  mi_args :: "field_descriptor list"
  mi_missing_smt :: bool
  mi_max_stack :: u16
  mi_max_locals :: u16
  mi_code :: "bytecode_insn list"
  mi_exceptions :: "exception_table_entry list option"
  mi_lvt :: "attribute_lvt_entry list option"
  mi_attributes :: "attribute list"

record analysis_run =
  r_ctx :: method_analysis_ctx
  r_code :: "analyzed_insn list"
  r_iter :: smt_iter
  r_depths :: "u16 list"
  r_sources :: "(stack_variable_source \<times> stack_variable_source) list"
  r_states :: "stack_summary option list"

type_synonym 'a rn = "(analysis_run, analysis_error, 'a) sem"

definition in_ctx :: "'a an \<Rightarrow> 'a rn" where
  "in_ctx m = (\<lambda>r. case m (r_ctx r) of Inl e \<Rightarrow> Inl e | Inr (x, c) \<Rightarrow> Inr (x, r\<lparr>r_ctx := c\<rparr>))"

text \<open>\<^verbatim>\<open>CHECK(ctx.known_stacks[i])\<close> and \<^verbatim>\<open>CHECK(ctx.known_locals[i])\<close>, then the copies.\<close>

definition recover_state :: "nat \<Rightarrow> unit an" where
  "recover_state i = (\<lambda>s. case (a_known_stacks s, a_known_locals s) of
      (Some ks, Some ls) \<Rightarrow>
        if \<not> (i < length ks \<and> i < length ls) then Inl Bad_access
        else (case (ks ! i, ls ! i) of
            (Some k, Some l) \<Rightarrow> Inr ((), s\<lparr>a_stack := copy_analy_stack_state (a_stack s) k,
                                            a_locals := copy_analy_stack_state (a_locals s) l\<rparr>)
          | _ \<Rightarrow> Inl Unknown_state)
    | _ \<Rightarrow> Inl Bad_access)"

definition next_frame :: "unit rn" where
  "next_frame = (\<lambda>r. if has_next (r_iter r) then
       (case stack_map_frame_iterator_next (r_iter r) of
          Inl e \<Rightarrow> Inl (Bad_stack_map e)
        | Inr (_, it) \<Rightarrow> Inr ((), r\<lparr>r_iter := it\<rparr>))
     else Inr ((), r))"

definition enter_insn :: "method_info \<Rightarrow> nat \<Rightarrow> unit rn" where
  "enter_insn m i =
     bind_m (gets_m (\<lambda>r. r)) (\<lambda>r.
     if unat (original_pc (r_code r ! i)) = it_pc (r_iter r) then
       bind_m (in_ctx (use_stack_map_frame (r_iter r))) (\<lambda>_. next_frame)
     else if mi_missing_smt m then
       bind_m (if a_terminated (r_ctx r) then in_ctx (recover_state i)
               else in_ctx (bind_m (intersect_known_stack i (a_stack (r_ctx r))) (\<lambda>_.
                            intersect_known_locals i (a_locals (r_ctx r))))) (\<lambda>_.
       in_ctx (intersect_exception_handlers (mi_exceptions m) i))
     else return_m ())"

definition summary_of :: "method_analysis_ctx \<Rightarrow> stack_summary" where
  "summary_of s = \<lparr>sum_stack = map e_type (take (st_count (a_stack s)) (st_entries (a_stack s))),
     sum_locals = map e_type (take (st_count (a_locals s)) (st_entries (a_locals s)))\<rparr>"

definition record_insn :: "bool \<Rightarrow> nat \<Rightarrow> unit rn" where
  "record_insn fin i = (\<lambda>r.
     let c = r_ctx r; n = r_code r ! i in
     case write_npe_sources (a_pool c) (kind n) (payload n) (a_stack c) (r_sources r ! i) of
       Inl e \<Rightarrow> Inl e
     | Inr ab \<Rightarrow> Inr ((), r\<lparr>r_sources := (r_sources r)[i := ab],
         r_depths := (r_depths r)[i := of_nat (st_count (a_stack c))],
         r_states := (if fin then (r_states r)[i := Some (summary_of c)] else r_states r)\<rparr>))"

definition analyze_insn_at :: "bool \<Rightarrow> nat \<Rightarrow> unit rn" where
  "analyze_insn_at fin i =
     bind_m (modify_m (\<lambda>r. r\<lparr>r_ctx := (r_ctx r)\<lparr>a_insn := r_code r ! i, a_terminated := False\<rparr>\<rparr>)) (\<lambda>_.
     bind_m (in_ctx (analyze_instruction i fin)) (\<lambda>_.
     modify_m (\<lambda>r. r\<lparr>r_code := (r_code r)[i := a_insn (r_ctx r)]\<rparr>)))"

definition pass_insn :: "method_info \<Rightarrow> bool \<Rightarrow> nat \<Rightarrow> unit rn" where
  "pass_insn m fin i =
     bind_m (enter_insn m i) (\<lambda>_.
     bind_m (record_insn fin i) (\<lambda>_.
     analyze_insn_at fin i))"

text \<open>The code after the label \<^verbatim>\<open>analyze\<close>, up to the end of the loop. The state counts as terminated
  at the start.\<close>

definition init_iter :: "method_info \<Rightarrow> smt_error + smt_iter" where
  "init_iter m = stack_map_frame_iterator_init (mi_max_locals m) (mi_max_stack m) (mi_attributes m)
     (mi_static m) (mi_ctor m) (map repr_kind (mi_args m))"

definition analyze_pass :: "method_info \<Rightarrow> bool \<Rightarrow> unit rn" where
  "analyze_pass m fin =
     bind_m (\<lambda>r. case init_iter m of
         Inl e \<Rightarrow> Inl (Bad_stack_map e)
       | Inr it \<Rightarrow> Inr ((), r\<lparr>r_iter := it, r_ctx := (r_ctx r)\<lparr>a_terminated := True\<rparr>\<rparr>)) (\<lambda>_.
     bind_m (map_m (pass_insn m fin) [0..<length (mi_code m)]) (\<lambda>_.
     return_m ()))"

primrec analyze_rounds :: "nat \<Rightarrow> method_info \<Rightarrow> bool \<Rightarrow> unit rn" where
  "analyze_rounds 0 m fin = fail_m Analysis_out_of_fuel"
| "analyze_rounds (Suc fuel) m fin =
     bind_m (analyze_pass m fin) (\<lambda>_.
     bind_m (gets_m (\<lambda>r. a_changed (r_ctx r))) (\<lambda>changed.
     if changed then
       bind_m (modify_m (\<lambda>r. r\<lparr>r_ctx := (r_ctx r)\<lparr>a_changed := False\<rparr>\<rparr>)) (\<lambda>_.
       analyze_rounds fuel m fin)
     else if \<not> fin then analyze_rounds fuel m True
     else return_m ()))"

section \<open>The method\<close>

definition annotate_insn :: "bytecode_insn \<Rightarrow> analyzed_insn" where
  "annotate_insn i = bytecode_insn.extend i \<lparr>tos_before = TOS_VOID, tos_after = TOS_VOID, i_delta = 0\<rparr>"

definition zero_source :: stack_variable_source where
  "zero_source = \<lparr>src_index = 0, src_kind = VARIABLE_SRC_KIND_PARAMETER\<rparr>"

definition swizzle_lvt :: "nat \<Rightarrow> nat list \<Rightarrow> attribute_lvt_entry list \<Rightarrow> analysis_error + attribute_lvt_entry list" where
  "swizzle_lvt ml sw es =
     (if list_ex (\<lambda>e. lvt_index e \<ge> ml) es then Inl Bad_lvt_index
      else Inr (map (\<lambda>e. e\<lparr>lvt_index := sw ! lvt_index e\<rparr>) es))"

definition initial_run :: "cp_entry list \<Rightarrow> int \<Rightarrow> method_info \<Rightarrow> analy_stack_state \<Rightarrow> nat list \<Rightarrow> analysis_run" where
  "initial_run pool isize m ls sw =
     (let n = length (mi_code m); cap = unat (mi_max_stack m) + 1; known = replicate n None in
      \<lparr>r_ctx = \<lparr>a_pool = pool, a_max_locals = unat (mi_max_locals m), a_insn_count = n, a_insn_size = isize,
         a_stack = \<lparr>st_entries = replicate cap zero_entry, st_count = 0, st_cap = cap\<rparr>,
         a_locals = ls, a_swizzle = sw, a_edges = [],
         a_known_stacks = (if mi_missing_smt m then Some known else None),
         a_known_locals = (if mi_missing_smt m then Some known else None),
         a_changed = False, a_insn = annotate_insn (simple_insn insn_nop), a_terminated = True\<rparr>,
       r_code = map annotate_insn (mi_code m),
       r_iter = initial_iter (mi_max_locals m) (mi_max_stack m) None,
       r_depths = replicate n 0, r_sources = replicate n (zero_source, zero_source), r_states = replicate n None\<rparr>)"

text \<open>\<^verbatim>\<open>analyze_method_code\<close> for a method with code that has not been analysed; the result is the
  renumbered variable table and the final state.\<close>

definition analyze_method_code ::
    "nat \<Rightarrow> cp_entry list \<Rightarrow> int \<Rightarrow> method_info \<Rightarrow> analysis_error + (attribute_lvt_entry list option \<times> analysis_run)" where
  "analyze_method_code fuel pool isize m =
     (case locals_on_method_entry (mi_static m) (mi_args m) (unat (mi_max_locals m)) of
        Inl e \<Rightarrow> Inl e
      | Inr (ls, sw) \<Rightarrow>
          (case (case mi_lvt m of None \<Rightarrow> Inr None
             | Some es \<Rightarrow> (case swizzle_lvt (unat (mi_max_locals m)) sw es of Inl e \<Rightarrow> Inl e | Inr es' \<Rightarrow> Inr (Some es'))) of
             Inl e \<Rightarrow> Inl e
           | Inr lvt \<Rightarrow>
               (case bind_m (if mi_missing_smt m then in_ctx (fill_exception_handlers (mi_exceptions m)) else return_m ())
                       (\<lambda>_. analyze_rounds fuel m (\<not> mi_missing_smt m)) (initial_run pool isize m ls sw) of
                  Inl e \<Rightarrow> Inl e
                | Inr (_, r) \<Rightarrow> Inr (lvt, r))))"

section \<open>What a frame leaves\<close>

lemma ty_ok_representation: "ty_ok True (validation_type_kind_to_representation v)"
  by (cases v) (simp_all add: ty_ok_def)

abbreviation types_ok :: "analy_stack_entry list \<Rightarrow> bool" where
  "types_ok es \<equiv> list_all (\<lambda>e. ty_ok True (e_type e)) es"

lemma length_set_types [simp]: "length (fold (\<lambda>i. set_type (g i) (f i)) is es) = length es"
  by (induction "is" arbitrary: es) (simp_all add: set_type_def)

lemma set_type_ok: "types_ok es \<Longrightarrow> types_ok (set_type i v es)"
  by (auto simp: set_type_def list_all_iff ty_ok_representation dest!: set_update_subset_insert [THEN subsetD])

lemma set_types_ok: "types_ok es \<Longrightarrow> types_ok (fold (\<lambda>i. set_type (g i) (f i)) is es)"
  by (induction "is" arbitrary: es) (simp_all add: set_type_ok)

lemma take_set_types_ok:
  "n \<le> length es \<Longrightarrow> types_ok (take n (fold (\<lambda>i. set_type i (f i)) [0..<n] es))"
proof (induction n)
  case (Suc n)
  let ?es = "fold (\<lambda>i. set_type i (f i)) [0..<n] es"
  have "take (Suc n) (set_type n (f n) ?es) = take n ?es @ [(?es ! n)\<lparr>e_type := validation_type_kind_to_representation (vkind (f n))\<rparr>]"
    using Suc.prems by (simp add: set_type_def take_Suc_conv_app_nth)
  then show ?case using Suc by (simp add: ty_ok_representation)
qed simp

lemma void_all_ok: "st_count st = length (st_entries st) \<Longrightarrow> types_ok (void_all st)"
  by (auto simp: void_all_def list_all_iff ty_ok_def)

lemma length_void_all [simp]: "length (void_all st) = length (st_entries st)"
  by (simp add: void_all_def)

lemma use_stack_map_frame_ok:
  assumes "iter_ok it" "smt_max_locals it = f_locals F" "smt_max_stack it \<le> f_cap F" "f_void F"
  shows "hoare (an_inv F) (use_stack_map_frame it) (\<lambda>_. an_inv F) (an_err F)"
  unfolding hoare_def
proof (intro allI impI)
  fix s assume s: "an_inv F s"
  have sizes: "it_stack_size it \<le> length (st_entries (a_stack s))" "it_stack_size it \<le> length (it_stack it)"
      "it_locals_size it \<le> length (a_swizzle s)" "it_locals_size it \<le> length (it_locals it)"
    using s assms by (auto simp: inv_defs iter_ok_def)
  have sw: "list_all (\<lambda>i. a_swizzle s ! i < length (st_entries (a_locals s))) [0..<it_locals_size it]"
    using s sizes(3) by (auto simp: inv_defs list_all_length)
  have "state_ok True (frame_stack it (a_stack s))"
    using take_set_types_ok [OF sizes(1)] sizes(1) by (simp add: state_ok_def frame_stack_def)
  moreover have "state_ok True (frame_locals it (a_swizzle s) (a_locals s))"
  proof -
    have n: "st_count (a_locals s) = length (st_entries (a_locals s))" using s by (simp add: inv_defs)
    have "types_ok (st_entries (frame_locals it (a_swizzle s) (a_locals s)))"
      unfolding frame_locals_def by (simp, intro set_types_ok void_all_ok n)
    then show ?thesis using n by (simp add: state_ok_def frame_locals_def)
  qed
  ultimately have "an_inv F (s\<lparr>a_stack := frame_stack it (a_stack s), a_locals := frame_locals it (a_swizzle s) (a_locals s)\<rparr>)"
    using s assms(4) by (simp add: inv_defs frame_stack_def frame_locals_def)
  then show "case use_stack_map_frame it s of Inl e \<Rightarrow> an_err F e | Inr (x, t) \<Rightarrow> an_inv F t"
    using sizes sw by (simp add: use_stack_map_frame_def)
qed

lemma copy_state_ok:
  assumes "state_ok True src" "st_count src \<le> st_cap dst" "st_cap dst = length (st_entries dst)"
  shows "state_ok True (copy_analy_stack_state dst src) \<and> st_cap (copy_analy_stack_state dst src) = st_cap dst \<and>
    length (st_entries (copy_analy_stack_state dst src)) = length (st_entries dst) \<and>
    st_count (copy_analy_stack_state dst src) = st_count src"
  using assms by (auto simp: copy_analy_stack_state_def state_ok_def min_def)

lemma recover_state_ok:
  assumes "f_known F" "f_void F" "i < f_insns F"
  shows "hoare (an_inv F) (recover_state i) (\<lambda>_. an_inv F) (an_err F)"
  unfolding hoare_def
proof (intro allI impI)
  fix s assume s: "an_inv F s"
  then obtain ks ls where k: "a_known_stacks s = Some ks" "a_known_locals s = Some ls" "length ks = f_insns F"
      "length ls = f_insns F" "list_all (pred_option (stack_known (f_cap F))) ks"
      "list_all (pred_option (locals_known (f_locals F))) ls"
    using assms(1) by (auto simp: inv_defs known_ok_def)
  show "case recover_state i s of Inl e \<Rightarrow> an_err F e | Inr (x, t) \<Rightarrow> an_inv F t"
  proof (cases "\<exists>a b. ks ! i = Some a \<and> ls ! i = Some b")
    case True
    then obtain a b where ab: "ks ! i = Some a" "ls ! i = Some b" by blast
    then have "stack_known (f_cap F) a" "locals_known (f_locals F) b"
      using k assms(3) by (auto simp: list_all_length dest!: spec [of _ i])
    with s copy_state_ok [of a "a_stack s"] copy_state_ok [of b "a_locals s"] k ab assms
    show ?thesis by (auto simp: recover_state_def inv_defs)
  next
    case False
    then show ?thesis using k assms(3) by (auto simp: recover_state_def an_err_def split: option.splits)
  qed
qed

lemma intersect_known_stack_inv:
  assumes "f_known F" "target < f_insns F" "state_ok v src" "st_count src \<le> f_cap F"
  shows "hoare (an_inv F) (intersect_known_stack target src) (\<lambda>_. an_inv F) (an_err F)"
proof (rule hoareI)
  fix s x t assume s: "an_inv F s" "intersect_known_stack target src s = Inr (x, t)"
  with hoareD [OF intersect_known_stack_retains [OF assms(2-4)] _ s(2), of "a_insn s"] assms(1)
  show "an_inv F t" by (simp add: inv_defs)
next
  fix s e assume s: "an_inv F s" "intersect_known_stack target src s = Inl e"
  with hoareD_err [OF intersect_known_stack_retains [OF assms(2-4)] _ s(2), of "a_insn s"] assms(1)
  show "an_err F e" by (simp add: inv_defs)
qed

lemma intersect_known_locals_inv:
  assumes "f_known F" "target < f_insns F" "state_ok v src" "st_count src = f_locals F"
  shows "hoare (an_inv F) (intersect_known_locals target src) (\<lambda>_. an_inv F) (an_err F)"
proof (rule hoareI)
  fix s x t assume s: "an_inv F s" "intersect_known_locals target src s = Inr (x, t)"
  with hoareD [OF intersect_known_locals_retains [OF assms(2-4)] _ s(2), of "a_insn s"] assms(1)
  show "an_inv F t" by (simp add: inv_defs)
next
  fix s e assume s: "an_inv F s" "intersect_known_locals target src s = Inl e"
  with hoareD_err [OF intersect_known_locals_retains [OF assms(2-4)] _ s(2), of "a_insn s"] assms(1)
  show "an_err F e" by (simp add: inv_defs)
qed

section \<open>Exception handlers\<close>

abbreviation handlers_ok :: "nat \<Rightarrow> exception_table_entry list option \<Rightarrow> bool" where
  "handlers_ok n et \<equiv> pred_option (list_all (\<lambda>e. handler_insn e < n)) et"

lemma inv_map:
  assumes "\<And>y. y \<in> set ys \<Longrightarrow> hoare (an_inv F) (f y) (\<lambda>_. an_inv F) E"
  shows "hoare (an_inv F) (bind_m (map_m f ys) (\<lambda>_. return_m ())) (\<lambda>_. an_inv F) E"
proof -
  have "hoare (an_inv F) (map_m f ys) (\<lambda>_. an_inv F) E"
    using assms
  proof (induction ys)
    case Nil
    show ?case unfolding map_m.simps by (rule hoare_return)
  next
    case (Cons y ys)
    have "hoare (an_inv F) (f y) (\<lambda>_. an_inv F) E" "hoare (an_inv F) (map_m f ys) (\<lambda>_. an_inv F) E"
      using Cons by simp_all
    then show ?case unfolding map_m.simps by (intro hoare_bind hoare_return) auto
  qed
  then show ?thesis by (rule hoare_bind) (rule hoare_return)
qed

lemma one_ref_ok: "state_ok False one_ref" "st_count one_ref = 1"
  by (simp_all add: one_ref_def state_ok_def ty_ok_def)

lemma fill_exception_handlers_ok:
  assumes "f_known F" "handlers_ok (f_insns F) et" "1 \<le> f_cap F"
  shows "hoare (an_inv F) (fill_exception_handlers et) (\<lambda>_. an_inv F) (an_err F)"
proof (cases et)
  case None
  then show ?thesis by (simp add: fill_exception_handlers_def hoare_return)
next
  case (Some es)
  have "hoare (an_inv F) (intersect_known_stack (handler_insn e) one_ref) (\<lambda>_. an_inv F) (an_err F)" if "e \<in> set es" for e
    using assms Some that one_ref_ok by (intro intersect_known_stack_inv) (auto simp: list_all_iff)
  then show ?thesis by (simp add: fill_exception_handlers_def Some inv_map)
qed

lemma intersect_current_locals:
  assumes "f_known F" "target < f_insns F"
  shows "hoare (an_inv F) (bind_m (gets_m a_locals) (intersect_known_locals target)) (\<lambda>_. an_inv F) (an_err F)"
  unfolding hoare_def
proof (intro allI impI)
  fix s assume s: "an_inv F s"
  then have "state_ok True (a_locals s)" "st_count (a_locals s) = f_locals F" by (simp_all add: inv_defs)
  from intersect_known_locals_inv [OF assms this] s
  show "case bind_m (gets_m a_locals) (intersect_known_locals target) s of Inl e \<Rightarrow> an_err F e | Inr (x, t) \<Rightarrow> an_inv F t"
    by (simp add: bind_gets hoare_def)
qed

lemma intersect_exception_handlers_ok:
  assumes "f_known F" "handlers_ok (f_insns F) et"
  shows "hoare (an_inv F) (intersect_exception_handlers et i) (\<lambda>_. an_inv F) (an_err F)"
proof (cases et)
  case None
  then show ?thesis by (simp add: intersect_exception_handlers_def hoare_return)
next
  case (Some es)
  have "hoare (an_inv F) (if start_insn e \<le> i \<and> i < end_insn e
          then bind_m (gets_m a_locals) (intersect_known_locals (handler_insn e)) else return_m ()) (\<lambda>_. an_inv F) (an_err F)"
    if "e \<in> set es" for e
    using assms Some that by (auto simp: list_all_iff intro: intersect_current_locals hoare_return)
  then show ?thesis by (simp add: intersect_exception_handlers_def Some inv_map)
qed

section \<open>The invariant of the loop\<close>

definition summary_ok :: "an_frame \<Rightarrow> stack_summary \<Rightarrow> bool" where
  "summary_ok F u \<longleftrightarrow> length (sum_stack u) \<le> f_cap F \<and> length (sum_locals u) = f_locals F \<and>
     list_all (ty_ok True) (sum_stack u @ sum_locals u)"

definition run_ok :: "an_frame \<Rightarrow> method_info \<Rightarrow> analysis_run \<Rightarrow> bool" where
  "run_ok F m r \<longleftrightarrow> an_inv F (r_ctx r) \<and> length (r_code r) = f_insns F \<and> list_all (insn_fine F) (r_code r) \<and>
     iter_ok (r_iter r) \<and> smt_max_locals (r_iter r) = unat (mi_max_locals m) \<and>
     smt_max_stack (r_iter r) = unat (mi_max_stack m) \<and>
     length (r_states r) = f_insns F \<and> list_all (pred_option (summary_ok F)) (r_states r)"

text \<open>How the frame belongs to the method.\<close>

definition frame_of :: "cp_entry list \<Rightarrow> method_info \<Rightarrow> nat list \<Rightarrow> nat \<Rightarrow> an_frame" where
  "frame_of pool m sw w = \<lparr>f_void = True, f_pool = pool, f_locals = unat (mi_max_locals m),
     f_insns = length (mi_code m), f_cap = unat (mi_max_stack m) + 1, f_swizzle = sw, f_weight = w,
     f_known = mi_missing_smt m\<rparr>"

lemma frame_of_sel [simp]:
  "f_void (frame_of pool m sw w)" "f_pool (frame_of pool m sw w) = pool"
  "f_locals (frame_of pool m sw w) = unat (mi_max_locals m)" "f_insns (frame_of pool m sw w) = length (mi_code m)"
  "f_cap (frame_of pool m sw w) = unat (mi_max_stack m) + 1" "f_swizzle (frame_of pool m sw w) = sw"
  "f_weight (frame_of pool m sw w) = w" "f_known (frame_of pool m sw w) = mi_missing_smt m"
  by (simp_all add: frame_of_def)

definition arg_ok :: "field_descriptor \<Rightarrow> bool" where
  "arg_ok d \<longleftrightarrow> is_field_wide d = is_kind_wide (repr_kind d) \<and> ty_ok False (repr_kind d)"

definition analysis_ready :: "cp_entry list \<Rightarrow> method_info \<Rightarrow> bool" where
  "analysis_ready pool m \<longleftrightarrow> list_all (insn_ok pool (length (mi_code m))) (mi_code m) \<and> pool_descs pool \<and>
     handlers_ok (length (mi_code m)) (mi_exceptions m) \<and> list_all arg_ok (mi_args m)"

lemma in_ctx_ok:
  assumes "hoare (an_inv F) c (\<lambda>_. an_inv F) E"
  shows "hoare (run_ok F m) (in_ctx c) (\<lambda>_. run_ok F m) E"
  using assms by (fastforce simp: hoare_def in_ctx_def run_ok_def split: sum.splits)

section \<open>One instruction of a pass\<close>

abbreviation run_keeps :: "an_frame \<Rightarrow> method_info \<Rightarrow> unit rn \<Rightarrow> bool" where
  "run_keeps F m c \<equiv> hoare (run_ok F m) c (\<lambda>_. run_ok F m) (an_err F)"

lemma next_frame_ok: "run_keeps F m next_frame"
proof (rule hoareI)
  fix r x t assume r: "run_ok F m r" "next_frame r = Inr (x, t)"
  then show "run_ok F m t"
    using iterator_next_facts [of "r_iter r"]
    by (auto simp: next_frame_def run_ok_def split: if_splits sum.splits)
qed (auto simp: next_frame_def an_err_def split: if_splits sum.splits)

lemma hoare_gets_state: "(\<And>u. P u \<Longrightarrow> hoare (\<lambda>s. s = u) (f u) Q E) \<Longrightarrow> hoare P (bind_m (gets_m (\<lambda>s. s)) f) Q E"
  by (simp add: hoare_def bind_gets)

lemma enter_insn_ok:
  assumes "analysis_ready pool m" "i < length (mi_code m)"
  shows "run_keeps (frame_of pool m sw w) m (enter_insn m i)" (is "run_keeps ?F m _")
  unfolding enter_insn_def
proof (rule hoare_gets_state)
  fix r assume r: "run_ok ?F m r"
  have at_r: "hoare (\<lambda>s. s = r) c (\<lambda>_. run_ok ?F m) (an_err ?F)" if "run_keeps ?F m c" for c
    using that r by (simp add: hoare_def)
  have inv: "an_inv ?F (r_ctx r)" using r by (simp add: run_ok_def)
  have frame: "run_keeps ?F m (bind_m (in_ctx (use_stack_map_frame (r_iter r))) (\<lambda>_. next_frame))"
    using r by (intro hoare_bind [OF in_ctx_ok] next_frame_ok use_stack_map_frame_ok) (auto simp: run_ok_def)
  have recover: "run_keeps ?F m (in_ctx (recover_state i))" if "mi_missing_smt m"
    using assms(2) that by (intro in_ctx_ok recover_state_ok) simp_all
  have known: "run_keeps ?F m (in_ctx (bind_m (intersect_known_stack i (a_stack (r_ctx r))) (\<lambda>_.
      intersect_known_locals i (a_locals (r_ctx r)))))" if "mi_missing_smt m"
    using assms(2) that inv
    by (intro in_ctx_ok hoare_bind [OF intersect_known_stack_inv [of ?F i True]] intersect_known_locals_inv [of ?F i True])
      (auto simp: inv_defs state_ok_def)
  have handlers: "run_keeps ?F m (in_ctx (intersect_exception_handlers (mi_exceptions m) i))" if "mi_missing_smt m"
    using assms(1) that by (intro in_ctx_ok intersect_exception_handlers_ok) (simp_all add: analysis_ready_def)
  show "hoare (\<lambda>s. s = r) (if unat (original_pc (r_code r ! i)) = it_pc (r_iter r) then
       bind_m (in_ctx (use_stack_map_frame (r_iter r))) (\<lambda>_. next_frame)
     else if mi_missing_smt m then
       bind_m (if a_terminated (r_ctx r) then in_ctx (recover_state i)
               else in_ctx (bind_m (intersect_known_stack i (a_stack (r_ctx r))) (\<lambda>_.
                            intersect_known_locals i (a_locals (r_ctx r))))) (\<lambda>_.
       in_ctx (intersect_exception_handlers (mi_exceptions m) i))
     else return_m ()) (\<lambda>_. run_ok ?F m) (an_err ?F)"
    using frame recover known handlers r by (auto intro!: at_r hoare_bind [OF _ handlers] hoare_return)
qed

lemma npe_source_err: "npe_source st k = Inl e \<Longrightarrow> e = Bad_npe_access"
  by (auto simp: npe_source_def split: if_splits)

lemma npe_argc_ok:
  assumes "insn_fine F i" "kind i \<in> set npe_invokes" "pool_descs (f_pool F)"
  shows "npe_argc (f_pool F) (payload i) \<noteq> None"
proof -
  have "at_kind F (kind i) i" using assms(1) by simp
  then obtain j where j: "payload i = Cp j" "j < length (f_pool F)" "entry_kind (f_pool F ! j) AND cp_mask (kind i) \<noteq> 0"
    using insn_cp [of F i "kind i"] assms(2) by (auto simp: npe_invokes_def)
  moreover have "descs_ok (info (f_pool F ! j))" using assms(3) j(2) by (simp add: pool_descs_def list_all_length)
  ultimately show ?thesis
    using kind_of_masks(3,4) [of "info (f_pool F ! j)"] assms(2)
    by (auto simp: npe_argc_def npe_invokes_def cp_mask_def split: if_splits)
qed

lemma write_npe_sources_err:
  assumes "insn_fine F i" "pool_descs (f_pool F)" "write_npe_sources (f_pool F) (kind i) (payload i) st ab = Inl e"
  shows "e = Bad_npe_access"
  using assms npe_argc_ok [of F i]
  by (auto simp: write_npe_sources_def dest: npe_source_err split: if_splits sum.splits option.splits)

lemma summary_of_ok: "an_inv F s \<Longrightarrow> summary_ok F (summary_of s)"
  using ty_ok_mono [of "f_void F"]
  by (auto simp: summary_ok_def summary_of_def inv_defs state_ok_def list_all_iff)

lemma record_insn_ok:
  assumes "analysis_ready pool m" "i < length (mi_code m)"
  shows "run_keeps (frame_of pool m sw w) m (record_insn fin i)" (is "run_keeps ?F m _")
proof (rule hoareI)
  fix r x t assume r: "run_ok ?F m r" "record_insn fin i r = Inr (x, t)"
  have "list_all (pred_option (summary_ok ?F)) ((r_states r)[i := Some (summary_of (r_ctx r))])"
    using r(1) summary_of_ok [of ?F "r_ctx r"]
    by (auto simp: run_ok_def list_all_iff dest!: set_update_subset_insert [THEN subsetD])
  with r show "run_ok ?F m t" by (auto simp: record_insn_def run_ok_def Let_def split: sum.splits)
next
  fix r e assume r: "run_ok ?F m r" "record_insn fin i r = Inl e"
  have fine: "insn_fine ?F (r_code r ! i)" using r(1) assms(2) by (simp add: run_ok_def list_all_length)
  have pool: "a_pool (r_ctx r) = pool" using r(1) by (simp add: run_ok_def inv_defs)
  have pd: "pool_descs (f_pool ?F)" using assms(1) by (simp add: analysis_ready_def)
  from r(2) pool have "write_npe_sources (f_pool ?F) (kind (r_code r ! i)) (payload (r_code r ! i)) (a_stack (r_ctx r))
      (r_sources r ! i) = Inl e"
    by (simp add: record_insn_def Let_def split: sum.splits)
  from write_npe_sources_err [OF fine pd this] show "an_err ?F e" by (simp add: an_err_def)
qed

lemma analyze_insn_at_ok:
  assumes "analysis_ready pool m" "i < length (mi_code m)"
  shows "run_keeps (frame_of pool m sw w) m (analyze_insn_at fin i)" (is "run_keeps ?F m _")
proof -
  let ?R = "\<lambda>r. run_ok ?F m r \<and> insn_fine ?F (a_insn (r_ctx r))"
  have "pool_descs (f_pool ?F)" using assms(1) by (simp add: analysis_ready_def)
  note a = analyze_instruction_stays [OF this, of i fin]
  have load: "hoare (run_ok ?F m) (modify_m (\<lambda>r. r\<lparr>r_ctx := (r_ctx r)\<lparr>a_insn := r_code r ! i, a_terminated := False\<rparr>\<rparr>))
      (\<lambda>_. ?R) (an_err ?F)"
    by (rule hoare_modify) (use assms(2) in \<open>auto simp: run_ok_def list_all_length\<close>)
  have step: "hoare ?R (in_ctx (analyze_instruction i fin)) (\<lambda>_. ?R) (an_err ?F)"
  proof (rule hoareI)
    fix r x t assume r: "?R r" "in_ctx (analyze_instruction i fin) r = Inr (x, t)"
    then obtain c where c: "analyze_instruction i fin (r_ctx r) = Inr (x, c)" "t = r\<lparr>r_ctx := c\<rparr>"
      by (auto simp: in_ctx_def split: sum.splits)
    with hoareD [OF a _ c(1)] r(1) show "?R t" by (simp add: run_ok_def)
  next
    fix r e assume r: "?R r" "in_ctx (analyze_instruction i fin) r = Inl e"
    then have "analyze_instruction i fin (r_ctx r) = Inl e" by (auto simp: in_ctx_def split: sum.splits)
    from hoareD_err [OF a _ this] r(1) show "an_err ?F e" by (simp add: run_ok_def)
  qed
  have store: "hoare ?R (modify_m (\<lambda>r. r\<lparr>r_code := (r_code r)[i := a_insn (r_ctx r)]\<rparr>)) (\<lambda>_. run_ok ?F m) (an_err ?F)"
    by (rule hoare_modify) (auto simp: run_ok_def list_all_iff dest!: set_update_subset_insert [THEN subsetD])
  show ?thesis
    unfolding analyze_insn_at_def by (rule hoare_bind [OF load], rule hoare_bind [OF step], rule store)
qed

lemma pass_insn_ok:
  assumes "analysis_ready pool m" "i < length (mi_code m)"
  shows "run_keeps (frame_of pool m sw w) m (pass_insn m fin i)"
  unfolding pass_insn_def
  by (intro hoare_bind [OF enter_insn_ok [OF assms]] hoare_bind [OF record_insn_ok [OF assms]] analyze_insn_at_ok [OF assms])

section \<open>Passes\<close>

text \<open>\<open>recorded J r\<close>: the instructions of \<open>J\<close> have their summary.\<close>

definition recorded :: "nat set \<Rightarrow> analysis_run \<Rightarrow> bool" where
  "recorded J r \<longleftrightarrow> (\<forall>j\<in>J. r_states r ! j \<noteq> None)"

lemma in_ctx_states: "in_ctx c r = Inr (x, t) \<Longrightarrow> r_states t = r_states r"
  by (auto simp: in_ctx_def split: sum.splits)

lemma enter_insn_states: "enter_insn m i r = Inr (x, t) \<Longrightarrow> r_states t = r_states r"
  by (auto simp: enter_insn_def next_frame_def bind_m_Inr_iff dest!: in_ctx_states split: if_splits sum.splits)

lemma analyze_insn_at_states: "analyze_insn_at fin i r = Inr (x, t) \<Longrightarrow> r_states t = r_states r"
  by (auto simp: analyze_insn_at_def bind_m_Inr_iff dest!: in_ctx_states)

lemma pass_insn_recorded:
  assumes "pass_insn m True i r = Inr (x, t)" "recorded J r" "i < length (r_states r)"
  shows "recorded (insert i J) t"
proof -
  from assms(1) obtain y u z v where e: "enter_insn m i r = Inr (y, u)" and
    rec: "record_insn True i u = Inr (z, v)" and a: "analyze_insn_at True i v = Inr (x, t)"
    by (auto simp: pass_insn_def bind_m_Inr_iff)
  from rec have "r_states v = (r_states u)[i := Some (summary_of (r_ctx u))]"
    by (auto simp: record_insn_def Let_def split: sum.splits)
  with enter_insn_states [OF e] analyze_insn_at_states [OF a] assms(2,3) show ?thesis
    by (auto simp: recorded_def nth_list_update)
qed

lemma passes_ok:
  assumes "analysis_ready pool m" "\<forall>i\<in>set is. i < length (mi_code m)"
  shows "hoare (\<lambda>r. run_ok (frame_of pool m sw w) m r \<and> (fin \<longrightarrow> recorded J r)) (map_m (pass_insn m fin) is)
    (\<lambda>_ r. run_ok (frame_of pool m sw w) m r \<and> (fin \<longrightarrow> recorded (J \<union> set is) r)) (an_err (frame_of pool m sw w))"
  using assms(2)
proof (induction "is" arbitrary: J)
  case Nil
  show ?case unfolding map_m.simps by (rule hoare_return) simp
next
  case (Cons i "is")
  let ?F = "frame_of pool m sw w"
  have i: "i < length (mi_code m)" using Cons.prems by simp
  note p = pass_insn_ok [OF assms(1) i, of sw w fin]
  have hd: "hoare (\<lambda>r. run_ok ?F m r \<and> (fin \<longrightarrow> recorded J r)) (pass_insn m fin i)
      (\<lambda>_ r. run_ok ?F m r \<and> (fin \<longrightarrow> recorded (insert i J) r)) (an_err ?F)"
  proof (rule hoareI)
    fix r x t assume r: "run_ok ?F m r \<and> (fin \<longrightarrow> recorded J r)" "pass_insn m fin i r = Inr (x, t)"
    then show "run_ok ?F m t \<and> (fin \<longrightarrow> recorded (insert i J) t)"
      using hoareD [OF p _ r(2)] pass_insn_recorded [of m i r x t J] i by (auto simp: run_ok_def)
  next
    fix r e assume r: "run_ok ?F m r \<and> (fin \<longrightarrow> recorded J r)" "pass_insn m fin i r = Inl e"
    then show "an_err ?F e" using hoareD_err [OF p _ r(2)] by simp
  qed
  have tl: "hoare (\<lambda>r. run_ok ?F m r \<and> (fin \<longrightarrow> recorded (insert i J) r)) (map_m (pass_insn m fin) is)
      (\<lambda>_ r. run_ok ?F m r \<and> (fin \<longrightarrow> recorded (J \<union> set (i # is)) r)) (an_err ?F)"
    using Cons.IH [of "insert i J"] Cons.prems by simp
  show ?case unfolding map_m.simps by (rule hoare_bind [OF hd], rule hoare_bind [OF tl], rule hoare_return) simp
qed

lemma entry_slots_eq:
  assumes "list_all arg_ok ds"
  shows "entry_slots st (map repr_kind ds) = (if st then 0 else 1) + sum_list (map slots ds)"
  using assms
  by (induction ds) (auto simp: entry_slots_def arg_slots_def slots_def arg_ok_def is_kind_wide_def)

lemma init_iter_ok:
  assumes "analysis_ready pool m" "(if mi_static m then 0 else 1) + sum_list (map slots (mi_args m)) \<le> unat (mi_max_locals m)"
  shows "\<exists>it. init_iter m = Inr it \<and> iter_ok it \<and> smt_max_locals it = unat (mi_max_locals m) \<and>
    smt_max_stack it = unat (mi_max_stack m)"
proof -
  have "list_all arg_ok (mi_args m)" using assms(1) by (simp add: analysis_ready_def)
  from entry_slots_eq [OF this, of "mi_static m"] assms(2)
  have "entry_slots (mi_static m) (map repr_kind (mi_args m)) \<le> unat (mi_max_locals m)" by simp
  from iterator_init_facts [OF this] show ?thesis unfolding init_iter_def by blast
qed

lemma analyze_pass_ok:
  assumes "analysis_ready pool m" "(if mi_static m then 0 else 1) + sum_list (map slots (mi_args m)) \<le> unat (mi_max_locals m)"
  shows "hoare (run_ok (frame_of pool m sw w) m) (analyze_pass m fin)
    (\<lambda>_ r. run_ok (frame_of pool m sw w) m r \<and> (fin \<longrightarrow> recorded {..<length (mi_code m)} r)) (an_err (frame_of pool m sw w))"
proof -
  let ?F = "frame_of pool m sw w"
  from init_iter_ok [OF assms] obtain it where
    it: "init_iter m = Inr it" "iter_ok it" "smt_max_locals it = unat (mi_max_locals m)" "smt_max_stack it = unat (mi_max_stack m)"
    by blast
  have start: "hoare (run_ok ?F m) (\<lambda>r. case init_iter m of
         Inl e \<Rightarrow> Inl (Bad_stack_map e)
       | Inr it \<Rightarrow> Inr ((), r\<lparr>r_iter := it, r_ctx := (r_ctx r)\<lparr>a_terminated := True\<rparr>\<rparr>))
      (\<lambda>_ r. run_ok ?F m r \<and> (fin \<longrightarrow> recorded {} r)) (an_err ?F)"
    using it by (simp add: hoare_def run_ok_def recorded_def)
  have loop: "hoare (\<lambda>r. run_ok ?F m r \<and> (fin \<longrightarrow> recorded {} r)) (map_m (pass_insn m fin) [0..<length (mi_code m)])
      (\<lambda>_ r. run_ok ?F m r \<and> (fin \<longrightarrow> recorded {..<length (mi_code m)} r)) (an_err ?F)"
    using passes_ok [OF assms(1), of "[0..<length (mi_code m)]" sw w fin "{}"] by (simp add: atLeast0LessThan)
  show ?thesis
    unfolding analyze_pass_def by (rule hoare_bind [OF start], rule hoare_bind [OF loop], rule hoare_return) simp
qed

section \<open>Rounds\<close>

definition run_err :: "analysis_error \<Rightarrow> bool" where
  "run_err e \<longleftrightarrow> e \<notin> {Bad_access, Check_failed, Analysis_out_of_fuel}"

lemma an_err_run_err: "an_err F e \<Longrightarrow> run_err e"
  by (simp add: an_err_def run_err_def)

definition run_done :: "cp_entry list \<Rightarrow> method_info \<Rightarrow> nat list \<Rightarrow> analysis_run \<Rightarrow> bool" where
  "run_done pool m sw r \<longleftrightarrow> (\<exists>w. run_ok (frame_of pool m sw w) m r) \<and> recorded {..<length (mi_code m)} r"

lemma insn_fine_frame: "insn_fine (frame_of pool m sw w) = insn_fine (frame_of pool m sw w')"
  by (rule ext) (simp add: insn_fine_def)

lemma summary_ok_frame: "summary_ok (frame_of pool m sw w) = summary_ok (frame_of pool m sw w')"
  by (rule ext) (simp add: summary_ok_def)

text \<open>When something has changed, the next round starts with less that can change.\<close>

lemma run_ok_reset:
  assumes "run_ok (frame_of pool m sw w) m r" "a_changed (r_ctx r)"
  shows "0 < w \<and> run_ok (frame_of pool m sw (w - 1)) m (r\<lparr>r_ctx := (r_ctx r)\<lparr>a_changed := False\<rparr>\<rparr>)"
proof -
  have "an_inv (frame_of pool m sw w) (r_ctx r)" using assms(1) by (simp add: run_ok_def)
  then have "0 < w" "an_inv (frame_of pool m sw (w - 1)) ((r_ctx r)\<lparr>a_changed := False\<rparr>)"
    using assms(2) by (auto simp: inv_defs)
  then show ?thesis
    using assms(1) insn_fine_frame [of pool m sw w "w - 1"] summary_ok_frame [of pool m sw w "w - 1"]
    by (simp add: run_ok_def)
qed

lemma analyze_rounds_ok:
  assumes "analysis_ready pool m" "(if mi_static m then 0 else 1) + sum_list (map slots (mi_args m)) \<le> unat (mi_max_locals m)"
    and "w + (if fin then 1 else 2) \<le> fuel"
  shows "hoare (run_ok (frame_of pool m sw w) m) (analyze_rounds fuel m fin) (\<lambda>_. run_done pool m sw) run_err"
  using assms(3)
proof (induction fuel arbitrary: w fin)
  case 0
  then show ?case by (simp split: if_splits)
next
  case (Suc fuel)
  let ?F = "frame_of pool m sw w"
  let ?next = "\<lambda>changed. if changed then
       bind_m (modify_m (\<lambda>r. r\<lparr>r_ctx := (r_ctx r)\<lparr>a_changed := False\<rparr>\<rparr>)) (\<lambda>_. analyze_rounds fuel m fin)
     else if \<not> fin then analyze_rounds fuel m True else return_m ()"
  have "case ?next (a_changed (r_ctx r)) r of Inl e \<Rightarrow> run_err e | Inr (x, t) \<Rightarrow> run_done pool m sw t"
    if r: "run_ok ?F m r" "fin \<longrightarrow> recorded {..<length (mi_code m)} r" for r
  proof -
    consider "a_changed (r_ctx r)" | "\<not> a_changed (r_ctx r)" "\<not> fin" | "\<not> a_changed (r_ctx r)" fin by blast
    then show ?thesis
    proof cases
      case 1
      note q = run_ok_reset [OF r(1) 1]
      have "w - 1 + (if fin then 1 else 2) \<le> fuel" using Suc.prems q by (auto split: if_splits)
      from Suc.IH [OF this] q 1 show ?thesis by (simp add: hoare_def bind_m_def modify_m_def)
    next
      case 2
      have "w + (if True then 1 else 2) \<le> fuel" using Suc.prems 2 by simp
      from Suc.IH [OF this] r(1) 2 show ?thesis by (simp add: hoare_def)
    next
      case 3
      with r show ?thesis by (auto simp: run_done_def return_m_def)
    qed
  qed
  then have rest: "hoare (\<lambda>r. run_ok ?F m r \<and> (fin \<longrightarrow> recorded {..<length (mi_code m)} r))
      (bind_m (gets_m (\<lambda>r. a_changed (r_ctx r))) ?next) (\<lambda>_. run_done pool m sw) run_err"
    by (simp add: hoare_def bind_gets)
  have pass: "hoare (run_ok ?F m) (analyze_pass m fin)
      (\<lambda>_ r. run_ok ?F m r \<and> (fin \<longrightarrow> recorded {..<length (mi_code m)} r)) run_err"
    using analyze_pass_ok [OF assms(1,2), of sw w fin] an_err_run_err
    by (fastforce simp: hoare_def split: sum.splits)
  show ?case unfolding analyze_rounds.simps by (rule hoare_bind [OF pass], rule rest)
qed

section \<open>The method\<close>

definition analysis_fuel :: "method_info \<Rightarrow> nat" where
  "analysis_fuel m = length (mi_code m) * (unat (mi_max_stack m) + 2) + length (mi_code m) * (unat (mi_max_locals m) + 1) + 2"

lemma known_weight_initial: "known_weight cap (Some (replicate n None)) = n * (cap + 1)"
  by (simp add: known_weight_def sum_list_replicate)

lemma truncate_annotate [simp]: "bytecode_insn.truncate (annotate_insn i) = i"
  by (simp add: annotate_insn_def bytecode_insn.defs)

lemma initial_run_ok:
  assumes ok: "analysis_ready pool m"
    and entry: "locals_on_method_entry (mi_static m) (mi_args m) (unat (mi_max_locals m)) = Inr (ls, sw)"
  shows "run_ok (frame_of pool m sw (analysis_fuel m - 2)) m (initial_run pool isize m ls sw)"
proof -
  let ?ml = "unat (mi_max_locals m)" and ?r = "initial_run pool isize m ls sw" and ?F = "frame_of pool m sw (analysis_fuel m - 2)"
  have fit: "(if mi_static m then 0 else 1) + sum_list (map slots (mi_args m)) \<le> ?ml"
    using locals_on_method_entry_overflow [of "mi_static m" "mi_args m" ?ml] entry by (rule_tac ccontr) simp
  from locals_on_method_entry_facts [OF this] entry obtain es where
    ls: "ls = \<lparr>st_entries = es, st_count = ?ml, st_cap = ?ml\<rparr>" "length es = ?ml" "length sw = ?ml" "mset sw = mset [0..<?ml]"
      "map e_type es = (if mi_static m then [] else [TYPE_KIND_REFERENCE]) @ map repr_kind (mi_args m) @
        replicate (?ml - length (mi_args m) - (if mi_static m then 0 else 1)) TYPE_KIND_VOID"
    by auto
  have "list_all (ty_ok True) (map e_type es)"
    unfolding ls(5) using ok by (auto simp: list_all_iff analysis_ready_def arg_ok_def ty_ok_def)
  then have "types_ok es" by (simp add: list_all_iff)
  moreover have "set sw = {0..<?ml}" using arg_cong [OF ls(4), of set_mset] by simp
  moreover have "?ml \<le> 2 ^ 16" using unat_bound [of "mi_max_locals m"] by simp
  ultimately have "an_inv ?F (r_ctx ?r)"
    using ls by (auto simp: initial_run_def Let_def inv_defs state_ok_def known_ok_def list_all_iff analysis_fuel_def
      known_weight_initial) (auto simp: known_weight_def)
  then show ?thesis
    using ok by (auto simp: run_ok_def initial_run_def Let_def analysis_ready_def insn_fine_def list_all_iff iter_ok_def
      initial_iter_def allocate_validation_buffer_def)
qed

lemma analyze_method_code_facts:
  assumes ok: "analysis_ready pool m" and fuel: "analysis_fuel m \<le> fuel"
  shows "case analyze_method_code fuel pool isize m of
      Inl e \<Rightarrow> run_err e
    | Inr (lvt, r) \<Rightarrow> \<exists>ls sw. locals_on_method_entry (mi_static m) (mi_args m) (unat (mi_max_locals m)) = Inr (ls, sw) \<and>
        run_done pool m sw r"
proof (cases "locals_on_method_entry (mi_static m) (mi_args m) (unat (mi_max_locals m))")
  case (Inl e)
  then have "e = Locals_do_not_fit"
    using locals_on_method_entry_overflow locals_on_method_entry_facts [of "mi_static m" "mi_args m" "unat (mi_max_locals m)"]
    by (cases "(if mi_static m then 0 else 1) + sum_list (map slots (mi_args m)) \<le> unat (mi_max_locals m)") auto
  then show ?thesis using Inl by (simp add: analyze_method_code_def run_err_def)
next
  case (Inr z)
  obtain ls sw where z: "z = (ls, sw)" by (cases z)
  let ?F = "frame_of pool m sw (analysis_fuel m - 2)"
  let ?go = "bind_m (if mi_missing_smt m then in_ctx (fill_exception_handlers (mi_exceptions m)) else return_m ())
      (\<lambda>_. analyze_rounds fuel m (\<not> mi_missing_smt m))"
  have fit: "(if mi_static m then 0 else 1) + sum_list (map slots (mi_args m)) \<le> unat (mi_max_locals m)"
    using locals_on_method_entry_overflow [of "mi_static m" "mi_args m" "unat (mi_max_locals m)"] Inr
    by (rule_tac ccontr) simp
  have fill: "hoare (run_ok ?F m) (if mi_missing_smt m then in_ctx (fill_exception_handlers (mi_exceptions m)) else return_m ())
      (\<lambda>_. run_ok ?F m) run_err"
  proof (cases "mi_missing_smt m")
    case True
    then have "hoare (an_inv ?F) (fill_exception_handlers (mi_exceptions m)) (\<lambda>_. an_inv ?F) (an_err ?F)"
      using ok by (intro fill_exception_handlers_ok) (auto simp: analysis_ready_def)
    from in_ctx_ok [OF this, of m] True show ?thesis
      using an_err_run_err by (fastforce simp: hoare_def split: sum.splits)
  qed (simp add: hoare_return)
  have "analysis_fuel m - 2 + (if \<not> mi_missing_smt m then 1 else 2) \<le> fuel" using fuel by (simp add: analysis_fuel_def)
  from hoare_bind [OF fill analyze_rounds_ok [OF ok fit this]] initial_run_ok [OF ok Inr [unfolded z]]
  have go: "case ?go (initial_run pool isize m ls sw) of Inl e \<Rightarrow> run_err e | Inr (x, r) \<Rightarrow> run_done pool m sw r"
    by (simp add: hoare_def)
  show ?thesis
    using go Inr z
    by (auto simp: analyze_method_code_def swizzle_lvt_def run_err_def split: option.splits sum.splits if_splits)
qed

section \<open>Properties\<close>


definition underflow_method :: method_info where
  "underflow_method = \<lparr>mi_static = True, mi_ctor = False, mi_args = [], mi_missing_smt = False, mi_max_stack = 2,
     mi_max_locals = 0, mi_code = [simple_insn insn_iaload], mi_exceptions = None, mi_lvt = None, mi_attributes = []\<rparr>"

lemma underflow_method_ready: "analysis_ready [] underflow_method"
  by (simp add: analysis_ready_def underflow_method_def insn_ok_def payload_ok_def targets_def make_insn_def pool_descs_def)

text \<open>The exception is real: the array load of this method, on an empty stack, makes the analysis read
  two entries below its stack before the underflow is noticed.\<close>

lemma npe_sources_read_below_stack: "analyze_method_code 16 [] isize underflow_method = Inl Bad_npe_access"
  by (simp add: analyze_method_code_def underflow_method_def locals_on_method_entry_def Let_def initial_run_def
    numeral_eq_Suc analyze_pass_def init_iter_def stack_map_frame_iterator_init_def initial_iter_def init_locals_def
    allocate_validation_buffer_def monad_simps pass_insn_def enter_insn_def annotate_insn_def make_insn_def
    bytecode_insn.defs in_ctx_def use_stack_map_frame_def frame_stack_def frame_locals_def void_all_def next_frame_def
    record_insn_def write_npe_sources_def npe_loads_def npe_source_def)


text \<open>C18. When the analysis of a method succeeds, every instruction has a summary of the state before
  it, in which the stack has at most \<^verbatim>\<open>max_stack + 1\<close> entries and there is a type for each of the
  \<^verbatim>\<open>max_locals\<close> locals, all of them representable types or \<^verbatim>\<open>void\<close>; the code has kept its length, the
  rewritten instructions are ones that the parser could have produced, with targets inside the code,
  and so are the recorded edges.\<close>

theorem analyze_method_code_summaries:
  assumes "analysis_ready pool m" "analysis_fuel m \<le> fuel" "analyze_method_code fuel pool isize m = Inr (lvt, r)"
  shows "length (r_code r) = length (mi_code m) \<and>
    list_all (\<lambda>i. insn_ok pool (length (mi_code m)) (bytecode_insn.truncate i)) (r_code r) \<and>
    list_all (\<lambda>e. snd e < length (mi_code m)) (a_edges (r_ctx r)) \<and>
    (\<forall>i<length (mi_code m). \<exists>u. r_states r ! i = Some u \<and> length (sum_stack u) \<le> unat (mi_max_stack m) + 1 \<and>
       length (sum_locals u) = unat (mi_max_locals m) \<and> list_all (ty_ok True) (sum_stack u @ sum_locals u))"
proof -
  from analyze_method_code_facts [OF assms(1,2), of isize] assms(3) obtain sw w where
    r: "run_ok (frame_of pool m sw w) m r" "recorded {..<length (mi_code m)} r"
    by (auto simp: run_done_def)
  have "\<exists>u. r_states r ! i = Some u \<and> length (sum_stack u) \<le> unat (mi_max_stack m) + 1 \<and>
       length (sum_locals u) = unat (mi_max_locals m) \<and> list_all (ty_ok True) (sum_stack u @ sum_locals u)"
    if i: "i < length (mi_code m)" for i
  proof -
    obtain u where u: "r_states r ! i = Some u" using r(2) i by (auto simp: recorded_def)
    moreover have "pred_option (summary_ok (frame_of pool m sw w)) (r_states r ! i)"
      using r(1) i by (simp add: run_ok_def list_all_length)
    ultimately show ?thesis by (simp add: summary_ok_def)
  qed
  with r(1) show ?thesis
    by (auto simp: run_ok_def inv_defs insn_fine_def [abs_def])
qed

definition return_method :: method_info where
  "return_method = underflow_method\<lparr>mi_code := [simple_insn insn_return]\<rparr>"

theorem analyze_method_code_summaries_witness:
  "\<exists>r. analyze_method_code 16 [] 48 return_method = Inr (None, r) \<and>
     (\<exists>u. r_states r ! 0 = Some u \<and> length (sum_stack u) \<le> 3 \<and> sum_locals u = [])"
proof -
  let ?res = "analyze_method_code 16 [] 48 return_method"
  have ok: "analysis_ready [] return_method"
    by (simp add: analysis_ready_def return_method_def underflow_method_def insn_ok_def payload_ok_def targets_def make_insn_def
      pool_descs_def)
  have f: "analysis_fuel return_method \<le> 16" by (simp add: analysis_fuel_def return_method_def underflow_method_def)
  have "\<exists>r. ?res = Inr (None, r)"
    by (simp add: analyze_method_code_def return_method_def underflow_method_def locals_on_method_entry_def Let_def
      initial_run_def numeral_eq_Suc analyze_pass_def init_iter_def stack_map_frame_iterator_init_def initial_iter_def
      init_locals_def allocate_validation_buffer_def monad_simps pass_insn_def enter_insn_def annotate_insn_def make_insn_def
      bytecode_insn.defs in_ctx_def use_stack_map_frame_def frame_stack_def frame_locals_def void_all_def next_frame_def
      record_insn_def write_npe_sources_def npe_loads_def npe_stores_def npe_invokes_def npe_objects_def analyze_insn_at_def
      analyze_instruction_def calculate_tos_type_def insn_switch_def fixed_effects_def effects_a_to_d_def
      effects_f_to_i_def effects_l_to_m_def effects_rest_def do_effect_def do_pops_def terminate_state_def)
  then obtain r where r: "?res = Inr (None, r)" by blast
  from analyze_method_code_summaries [OF ok f r] r show ?thesis
    by (auto simp: return_method_def underflow_method_def)
qed

end
