(* ===== verification/Hash_Table.thy ===== *)
theory Hash_Table
  imports Prelude Complex_Main
begin

text \<open>
  The string hash table of \<^verbatim>\<open>vm/adt.c\<close>: separate chaining with the first entry of every chain
  stored in the table itself. A bucket is the list of the entries of one chain, the head being the
  entry in \<^verbatim>\<open>tbl->entries\<close> (whose key is null when the bucket is empty) and the tail what
  its \<^verbatim>\<open>next\<close> pointers lead to. A \<^verbatim>\<open>void *\<close> value is an \<open>option\<close>, the null
  pointer being \<open>None\<close>; a key with its length is a \<open>string\<close>. Allocation always succeeds, and
  sizes do not reach \<^verbatim>\<open>SIZE_MAX\<close>. Load factors are rational numbers: the products that the
  code computes in double precision are exact for the load factor 0.75, which all callers use.

  The operations are proved to implement a finite map from strings to values, through the locale
  \<open>dictionary\<close> that the clients of the table rely on.
\<close>

section \<open>Data\<close>

record 'v hash_table_entry =
  he_key :: "string option"
  he_data :: "'v option"

record 'v string_hash_table =
  ht_free :: bool \<comment> \<open>whether a destructor for the values is set\<close>
  ht_entries :: "'v hash_table_entry list list"
  entries_count :: nat
  entries_cap :: nat
  load_factor :: rat

datatype ht_error =
    Ht_uninitialised \<comment> \<open>\<^verbatim>\<open>equal\<close> is read although the search did not set it\<close>
  | Ht_bad_key \<comment> \<open>the key buffer is shorter than the length says, or not terminated\<close>
  | Ht_null_key \<comment> \<open>the iterator yields an entry without a key\<close>
  | Ht_out_of_fuel

definition empty_entry :: "'v hash_table_entry" where
  "empty_entry = \<lparr>he_key = None, he_data = None\<rparr>"

definition make_hash_table :: "bool \<Rightarrow> rat \<Rightarrow> nat \<Rightarrow> 'v string_hash_table" where
  "make_hash_table free_fn lf initial_capacity =
     \<lparr>ht_free = free_fn, ht_entries = replicate initial_capacity [empty_entry], entries_count = 0,
      entries_cap = initial_capacity, load_factor = lf\<rparr>"

section \<open>Iteration\<close>

text \<open>\<^verbatim>\<open>current_base\<close> is an index into the table and \<^verbatim>\<open>current\<close> a position in that
  chain. The pointers \<^verbatim>\<open>current\<close> and \<^verbatim>\<open>end\<close> differ as long as
  \<^verbatim>\<open>current_base\<close> and \<^verbatim>\<open>end\<close> do.\<close>

record hash_table_iterator =
  it_base :: nat
  it_cur :: nat
  it_end :: nat

function skip_empty :: "'v hash_table_entry list list \<Rightarrow> nat \<Rightarrow> nat \<Rightarrow> nat" where
  "skip_empty es fin i =
     (if i < fin \<and> he_key (hd (es ! i)) = None then skip_empty es fin (Suc i) else i)"
  by pat_completeness auto
termination by (relation "measure (\<lambda>(es, fin, i). fin - i)") auto

declare skip_empty.simps [simp del]

definition hash_table_get_iterator :: "'v string_hash_table \<Rightarrow> hash_table_iterator" where
  "hash_table_get_iterator tbl =
     \<lparr>it_base = skip_empty (ht_entries tbl) (entries_cap tbl) 0, it_cur = 0, it_end = entries_cap tbl\<rparr>"

definition hash_table_iterator_has_next ::
    "'v string_hash_table \<Rightarrow> hash_table_iterator \<Rightarrow> (string option \<times> 'v option) option" where
  "hash_table_iterator_has_next tbl it =
     (if it_base it \<noteq> it_end it then
        let e = ht_entries tbl ! it_base it ! it_cur it in Some (he_key e, he_data e)
      else None)"

definition hash_table_iterator_next ::
    "'v string_hash_table \<Rightarrow> hash_table_iterator \<Rightarrow> bool \<times> hash_table_iterator" where
  "hash_table_iterator_next tbl it =
     (if it_base it = it_end it then (False, it)
      else if Suc (it_cur it) < length (ht_entries tbl ! it_base it) then
        (True, it\<lparr>it_cur := Suc (it_cur it)\<rparr>)
      else
        let b = skip_empty (ht_entries tbl) (it_end it) (Suc (it_base it)) in
        (b \<noteq> it_end it, it\<lparr>it_base := b, it_cur := 0\<rparr>))"

text \<open>The loop \<^verbatim>\<open>while (hash_table_iterator_has_next(it, &key, &len, &value))\<close> with a body
  that works on a state and then advances the iterator.\<close>

primrec ht_each :: "nat \<Rightarrow> 'v string_hash_table \<Rightarrow> (string \<Rightarrow> 'v option \<Rightarrow> 's \<Rightarrow> ht_error + 's) \<Rightarrow>
    hash_table_iterator \<Rightarrow> 's \<Rightarrow> ht_error + 's" where
  "ht_each 0 tbl body it s = Inl Ht_out_of_fuel"
| "ht_each (Suc n) tbl body it s = (case hash_table_iterator_has_next tbl it of
      None \<Rightarrow> Inr s
    | Some (None, _) \<Rightarrow> Inl Ht_null_key
    | Some (Some key, v) \<Rightarrow> (case body key v s of
        Inl e \<Rightarrow> Inl e
      | Inr s' \<Rightarrow> ht_each n tbl body (snd (hash_table_iterator_next tbl it)) s'))"

section \<open>Hashing and searching\<close>

abbreviation (input) FXHASH_CONST :: u64 where "FXHASH_CONST \<equiv> 0x517cc1b727220a95"

text \<open>\<^verbatim>\<open>memcpy\<close> of up to eight bytes into a zeroed word, on a little-endian machine.\<close>

definition fx_word :: "string \<Rightarrow> u64" where
  "fx_word cs = foldr (\<lambda>c w. push_bit 8 w OR of_char c) cs 0"

definition fx_round :: "u64 \<Rightarrow> u64 \<Rightarrow> u64" where
  "fx_round hash w = ((push_bit 5 hash OR drop_bit 59 hash) XOR w) * FXHASH_CONST"

fun fxhash_rounds :: "u64 \<Rightarrow> string \<Rightarrow> u64" where
  "fxhash_rounds hash cs =
     (if 8 \<le> length cs then fxhash_rounds (fx_round hash (fx_word (take 8 cs))) (drop 8 cs)
      else if cs \<noteq> [] then fx_round hash (fx_word cs) else hash)"

declare fxhash_rounds.simps [simp del]

definition fxhash_string :: "string \<Rightarrow> u32" where
  "fxhash_string key = ucast (fxhash_rounds 0 key)"

definition bucket_index :: "nat \<Rightarrow> string \<Rightarrow> nat" where
  "bucket_index cap key = unat (fxhash_string key) mod cap"

text \<open>The position in the chain where the search stops, and \<^verbatim>\<open>*equal\<close>. The entry is on the
  chain (\<^verbatim>\<open>*on_chain\<close>) and has a predecessor (\<^verbatim>\<open>*prev_entry\<close>) iff that position
  is not 0. The first equation is the code after the loop.\<close>

fun find_in_chain :: "string \<Rightarrow> nat \<Rightarrow> 'v hash_table_entry list \<Rightarrow> nat \<times> bool" where
  "find_in_chain key i [] = (i - 1, False)"
| "find_in_chain key i (e # es) =
     (if he_key e = Some key then (i, True)
      else if es = [] then (i, False)
      else find_in_chain key (Suc i) es)"

text \<open>\<open>None\<close> is the early return of a null entry, which leaves \<^verbatim>\<open>*equal\<close> unset.\<close>

definition find_hash_table_entry :: "'v string_hash_table \<Rightarrow> string \<Rightarrow> (nat \<times> nat \<times> bool) option" where
  "find_hash_table_entry tbl key =
     (if entries_cap tbl = 0 then None
      else let index = bucket_index (entries_cap tbl) key in
        Some (index, find_in_chain key 0 (ht_entries tbl ! index)))"

section \<open>Operations\<close>

text \<open>The \<^verbatim>\<open>(key, len)\<close> argument: a length of -1 stands for a null-terminated string.\<close>

definition key_arg :: "string \<Rightarrow> int \<Rightarrow> string option" where
  "key_arg buf len =
     (if len = -1 then
        if CHR 0x00 \<in> set buf then Some (takeWhile (\<lambda>c. c \<noteq> CHR 0x00) buf) else None
      else if 0 \<le> len \<and> nat len \<le> length buf then Some (take (nat len) buf)
      else None)"

definition delete_at :: "nat \<Rightarrow> 'v hash_table_entry list \<Rightarrow> 'v hash_table_entry list" where
  "delete_at i b =
     (if i \<noteq> 0 then take i b @ drop (Suc i) b
      else if tl b \<noteq> [] then tl b
      else [(hd b)\<lparr>he_key := None\<rparr>])"

definition hash_table_delete ::
    "'v string_hash_table \<Rightarrow> string \<Rightarrow> int \<Rightarrow> ht_error + ('v option \<times> 'v string_hash_table)" where
  "hash_table_delete tbl buf len = (case key_arg buf len of
      None \<Rightarrow> Inl Ht_bad_key
    | Some key \<Rightarrow> (case find_hash_table_entry tbl key of
        None \<Rightarrow> Inl Ht_uninitialised
      | Some (index, i, equal) \<Rightarrow>
          if \<not> equal then Inr (None, tbl)
          else let b = ht_entries tbl ! index in
            Inr (he_data (b ! i),
                 tbl\<lparr>ht_entries := (ht_entries tbl)[index := delete_at i b],
                     entries_count := entries_count tbl - 1\<rparr>)))"

text \<open>\<open>insert_fn\<close> is the call of \<^verbatim>\<open>hash_table_insert_impl\<close> that moves one entry over to the
  new table; its result, the previous value, is dropped.\<close>

definition hash_table_rehash ::
    "('v string_hash_table \<Rightarrow> string \<Rightarrow> 'v option \<Rightarrow> ht_error + ('v option \<times> 'v string_hash_table)) \<Rightarrow>
     'v string_hash_table \<Rightarrow> nat \<Rightarrow> ht_error + 'v string_hash_table" where
  "hash_table_rehash insert_fn tbl new_capacity =
     ht_each (Suc (entries_count tbl)) tbl
       (\<lambda>key v new. case insert_fn new key v of Inl e \<Rightarrow> Inl e | Inr (_, new') \<Rightarrow> Inr new')
       (hash_table_get_iterator tbl)
       (make_hash_table (ht_free tbl) (load_factor tbl) new_capacity)"

definition must_grow :: "'v string_hash_table \<Rightarrow> bool" where
  "must_grow tbl \<longleftrightarrow> of_nat (entries_count tbl) + 1 \<ge> load_factor tbl * of_nat (entries_cap tbl)"

text \<open>The part of \<^verbatim>\<open>hash_table_insert_impl\<close> after the table has grown.\<close>

definition insert_entry ::
    "'v string_hash_table \<Rightarrow> string \<Rightarrow> 'v option \<Rightarrow> ht_error + ('v option \<times> 'v string_hash_table)" where
  "insert_entry tbl key v = (case find_hash_table_entry tbl key of
      None \<Rightarrow> Inl Ht_uninitialised
    | Some (index, i, equal) \<Rightarrow>
        let b = ht_entries tbl ! index in
        if equal then
          Inr (he_data (b ! i),
               tbl\<lparr>ht_entries := (ht_entries tbl)[index := b[i := (b ! i)\<lparr>he_data := v\<rparr>]]\<rparr>)
        else
          let e = \<lparr>he_key = Some key, he_data = v\<rparr> in
          Inr (None,
               tbl\<lparr>ht_entries := (ht_entries tbl)[index :=
                     if i \<noteq> 0 \<or> he_key (b ! i) \<noteq> None then take (Suc i) b @ [e] else b[i := e]],
                   entries_count := entries_count tbl + 1\<rparr>))"

text \<open>Growing the table inserts its entries into a bigger one and may grow that again; the fuel
  bounds the depth of this recursion.\<close>

primrec hash_table_insert_impl :: "nat \<Rightarrow> 'v string_hash_table \<Rightarrow> string \<Rightarrow> 'v option \<Rightarrow>
    ht_error + ('v option \<times> 'v string_hash_table)" where
  "hash_table_insert_impl 0 tbl key v = Inl Ht_out_of_fuel"
| "hash_table_insert_impl (Suc fuel) tbl key v =
     (case (if must_grow tbl
            then hash_table_rehash (hash_table_insert_impl fuel) tbl (entries_cap tbl * 2)
            else Inr tbl) of
        Inl e \<Rightarrow> Inl e
      | Inr tbl' \<Rightarrow> insert_entry tbl' key v)"

definition hash_table_insert :: "'v string_hash_table \<Rightarrow> string \<Rightarrow> int \<Rightarrow> 'v option \<Rightarrow>
    ht_error + ('v option \<times> 'v string_hash_table)" where
  "hash_table_insert tbl buf len v = (case key_arg buf len of
      None \<Rightarrow> Inl Ht_bad_key
    | Some key \<Rightarrow> hash_table_insert_impl (Suc (entries_count tbl)) tbl key v)"

definition hash_table_lookup :: "'v string_hash_table \<Rightarrow> string \<Rightarrow> int \<Rightarrow> ht_error + 'v option" where
  "hash_table_lookup tbl buf len = (case key_arg buf len of
      None \<Rightarrow> Inl Ht_bad_key
    | Some key \<Rightarrow> (case find_hash_table_entry tbl key of
        None \<Rightarrow> Inl Ht_uninitialised
      | Some (index, i, equal) \<Rightarrow> Inr (if equal then he_data (ht_entries tbl ! index ! i) else None)))"

definition hash_table_contains :: "'v string_hash_table \<Rightarrow> string \<Rightarrow> int \<Rightarrow> ht_error + bool" where
  "hash_table_contains tbl buf len = (case key_arg buf len of
      None \<Rightarrow> Inl Ht_bad_key
    | Some key \<Rightarrow> (case find_hash_table_entry tbl key of
        None \<Rightarrow> Inl Ht_uninitialised
      | Some (index, i, equal) \<Rightarrow> Inr equal))"

text \<open>The keys freed and the values given to the destructor, in order.\<close>

definition free_hash_table :: "'v string_hash_table \<Rightarrow> ht_error + (string list \<times> 'v option list)" where
  "free_hash_table tbl =
     ht_each (Suc (entries_count tbl)) tbl
       (\<lambda>key v (ks, vs). Inr (ks @ [key], if ht_free tbl then vs @ [v] else vs))
       (hash_table_get_iterator tbl) ([], [])"

definition hash_table_reserve :: "'v string_hash_table \<Rightarrow> nat \<Rightarrow> ht_error + 'v string_hash_table" where
  "hash_table_reserve tbl new_capacity =
     hash_table_rehash (hash_table_insert_impl (entries_count tbl)) tbl
       (nat \<lfloor>of_nat new_capacity * load_factor tbl\<rfloor> + 2)"

section \<open>Chains\<close>

text \<open>The bindings of a chain, in order.\<close>

definition chain_bindings :: "'v hash_table_entry list \<Rightarrow> (string \<times> 'v option) list" where
  "chain_bindings b = map (\<lambda>e. (the (he_key e), he_data e)) (filter (\<lambda>e. he_key e \<noteq> None) b)"

text \<open>Only the entry in the table may lack a key, and then nothing is chained to it.\<close>

definition chain_ok :: "'v hash_table_entry list \<Rightarrow> bool" where
  "chain_ok b \<longleftrightarrow> b \<noteq> [] \<and> (list_all (\<lambda>e. he_key e \<noteq> None) b \<or> length b = 1) \<and>
     distinct (map fst (chain_bindings b))"

lemma chain_bindings_simps [simp]:
  "chain_bindings [] = []"
  "chain_bindings (e # b) = (case he_key e of None \<Rightarrow> [] | Some k \<Rightarrow> [(k, he_data e)]) @ chain_bindings b"
  "chain_bindings (b @ c) = chain_bindings b @ chain_bindings c"
  by (auto simp: chain_bindings_def split: option.splits)

lemma map_of_chain_None: "map_of (chain_bindings b) k = None \<longleftrightarrow> (\<forall>e\<in>set b. he_key e \<noteq> Some k)"
  by (induction b) (auto split: option.splits)

lemma find_in_chain_equal:
  "find_in_chain k i b = (j, True) \<Longrightarrow>
     i \<le> j \<and> j - i < length b \<and> he_key (b ! (j - i)) = Some k \<and>
     map_of (chain_bindings b) k = Some (he_data (b ! (j - i)))"
  by (induction k i b rule: find_in_chain.induct)
    (auto simp: nth_Cons' Suc_diff_le split: if_splits option.splits)

lemma find_in_chain_missing:
  "find_in_chain k i b = (j, False) \<Longrightarrow> b \<noteq> [] \<Longrightarrow>
     j = i + length b - 1 \<and> map_of (chain_bindings b) k = None"
  by (induction k i b rule: find_in_chain.induct) (auto split: if_splits option.splits)

lemma map_of_chain_update:
  assumes "i < length b" "he_key (b ! i) = Some k" "distinct (map fst (chain_bindings b))"
  shows "map_of (chain_bindings (b[i := (b ! i)\<lparr>he_data := v\<rparr>])) = (map_of (chain_bindings b))(k \<mapsto> v) \<and>
    map fst (chain_bindings (b[i := (b ! i)\<lparr>he_data := v\<rparr>])) = map fst (chain_bindings b)"
  using assms
proof (induction b arbitrary: i)
  case (Cons e b)
  show ?case
  proof (cases i)
    case 0
    with Cons.prems show ?thesis by (simp add: fun_eq_iff)
  next
    case (Suc j)
    with Cons.prems have "k \<in> fst ` set (chain_bindings b)"
      using map_of_chain_None [of b k] by (force simp: map_of_eq_None_iff)
    with Suc Cons show ?thesis
      by (auto simp: fun_eq_iff split: option.splits)
  qed
qed simp

lemma map_of_without:
  "distinct (map fst (xs @ (k, v) # ys)) \<Longrightarrow> map_of (xs @ ys) = (map_of (xs @ (k, v) # ys))(k := None)"
proof (induction xs)
  case Nil
  then have "map_of ys k = None" by (simp add: map_of_eq_None_iff)
  then show ?case by (simp add: fun_eq_iff)
next
  case (Cons x xs)
  then show ?case by (cases x) (auto simp: fun_eq_iff)
qed

lemma map_of_chain_delete:
  assumes "i < length b" "he_key (b ! i) = Some k" "chain_ok b"
  shows "map_of (chain_bindings (delete_at i b)) = (map_of (chain_bindings b))(k := None) \<and>
    length (chain_bindings b) = Suc (length (chain_bindings (delete_at i b))) \<and> chain_ok (delete_at i b)"
proof -
  have b: "b = take i b @ b ! i # drop (Suc i) b" by (rule id_take_nth_drop [OF assms(1)])
  let ?xs = "chain_bindings (take i b)" and ?ys = "chain_bindings (drop (Suc i) b)"
  have cb: "chain_bindings b = ?xs @ (k, he_data (b ! i)) # ?ys"
    by (subst b) (simp add: assms(2))
  have del: "chain_bindings (delete_at i b) = ?xs @ ?ys"
    using assms(1) by (cases b) (auto simp: delete_at_def)
  have dist: "distinct (map fst (?xs @ (k, he_data (b ! i)) # ?ys))"
    using assms(3) by (simp add: chain_ok_def cb)
  moreover have "chain_ok (delete_at i b)"
  proof (cases "length b = 1")
    case True
    with assms(1) del dist show ?thesis by (cases b) (auto simp: chain_ok_def delete_at_def)
  next
    case False
    with assms(3) have "list_all (\<lambda>e. he_key e \<noteq> None) b" "b \<noteq> []" by (auto simp: chain_ok_def)
    moreover have "\<forall>e\<in>set (delete_at i b). e \<in> set b"
      using False assms(1) by (cases b) (auto simp: delete_at_def dest: in_set_takeD in_set_dropD)
    moreover have "delete_at i b \<noteq> []"
      using False assms(1) by (cases b) (auto simp: delete_at_def)
    ultimately show ?thesis using dist by (auto simp: chain_ok_def del list_all_iff)
  qed
  ultimately show ?thesis using map_of_without [OF dist] by (simp add: del cb)
qed

section \<open>The invariant and the map of a table\<close>

definition ht_map :: "'v string_hash_table \<Rightarrow> string \<rightharpoonup> 'v option" where
  "ht_map tbl k = map_of (chain_bindings (ht_entries tbl ! bucket_index (entries_cap tbl) k)) k"

definition ht_bindings :: "'v string_hash_table \<Rightarrow> (string \<times> 'v option) list" where
  "ht_bindings tbl = concat (map chain_bindings (ht_entries tbl))"

definition ht_ok :: "'v string_hash_table \<Rightarrow> bool" where
  "ht_ok tbl \<longleftrightarrow> 0 < entries_cap tbl \<and> length (ht_entries tbl) = entries_cap tbl \<and>
     (\<forall>i<entries_cap tbl. chain_ok (ht_entries tbl ! i) \<and>
        (\<forall>k\<in>fst ` set (chain_bindings (ht_entries tbl ! i)). bucket_index (entries_cap tbl) k = i)) \<and>
     entries_count tbl = length (ht_bindings tbl)"

lemma bucket_index_less [simp]: "0 < cap \<Longrightarrow> bucket_index cap k < cap"
  by (simp add: bucket_index_def)

lemma make_hash_table_ok [simp]: "0 < cap \<Longrightarrow> ht_ok (make_hash_table f lf cap)"
  by (auto simp: ht_ok_def make_hash_table_def ht_bindings_def chain_ok_def empty_entry_def concat_replicate_trivial)

lemma make_hash_table_map [simp]: "0 < cap \<Longrightarrow> ht_map (make_hash_table f lf cap) = Map.empty"
  by (auto simp: make_hash_table_def ht_map_def empty_entry_def fun_eq_iff)

lemma make_hash_table_sel [simp]:
  "entries_count (make_hash_table f lf cap) = 0" "entries_cap (make_hash_table f lf cap) = cap"
  "load_factor (make_hash_table f lf cap) = lf" "ht_free (make_hash_table f lf cap) = f"
  by (simp_all add: make_hash_table_def)

text \<open>Replacing one bucket. The operations differ only in what they do to the chain.\<close>

lemma length_concat_update:
  "i < length xss \<Longrightarrow> length (concat (map f (xss[i := ys]))) + length (f (xss ! i)) =
     length (concat (map f xss)) + length (f ys)"
  by (induction xss arbitrary: i) (auto simp: nth_Cons split: nat.splits)

lemma ht_update_bucket:
  assumes ok: "ht_ok tbl" and ix: "index = bucket_index (entries_cap tbl) k"
    and m: "map_of (chain_bindings b) = (map_of (chain_bindings (ht_entries tbl ! index)))(k := x)"
    and b: "chain_ok b"
    and n: "n + length (chain_bindings (ht_entries tbl ! index)) = entries_count tbl + length (chain_bindings b)"
    and t: "t = tbl\<lparr>ht_entries := (ht_entries tbl)[index := b], entries_count := n\<rparr>"
  shows "ht_ok t \<and> ht_map t = (ht_map tbl)(k := x)"
proof -
  have ixl: "index < length (ht_entries tbl)" using ok by (simp add: ht_ok_def ix)
  have "length (ht_bindings t) = n"
    using n length_concat_update [OF ixl, of chain_bindings b] ok by (simp add: t ht_bindings_def ht_ok_def)
  moreover have keys: "bucket_index (entries_cap tbl) k' = index" if "(k', v) \<in> set (chain_bindings b)" for k' v
  proof -
    have "map_of (chain_bindings b) k' \<noteq> None" using weak_map_of_SomeI [OF that] by auto
    then have "k' = k \<or> map_of (chain_bindings (ht_entries tbl ! index)) k' \<noteq> None" by (auto simp: m split: if_splits)
    then consider "k' = k" | v' where "(k', v') \<in> set (chain_bindings (ht_entries tbl ! index))"
      by (auto dest: map_of_SomeD)
    then show ?thesis
    proof cases
      case 2
      with ok ixl show ?thesis unfolding ht_ok_def by fastforce
    qed (simp add: ix)
  qed
  moreover have "chain_ok (ht_entries t ! i) \<and>
      (\<forall>k\<in>fst ` set (chain_bindings (ht_entries t ! i)). bucket_index (entries_cap tbl) k = i)"
    if "i < entries_cap tbl" for i
  proof (cases "i = index")
    case True
    with ixl b keys show ?thesis by (auto simp: t)
  next
    case False
    with that ok show ?thesis by (simp add: t ht_ok_def)
  qed
  ultimately have "ht_ok t" using ok by (simp add: ht_ok_def t)
  moreover have "ht_map t = (ht_map tbl)(k := x)"
    using ixl m by (auto simp: ht_map_def t fun_eq_iff nth_list_update ix)
  ultimately show ?thesis by simp
qed

text \<open>What the search finds in a table that satisfies the invariant.\<close>

lemma find_hash_table_entry_cases:
  assumes "ht_ok tbl"
  obtains (found) i where
      "find_hash_table_entry tbl k = Some (bucket_index (entries_cap tbl) k, i, True)"
      "i < length (ht_entries tbl ! bucket_index (entries_cap tbl) k)"
      "he_key (ht_entries tbl ! bucket_index (entries_cap tbl) k ! i) = Some k"
      "ht_map tbl k = Some (he_data (ht_entries tbl ! bucket_index (entries_cap tbl) k ! i))"
  | (missing) "find_hash_table_entry tbl k = Some (bucket_index (entries_cap tbl) k,
        length (ht_entries tbl ! bucket_index (entries_cap tbl) k) - 1, False)"
      "ht_map tbl k = None"
proof -
  let ?b = "ht_entries tbl ! bucket_index (entries_cap tbl) k"
  have cap: "0 < entries_cap tbl" and "chain_ok ?b" using assms by (auto simp: ht_ok_def)
  then have ne: "?b \<noteq> []" by (simp add: chain_ok_def)
  obtain i eq where f: "find_in_chain k 0 ?b = (i, eq)" by fastforce
  with cap have e: "find_hash_table_entry tbl k = Some (bucket_index (entries_cap tbl) k, i, eq)"
    by (simp add: find_hash_table_entry_def Let_def)
  show thesis
  proof (cases eq)
    case True
    with f find_in_chain_equal [of k 0 ?b i] e show ?thesis by (intro found [of i]) (auto simp: ht_map_def)
  next
    case False
    with f find_in_chain_missing [of k 0 ?b i] e ne show ?thesis by (intro missing) (auto simp: ht_map_def)
  qed
qed

section \<open>Iteration visits every binding once\<close>

primrec fold_result :: "(string \<Rightarrow> 'v option \<Rightarrow> 's \<Rightarrow> ht_error + 's) \<Rightarrow> (string \<times> 'v option) list \<Rightarrow> 's \<Rightarrow> ht_error + 's" where
  "fold_result body [] s = Inr s"
| "fold_result body (kv # kvs) s =
     (case body (fst kv) (snd kv) s of Inl e \<Rightarrow> Inl e | Inr s' \<Rightarrow> fold_result body kvs s')"

text \<open>What the iterator has still to visit.\<close>

definition it_rest :: "'v string_hash_table \<Rightarrow> hash_table_iterator \<Rightarrow> (string \<times> 'v option) list" where
  "it_rest tbl it = (if it_base it < it_end it then
       chain_bindings (drop (it_cur it) (ht_entries tbl ! it_base it)) @
       concat (map chain_bindings (drop (Suc (it_base it)) (ht_entries tbl)))
     else [])"

definition it_ok :: "'v string_hash_table \<Rightarrow> hash_table_iterator \<Rightarrow> bool" where
  "it_ok tbl it \<longleftrightarrow> it_end it = entries_cap tbl \<and> it_base it \<le> it_end it \<and>
     (it_base it < it_end it \<longrightarrow> it_cur it < length (ht_entries tbl ! it_base it) \<and>
        he_key (ht_entries tbl ! it_base it ! it_cur it) \<noteq> None)"

lemma chain_ok_head: "chain_ok b \<Longrightarrow> he_key (hd b) = None \<Longrightarrow> chain_bindings b = []"
  by (cases b) (auto simp: chain_ok_def)

lemma chain_ok_nth: "chain_ok b \<Longrightarrow> Suc i < length b \<Longrightarrow> he_key (b ! Suc i) \<noteq> None"
  by (auto simp: chain_ok_def list_all_length)

lemma skip_empty_spec:
  assumes "ht_ok tbl" "i \<le> entries_cap tbl" "j = skip_empty (ht_entries tbl) (entries_cap tbl) i"
  shows "i \<le> j \<and> j \<le> entries_cap tbl \<and>
     (j < entries_cap tbl \<longrightarrow> he_key (hd (ht_entries tbl ! j)) \<noteq> None) \<and>
     concat (map chain_bindings (drop i (ht_entries tbl))) = concat (map chain_bindings (drop j (ht_entries tbl)))"
  using assms
proof (induction "ht_entries tbl" "entries_cap tbl" i rule: skip_empty.induct)
  case (1 i)
  show ?case
  proof (cases "i < entries_cap tbl \<and> he_key (hd (ht_entries tbl ! i)) = None")
    case True
    moreover from this "1.prems"(1) have "chain_bindings (ht_entries tbl ! i) = []"
      by (intro chain_ok_head) (auto simp: ht_ok_def)
    moreover from True "1.prems"(1) have "drop i (ht_entries tbl) = ht_entries tbl ! i # drop (Suc i) (ht_entries tbl)"
      by (simp add: Cons_nth_drop_Suc ht_ok_def)
    ultimately show ?thesis
      using "1.hyps" "1.prems" by (auto simp: skip_empty.simps [of "ht_entries tbl" "entries_cap tbl" i])
  next
    case False
    with "1.prems" show ?thesis by (auto simp: skip_empty.simps [of "ht_entries tbl" "entries_cap tbl" i])
  qed
qed

lemma skip_empty_it:
  assumes "ht_ok tbl" "i \<le> entries_cap tbl"
    and "it = \<lparr>it_base = skip_empty (ht_entries tbl) (entries_cap tbl) i, it_cur = 0, it_end = entries_cap tbl\<rparr>"
  shows "it_ok tbl it \<and> it_rest tbl it = concat (map chain_bindings (drop i (ht_entries tbl)))"
proof -
  let ?j = "it_base it"
  have j: "?j \<le> entries_cap tbl" "?j < entries_cap tbl \<longrightarrow> he_key (hd (ht_entries tbl ! ?j)) \<noteq> None"
    "concat (map chain_bindings (drop i (ht_entries tbl))) = concat (map chain_bindings (drop ?j (ht_entries tbl)))"
    using skip_empty_spec [OF assms(1,2) refl] by (simp_all add: assms(3))
  show ?thesis
  proof (cases "?j < entries_cap tbl")
    case True
    with assms(1) have "ht_entries tbl ! ?j \<noteq> []" "?j < length (ht_entries tbl)" by (auto simp: ht_ok_def chain_ok_def)
    with True j assms(3) show ?thesis
      by (auto simp: it_ok_def it_rest_def hd_conv_nth simp flip: Cons_nth_drop_Suc)
  next
    case False
    with j assms(1,3) show ?thesis by (auto simp: it_ok_def it_rest_def ht_ok_def)
  qed
qed

lemma hash_table_iterator_step:
  assumes "ht_ok tbl" "it_ok tbl it"
  shows "case hash_table_iterator_has_next tbl it of
      None \<Rightarrow> it_rest tbl it = []
    | Some (k, v) \<Rightarrow> k \<noteq> None \<and> it_ok tbl (snd (hash_table_iterator_next tbl it)) \<and>
        it_rest tbl it = (the k, v) # it_rest tbl (snd (hash_table_iterator_next tbl it))"
proof (cases "it_base it = it_end it")
  case True
  then show ?thesis by (simp add: hash_table_iterator_has_next_def it_rest_def)
next
  case False
  let ?b = "ht_entries tbl ! it_base it" and ?it = "snd (hash_table_iterator_next tbl it)"
  have lt: "it_base it < entries_cap tbl" and fin: "it_end it = entries_cap tbl"
    and cur: "it_cur it < length ?b" "he_key (?b ! it_cur it) \<noteq> None"
    using False assms(2) by (auto simp: it_ok_def)
  have b: "chain_ok ?b" using assms(1) lt by (simp add: ht_ok_def)
  have split: "chain_bindings (drop (it_cur it) ?b) =
      (the (he_key (?b ! it_cur it)), he_data (?b ! it_cur it)) # chain_bindings (drop (Suc (it_cur it)) ?b)"
    using cur by (auto simp flip: Cons_nth_drop_Suc)
  have "it_ok tbl ?it \<and> it_rest tbl it =
      (the (he_key (?b ! it_cur it)), he_data (?b ! it_cur it)) # it_rest tbl ?it"
  proof (cases "Suc (it_cur it) < length ?b")
    case True
    with chain_ok_nth [OF b True] lt fin split show ?thesis
      by (auto simp: hash_table_iterator_next_def it_ok_def it_rest_def)
  next
    case last: False
    define it' where "it' = \<lparr>it_base = skip_empty (ht_entries tbl) (entries_cap tbl) (Suc (it_base it)), it_cur = 0, it_end = entries_cap tbl\<rparr>"
    have "?it = it'" using False last fin by (simp add: hash_table_iterator_next_def Let_def it'_def)
    with skip_empty_it [OF assms(1) _ it'_def] lt fin split last show ?thesis
      by (simp add: it_rest_def [of tbl it])
  qed
  with False cur show ?thesis by (simp add: hash_table_iterator_has_next_def Let_def)
qed

lemma ht_each_fold:
  assumes "ht_ok tbl" "it_ok tbl it" "length (it_rest tbl it) < fuel"
  shows "ht_each fuel tbl body it s = fold_result body (it_rest tbl it) s"
  using assms(2,3)
proof (induction fuel arbitrary: it s)
  case (Suc fuel)
  note step = hash_table_iterator_step [OF assms(1) Suc.prems(1)]
  show ?case
  proof (cases "hash_table_iterator_has_next tbl it")
    case None
    with step show ?thesis by simp
  next
    case (Some kv)
    then obtain k v where "hash_table_iterator_has_next tbl it = Some (Some k, v)"
      using step by (cases kv) auto
    with step Suc show ?thesis by (auto split: sum.splits)
  qed
qed simp

lemma ht_each_bindings:
  assumes "ht_ok tbl"
  shows "ht_each (Suc (entries_count tbl)) tbl body (hash_table_get_iterator tbl) s = fold_result body (ht_bindings tbl) s"
  using skip_empty_it [OF assms _ refl, of 0] assms
  by (subst ht_each_fold) (simp_all add: hash_table_get_iterator_def ht_bindings_def ht_ok_def)

text \<open>The bindings enumerate the map without repetition.\<close>

lemma map_of_concat_unique:
  assumes "i < length xss" "\<And>j. j < length xss \<Longrightarrow> j \<noteq> i \<Longrightarrow> k \<notin> fst ` set (xss ! j)"
  shows "map_of (concat xss) k = map_of (xss ! i) k"
  using assms
proof (induction xss arbitrary: i)
  case (Cons xs xss)
  show ?case
  proof (cases i)
    case 0
    have "k \<notin> fst ` set ys" if "ys \<in> set xss" for ys
      using that Cons.prems(2) [of "Suc j" for j] 0 by (auto simp: in_set_conv_nth)
    then have "map_of (concat xss) k = None" by (auto simp: map_of_eq_None_iff)
    with 0 show ?thesis by (simp add: map_add_def split: option.splits)
  next
    case (Suc j)
    have "map_of xs k = None" using Cons.prems(2) [of 0] Suc by (simp add: map_of_eq_None_iff)
    moreover have "map_of (concat xss) k = map_of (xss ! j) k"
      using Cons.prems Suc by (intro Cons.IH) fastforce+
    ultimately show ?thesis using Suc by (simp add: map_add_def)
  qed
qed simp

lemma distinct_concat_keys:
  assumes "\<And>i. i < length xss \<Longrightarrow> distinct (map fst (xss ! i)) \<and> (\<forall>k\<in>fst ` set (xss ! i). f k = n + i)"
  shows "distinct (map fst (concat xss))"
  using assms
proof (induction xss arbitrary: n)
  case (Cons xs xss)
  have "distinct (map fst (concat xss))"
    using Cons.prems [of "Suc i" for i] by (intro Cons.IH [of "Suc n"]) fastforce
  moreover have "f k = n" if "k \<in> fst ` set xs" for k using Cons.prems [of 0] that by auto
  moreover have "f k \<noteq> n" if "k \<in> fst ` set (concat xss)" for k
  proof -
    from that obtain ys where "ys \<in> set xss" "k \<in> fst ` set ys" by auto
    then obtain j where "j < length xss" "k \<in> fst ` set (xss ! j)" by (metis in_set_conv_nth)
    with Cons.prems [of "Suc j"] show ?thesis by auto
  qed
  ultimately show ?case using Cons.prems [of 0] by fastforce
qed simp

lemma ht_bindings_map:
  assumes "ht_ok tbl"
  shows "map_of (ht_bindings tbl) = ht_map tbl" and "distinct (map fst (ht_bindings tbl))"
proof -
  let ?xss = "map chain_bindings (ht_entries tbl)"
  have "map_of (concat ?xss) k = map_of (?xss ! bucket_index (entries_cap tbl) k) k" for k
    using assms by (intro map_of_concat_unique) (auto simp: ht_ok_def)
  with assms show "map_of (ht_bindings tbl) = ht_map tbl"
    by (simp add: ht_bindings_def ht_map_def fun_eq_iff ht_ok_def)
  have "distinct (map fst (concat ?xss))"
    using assms by (intro distinct_concat_keys [where f = "bucket_index (entries_cap tbl)" and n = 0])
      (auto simp: ht_ok_def chain_ok_def)
  then show "distinct (map fst (ht_bindings tbl))" by (simp add: ht_bindings_def)
qed

section \<open>Insertion\<close>

text \<open>The pointer that the operations return for a binding: null when there is none.\<close>

definition stored :: "'v option option \<Rightarrow> 'v option" where
  "stored m = (case m of None \<Rightarrow> None | Some p \<Rightarrow> p)"

lemma stored_simps [simp]: "stored None = None" "stored (Some p) = p"
  by (simp_all add: stored_def)

text \<open>The number of entries stays below the load factor's share of the capacity.\<close>

definition load_ok :: "'v string_hash_table \<Rightarrow> bool" where
  "load_ok tbl \<longleftrightarrow> of_nat (entries_count tbl) \<le> load_factor tbl * of_nat (entries_cap tbl) \<and>
     1 / 2 \<le> load_factor tbl * of_nat (entries_cap tbl)"

text \<open>Two tables with the same contents, the second with at least the capacity of the first.\<close>

definition same_contents :: "'v string_hash_table \<Rightarrow> 'v string_hash_table \<Rightarrow> bool" where
  "same_contents tbl t \<longleftrightarrow> ht_ok t \<and> ht_map t = ht_map tbl \<and> entries_count t = entries_count tbl \<and>
     load_factor t = load_factor tbl \<and> ht_free t = ht_free tbl"

definition inserted :: "'v string_hash_table \<Rightarrow> string \<Rightarrow> 'v option \<Rightarrow> 'v string_hash_table \<Rightarrow> bool" where
  "inserted tbl k v t \<longleftrightarrow> ht_ok t \<and> ht_map t = (ht_map tbl)(k \<mapsto> v) \<and>
     entries_count t = entries_count tbl + (if ht_map tbl k = None then 1 else 0) \<and>
     entries_cap tbl \<le> entries_cap t \<and> load_factor t = load_factor tbl \<and> ht_free t = ht_free tbl \<and>
     (load_ok tbl \<longrightarrow> load_ok t)"

definition insert_correct :: "nat \<Rightarrow> ('v string_hash_table \<Rightarrow> string \<Rightarrow> 'v option \<Rightarrow>
    ht_error + ('v option \<times> 'v string_hash_table)) \<Rightarrow> bool" where
  "insert_correct n ins \<longleftrightarrow> (\<forall>t k v. ht_ok t \<longrightarrow> entries_count t < n \<longrightarrow>
     (\<exists>t'. ins t k v = Inr (stored (ht_map t k), t') \<and> inserted t k v t'))"

lemma insert_correctE:
  assumes "insert_correct n ins" "ht_ok t" "entries_count t < n"
  obtains t' where "ins t k v = Inr (stored (ht_map t k), t')" "inserted t k v t'"
  using assms unfolding insert_correct_def by blast

text \<open>Filling in the entry itself. The capacity does not change.\<close>

lemma insert_entry_spec:
  assumes "ht_ok tbl"
  shows "\<exists>t. insert_entry tbl k v = Inr (stored (ht_map tbl k), t) \<and> ht_ok t \<and>
    ht_map t = (ht_map tbl)(k \<mapsto> v) \<and> entries_count t = entries_count tbl + (if ht_map tbl k = None then 1 else 0) \<and>
    entries_cap t = entries_cap tbl \<and> load_factor t = load_factor tbl \<and> ht_free t = ht_free tbl"
proof -
  define index where "index = bucket_index (entries_cap tbl) k"
  define b where "b = ht_entries tbl ! index"
  have ok: "chain_ok b" using assms by (simp add: ht_ok_def b_def index_def)
  show ?thesis
  proof (cases rule: find_hash_table_entry_cases [OF assms, of k, folded index_def, folded b_def, case_names found missing])
    case (found i)
    let ?t = "tbl\<lparr>ht_entries := (ht_entries tbl)[index := b[i := (b ! i)\<lparr>he_data := v\<rparr>]], entries_count := entries_count tbl\<rparr>"
    have m: "map_of (chain_bindings (b[i := (b ! i)\<lparr>he_data := v\<rparr>])) = (map_of (chain_bindings b))(k \<mapsto> v)"
      and keys: "map fst (chain_bindings (b[i := (b ! i)\<lparr>he_data := v\<rparr>])) = map fst (chain_bindings b)"
      using map_of_chain_update [OF found(2,3)] ok by (simp_all add: chain_ok_def)
    have len: "length (chain_bindings (b[i := (b ! i)\<lparr>he_data := v\<rparr>])) = length (chain_bindings b)"
      using arg_cong [OF keys, of length] by simp
    have "chain_ok (b[i := (b ! i)\<lparr>he_data := v\<rparr>])"
      using ok found(2,3) keys by (auto simp: chain_ok_def list_all_length nth_list_update)
    from ht_update_bucket [OF assms index_def _ this _ refl, of "Some v" "entries_count tbl"] m len
    have "ht_ok ?t \<and> ht_map ?t = (ht_map tbl)(k \<mapsto> v)" by (simp add: b_def)
    with found show ?thesis by (simp add: insert_entry_def Let_def b_def)
  next
    case missing
    let ?e = "\<lparr>he_key = Some k, he_data = v\<rparr>"
    define b' where "b' = (if length b - 1 \<noteq> 0 \<or> he_key (b ! (length b - 1)) \<noteq> None
      then take (Suc (length b - 1)) b @ [?e] else b[length b - 1 := ?e])"
    let ?t = "tbl\<lparr>ht_entries := (ht_entries tbl)[index := b'], entries_count := entries_count tbl + 1\<rparr>"
    have no: "map_of (chain_bindings b) k = None" using missing(2) by (simp add: ht_map_def b_def index_def)
    have cb: "chain_bindings b' = chain_bindings b @ [(k, v)]" and ne: "b' \<noteq> []"
      and full: "list_all (\<lambda>e. he_key e \<noteq> None) b'"
      using ok by (cases b; cases "tl b"; auto simp: b'_def chain_ok_def list_all_iff)+
    then have "chain_ok b'" using ok no by (auto simp: chain_ok_def map_of_eq_None_iff)
    moreover have "map_of (chain_bindings b') = (map_of (chain_bindings b))(k \<mapsto> v)"
      using no by (auto simp: cb fun_eq_iff map_add_def split: option.splits)
    ultimately have "ht_ok ?t \<and> ht_map ?t = (ht_map tbl)(k \<mapsto> v)"
      using ht_update_bucket [OF assms index_def, of b' "Some v" "entries_count tbl + 1" ?t] by (simp add: cb b_def)
    moreover have "insert_entry tbl k v = Inr (None, ?t)"
      unfolding insert_entry_def missing(1) Let_def b'_def b_def by simp
    ultimately show ?thesis using missing(2) by simp
  qed
qed

lemma load_ok_make:
  "1 / 2 \<le> lf * of_nat cap \<Longrightarrow> load_ok (make_hash_table f lf cap)"
  by (simp add: load_ok_def make_hash_table_def)

lemma fold_insert_spec:
  assumes "insert_correct n ins" "ht_ok t" "entries_count t + length kvs \<le> n" "distinct (map fst kvs)"
    and "\<forall>k\<in>fst ` set kvs. ht_map t k = None"
  shows "\<exists>t'. fold_result (\<lambda>key v new. case ins new key v of Inl e \<Rightarrow> Inl e | Inr (_, new') \<Rightarrow> Inr new') kvs t = Inr t' \<and>
    ht_ok t' \<and> ht_map t' = ht_map t ++ map_of kvs \<and> entries_count t' = entries_count t + length kvs \<and>
    entries_cap t \<le> entries_cap t' \<and> load_factor t' = load_factor t \<and> ht_free t' = ht_free t \<and> (load_ok t \<longrightarrow> load_ok t')"
  using assms(2-)
proof (induction kvs arbitrary: t)
  case (Cons kv kvs)
  obtain k v where kv: "kv = (k, v)" by fastforce
  from Cons.prems(2) have "entries_count t < n" by simp
  then obtain u where u: "ins t k v = Inr (stored (ht_map t k), u)" and i: "inserted t k v u"
    by (rule insert_correctE [OF assms(1) Cons.prems(1)])
  have none: "ht_map t k = None" "k \<notin> fst ` set kvs" using Cons.prems(3,4) by (auto simp: kv)
  then have upd: "(ht_map t)(k \<mapsto> v) ++ map_of kvs = ht_map t ++ map_of ((k, v) # kvs)"
    by (subst map_add_upd_left) (simp_all add: dom_map_of_conv_image_fst)
  have "\<exists>t'. fold_result (\<lambda>key v new. case ins new key v of Inl e \<Rightarrow> Inl e | Inr (_, new') \<Rightarrow> Inr new') kvs u = Inr t' \<and>
    ht_ok t' \<and> ht_map t' = ht_map u ++ map_of kvs \<and> entries_count t' = entries_count u + length kvs \<and>
    entries_cap u \<le> entries_cap t' \<and> load_factor t' = load_factor u \<and> ht_free t' = ht_free u \<and> (load_ok u \<longrightarrow> load_ok t')"
    using i none Cons.prems(2-4) by (intro Cons.IH) (auto simp: inserted_def kv)
  then show ?case
    using i none upd by (auto simp: kv u inserted_def simp del: map_of.simps)
qed simp

lemma hash_table_rehash_spec:
  fixes tbl :: "'v string_hash_table"
  assumes "insert_correct n ins" "ht_ok tbl" "entries_count tbl \<le> n" "0 < cap"
  shows "\<exists>t. hash_table_rehash ins tbl cap = Inr t \<and> same_contents tbl t \<and> cap \<le> entries_cap t \<and>
    (1 / 2 \<le> load_factor tbl * of_nat cap \<longrightarrow> load_ok t)"
proof -
  let ?new = "make_hash_table (ht_free tbl) (load_factor tbl) cap :: 'v string_hash_table"
  have len: "length (ht_bindings tbl) = entries_count tbl" using assms(2) by (simp add: ht_ok_def)
  have "1 / 2 \<le> load_factor tbl * of_nat cap \<Longrightarrow> load_ok ?new" by (rule load_ok_make)
  then show ?thesis
    using fold_insert_spec [OF assms(1), of ?new "ht_bindings tbl"] assms(3,4) len ht_bindings_map [OF assms(2)]
    unfolding hash_table_rehash_def ht_each_bindings [OF assms(2)] same_contents_def by auto
qed

lemma load_ok_room:
  assumes "load_ok tbl" "must_grow tbl \<longrightarrow> entries_cap tbl * 2 \<le> entries_cap t" "\<not> must_grow tbl \<longrightarrow> t = tbl"
    and "entries_count t = entries_count tbl" "load_factor t = load_factor tbl"
  shows "of_nat (entries_count t) + 1 \<le> load_factor t * of_nat (entries_cap t) \<and>
    1 / 2 \<le> load_factor t * of_nat (entries_cap t)"
proof (cases "must_grow tbl")
  case True
  let ?lf = "load_factor tbl" and ?c = "of_nat (entries_cap tbl) :: rat"
  have half: "1 / 2 \<le> ?lf * ?c" and cnt: "of_nat (entries_count tbl) \<le> ?lf * ?c" using assms(1) by (auto simp: load_ok_def)
  then have "0 < ?lf * ?c" by simp
  then have pos: "0 \<le> ?lf" by (simp add: zero_less_mult_iff)
  have "?c * 2 \<le> of_nat (entries_cap t)"
    using True assms(2) by (metis of_nat_le_iff of_nat_mult of_nat_numeral)
  then have two: "?lf * ?c * 2 \<le> ?lf * of_nat (entries_cap t)"
    using mult_left_mono [OF _ pos] by (simp add: mult.assoc)
  moreover have "of_nat (entries_count tbl) + 1 \<le> ?lf * ?c * 2"
  proof (cases "entries_count tbl")
    case (Suc m)
    then have "(1 :: rat) \<le> of_nat (entries_count tbl)" by simp
    with cnt show ?thesis by simp
  qed (use half in simp)
  ultimately show ?thesis using assms(4,5) half by simp
next
  case False
  then show ?thesis using assms by (simp add: must_grow_def load_ok_def)
qed

lemma insert_impl_correct: "insert_correct fuel (hash_table_insert_impl fuel)"
proof (induction fuel)
  case (Suc fuel)
  show ?case unfolding insert_correct_def
  proof (intro allI impI)
    fix tbl :: "'a string_hash_table" and k v
    assume ok: "ht_ok tbl" and fuel: "entries_count tbl < Suc fuel"
    have "\<exists>t. (if must_grow tbl then hash_table_rehash (hash_table_insert_impl fuel) tbl (entries_cap tbl * 2) else Inr tbl) = Inr t \<and>
      same_contents tbl t \<and> entries_cap tbl \<le> entries_cap t \<and> (must_grow tbl \<longrightarrow> entries_cap tbl * 2 \<le> entries_cap t) \<and> (\<not> must_grow tbl \<longrightarrow> t = tbl)"
      using hash_table_rehash_spec [OF Suc.IH ok, of "entries_cap tbl * 2"] fuel ok
      by (auto simp: same_contents_def ht_ok_def)
    then obtain t where t: "(if must_grow tbl then hash_table_rehash (hash_table_insert_impl fuel) tbl (entries_cap tbl * 2) else Inr tbl) = Inr t"
      and same: "same_contents tbl t" and cap: "entries_cap tbl \<le> entries_cap t"
      and grow: "must_grow tbl \<longrightarrow> entries_cap tbl * 2 \<le> entries_cap t" "\<not> must_grow tbl \<longrightarrow> t = tbl" by blast
    obtain u where u: "insert_entry t k v = Inr (stored (ht_map t k), u)" "ht_ok u" "ht_map u = (ht_map t)(k \<mapsto> v)"
      "entries_count u = entries_count t + (if ht_map t k = None then 1 else 0)"
      "entries_cap u = entries_cap t" "load_factor u = load_factor t" "ht_free u = ht_free t"
      using insert_entry_spec [of t k v] same by (auto simp: same_contents_def)
    have "load_ok u" if "load_ok tbl"
      using load_ok_room [OF that grow] same u(4-6) by (auto simp: same_contents_def load_ok_def)
    with u cap same have "inserted tbl k v u" by (simp add: inserted_def same_contents_def)
    with u(1) t same show "\<exists>t'. hash_table_insert_impl (Suc fuel) tbl k v = Inr (stored (ht_map tbl k), t') \<and> inserted tbl k v t'"
      by (simp add: same_contents_def)
  qed
qed (simp add: insert_correct_def)

section \<open>The other operations\<close>

lemma hash_table_insert_spec:
  assumes "ht_ok tbl" "key_arg buf len = Some k"
  shows "\<exists>t. hash_table_insert tbl buf len v = Inr (stored (ht_map tbl k), t) \<and> inserted tbl k v t"
  using insert_impl_correct [of "Suc (entries_count tbl)"] assms
  unfolding hash_table_insert_def insert_correct_def by fastforce

lemma hash_table_delete_spec:
  assumes "ht_ok tbl" "key_arg buf len = Some k"
  shows "\<exists>t. hash_table_delete tbl buf len = Inr (stored (ht_map tbl k), t) \<and> ht_ok t \<and>
    ht_map t = (ht_map tbl)(k := None) \<and> (load_ok tbl \<longrightarrow> load_ok t)"
proof (cases rule: find_hash_table_entry_cases [OF assms(1), of k, case_names found missing])
  case (found i)
  let ?i = "bucket_index (entries_cap tbl) k" let ?b = "ht_entries tbl ! ?i"
  let ?t = "tbl\<lparr>ht_entries := (ht_entries tbl)[?i := delete_at i ?b], entries_count := entries_count tbl - 1\<rparr>"
  have "chain_ok ?b" "?i < length (ht_entries tbl)" using assms(1) by (auto simp: ht_ok_def)
  note del = map_of_chain_delete [OF found(2,3) this(1)]
  have "length (chain_bindings ?b) \<le> entries_count tbl"
    using assms(1) elem_le_sum_list [of ?i "map (length \<circ> chain_bindings) (ht_entries tbl)"] \<open>?i < _\<close>
    by (simp add: ht_ok_def ht_bindings_def length_concat)
  with del have "ht_ok ?t \<and> ht_map ?t = (ht_map tbl)(k := None)"
    by (intro ht_update_bucket [OF assms(1) refl]) auto
  moreover have "load_ok tbl \<longrightarrow> load_ok ?t"
    by (auto simp: load_ok_def intro: order_trans [rotated])
  ultimately show ?thesis using found assms(2) by (simp add: hash_table_delete_def Let_def)
next
  case missing
  with assms show ?thesis by (auto simp: hash_table_delete_def fun_upd_idem)
qed

lemma hash_table_lookup_spec:
  assumes "ht_ok tbl" "key_arg buf len = Some k"
  shows "hash_table_lookup tbl buf len = Inr (stored (ht_map tbl k))"
    and "hash_table_contains tbl buf len = Inr (ht_map tbl k \<noteq> None)"
  by (cases rule: find_hash_table_entry_cases [OF assms(1), of k];
      simp add: hash_table_lookup_def hash_table_contains_def assms(2))+

lemma hash_table_reserve_spec:
  assumes "ht_ok tbl"
  shows "\<exists>t. hash_table_reserve tbl n = Inr t \<and> same_contents tbl t"
  using hash_table_rehash_spec [OF insert_impl_correct assms order_refl] unfolding hash_table_reserve_def
  by (metis add_is_0 neq0_conv zero_neq_numeral)

section \<open>Dictionaries\<close>

text \<open>The operations as a client calls them, and their results.\<close>

datatype 'v dict_op =
    Insert string int "'v option" | Delete string int | Lookup string int | Contains string int | Reserve nat

datatype 'v dict_result = Pointer "'v option" | Truth bool | No_result

text \<open>The specification: the operations on a map from strings to values.\<close>

definition spec_key :: "string \<Rightarrow> int \<Rightarrow> string" where
  "spec_key buf len = the (key_arg buf len)"

fun spec_op :: "'v dict_op \<Rightarrow> (string \<rightharpoonup> 'v option) \<Rightarrow> 'v dict_result \<times> (string \<rightharpoonup> 'v option)" where
  "spec_op (Insert buf len v) m = (Pointer (stored (m (spec_key buf len))), m(spec_key buf len \<mapsto> v))"
| "spec_op (Delete buf len) m = (Pointer (stored (m (spec_key buf len))), m(spec_key buf len := None))"
| "spec_op (Lookup buf len) m = (Pointer (stored (m (spec_key buf len))), m)"
| "spec_op (Contains buf len) m = (Truth (m (spec_key buf len) \<noteq> None), m)"
| "spec_op (Reserve n) m = (No_result, m)"

primrec spec_run :: "'v dict_op list \<Rightarrow> (string \<rightharpoonup> 'v option) \<Rightarrow> 'v dict_result list \<times> (string \<rightharpoonup> 'v option)" where
  "spec_run [] m = ([], m)"
| "spec_run (op # ops) m = (let (r, m') = spec_op op m; (rs, m'') = spec_run ops m' in (r # rs, m''))"

fun op_ok :: "'v dict_op \<Rightarrow> bool" where
  "op_ok (Insert buf len v) \<longleftrightarrow> key_arg buf len \<noteq> None"
| "op_ok (Delete buf len) \<longleftrightarrow> key_arg buf len \<noteq> None"
| "op_ok (Lookup buf len) \<longleftrightarrow> key_arg buf len \<noteq> None"
| "op_ok (Contains buf len) \<longleftrightarrow> key_arg buf len \<noteq> None"
| "op_ok (Reserve n) \<longleftrightarrow> True"

text \<open>Any sequence of operations of an implementation.\<close>

record ('t, 'v) dict_impl =
  d_insert :: "'t \<Rightarrow> string \<Rightarrow> int \<Rightarrow> 'v option \<Rightarrow> ht_error + ('v option \<times> 't)"
  d_delete :: "'t \<Rightarrow> string \<Rightarrow> int \<Rightarrow> ht_error + ('v option \<times> 't)"
  d_lookup :: "'t \<Rightarrow> string \<Rightarrow> int \<Rightarrow> ht_error + 'v option"
  d_contains :: "'t \<Rightarrow> string \<Rightarrow> int \<Rightarrow> ht_error + bool"
  d_reserve :: "'t \<Rightarrow> nat \<Rightarrow> ht_error + 't"

fun run_op :: "('t, 'v) dict_impl \<Rightarrow> 'v dict_op \<Rightarrow> 't \<Rightarrow> ht_error + ('v dict_result \<times> 't)" where
  "run_op d (Insert buf len v) t = map_sum id (map_prod Pointer id) (d_insert d t buf len v)"
| "run_op d (Delete buf len) t = map_sum id (map_prod Pointer id) (d_delete d t buf len)"
| "run_op d (Lookup buf len) t = map_sum id (\<lambda>p. (Pointer p, t)) (d_lookup d t buf len)"
| "run_op d (Contains buf len) t = map_sum id (\<lambda>b. (Truth b, t)) (d_contains d t buf len)"
| "run_op d (Reserve n) t = map_sum id (Pair No_result) (d_reserve d t n)"

primrec run_ops :: "('t, 'v) dict_impl \<Rightarrow> 'v dict_op list \<Rightarrow> 't \<Rightarrow> ht_error + ('v dict_result list \<times> 't)" where
  "run_ops d [] t = Inr ([], t)"
| "run_ops d (op # ops) t = (case run_op d op t of
      Inl e \<Rightarrow> Inl e
    | Inr (r, t') \<Rightarrow> map_sum id (map_prod ((#) r) id) (run_ops d ops t'))"

text \<open>What a dictionary promises: each operation succeeds, keeps the invariant, returns what the map
  says and changes the map as specified.\<close>

locale dictionary =
  fixes inv :: "'t \<Rightarrow> bool" and abs :: "'t \<Rightarrow> string \<rightharpoonup> 'v option" and d :: "('t, 'v) dict_impl"
  assumes insert_law: "inv t \<Longrightarrow> key_arg buf len = Some k \<Longrightarrow>
      \<exists>t'. d_insert d t buf len v = Inr (stored (abs t k), t') \<and> inv t' \<and> abs t' = (abs t)(k \<mapsto> v)"
    and delete_law: "inv t \<Longrightarrow> key_arg buf len = Some k \<Longrightarrow>
      \<exists>t'. d_delete d t buf len = Inr (stored (abs t k), t') \<and> inv t' \<and> abs t' = (abs t)(k := None)"
    and lookup_law: "inv t \<Longrightarrow> key_arg buf len = Some k \<Longrightarrow> d_lookup d t buf len = Inr (stored (abs t k))"
    and contains_law: "inv t \<Longrightarrow> key_arg buf len = Some k \<Longrightarrow> d_contains d t buf len = Inr (abs t k \<noteq> None)"
    and reserve_law: "inv t \<Longrightarrow> \<exists>t'. d_reserve d t n = Inr t' \<and> inv t' \<and> abs t' = abs t"
begin

lemma run_op_refines:
  assumes "inv t" "op_ok op"
  shows "\<exists>t'. run_op d op t = Inr (fst (spec_op op (abs t)), t') \<and> inv t' \<and> abs t' = snd (spec_op op (abs t))"
proof (cases op)
  case (Insert buf len v)
  with assms insert_law [of t buf len _ v] show ?thesis by (fastforce simp: spec_key_def)
next
  case (Delete buf len)
  with assms delete_law [of t buf len] show ?thesis by (fastforce simp: spec_key_def)
next
  case (Reserve n)
  with assms reserve_law [of t n] show ?thesis by auto
qed (use assms in \<open>auto simp: spec_key_def lookup_law contains_law\<close>)

lemma run_ops_refines:
  assumes "inv t" "list_all op_ok ops"
  shows "\<exists>t'. run_ops d ops t = Inr (fst (spec_run ops (abs t)), t') \<and> inv t' \<and> abs t' = snd (spec_run ops (abs t))"
  using assms
proof (induction ops arbitrary: t)
  case (Cons op ops)
  obtain u where u: "run_op d op t = Inr (fst (spec_op op (abs t)), u)" "inv u" "abs u = snd (spec_op op (abs t))"
    using run_op_refines Cons.prems by fastforce
  moreover obtain t' where "run_ops d ops u = Inr (fst (spec_run ops (abs u)), t')" "inv t'" "abs t' = snd (spec_run ops (abs u))"
    using Cons.IH [of u] Cons.prems u(2) by auto
  ultimately show ?case by (simp add: Let_def split_beta)
qed simp

end

definition hash_table_impl :: "('v string_hash_table, 'v) dict_impl" where
  "hash_table_impl = \<lparr>d_insert = hash_table_insert, d_delete = hash_table_delete, d_lookup = hash_table_lookup,
     d_contains = hash_table_contains, d_reserve = hash_table_reserve\<rparr>"

interpretation ht: dictionary ht_ok ht_map hash_table_impl
proof
  fix t :: "'v string_hash_table" and buf len k v n
  assume ok: "ht_ok t"
  show "\<exists>t'. d_reserve hash_table_impl t n = Inr t' \<and> ht_ok t' \<and> ht_map t' = ht_map t"
    using hash_table_reserve_spec [OF ok, of n] by (auto simp: hash_table_impl_def same_contents_def)
  assume key: "key_arg buf len = Some k"
  show "\<exists>t'. d_insert hash_table_impl t buf len v = Inr (stored (ht_map t k), t') \<and> ht_ok t' \<and> ht_map t' = (ht_map t)(k \<mapsto> v)"
    using hash_table_insert_spec [OF ok key, of v] by (auto simp: hash_table_impl_def inserted_def)
  show "\<exists>t'. d_delete hash_table_impl t buf len = Inr (stored (ht_map t k), t') \<and> ht_ok t' \<and> ht_map t' = (ht_map t)(k := None)"
    using hash_table_delete_spec [OF ok key] by (auto simp: hash_table_impl_def)
  show "d_lookup hash_table_impl t buf len = Inr (stored (ht_map t k))"
    and "d_contains hash_table_impl t buf len = Inr (ht_map t k \<noteq> None)"
    using hash_table_lookup_spec [OF ok key] by (simp_all add: hash_table_impl_def)
qed

section \<open>Properties\<close>

text \<open>C19. The hash table implements a finite map from strings to pointers: from a fresh table of any
  load factor and any positive initial capacity, every sequence of insertions, deletions, lookups,
  membership tests and reservations returns exactly what the same sequence returns on a map, whatever
  the collisions and however often the table grows. No search reads an uninitialised flag, no chain
  holds an entry without a key, and the recursion between inserting and growing ends.\<close>

theorem hash_table_refines_map:
  assumes "0 < cap" "list_all op_ok ops"
  shows "map_sum id fst (run_ops hash_table_impl ops (make_hash_table free_fn lf cap)) =
    Inr (fst (spec_run ops Map.empty))"
  using ht.run_ops_refines [of "make_hash_table free_fn lf cap" ops] assms
  by auto

theorem hash_table_refines_map_witness:
  "map_sum id fst (run_ops hash_table_impl [Insert ''ab'' 2 (Some (7 :: nat)), Reserve 5, Insert ''abc'' 2 None,
     Lookup ''ab'' 2, Contains ''ab'' 1] (make_hash_table False (3 / 4) 1)) =
   Inr [Pointer None, No_result, Pointer (Some 7), Pointer None, Truth False]"
  by (subst hash_table_refines_map) (simp_all add: key_arg_def spec_key_def)

text \<open>C20. Insertion keeps the load of the table: when the number of entries is within the load
  factor's share of the capacity, it still is after inserting, also when the table has to grow, so that
  chains stay short on average. The capacity never shrinks, and the count is exact.\<close>

theorem hash_table_insert_load:
  assumes "ht_ok tbl" "load_ok tbl" "key_arg buf len = Some k"
  shows "\<exists>t. hash_table_insert tbl buf len v = Inr (stored (ht_map tbl k), t) \<and>
    rat_of_nat (entries_count t) \<le> load_factor tbl * rat_of_nat (entries_cap t) \<and>
    entries_cap tbl \<le> entries_cap t \<and>
    entries_count t = entries_count tbl + (if k \<in> dom (ht_map tbl) then 0 else 1)"
  using hash_table_insert_spec [OF assms(1,3), of v] assms(2)
  by (auto simp: inserted_def load_ok_def domIff)

theorem hash_table_insert_load_witness:
  "\<exists>t. hash_table_insert (make_hash_table False (3 / 4) 1) ''k'' 1 (Some (5 :: nat)) = Inr (None, t) \<and>
    rat_of_nat (entries_count t) \<le> 3 / 4 * rat_of_nat (entries_cap t) \<and> 1 \<le> entries_cap t \<and> entries_count t = 1"
  using hash_table_insert_load [of "make_hash_table False (3 / 4) 1 :: nat string_hash_table" "''k''" 1 "''k''" "Some 5"]
  by (simp add: key_arg_def load_ok_make)

lemma fold_result_collect:
  "fold_result (\<lambda>key v (ks, vs). Inr (ks @ [key], if b then vs @ [v] else vs)) kvs (ks, vs) =
     Inr (ks @ map fst kvs, if b then vs @ map snd kvs else vs)"
  by (induction kvs arbitrary: ks vs) auto

text \<open>Destroying a table frees the key of every binding exactly once, and passes exactly the
  values of the map to the destructor if there is one.\<close>

theorem free_hash_table_exact:
  assumes "ht_ok tbl"
  shows "\<exists>ks vs. free_hash_table tbl = Inr (ks, vs) \<and> distinct ks \<and> set ks = dom (ht_map tbl) \<and>
    length ks = entries_count tbl \<and> vs = (if ht_free tbl then map (the \<circ> ht_map tbl) ks else [])"
proof -
  let ?ks = "map fst (ht_bindings tbl)"
  have "map snd (ht_bindings tbl) = map (the \<circ> ht_map tbl) ?ks"
    using ht_bindings_map [OF assms] by (auto simp flip: ht_bindings_map(1) [OF assms])
  moreover have "free_hash_table tbl = Inr (?ks, if ht_free tbl then map snd (ht_bindings tbl) else [])"
    unfolding free_hash_table_def ht_each_bindings [OF assms] fold_result_collect by simp
  moreover have "set ?ks = dom (ht_map tbl)"
    by (simp add: dom_map_of_conv_image_fst flip: ht_bindings_map(1) [OF assms])
  ultimately show ?thesis using ht_bindings_map(2) [OF assms] assms by (auto simp: ht_ok_def)
qed

theorem free_hash_table_exact_witness:
  "free_hash_table \<lparr>ht_free = True,
     ht_entries = [[\<lparr>he_key = Some ''a'', he_data = Some (3 :: nat)\<rparr>, \<lparr>he_key = Some ''b'', he_data = Some 3\<rparr>]],
     entries_count = 2, entries_cap = 1, load_factor = 3 / 4\<rparr> \<in>
   Inr ` {([''a'', ''b''], [Some 3, Some 3]), ([''b'', ''a''], [Some 3, Some 3])}" (is "free_hash_table ?t \<in> _")
proof -
  have dom: "dom (ht_map ?t) = {''a'', ''b''}" and val: "ht_map ?t ''a'' = Some (Some 3)" "ht_map ?t ''b'' = Some (Some 3)"
    by (auto simp: ht_map_def bucket_index_def split: if_splits)
  have "ht_ok ?t" by (simp add: ht_ok_def chain_ok_def bucket_index_def ht_bindings_def)
  from free_hash_table_exact [OF this] obtain ks where ks: "distinct ks" "set ks = {''a'', ''b''}" "length ks = 2"
    and f: "free_hash_table ?t = Inr (ks, map (the \<circ> ht_map ?t) ks)" by (auto simp: dom simp del: One_nat_def)
  from ks have "ks = [''a'', ''b''] \<or> ks = [''b'', ''a'']"
    by (cases ks; cases "tl ks") (auto simp: doubleton_eq_iff)
  with f val show ?thesis by auto
qed

end
