(* ===== verification/Arena.thy ===== *)
theory Arena
  imports Prelude
begin

text \<open>
  The arena allocator of \<^verbatim>\<open>vm/adt.c\<close>. A region has an identity, which stands for its address, and
  carries its bytes; the arena is the list of regions that the \<^verbatim>\<open>next\<close> pointers form, with the
  number of regions made so far. A pointer into the arena is a region's identity and an offset.
  \<^verbatim>\<open>calloc\<close> always succeeds, and \<^verbatim>\<open>size_t\<close> has 32 bits, as on the WebAssembly target.
  The lemmas show that blocks are aligned, zeroed, inside their region and disjoint from everything
  handed out before, and that strings copied into the arena stay intact.
\<close>

section \<open>Data\<close>

record arena_region =
  r_id :: nat
  r_used :: nat
  r_cap :: nat
  r_data :: string

record arena =
  regions :: "arena_region list"
  a_made :: nat

type_synonym arena_ptr = "nat \<times> nat"

abbreviation (input) ARENA_REGION_BYTES :: nat where "ARENA_REGION_BYTES \<equiv> 4096"

definition arena_init :: arena where
  "arena_init = \<lparr>regions = [], a_made = 0\<rparr>"

definition new_region :: "nat \<Rightarrow> nat \<Rightarrow> nat \<Rightarrow> arena_region" where
  "new_region i used bytes = \<lparr>r_id = i, r_used = used, r_cap = bytes, r_data = replicate bytes (CHR 0x00)\<rparr>"

section \<open>Operations\<close>

definition align_up :: "u32 \<Rightarrow> u32 \<Rightarrow> u32" where
  "align_up v alignment = (v + alignment - 1) AND NOT (alignment - 1)"

text \<open>A region for one big block goes behind the first region; it counts as full.\<close>

definition alloc_big :: "arena \<Rightarrow> nat \<Rightarrow> arena_ptr \<times> arena" where
  "alloc_big a allocate =
     (let region = new_region (a_made a) allocate allocate in
      ((r_id region, 0),
       \<lparr>regions = (case regions a of [] \<Rightarrow> [region] | r # rs \<Rightarrow> r # region # rs), a_made = Suc (a_made a)\<rparr>))"

function alloc_small :: "arena \<Rightarrow> nat \<Rightarrow> arena_ptr \<times> arena" where
  "alloc_small a allocate =
     (if allocate > ARENA_REGION_BYTES then alloc_big a allocate
      else case regions a of
        r # rs \<Rightarrow>
          if r_used r + allocate > r_cap r then
            alloc_small \<lparr>regions = new_region (a_made a) 0 ARENA_REGION_BYTES # r # rs, a_made = Suc (a_made a)\<rparr> allocate
          else ((r_id r, r_used r), a\<lparr>regions := r\<lparr>r_used := r_used r + allocate\<rparr> # rs\<rparr>)
      | [] \<Rightarrow> alloc_small \<lparr>regions = [new_region (a_made a) 0 ARENA_REGION_BYTES], a_made = Suc (a_made a)\<rparr> allocate)"
  by pat_completeness auto
termination
  by (relation "measure (\<lambda>(a, n). case regions a of [] \<Rightarrow> 1 | r # _ \<Rightarrow> if r_used r + n > r_cap r then 1 else 0)")
    (auto simp: new_region_def)

declare alloc_small.simps [simp del]

definition arena_alloc :: "arena \<Rightarrow> u32 \<Rightarrow> u32 \<Rightarrow> arena_ptr \<times> arena" where
  "arena_alloc a n bytes = alloc_small a (unat (align_up (n * bytes) 8))"

text \<open>A store through a pointer into the arena. Bytes that fall behind the region are not written.\<close>

definition write_bytes :: "nat \<Rightarrow> string \<Rightarrow> string \<Rightarrow> string" where
  "write_bytes off s bs = take off bs @ take (length bs - off) s @ drop (off + length s) bs"

definition arena_write :: "arena \<Rightarrow> arena_ptr \<Rightarrow> string \<Rightarrow> arena" where
  "arena_write a p s =
     a\<lparr>regions := map (\<lambda>r. if r_id r = fst p then r\<lparr>r_data := write_bytes (snd p) s (r_data r)\<rparr> else r) (regions a)\<rparr>"

text \<open>The result is the slice: the pointer with the length.\<close>

definition arena_make_str :: "arena \<Rightarrow> string \<Rightarrow> (arena_ptr \<times> nat) \<times> arena" where
  "arena_make_str a s =
     (let (copy, a') = arena_alloc a (of_nat (length s) + 1) 1 in
      ((copy, length s), arena_write a' copy (s @ [CHR 0x00])))"

text \<open>The identities of the regions in the order in which they are freed.\<close>

definition arena_uninit :: "arena \<Rightarrow> nat list \<times> arena" where
  "arena_uninit a = (map r_id (regions a), a\<lparr>regions := []\<rparr>)"

definition arena_read :: "arena \<Rightarrow> arena_ptr \<Rightarrow> nat \<Rightarrow> string option" where
  "arena_read a p n = map_option (\<lambda>r. take n (drop (snd p) (r_data r))) (find (\<lambda>r. r_id r = fst p) (regions a))"

section \<open>Invariant\<close>

definition region_ok :: "arena_region \<Rightarrow> bool" where
  "region_ok r \<longleftrightarrow> r_used r \<le> r_cap r \<and> length (r_data r) = r_cap r \<and> 8 dvd r_used r \<and>
     (\<forall>i<r_cap r. r_used r \<le> i \<longrightarrow> r_data r ! i = CHR 0x00)"

definition arena_ok :: "arena \<Rightarrow> bool" where
  "arena_ok a \<longleftrightarrow> list_all region_ok (regions a) \<and> distinct (map r_id (regions a)) \<and>
     list_all (\<lambda>r. r_id r < a_made a) (regions a)"

text \<open>Everything that was in use is still there, with the same contents.\<close>

definition keeps :: "arena \<Rightarrow> arena \<Rightarrow> bool" where
  "keeps a b \<longleftrightarrow> (\<forall>r\<in>set (regions a). \<exists>r'\<in>set (regions b). r_id r' = r_id r \<and> r_used r \<le> r_used r' \<and>
     take (r_used r) (r_data r') = take (r_used r) (r_data r))"

text \<open>The block of \<open>n\<close> bytes at \<open>p\<close> is zeroed, aligned, in use in \<open>b\<close>, and was not in use in \<open>a\<close>.\<close>

definition fresh_block :: "arena \<Rightarrow> arena \<Rightarrow> arena_ptr \<Rightarrow> nat \<Rightarrow> bool" where
  "fresh_block a b p n \<longleftrightarrow> 8 dvd snd p \<and>
     (\<forall>r\<in>set (regions a). r_id r = fst p \<longrightarrow> r_used r \<le> snd p) \<and>
     (\<exists>r\<in>set (regions b). r_id r = fst p \<and> snd p + n \<le> r_used r \<and>
        take n (drop (snd p) (r_data r)) = replicate n (CHR 0x00))"

lemma keeps_refl [simp]: "keeps a a"
  by (auto simp: keeps_def)

lemma keepsE:
  assumes "keeps a b" "r \<in> set (regions a)"
  obtains r' where "r' \<in> set (regions b)" "r_id r' = r_id r" "r_used r \<le> r_used r'"
    "take (r_used r) (r_data r') = take (r_used r) (r_data r)"
  using assms unfolding keeps_def by blast

lemma keeps_trans:
  assumes "keeps a b" "keeps b c"
  shows "keeps a c"
  unfolding keeps_def
proof
  fix r
  assume "r \<in> set (regions a)"
  with assms(1) obtain s where s: "s \<in> set (regions b)" "r_id s = r_id r" "r_used r \<le> r_used s"
    "take (r_used r) (r_data s) = take (r_used r) (r_data r)" by (rule keepsE)
  from assms(2) s(1) obtain t where t: "t \<in> set (regions c)" "r_id t = r_id s" "r_used s \<le> r_used t"
    "take (r_used s) (r_data t) = take (r_used s) (r_data s)" by (rule keepsE)
  have "take (r_used r) (r_data t) = take (r_used r) (take (r_used s) (r_data t))" using s(3) by simp
  also have "\<dots> = take (r_used r) (r_data r)" using s(3,4) t(4) by simp
  finally show "\<exists>r'\<in>set (regions c). r_id r' = r_id r \<and> r_used r \<le> r_used r' \<and>
      take (r_used r) (r_data r') = take (r_used r) (r_data r)"
    using s t by (intro bexI [of _ t]) auto
qed

lemma new_region_ok: "8 dvd u \<Longrightarrow> u \<le> n \<Longrightarrow> region_ok (new_region i u n)"
  by (simp add: region_ok_def new_region_def)

lemma take_zeros:
  assumes "region_ok r" "r_used r + n \<le> r_cap r"
  shows "take n (drop (r_used r) (r_data r)) = replicate n (CHR 0x00)"
  using assms by (intro nth_equalityI) (auto simp: region_ok_def)

lemma arena_ok_fresh: "arena_ok a \<Longrightarrow> a_made a \<notin> r_id ` set (regions a)"
  by (auto simp: arena_ok_def list_all_iff)

lemma alloc_big_spec:
  assumes "arena_ok a" "8 dvd n" "alloc_big a n = (p, b)"
  shows "arena_ok b \<and> keeps a b \<and> fresh_block a b p n"
  using assms new_region_ok [OF assms(2) order_refl, of "a_made a"] arena_ok_fresh [OF assms(1)]
  by (cases "regions a")
    (auto simp: alloc_big_def Let_def arena_ok_def keeps_def fresh_block_def new_region_def list_all_iff less_SucI)

lemma region_ok_extend:
  assumes "region_ok r" "8 dvd n" "r_used r + n \<le> r_cap r"
  shows "region_ok (r\<lparr>r_used := r_used r + n\<rparr>)"
  using assms by (auto simp: region_ok_def)

lemma fresh_block_weaken:
  assumes "fresh_block a' b p n" "\<And>r. r \<in> set (regions a) \<Longrightarrow> r \<in> set (regions a')"
  shows "fresh_block a b p n"
  using assms by (auto simp: fresh_block_def)

lemma alloc_small_spec:
  assumes "arena_ok a" "8 dvd n" "alloc_small a n = (p, b)"
  shows "arena_ok b \<and> keeps a b \<and> fresh_block a b p n"
  using assms
proof (induction a n arbitrary: p b rule: alloc_small.induct)
  case (1 a n)
  show ?case
  proof (cases "n > ARENA_REGION_BYTES")
    case True
    with "1.prems" alloc_big_spec show ?thesis by (simp add: alloc_small.simps)
  next
    case small: False
    show ?thesis
    proof (cases "\<exists>r rs. regions a = r # rs \<and> r_used r + n \<le> r_cap r")
      case True
      then obtain r rs where r: "regions a = r # rs" "r_used r + n \<le> r_cap r" by blast
      with "1.prems" have ok: "region_ok r" by (simp add: arena_ok_def)
      have "p = (r_id r, r_used r)" "b = a\<lparr>regions := r\<lparr>r_used := r_used r + n\<rparr> # rs\<rparr>"
        using "1.prems"(3) small r by (auto simp: alloc_small.simps [of a])
      then have "arena_ok b" "keeps a b" "fresh_block a b p n"
        using "1.prems"(1,2) r ok region_ok_extend [OF ok _ r(2)] take_zeros [OF ok r(2)]
        by (auto simp: arena_ok_def keeps_def fresh_block_def region_ok_def image_iff)
      then show ?thesis by blast
    next
      case False
      define a' where "a' = \<lparr>regions = new_region (a_made a) 0 ARENA_REGION_BYTES # regions a, a_made = Suc (a_made a)\<rparr>"
      have "alloc_small a n = alloc_small a' n"
        using False small by (auto simp: alloc_small.simps [of a] a'_def split: list.split)
      with "1.prems"(3) have eq: "alloc_small a' n = (p, b)" by simp
      moreover have ok: "arena_ok a'"
        using "1.prems"(1) arena_ok_fresh [OF "1.prems"(1)] new_region_ok [of 0 4096 "a_made a"]
        by (auto simp: arena_ok_def a'_def list_all_iff new_region_def less_SucI)
      moreover have "keeps a a'" by (auto simp: keeps_def a'_def)
      moreover have "arena_ok b \<and> keeps a' b \<and> fresh_block a' b p n"
      proof (cases "regions a")
        case Nil
        show ?thesis using "1.IH"(1) [OF small Nil] "1.prems"(2) ok eq unfolding a'_def Nil by blast
      next
        case (Cons r rs)
        with False have "r_used r + n > r_cap r" by auto
        then show ?thesis using "1.IH"(2) [OF small Cons] "1.prems"(2) ok eq unfolding a'_def Cons by blast
      qed
      ultimately show ?thesis using fresh_block_weaken [of a' b p n a] keeps_trans [of a a' b] by (auto simp: a'_def)
    qed
  qed
qed

section \<open>Blocks and strings\<close>

lemma unat_and_not_mask: "unat ((w :: u32) AND NOT (mask k)) = unat w div 2 ^ k * 2 ^ k"
proof -
  have "w AND NOT (mask k) = push_bit k (drop_bit k w)" by (rule bit_eqI) (auto simp: bit_simps)
  also have "\<dots> = w - take_bit k w" using bits_ident [of k w] by (simp add: algebra_simps)
  finally have "unat (w AND NOT (mask k)) = unat w - unat (take_bit k w)"
    by (simp add: unat_sub word_le_nat_alt unsigned_take_bit_eq)
  also have "unat (take_bit k w) = unat w mod 2 ^ k" by (simp only: unsigned_take_bit_eq) (simp add: take_bit_eq_mod)
  finally show ?thesis by (simp add: minus_mod_eq_div_mult)
qed

lemma unat_and_minus_8: "unat ((w :: u32) AND - 8) = unat w div 8 * 8"
  using unat_and_not_mask [of w 3] minus_exp_eq_not_mask [of 3, where 'a = "32 word"] by simp

lemma align_up_8:
  assumes "unat v + 7 < 2 ^ 32"
  shows "unat (align_up v 8) = (unat v + 7) div 8 * 8"
proof -
  have "unat (v + 7) = unat v + 7" using assms unat_add_lem [of v 7] by simp
  then show ?thesis using unat_and_minus_8 [of "v + 7"] by (simp add: align_up_def add.commute)
qed

lemma align_up_8_dvd: "8 dvd unat (align_up v 8)"
  using unat_and_minus_8 [of "v + 7"] by (simp add: align_up_def add.commute)

lemma fresh_block_mono:
  assumes "fresh_block a b p n" "m \<le> n"
  shows "fresh_block a b p m"
proof -
  obtain r where r: "r \<in> set (regions b)" "r_id r = fst p" "snd p + n \<le> r_used r"
    "take n (drop (snd p) (r_data r)) = replicate n (CHR 0x00)"
    and old: "8 dvd snd p" "\<forall>r\<in>set (regions a). r_id r = fst p \<longrightarrow> r_used r \<le> snd p"
    using assms(1) by (auto simp: fresh_block_def)
  have "take m (drop (snd p) (r_data r)) = take m (take n (drop (snd p) (r_data r)))" using assms(2) by simp
  also have "\<dots> = replicate m (CHR 0x00)" unfolding r(4) using assms(2) by simp
  finally show ?thesis using r old assms(2) unfolding fresh_block_def by (intro conjI bexI [of _ r]) auto
qed

lemma arena_alloc_spec:
  assumes "arena_ok a" "unat (n * m) + 7 < 2 ^ 32" "arena_alloc a n m = (p, b)"
  shows "arena_ok b" "keeps a b" "fresh_block a b p (unat (n * m))"
proof -
  have "unat (n * m) \<le> unat (align_up (n * m) 8)" unfolding align_up_8 [OF assms(2)] by simp
  with alloc_small_spec [OF assms(1) align_up_8_dvd [of "n * m"]] assms(3) fresh_block_mono
  show "arena_ok b" "keeps a b" "fresh_block a b p (unat (n * m))" unfolding arena_alloc_def by blast+
qed

text \<open>The bytes at a pointer, all of them in use.\<close>

definition holds :: "arena \<Rightarrow> arena_ptr \<Rightarrow> string \<Rightarrow> bool" where
  "holds a p s \<longleftrightarrow> (\<exists>r\<in>set (regions a). r_id r = fst p \<and> snd p + length s \<le> r_used r \<and>
     take (length s) (drop (snd p) (r_data r)) = s)"

lemma find_region:
  "distinct (map r_id rs) \<Longrightarrow> r \<in> set rs \<Longrightarrow> find (\<lambda>r'. r_id r' = r_id r) rs = Some r"
  by (induction rs) (auto simp: rev_image_eqI)

lemma holds_read: "arena_ok a \<Longrightarrow> holds a p s \<Longrightarrow> arena_read a p (length s) = Some s"
  unfolding holds_def arena_ok_def arena_read_def using find_region by fastforce

lemma take_drop_prefix:
  assumes "take u xs = take u ys" "off + n \<le> u"
  shows "take n (drop off xs) = take n (drop off ys)"
proof -
  have "take n (drop off zs) = drop off (take (off + n) (take u zs))" for zs :: "'a list"
    using assms(2) by (simp add: take_drop add.commute min_absorb1)
  then show ?thesis by (metis assms(1))
qed

lemma holds_keeps:
  assumes "holds a p s" "keeps a b"
  shows "holds b p s"
proof -
  obtain r where r: "r \<in> set (regions a)" "r_id r = fst p" "snd p + length s \<le> r_used r"
    "take (length s) (drop (snd p) (r_data r)) = s" using assms(1) by (auto simp: holds_def)
  from assms(2) r(1) obtain r' where r': "r' \<in> set (regions b)" "r_id r' = r_id r" "r_used r \<le> r_used r'"
    "take (r_used r) (r_data r') = take (r_used r) (r_data r)" by (rule keepsE)
  with r take_drop_prefix [OF r'(4) r(3)] show ?thesis by (auto simp: holds_def)
qed

lemma write_bytes_props:
  assumes "off + length s \<le> length bs"
  shows "length (write_bytes off s bs) = length bs" "take (length s) (drop off (write_bytes off s bs)) = s"
    "u \<le> off \<Longrightarrow> take u (write_bytes off s bs) = take u bs"
    "off + length s \<le> i \<Longrightarrow> i < length bs \<Longrightarrow> write_bytes off s bs ! i = bs ! i"
  using assms by (auto simp: write_bytes_def nth_append min_def)

lemma arena_write_spec:
  assumes ok: "arena_ok a" "arena_ok b" and k: "keeps a b" and f: "fresh_block a b p n" and n: "length s \<le> n"
  shows "arena_ok (arena_write b p s) \<and> keeps a (arena_write b p s) \<and> holds (arena_write b p s) p s"
proof -
  let ?w = "\<lambda>r. if r_id r = fst p then r\<lparr>r_data := write_bytes (snd p) s (r_data r)\<rparr> else r"
  obtain r where r: "r \<in> set (regions b)" "r_id r = fst p" "snd p + n \<le> r_used r"
    and old: "\<And>q. q \<in> set (regions a) \<Longrightarrow> r_id q = fst p \<Longrightarrow> r_used q \<le> snd p"
    using f by (auto simp: fresh_block_def)
  have only: "q = r" if "q \<in> set (regions b)" "r_id q = fst p" for q
    using that r ok(2) by (auto simp: arena_ok_def distinct_map inj_on_def)
  have rok: "region_ok r" using ok(2) r(1) by (simp add: arena_ok_def list_all_iff)
  then have room: "snd p + length s \<le> length (r_data r)" using r(3) n by (simp add: region_ok_def)
  note wb = write_bytes_props [OF room]
  have "region_ok (?w r)"
    using rok r n wb(1,4) by (auto simp: region_ok_def)
  then have "arena_ok (arena_write b p s)"
    using ok(2) only by (auto simp: arena_ok_def arena_write_def list_all_iff o_def if_distrib cong: if_cong)
  moreover have "keeps a (arena_write b p s)"
    unfolding keeps_def
  proof
    fix q assume q: "q \<in> set (regions a)"
    with k obtain q' where q': "q' \<in> set (regions b)" "r_id q' = r_id q" "r_used q \<le> r_used q'"
      "take (r_used q) (r_data q') = take (r_used q) (r_data q)" by (rule keepsE)
    have "take (r_used q) (r_data (?w q')) = take (r_used q) (r_data q)"
      using q q' old [OF q] only [OF q'(1)] wb(3) by auto
    with q' show "\<exists>r'\<in>set (regions (arena_write b p s)). r_id r' = r_id q \<and> r_used q \<le> r_used r' \<and>
        take (r_used q) (r_data r') = take (r_used q) (r_data q)"
      by (intro bexI [of _ "?w q'"]) (auto simp: arena_write_def)
  qed
  moreover have "holds (arena_write b p s) p s"
    using r n wb(2) unfolding holds_def by (intro bexI [of _ "?w r"]) (auto simp: arena_write_def)
  ultimately show ?thesis by blast
qed

lemma arena_make_str_spec:
  assumes "arena_ok a" "length s + 8 < 2 ^ 32" "arena_make_str a s = ((p, l), b)"
  shows "arena_ok b \<and> keeps a b \<and> holds b p (s @ [CHR 0x00]) \<and> l = length s"
proof -
  have "(of_nat (length s) + 1) * 1 = (of_nat (length s + 1) :: u32)" by simp
  then have len: "unat ((of_nat (length s) + 1) * 1 :: u32) = length s + 1"
    using assms(2) by (simp only: unat_of_nat) simp
  obtain c where c: "arena_alloc a (of_nat (length s) + 1) 1 = (p, c)" and b: "b = arena_write c p (s @ [CHR 0x00])" "l = length s"
    using assms(3) by (auto simp: arena_make_str_def Let_def split: prod.splits)
  note al = arena_alloc_spec [OF assms(1) _ c, unfolded len]
  have "arena_ok c" "keeps a c" "fresh_block a c p (length s + 1)" using al assms(2) by auto
  from arena_write_spec [OF assms(1) this] show ?thesis by (simp add: b)
qed

text \<open>Copying several strings, one after the other.\<close>

primrec make_strs :: "arena \<Rightarrow> string list \<Rightarrow> (arena_ptr \<times> nat) list \<times> arena" where
  "make_strs a [] = ([], a)"
| "make_strs a (s # ss) = (let (p, b) = arena_make_str a s; (ps, c) = make_strs b ss in (p # ps, c))"

lemma make_strs_spec:
  assumes "arena_ok a" "list_all (\<lambda>s. length s + 8 < 2 ^ 32) ss" "make_strs a ss = (ps, b)"
  shows "arena_ok b \<and> keeps a b \<and> list_all2 (\<lambda>p s. snd p = length s \<and> holds b (fst p) (s @ [CHR 0x00])) ps ss"
  using assms
proof (induction ss arbitrary: a ps)
  case (Cons s ss)
  obtain p l c where c: "arena_make_str a s = ((p, l), c)" by (metis surj_pair)
  with Cons.prems obtain qs where qs: "make_strs c ss = (qs, b)" "ps = (p, l) # qs"
    by (auto simp: Let_def split: prod.splits)
  have one: "arena_ok c" "keeps a c" "holds c p (s @ [CHR 0x00])" "l = length s"
    using arena_make_str_spec [OF Cons.prems(1) _ c] Cons.prems(2) by auto
  with Cons.IH [OF one(1) _ qs(1)] Cons.prems(2) show ?case
    by (auto simp: qs(2) intro: keeps_trans holds_keeps)
qed simp

section \<open>Properties\<close>

lemma arena_init_ok [simp]: "arena_ok arena_init"
  by (simp add: arena_ok_def arena_init_def)





end
