(* ===== verification/Handles.thy ===== *)
theory Handles
  imports Descriptor
begin

text \<open>
  Object handles, \<^verbatim>\<open>vm/bjvm.c\<close>: the fixed table of handles of a thread, through which native code
  refers to objects that the collector may move, and the growing table of handles given to JavaScript.
  A table is the list of its slots, \<open>None\<close> being a null slot. An object is a value of type \<open>'o\<close>.
  Both tables satisfy the contract of the locale \<open>slot_table\<close>; from it follows that the handles made
  for the arguments of a native call are released again by the matching call.
\<close>

section \<open>The tables\<close>

text \<open>The search for a null slot.\<close>

fun free_slot :: "nat \<Rightarrow> 'o option list \<Rightarrow> nat option" where
  "free_slot i [] = None"
| "free_slot i (None # hs) = Some i"
| "free_slot i (Some x # hs) = free_slot (Suc i) hs"

definition deref_js_handle :: "'o option list \<Rightarrow> int \<Rightarrow> 'o option" where
  "deref_js_handle hs index = (if index < 0 \<or> index \<ge> int (length hs) then None else hs ! nat index)"

definition make_js_handle :: "'o option list \<Rightarrow> 'o \<Rightarrow> int \<times> 'o option list" where
  "make_js_handle hs x = (case free_slot 0 hs of
      Some i \<Rightarrow> (int i, hs[i := Some x])
    | None \<Rightarrow> (int (length hs), hs @ [Some x]))"

definition drop_js_handle :: "'o option list \<Rightarrow> int \<Rightarrow> 'o option list" where
  "drop_js_handle hs index =
     (if index < 0 \<or> index \<ge> int (length hs) then hs else hs[nat index := None])"

text \<open>A \<^verbatim>\<open>handle *\<close>: a null pointer, the thread's handle for null, or a slot.\<close>

datatype handle = No_handle | Null_handle | Slot nat

text \<open>\<open>None\<close> is the \<^verbatim>\<open>UNREACHABLE\<close> of an exhausted table.\<close>

definition make_handle_impl :: "'o option list \<Rightarrow> 'o option \<Rightarrow> (handle \<times> 'o option list) option" where
  "make_handle_impl hs obj = (case obj of
      None \<Rightarrow> Some (Null_handle, hs)
    | Some x \<Rightarrow> (case free_slot 0 hs of
        Some i \<Rightarrow> Some (Slot i, hs[i := Some x])
      | None \<Rightarrow> None))"

fun handle_obj :: "'o option list \<Rightarrow> handle \<Rightarrow> 'o option" where
  "handle_obj hs (Slot i) = (if i < length hs then hs ! i else None)"
| "handle_obj hs _ = None"

fun drop_handle :: "'o option list \<Rightarrow> handle \<Rightarrow> 'o option list" where
  "drop_handle hs (Slot i) = hs[i := None]"
| "drop_handle hs _ = hs"

section \<open>Arguments of native calls\<close>

text \<open>A \<^verbatim>\<open>stack_value\<close> is an object or the bits of a primitive; a \<^verbatim>\<open>value\<close> has a handle in
  place of the object.\<close>

datatype 'o stack_value = Obj "'o option" | Bits u64

datatype native_value = Handle handle | Plain u64

text \<open>The first argument of an instance method is the receiver. A \<open>None\<close> stands for an exhausted
  table, for missing arguments and for arguments that do not have the kind of the descriptor.\<close>

definition arg_kinds :: "bool \<Rightarrow> type_kind list \<Rightarrow> type_kind list" where
  "arg_kinds is_static ks = (if is_static then [] else [TYPE_KIND_REFERENCE]) @ ks"

fun handle_args :: "'o option list \<Rightarrow> type_kind list \<Rightarrow> 'o stack_value list \<Rightarrow>
    (native_value list \<times> 'o option list) option" where
  "handle_args hs [] vs = Some ([], hs)"
| "handle_args hs (TYPE_KIND_REFERENCE # ks) (Obj x # vs) = (case make_handle_impl hs x of
      None \<Rightarrow> None
    | Some (h, hs') \<Rightarrow> (case handle_args hs' ks vs of
        None \<Rightarrow> None
      | Some (ns, hs'') \<Rightarrow> Some (Handle h # ns, hs'')))"
| "handle_args hs (TYPE_KIND_REFERENCE # ks) _ = None"
| "handle_args hs (k # ks) (Bits b # vs) = map_option (\<lambda>(ns, hs'). (Plain b # ns, hs')) (handle_args hs ks vs)"
| "handle_args hs (k # ks) _ = None"

definition make_handles_array :: "'o option list \<Rightarrow> type_kind list \<Rightarrow> bool \<Rightarrow> 'o stack_value list \<Rightarrow>
    (native_value list \<times> 'o option list) option" where
  "make_handles_array hs ks is_static stack_args = handle_args hs (arg_kinds is_static ks) stack_args"

fun drop_args :: "'o option list \<Rightarrow> type_kind list \<Rightarrow> native_value list \<Rightarrow> 'o option list" where
  "drop_args hs (TYPE_KIND_REFERENCE # ks) (Handle h # ns) = drop_args (drop_handle hs h) ks ns"
| "drop_args hs (k # ks) (n # ns) = drop_args hs ks ns"
| "drop_args hs _ _ = hs"

definition drop_handles_array :: "'o option list \<Rightarrow> bool \<Rightarrow> type_kind list \<Rightarrow> native_value list \<Rightarrow> 'o option list" where
  "drop_handles_array hs is_static ks ns = drop_args hs (arg_kinds is_static ks) ns"

section \<open>The contract of a table\<close>

lemma free_slot_Some:
  "free_slot i hs = Some j \<Longrightarrow> i \<le> j \<and> j - i < length hs \<and> hs ! (j - i) = None"
  by (induction i hs rule: free_slot.induct) (auto simp: Suc_diff_le nth_Cons' split: if_splits)

lemma free_slot_None: "free_slot i hs = None \<longleftrightarrow> None \<notin> set hs"
  by (induction i hs rule: free_slot.induct) auto

locale slot_table =
  fixes make :: "'t \<Rightarrow> 'o \<Rightarrow> ('h \<times> 't) option" and drop :: "'t \<Rightarrow> 'h \<Rightarrow> 't" and deref :: "'t \<Rightarrow> 'h \<Rightarrow> 'o option"
  assumes make_fresh: "make t x = Some (h, t') \<Longrightarrow> deref t h = None"
    and make_deref: "make t x = Some (h, t') \<Longrightarrow> deref t' h = Some x"
    and make_other: "make t x = Some (h, t') \<Longrightarrow> g \<noteq> h \<Longrightarrow> deref t' g = deref t g"
    and drop_deref: "deref (drop t h) h = None"
    and drop_other: "g \<noteq> h \<Longrightarrow> deref (drop t h) g = deref t g"
begin

lemma drop_make: "make t x = Some (h, t') \<Longrightarrow> deref (drop t' h) = deref t"
  using make_fresh make_other drop_deref drop_other by (metis ext)

text \<open>Dropping depends on what the table holds only.\<close>

lemma drop_cong: "deref t = deref u \<Longrightarrow> deref (drop t h) = deref (drop u h)"
  using drop_deref drop_other by (metis ext)

end

interpretation js: slot_table "\<lambda>hs x. Some (make_js_handle hs x)" drop_js_handle deref_js_handle
proof
  fix t :: "'o option list" and x h t' g
  { assume "Some (make_js_handle t x) = Some (h, t')"
    then have m: "make_js_handle t x = (h, t')" by simp
    show "deref_js_handle t h = None" "deref_js_handle t' h = Some x"
      using m by (auto simp: make_js_handle_def deref_js_handle_def nth_append split: option.splits dest: free_slot_Some)
    assume "g \<noteq> h"
    with m show "deref_js_handle t' g = deref_js_handle t g"
      by (auto simp: make_js_handle_def deref_js_handle_def nth_append nth_list_update split: option.splits dest: free_slot_Some) }
qed (auto simp: deref_js_handle_def drop_js_handle_def nth_list_update nat_eq_iff)

interpretation th: slot_table "\<lambda>hs x. make_handle_impl hs (Some x)" drop_handle handle_obj
proof
  fix t :: "'o option list" and x h t' g
  { assume m: "make_handle_impl t (Some x) = Some (h, t')"
    show "handle_obj t h = None" "handle_obj t' h = Some x"
      using m by (auto simp: make_handle_impl_def split: option.splits dest: free_slot_Some)
    assume "g \<noteq> h"
    with m show "handle_obj t' g = handle_obj t g"
      by (cases g) (auto simp: make_handle_impl_def split: option.splits) }
  show "handle_obj (drop_handle t h) h = None" by (cases h) auto
  show "g \<noteq> h \<Longrightarrow> handle_obj (drop_handle t h) g = handle_obj t g" by (cases h; cases g) auto
qed

section \<open>Handles of native calls are released\<close>

definition free_count :: "'o option list \<Rightarrow> nat" where
  "free_count hs = length (filter (\<lambda>h. h = None) hs)"

fun needs_slot :: "'o stack_value \<Rightarrow> bool" where
  "needs_slot (Obj (Some x)) = True"
| "needs_slot _ = False"

text \<open>Arguments that have the kinds of the descriptor.\<close>

fun args_match :: "type_kind list \<Rightarrow> 'o stack_value list \<Rightarrow> bool" where
  "args_match [] [] \<longleftrightarrow> True"
| "args_match (k # ks) (Obj x # vs) \<longleftrightarrow> k = TYPE_KIND_REFERENCE \<and> args_match ks vs"
| "args_match (k # ks) (Bits b # vs) \<longleftrightarrow> k \<noteq> TYPE_KIND_REFERENCE \<and> args_match ks vs"
| "args_match _ _ \<longleftrightarrow> False"

text \<open>What the native code finds in place of a stack value.\<close>

fun seen_as :: "'o option list \<Rightarrow> 'o stack_value \<Rightarrow> native_value \<Rightarrow> bool" where
  "seen_as hs (Obj x) (Handle h) \<longleftrightarrow> handle_obj hs h = x"
| "seen_as hs (Bits b) (Plain c) \<longleftrightarrow> b = c"
| "seen_as hs _ _ \<longleftrightarrow> False"

lemma handle_args_Bits:
  "k \<noteq> TYPE_KIND_REFERENCE \<Longrightarrow>
     handle_args hs (k # ks) (Bits b # vs) = map_option (\<lambda>(ns, hs'). (Plain b # ns, hs')) (handle_args hs ks vs)"
  by (cases k) auto

lemma drop_args_Plain: "drop_args hs (k # ks) (Plain b # ns) = drop_args hs ks ns"
  by (cases k) auto

lemma drop_handle_commute: "drop_handle (drop_handle hs g) h = drop_handle (drop_handle hs h) g"
proof (cases g; cases h)
  fix i j assume "g = Slot i" "h = Slot j"
  then show ?thesis by (cases "i = j") (simp_all add: list_update_swap)
qed auto

lemma drop_args_drop: "drop_args (drop_handle hs h) ks ns = drop_handle (drop_args hs ks ns) h"
  by (induction hs ks ns rule: drop_args.induct) (auto simp: drop_handle_commute)

lemma free_count_fill:
  "hs ! i = None \<Longrightarrow> i < length hs \<Longrightarrow> free_count hs = Suc (free_count (hs[i := Some x]))"
  by (induction hs arbitrary: i) (auto simp: free_count_def nth_Cons split: nat.splits)

lemma free_count_pos: "0 < free_count hs \<longleftrightarrow> None \<in> set hs"
  by (auto simp: free_count_def filter_empty_conv)

lemma make_handle_impl_cases:
  assumes "x \<noteq> None \<Longrightarrow> 0 < free_count hs"
  obtains h hs' where "make_handle_impl hs x = Some (h, hs')" "handle_obj hs' h = x" "drop_handle hs' h = hs"
    "free_count hs \<le> free_count hs' + (if x = None then 0 else 1)"
    "\<forall>g y. handle_obj hs g = Some y \<longrightarrow> handle_obj hs' g = Some y"
proof (cases x)
  case None
  then show ?thesis using that [of Null_handle hs] by (simp add: make_handle_impl_def)
next
  case (Some y)
  then have "free_slot 0 hs \<noteq> None" using assms by (simp add: free_slot_None free_count_pos)
  then obtain i where i: "free_slot 0 hs = Some i" by blast
  with free_slot_Some [OF i] have e: "i < length hs" "hs ! i = None" by auto
  have m: "make_handle_impl hs (Some y) = Some (Slot i, hs[i := Some y])" by (simp add: make_handle_impl_def i)
  show ?thesis
  proof (rule that)
    show "make_handle_impl hs x = Some (Slot i, hs[i := Some y])" using m Some by simp
    show "handle_obj (hs[i := Some y]) (Slot i) = x" using th.make_deref [OF m] Some by simp
    show "drop_handle (hs[i := Some y]) (Slot i) = hs" using e by (metis drop_handle.simps(1) list_update_id list_update_overwrite)
    show "free_count hs \<le> free_count (hs[i := Some y]) + (if x = None then 0 else 1)"
      using free_count_fill [OF e(2,1)] Some by simp
    show "\<forall>g z. handle_obj hs g = Some z \<longrightarrow> handle_obj (hs[i := Some y]) g = Some z"
      using th.make_other [OF m] th.make_fresh [OF m] by (metis option.distinct(1))
  qed
qed


lemma handle_args_spec:
  assumes "args_match ks vs" "length (filter needs_slot vs) \<le> free_count hs"
  shows "\<exists>ns hs'. handle_args hs ks vs = Some (ns, hs') \<and> list_all2 (seen_as hs') vs ns \<and>
    (\<forall>g y. handle_obj hs g = Some y \<longrightarrow> handle_obj hs' g = Some y) \<and> drop_args hs' ks ns = hs"
  using assms
proof (induction ks vs arbitrary: hs rule: args_match.induct)
  case (2 k ks x vs)
  then have k: "k = TYPE_KIND_REFERENCE" by simp
  have "x \<noteq> None \<Longrightarrow> 0 < free_count hs" using "2.prems"(2) by auto
  then obtain h hs1 where h: "make_handle_impl hs x = Some (h, hs1)" "handle_obj hs1 h = x" "drop_handle hs1 h = hs"
    "free_count hs \<le> free_count hs1 + (if x = None then 0 else 1)"
    "\<forall>g y. handle_obj hs g = Some y \<longrightarrow> handle_obj hs1 g = Some y"
    by (rule make_handle_impl_cases)
  have "length (filter needs_slot vs) \<le> free_count hs1" using h(4) "2.prems"(2) by (cases x) auto
  then obtain ns hs2 where r: "handle_args hs1 ks vs = Some (ns, hs2)" "list_all2 (seen_as hs2) vs ns"
    "\<forall>g y. handle_obj hs1 g = Some y \<longrightarrow> handle_obj hs2 g = Some y" "drop_args hs2 ks ns = hs1"
    using "2.IH" [of hs1] "2.prems"(1) by auto
  have "handle_obj hs2 h = x"
  proof (cases x)
    case None
    with h(1) have "h = Null_handle" by (simp add: make_handle_impl_def)
    with None show ?thesis by simp
  qed (use h(2) r(3) in simp)
  with h r show ?case by (simp add: k drop_args_drop)
next
  case (3 k ks b vs)
  from "3.prems" "3.IH" [of hs] obtain ns hs' where "handle_args hs ks vs = Some (ns, hs')" "list_all2 (seen_as hs') vs ns"
    "\<forall>g y. handle_obj hs g = Some y \<longrightarrow> handle_obj hs' g = Some y" "drop_args hs' ks ns = hs" by auto
  with 3 show ?case by (simp add: handle_args_Bits drop_args_Plain)
qed auto



text \<open>A handle given to JavaScript stays valid until it is dropped: making a handle returns an index
  that was not in use, refers to the object, and disturbs no other handle; dropping it makes exactly that
  index free, after which the table holds what it held before.\<close>

theorem js_handle_roundtrip:
  "let (h, hs') = make_js_handle hs x in
     0 \<le> h \<and> deref_js_handle hs h = None \<and> deref_js_handle hs' h = Some x \<and>
     (\<forall>g. g = h \<or> deref_js_handle hs' g = deref_js_handle hs g) \<and>
     deref_js_handle (drop_js_handle hs' h) = deref_js_handle hs"
proof -
  obtain h hs' where m: "make_js_handle hs x = (h, hs')" by fastforce
  then have "0 \<le> h" by (auto simp: make_js_handle_def split: option.splits)
  with m js.make_fresh js.make_deref js.make_other js.drop_make show ?thesis by fastforce
qed

end
