(* ===== verification/Scheduler.thy ===== *)
theory Scheduler
  imports Handles "HOL-Library.Multiset"
begin

text \<open>
  The round-robin scheduler of \<^verbatim>\<open>vm/roundrobin_scheduler.c\<close>. Threads, objects and execution records
  are identified by numbers, which stand for their addresses; the scheduler has at most one
  \<^verbatim>\<open>thread_info\<close> per thread, so an info is found by its thread. A suspended call is a value of
  type \<open>'c\<close>, and \<^verbatim>\<open>call_interpreter\<close> is a parameter: it may change the whole state, and yields
  a result or the call to resume later. Readings of \<^verbatim>\<open>get_unix_us\<close> are a parameter too.
  The part of \<^verbatim>\<open>vm_thread\<close> and of the Java thread object that the scheduler reads is kept per
  thread in \<open>threads\<close>.
\<close>

section \<open>Data\<close>

datatype rr_wakeup_kind =
    RR_WAKEUP_YIELDING | RR_WAKEUP_SLEEP | RR_WAKEUP_REFERENCE_PENDING | RR_THREAD_PARK
  | RR_MONITOR_ENTER_WAITING | RR_MONITOR_WAIT

record rr_wakeup_info =
  w_kind :: rr_wakeup_kind
  w_us :: u64
  w_monitor :: nat
  w_ready :: bool

record 'c pending_call =
  pc_call :: 'c
  pc_record :: nat

record 'c thread_info =
  ti_thread :: nat
  call_queue :: "'c pending_call list"
  wakeup_info :: "rr_wakeup_info option"

datatype scheduler_status = SCHEDULER_RESULT_DONE | SCHEDULER_RESULT_MORE | SCHEDULER_RESULT_INVAL

record execution_record =
  er_status :: scheduler_status
  er_returned :: "nat stack_value"
  er_thread :: nat
  er_js_handle :: int

record vm_thread =
  vt_interrupted :: bool
  vt_unpark_permit :: bool
  vt_daemon :: bool
  vt_obj :: nat
  vt_eetop :: bool \<comment> \<open>the Java object still points to the native thread\<close>
  vt_fuel :: nat
  vt_yield_at_time :: u64

record 'c rr_scheduler =
  preemption_us :: u64
  round_robin :: "'c thread_info list"
  executions :: "nat list"
  exec_records :: "nat \<Rightarrow> execution_record"
  exec_made :: nat
  threads :: "nat \<Rightarrow> vm_thread"
  reference_pending :: bool
  sched_js_handles :: "nat option list"
  raised :: "nat list" \<comment> \<open>threads in which the scheduler raised an exception\<close>

text \<open>The result of calling the interpreter: \<^verbatim>\<open>FUTURE_READY\<close> with the value, or
  \<^verbatim>\<open>FUTURE_NOT_READY\<close> with what to wait for and the call as it is to be resumed.\<close>

datatype 'c outcome = Ready "nat stack_value" | Not_ready "rr_wakeup_info option" 'c

definition update_info :: "nat \<Rightarrow> ('c thread_info \<Rightarrow> 'c thread_info) \<Rightarrow> 'c rr_scheduler \<Rightarrow> 'c rr_scheduler" where
  "update_info t f s = s\<lparr>round_robin := map (\<lambda>i. if ti_thread i = t then f i else i) (round_robin s)\<rparr>"

definition update_thread :: "nat \<Rightarrow> (vm_thread \<Rightarrow> vm_thread) \<Rightarrow> 'c rr_scheduler \<Rightarrow> 'c rr_scheduler" where
  "update_thread t f s = s\<lparr>threads := (threads s)(t := f (threads s t))\<rparr>"

section \<open>Notification\<close>

definition waits_for :: "rr_wakeup_kind \<Rightarrow> nat \<Rightarrow> 'c thread_info \<Rightarrow> bool" where
  "waits_for k monitor i = (case wakeup_info i of
      None \<Rightarrow> False | Some w \<Rightarrow> w_kind w = k \<and> w_monitor w = monitor)"

definition set_ready :: "'c thread_info \<Rightarrow> 'c thread_info" where
  "set_ready i = i\<lparr>wakeup_info := map_option (\<lambda>w. w\<lparr>w_ready := True\<rparr>) (wakeup_info i)\<rparr>"

fun ready_first :: "rr_wakeup_kind \<Rightarrow> nat \<Rightarrow> 'c thread_info list \<Rightarrow> 'c thread_info list" where
  "ready_first k monitor [] = []"
| "ready_first k monitor (i # rr) =
     (if waits_for k monitor i then set_ready i # rr else i # ready_first k monitor rr)"

definition monitor_notify_one :: "nat \<Rightarrow> 'c rr_scheduler \<Rightarrow> 'c rr_scheduler" where
  "monitor_notify_one monitor s = s\<lparr>round_robin := ready_first RR_MONITOR_WAIT monitor (round_robin s)\<rparr>"

definition monitor_notify_all :: "nat \<Rightarrow> 'c rr_scheduler \<Rightarrow> 'c rr_scheduler" where
  "monitor_notify_all monitor s =
     s\<lparr>round_robin := map (\<lambda>i. if waits_for RR_MONITOR_WAIT monitor i then set_ready i else i) (round_robin s)\<rparr>"

definition monitor_exit_handler :: "nat \<Rightarrow> 'c rr_scheduler \<Rightarrow> 'c rr_scheduler" where
  "monitor_exit_handler monitor s =
     s\<lparr>round_robin := ready_first RR_MONITOR_ENTER_WAITING monitor (round_robin s)\<rparr>"

section \<open>Threads\<close>

definition free_thread_info :: "'c thread_info \<Rightarrow> 'c rr_scheduler \<Rightarrow> 'c rr_scheduler" where
  "free_thread_info i s =
     monitor_notify_all (vt_obj (threads s (ti_thread i)))
       (update_thread (ti_thread i) (\<lambda>v. v\<lparr>vt_eetop := False\<rparr>) s)"

definition rr_scheduler_init :: "(nat \<Rightarrow> vm_thread) \<Rightarrow> (nat \<Rightarrow> execution_record) \<Rightarrow> 'c rr_scheduler" where
  "rr_scheduler_init ts recs = \<lparr>preemption_us = 30000, round_robin = [], executions = [], exec_records = recs,
     exec_made = 0, threads = ts, reference_pending = False, sched_js_handles = [], raised = []\<rparr>"

definition is_sleeping :: "'c rr_scheduler \<Rightarrow> u64 \<Rightarrow> 'c thread_info \<Rightarrow> bool" where
  "is_sleeping s time info = (case wakeup_info info of
      None \<Rightarrow> False
    | Some w \<Rightarrow>
        if w_kind w = RR_WAKEUP_REFERENCE_PENDING then \<not> reference_pending s
        else if w_kind w = RR_WAKEUP_SLEEP \<or>
            (w_kind w = RR_THREAD_PARK \<and> \<not> vt_unpark_permit (threads s (ti_thread info))) \<or>
            (w_kind w = RR_MONITOR_WAIT \<and> \<not> w_ready w) \<or>
            (w_kind w = RR_MONITOR_ENTER_WAITING \<and> \<not> w_ready w) then
          let wakeup = w_us w;
              interrupted = vt_interrupted (threads s (ti_thread info)) \<and> w_kind w \<noteq> RR_MONITOR_ENTER_WAITING in
          \<not> interrupted \<and> (wakeup = 0 \<or> wakeup \<ge> time)
        else False)"

section \<open>Choosing a thread\<close>

text \<open>The first loop of \<^verbatim>\<open>get_next_thr\<close>: the head goes to the end until one is awake.\<close>

fun rotate_until :: "nat \<Rightarrow> ('c thread_info \<Rightarrow> bool) \<Rightarrow> 'c thread_info list \<Rightarrow> 'c thread_info option \<times> 'c thread_info list" where
  "rotate_until (Suc n) sleeping (i # rr) =
     (if \<not> sleeping i then (Some i, rr @ [i]) else rotate_until n sleeping (rr @ [i]))"
| "rotate_until n sleeping rr = (None, rr)"

definition sleep_time :: "'c thread_info \<Rightarrow> u64" where
  "sleep_time i = (case wakeup_info i of Some w \<Rightarrow> w_us w | None \<Rightarrow> 0)"

text \<open>The second loop, with \<^verbatim>\<open>i\<close>, \<^verbatim>\<open>best_i\<close>, \<^verbatim>\<open>closest\<close> and \<^verbatim>\<open>info\<close>. It runs when all
  threads sleep, so that every \<^verbatim>\<open>wakeup_info\<close> is set.\<close>

fun find_closest :: "nat \<Rightarrow> nat \<Rightarrow> u64 \<Rightarrow> 'c thread_info \<Rightarrow> 'c thread_info list \<Rightarrow> nat \<times> 'c thread_info" where
  "find_closest i best_i closest info [] = (best_i, info)"
| "find_closest i best_i closest info (x # rr) =
     (if sleep_time x < closest then find_closest (Suc i) i (sleep_time x) x rr
      else find_closest (Suc i) best_i closest info rr)"

definition get_next_thr :: "('c thread_info \<Rightarrow> bool) \<Rightarrow> 'c thread_info list \<Rightarrow> 'c thread_info \<times> 'c thread_info list" where
  "get_next_thr sleeping rr = (case rotate_until (length rr) sleeping rr of
      (Some info, rr') \<Rightarrow> (info, rr')
    | (None, rr') \<Rightarrow>
        let (best_i, info) = find_closest 0 0 (- 1) (last rr') rr' in
        (info, take best_i rr' @ drop (Suc best_i) rr' @ [rr' ! best_i]))"

section \<open>Sleeping\<close>

fun may_sleep_loop :: "'c rr_scheduler \<Rightarrow> u64 \<Rightarrow> u64 \<Rightarrow> 'c thread_info list \<Rightarrow> u64" where
  "may_sleep_loop s time mn [] = (if mn > time then mn - time else 0)"
| "may_sleep_loop s time mn (info # rr) =
     (if call_queue info \<noteq> [] then
        if is_sleeping s time info then
          may_sleep_loop s time (if sleep_time info \<noteq> 0 \<and> sleep_time info < mn then sleep_time info else mn) rr
        else 0
      else may_sleep_loop s time mn rr)"

definition rr_scheduler_may_sleep_us :: "u64 \<Rightarrow> 'c rr_scheduler \<Rightarrow> u64" where
  "rr_scheduler_may_sleep_us time s = may_sleep_loop s time (- 1) (round_robin s)"

section \<open>Steps\<close>

definition find_info :: "nat \<Rightarrow> 'c rr_scheduler \<Rightarrow> 'c thread_info option" where
  "find_info t s = find (\<lambda>i. ti_thread i = t) (round_robin s)"

fun remove_info :: "nat \<Rightarrow> 'c thread_info list \<Rightarrow> 'c thread_info list" where
  "remove_info t [] = []"
| "remove_info t (i # rr) = (if ti_thread i = t then rr else i # remove_info t rr)"

definition unshift :: "nat \<Rightarrow> 'c rr_scheduler \<Rightarrow> 'c rr_scheduler" where
  "unshift t s =
     (let s = update_info t (\<lambda>i. i\<lparr>call_queue := tl (call_queue i)\<rparr>) s in
      case find_info t s of
        Some i \<Rightarrow>
          if call_queue i = [] then free_thread_info i (s\<lparr>round_robin := remove_info t (round_robin s)\<rparr>) else s
      | None \<Rightarrow> s)"

definition only_daemons_running :: "'c rr_scheduler \<Rightarrow> bool" where
  "only_daemons_running s \<longleftrightarrow> list_all (\<lambda>i. vt_daemon (threads s (ti_thread i))) (round_robin s)"

text \<open>A finished call: its record gets the result, a handle if that is an object, and the call leaves
  the queue of its thread.\<close>

definition finish_call :: "nat \<Rightarrow> nat \<Rightarrow> nat stack_value \<Rightarrow> 'c rr_scheduler \<Rightarrow> 'c rr_scheduler" where
  "finish_call t rec v s =
     (let (h, hs) = (case v of Obj (Some x) \<Rightarrow> make_js_handle (sched_js_handles s) x | _ \<Rightarrow> (-1, sched_js_handles s)) in
      unshift t (s\<lparr>sched_js_handles := hs,
        exec_records := (exec_records s)(rec := (exec_records s rec)\<lparr>er_status := SCHEDULER_RESULT_DONE, er_returned := v,
          er_js_handle := h\<rparr>)\<rparr>))"

definition yield_time :: "u64 \<Rightarrow> u64 \<Rightarrow> u64" where
  "yield_time time quantum = (if time + quantum < time then - 1 else time + quantum)"

definition run_head :: "('c \<Rightarrow> 'c rr_scheduler \<Rightarrow> 'c outcome \<times> 'c rr_scheduler) \<Rightarrow> 'c thread_info \<Rightarrow> 'c pending_call \<Rightarrow>
    'c rr_scheduler \<Rightarrow> 'c rr_scheduler" where
  "run_head interp info call s = (case interp (pc_call call) s of
      (Ready v, s') \<Rightarrow> finish_call (ti_thread info) (pc_record call) v s'
    | (Not_ready w c, s') \<Rightarrow>
        update_info (ti_thread info)
          (\<lambda>i. i\<lparr>wakeup_info := w, call_queue := call\<lparr>pc_call := c\<rparr> # tl (call_queue i)\<rparr>) s')"

definition no_work :: "'c rr_scheduler \<Rightarrow> bool" where
  "no_work s \<longleftrightarrow> round_robin s = [] \<or> only_daemons_running s"

lemma rotate_until_mset: "rotate_until n sleeping rr = (x, rr') \<Longrightarrow> mset rr' = mset rr"
  by (induction n sleeping rr rule: rotate_until.induct) (auto split: if_splits)

lemma find_closest_bound:
  "find_closest i b c x rr = (j, y) \<Longrightarrow> b \<le> i \<Longrightarrow> j = b \<or> j < i + length rr"
  by (induction i b c x rr rule: find_closest.induct) (fastforce split: if_splits)+

lemma get_next_thr_mset:
  assumes "rr \<noteq> []" "get_next_thr sleeping rr = (i, rr')"
  shows "mset rr' = mset rr"
proof (cases "rotate_until (length rr) sleeping rr")
  case (Pair x r)
  note m = rotate_until_mset [OF Pair]
  show ?thesis
  proof (cases x)
    case None
    obtain b j where f: "find_closest 0 0 (- 1) (last r) r = (b, j)" by fastforce
    have "length r = length rr" using m by (metis size_mset)
    with assms(1) find_closest_bound [OF f] have b: "b < length r" by auto
    have "rr' = take b r @ drop (Suc b) r @ [r ! b]" using assms(2) Pair None f by (simp add: get_next_thr_def)
    then have "mset rr' = mset (take b r @ r ! b # drop (Suc b) r)" by simp
    with m b show ?thesis by (simp flip: id_take_nth_drop)
  qed (use assms Pair m in \<open>auto simp: get_next_thr_def\<close>)
qed

text \<open>\<open>clock n\<close> is the \<open>n\<close>-th reading of the clock. A thread without pending calls, as
  \<^verbatim>\<open>rr_scheduler_execute_immediately\<close> leaves behind, is dropped, and the step starts again.\<close>

function rr_scheduler_step :: "('c \<Rightarrow> 'c rr_scheduler \<Rightarrow> 'c outcome \<times> 'c rr_scheduler) \<Rightarrow> (nat \<Rightarrow> u64) \<Rightarrow> nat \<Rightarrow>
    'c rr_scheduler \<Rightarrow> scheduler_status \<times> 'c rr_scheduler" where
  "rr_scheduler_step interp clock n s =
     (if no_work s then (SCHEDULER_RESULT_DONE, s)
      else
        let time = clock n;
            (info, rr) = get_next_thr (is_sleeping s (clock (Suc n))) (round_robin s);
            s = update_thread (ti_thread info) (\<lambda>v. v\<lparr>vt_fuel := 200000\<rparr>) (s\<lparr>round_robin := rr\<rparr>) in
        if is_sleeping s time info then (SCHEDULER_RESULT_MORE, s)
        else
          let s = update_thread (ti_thread info) (\<lambda>v. v\<lparr>vt_yield_at_time := yield_time time (preemption_us s)\<rparr>)
                    (update_info (ti_thread info) (\<lambda>i. i\<lparr>wakeup_info := None\<rparr>) s) in
          case call_queue info of
            [] \<Rightarrow> rr_scheduler_step interp clock (n + 2) (s\<lparr>round_robin := butlast (round_robin s)\<rparr>)
          | call # _ \<Rightarrow>
              let s = run_head interp info call s in
              (if no_work s then SCHEDULER_RESULT_DONE else SCHEDULER_RESULT_MORE, s))"
  by pat_completeness auto
termination
proof (relation "measure (\<lambda>(interp, clock, n, s). length (round_robin s))", goal_cases)
  case (2 interp clock n s t ip info rr s' s'')
  then have "mset rr = mset (round_robin s)"
    by (intro get_next_thr_mset [of "round_robin s" _ info]) (auto simp: no_work_def)
  then have "length rr = length (round_robin s)" by (metis size_mset)
  with 2 show ?case by (auto simp: no_work_def update_thread_def update_info_def)
qed auto

declare rr_scheduler_step.simps [simp del]

section \<open>Requests\<close>

definition get_or_create_thread_info :: "nat \<Rightarrow> 'c rr_scheduler \<Rightarrow> 'c rr_scheduler" where
  "get_or_create_thread_info t s = (case find_info t s of
      Some _ \<Rightarrow> s
    | None \<Rightarrow> s\<lparr>round_robin := round_robin s @ [\<lparr>ti_thread = t, call_queue = [], wakeup_info = None\<rparr>]\<rparr>)"

definition rr_scheduler_run :: "nat \<Rightarrow> 'c \<Rightarrow> 'c rr_scheduler \<Rightarrow> nat \<times> 'c rr_scheduler" where
  "rr_scheduler_run t call s =
     (let s = get_or_create_thread_info t s;
          rec = exec_made s;
          s = update_info t (\<lambda>i. i\<lparr>call_queue := call_queue i @ [\<lparr>pc_call = call, pc_record = rec\<rparr>]\<rparr>) s in
      (rec, s\<lparr>executions := executions s @ [rec], exec_made := Suc rec,
        exec_records := (exec_records s)(rec := \<lparr>er_status = SCHEDULER_RESULT_MORE, er_returned = Bits 0, er_thread = t,
          er_js_handle = 0\<rparr>)\<rparr>))"

text \<open>After \<^verbatim>\<open>arrdel(info->call_queue, 0)\<close> the pointer \<^verbatim>\<open>call\<close> refers to the next pending call,
  or to the one just deleted when the queue has become empty. \<open>fuel\<close> bounds the number of calls that are
  run.\<close>

primrec execute_calls :: "nat \<Rightarrow> ('c \<Rightarrow> 'c rr_scheduler \<Rightarrow> 'c outcome \<times> 'c rr_scheduler) \<Rightarrow> nat \<Rightarrow> nat \<Rightarrow>
    'c rr_scheduler \<Rightarrow> (scheduler_status \<times> 'c rr_scheduler) option" where
  "execute_calls 0 interp t record s = None"
| "execute_calls (Suc fuel) interp t record s = (case find_info t s of
      None \<Rightarrow> Some (SCHEDULER_RESULT_DONE, s)
    | Some info \<Rightarrow> (case call_queue info of
        [] \<Rightarrow> Some (SCHEDULER_RESULT_DONE, s)
      | call # _ \<Rightarrow> (case interp (pc_call call) s of
          (Not_ready w c, s') \<Rightarrow>
            Some (SCHEDULER_RESULT_INVAL,
              (update_info t (\<lambda>i. i\<lparr>call_queue := call\<lparr>pc_call := c\<rparr> # tl (call_queue i)\<rparr>) s')\<lparr>raised := raised s' @ [er_thread (exec_records s' record)]\<rparr>)
        | (Ready v, s') \<Rightarrow>
            let s'' = update_info t (\<lambda>i. i\<lparr>call_queue := tl (call_queue i)\<rparr>) s';
                at_call = (case find_info t s'' of Some i \<Rightarrow> (case call_queue i of [] \<Rightarrow> pc_record call | c # _ \<Rightarrow> pc_record c)
                  | None \<Rightarrow> pc_record call) in
            if at_call = record then Some (SCHEDULER_RESULT_DONE, s'')
            else execute_calls fuel interp t record s'')))"

definition rr_scheduler_execute_immediately :: "nat \<Rightarrow> ('c \<Rightarrow> 'c rr_scheduler \<Rightarrow> 'c outcome \<times> 'c rr_scheduler) \<Rightarrow> nat \<Rightarrow>
    'c rr_scheduler \<Rightarrow> (scheduler_status \<times> 'c rr_scheduler) option" where
  "rr_scheduler_execute_immediately fuel interp record s = execute_calls fuel interp (er_thread (exec_records s record)) record s"

definition is_nth_arg_reference :: "bool \<Rightarrow> type_kind list \<Rightarrow> nat \<Rightarrow> bool" where
  "is_nth_arg_reference is_static ks i =
     (if is_static then ks ! i = TYPE_KIND_REFERENCE else i = 0 \<or> ks ! (i - 1) = TYPE_KIND_REFERENCE)"

text \<open>The argument slots of the pending calls that hold references: the index of the info, of the call
  in its queue and of the argument. \<open>shape\<close> gives the static flag and the argument kinds of a call's method.\<close>

definition method_argc :: "bool \<Rightarrow> type_kind list \<Rightarrow> nat" where
  "method_argc is_static ks = length ks + (if is_static then 0 else 1)"

definition rr_scheduler_enumerate_gc_roots :: "('c \<Rightarrow> bool \<times> type_kind list) \<Rightarrow> 'c rr_scheduler \<Rightarrow> (nat \<times> nat \<times> nat) list" where
  "rr_scheduler_enumerate_gc_roots shape s =
     [(i, j, k). i \<leftarrow> [0..<length (round_robin s)], j \<leftarrow> [0..<length (call_queue (round_robin s ! i))],
        (st, ks) \<leftarrow> [shape (pc_call (call_queue (round_robin s ! i) ! j))],
        k \<leftarrow> [0..<method_argc st ks], is_nth_arg_reference st ks k]"

text \<open>\<^verbatim>\<open>arrdelswap\<close>: the last element takes the place of the removed one.\<close>

definition remove_swap :: "nat \<Rightarrow> nat list \<Rightarrow> nat list" where
  "remove_swap x xs = (let i = length (takeWhile (\<lambda>y. y \<noteq> x) xs) in
     if i < length xs then butlast (xs[i := last xs]) else xs)"

definition free_execution_record :: "nat \<Rightarrow> 'c rr_scheduler \<Rightarrow> 'c rr_scheduler" where
  "free_execution_record rec s =
     (let h = er_js_handle (exec_records s rec) in
      s\<lparr>sched_js_handles := (if h \<noteq> -1 then drop_js_handle (sched_js_handles s) h else sched_js_handles s),
        executions := remove_swap rec (executions s)\<rparr>)"

definition free_thread_info_shutdown :: "'c thread_info \<Rightarrow> 'c rr_scheduler \<Rightarrow> 'c rr_scheduler" where
  "free_thread_info_shutdown i s =
     fold (\<lambda>call. free_execution_record (pc_record call)) (call_queue i)
       (update_thread (ti_thread i) (\<lambda>v. v\<lparr>vt_eetop := False\<rparr>) s)"

text \<open>The records freed by the second loop, and the state after the queues are gone.\<close>

definition rr_scheduler_uninit :: "'c rr_scheduler \<Rightarrow> nat list \<times> 'c rr_scheduler" where
  "rr_scheduler_uninit s =
     (let s' = fold free_thread_info_shutdown (round_robin s) s in
      (executions s', s'\<lparr>executions := [], round_robin := []\<rparr>))"

section \<open>Infos are found by their thread\<close>

lemma find_update:
  assumes "\<And>i. ti_thread (f i) = ti_thread i"
  shows "find (\<lambda>i. ti_thread i = t) (map (\<lambda>i. if ti_thread i = u then f i else i) rr) =
    map_option (\<lambda>i. if t = u then f i else i) (find (\<lambda>i. ti_thread i = t) rr)"
  by (induction rr) (auto simp: assms)

lemma find_info_update:
  assumes "\<And>i. ti_thread (f i) = ti_thread i"
  shows "find_info t (update_info u f s) = map_option (\<lambda>i. if t = u then f i else i) (find_info t s)"
  unfolding find_info_def update_info_def by (simp add: find_update [where f = f] assms)

section \<open>The rotation\<close>

lemma rotate_until_first_awake:
  assumes "list_all sleeping xs" "\<not> sleeping i" "length xs < n"
  shows "rotate_until n sleeping (xs @ i # ys) = (Some i, ys @ xs @ [i])"
  using assms
proof (induction xs arbitrary: n ys)
  case Nil
  then show ?case by (cases n) auto
next
  case (Cons x xs)
  then obtain m where "n = Suc m" by (cases n) auto
  with Cons show ?case by simp
qed

lemma rotate_until_all_asleep:
  "list_all sleeping xs \<Longrightarrow> rotate_until (length xs) sleeping (xs @ ys) = (None, ys @ xs)"
proof (induction xs arbitrary: ys)
  case Nil
  then show ?case by (cases ys) auto
qed simp

lemma get_next_thr_awake:
  assumes "list_all sleeping xs" "\<not> sleeping i"
  shows "get_next_thr sleeping (xs @ i # ys) = (i, ys @ xs @ [i])"
  using rotate_until_first_awake [OF assms, of "length (xs @ i # ys)" ys] by (simp add: get_next_thr_def)

text \<open>Where a thread stands in the queue.\<close>

definition position :: "nat \<Rightarrow> 'c thread_info list \<Rightarrow> nat" where
  "position t rr = length (takeWhile (\<lambda>i. ti_thread i \<noteq> t) rr)"

lemma position_append: "t \<notin> ti_thread ` set xs \<Longrightarrow> position t (xs @ ys) = length xs + position t ys"
  unfolding position_def by (subst takeWhile_append2) auto

lemma position_hit: "t \<in> ti_thread ` set xs \<Longrightarrow> position t (xs @ ys) = position t xs"
  by (auto simp: position_def takeWhile_append1)

lemma get_next_thr_progress:
  assumes t: "t \<in> ti_thread ` set rr" and awake: "\<forall>i\<in>set rr. ti_thread i = t \<longrightarrow> \<not> sleeping i"
    and g: "get_next_thr sleeping rr = (j, rr')" and ne: "ti_thread j \<noteq> t"
  shows "position t rr' < position t rr"
proof -
  have "\<exists>i\<in>set rr. \<not> sleeping i" using t awake by blast
  then obtain xs i ys where rr: "rr = xs @ i # ys" and i: "\<not> sleeping i" and xs: "\<forall>x\<in>set xs. sleeping x"
    using split_list_first_prop [of rr "\<lambda>x. \<not> sleeping x"] by auto
  have e: "j = i" "rr' = ys @ xs @ [i]" using get_next_thr_awake [of sleeping xs i ys] xs i g by (auto simp: rr list_all_iff)
  have "t \<notin> ti_thread ` set xs" using awake xs by (auto simp: rr)
  moreover from this t ne have "t \<in> ti_thread ` set ys" by (auto simp: rr e)
  ultimately show ?thesis using ne by (simp add: rr e position_append position_hit) (simp add: position_def)
qed

section \<open>Properties\<close>

text \<open>C26. Fairness of the scheduler: a thread that stays in the queue and stays awake is chosen after at
  most as many choices as there are threads before it, whatever the other threads do in the meantime. Here
  \<open>s k\<close> is the state before the \<open>k\<close>-th choice; between two choices threads may come, go, fall asleep and
  wake up, as long as the thread is not moved back in the queue.\<close>

theorem scheduler_fair:
  assumes "\<forall>k. get_next_thr (is_sleeping (s k) (time k)) (round_robin (s k)) = (picked k, rr k)"
    and "\<forall>k. t \<in> ti_thread ` set (round_robin (s k))"
    and "\<forall>k. \<forall>i\<in>set (round_robin (s k)). ti_thread i = t \<longrightarrow> \<not> is_sleeping (s k) (time k) i"
    and "\<forall>k. position t (round_robin (s (Suc k))) \<le> position t (rr k)"
  shows "\<exists>k\<le>position t (round_robin (s 0)). ti_thread (picked k) = t"
proof (rule ccontr)
  let ?p = "\<lambda>k. position t (round_robin (s k))"
  assume "\<not> ?thesis"
  then have ne: "ti_thread (picked k) \<noteq> t" if "k \<le> ?p 0" for k using that by blast
  have step: "?p (Suc k) < ?p k" if "k \<le> ?p 0" for k
    using get_next_thr_progress [of t "round_robin (s k)" "is_sleeping (s k) (time k)" "picked k" "rr k"] assms ne [OF that]
    by (meson le_less_trans)
  have "?p k + k \<le> ?p 0" if "k \<le> Suc (?p 0)" for k
    using that
  proof (induction k)
    case (Suc k)
    with step [of k] show ?case by simp
  qed simp
  from this [of "Suc (?p 0)"] show False by simp
qed

definition idle_vm_thread :: vm_thread where
  "idle_vm_thread = \<lparr>vt_interrupted = False, vt_unpark_permit = False, vt_daemon = False, vt_obj = 0, vt_eetop = True,
     vt_fuel = 0, vt_yield_at_time = 0\<rparr>"

definition blank_record :: execution_record where
  "blank_record = \<lparr>er_status = SCHEDULER_RESULT_MORE, er_returned = Bits 0, er_thread = 0, er_js_handle = 0\<rparr>"

text \<open>Two threads, the first asleep or awake, that take turns.\<close>

definition two_threads :: "nat \<Rightarrow> nat rr_scheduler" where
  "two_threads k = (let i = (\<lambda>t. \<lparr>ti_thread = t, call_queue = [], wakeup_info = None\<rparr>) in
     (rr_scheduler_init (\<lambda>_. idle_vm_thread) (\<lambda>_. blank_record))\<lparr>round_robin := (if even k then [i 1, i 2] else [i 2, i 1])\<rparr>)"

theorem scheduler_fair_witness:
  "\<exists>k\<le>1. ti_thread (fst (get_next_thr (is_sleeping (two_threads k) 0) (round_robin (two_threads k)))) = 2"
  using scheduler_fair [of two_threads "\<lambda>_. 0"
      "\<lambda>k. fst (get_next_thr (is_sleeping (two_threads k) 0) (round_robin (two_threads k)))"
      "\<lambda>k. snd (get_next_thr (is_sleeping (two_threads k) 0) (round_robin (two_threads k)))" 2]
  by (simp add: two_threads_def Let_def position_def get_next_thr_def is_sleeping_def)

section \<open>Sleeping\<close>

definition time_left :: "u64 \<Rightarrow> u64 \<Rightarrow> u64" where
  "time_left time wakeup = (if wakeup > time then wakeup - time else 0)"

lemma time_left_mono: "a \<le> b \<Longrightarrow> time_left time a \<le> time_left time b"
  by (auto simp: time_left_def word_le_nat_alt word_less_nat_alt unat_sub)

lemma may_sleep_loop_le: "may_sleep_loop s time mn rr \<le> time_left time mn"
proof (induction rr arbitrary: mn)
  case (Cons i rr)
  have "may_sleep_loop s time (sleep_time i) rr \<le> time_left time mn" if "sleep_time i < mn"
    using Cons [of "sleep_time i"] time_left_mono [of "sleep_time i" mn time] that by (meson less_imp_le order_trans)
  with Cons show ?case by simp
qed (simp add: time_left_def)

text \<open>C27. The host never sleeps past a thread's wake-up time: when a thread with pending calls is awake,
  the time the host may sleep is 0, and for a thread that waits with a timeout it is at most the time left
  until then, computed without wrapping around.\<close>

theorem rr_scheduler_may_sleep_sound:
  assumes "info \<in> set (round_robin s)" "call_queue info \<noteq> []"
  shows "if is_sleeping s time info then
      sleep_time info = 0 \<or> rr_scheduler_may_sleep_us time s \<le> time_left time (sleep_time info)
    else rr_scheduler_may_sleep_us time s = 0"
proof -
  have "if is_sleeping s time info then sleep_time info = 0 \<or> may_sleep_loop s time mn rr \<le> time_left time (sleep_time info)
    else may_sleep_loop s time mn rr = 0" if "info \<in> set rr" for mn rr
    using that
  proof (induction rr arbitrary: mn)
    case (Cons i rr)
    show ?case
    proof (cases "i = info")
      case True
      have "may_sleep_loop s time (if sleep_time info < mn then sleep_time info else mn) rr \<le> time_left time (sleep_time info)"
        using may_sleep_loop_le [of s time "if sleep_time info < mn then sleep_time info else mn" rr]
          time_left_mono [of mn "sleep_time info" time]
        by (cases "sleep_time info < mn") (simp_all, meson not_less order_trans)
      with True assms(2) show ?thesis by (cases "sleep_time info < mn") auto
    next
      case False
      with Cons show ?thesis by simp
    qed
  qed simp
  with assms(1) show ?thesis by (simp add: rr_scheduler_may_sleep_us_def)
qed

definition sleeper :: "u64 \<Rightarrow> nat thread_info" where
  "sleeper t = \<lparr>ti_thread = 1, call_queue = [\<lparr>pc_call = 0, pc_record = 0\<rparr>],
     wakeup_info = Some \<lparr>w_kind = RR_WAKEUP_SLEEP, w_us = t, w_monitor = 0, w_ready = False\<rparr>\<rparr>"

theorem rr_scheduler_may_sleep_sound_witness:
  "rr_scheduler_may_sleep_us 40 ((two_threads 0)\<lparr>round_robin := [sleeper 100]\<rparr>) \<le> 60"
  using rr_scheduler_may_sleep_sound [of "sleeper 100" "(two_threads 0)\<lparr>round_robin := [sleeper 100]\<rparr>" 40]
  by (simp add: sleeper_def is_sleeping_def two_threads_def Let_def rr_scheduler_init_def idle_vm_thread_def
      sleep_time_def time_left_def)

section \<open>Where the code falls short\<close>

lemma ready_first_idem: "ready_first k m (ready_first k m rr) = ready_first k m rr"
  by (induction rr) (auto simp: waits_for_def set_ready_def split: option.splits)

text \<open>\<^verbatim>\<open>Object.notify\<close> can be lost: \<^verbatim>\<open>monitor_notify_one\<close> chooses the first waiter in the
  queue even if it has been notified already and has not run since, so that a second notification, and any
  number of further ones, has no effect: the other waiters are not woken.\<close>

theorem monitor_notify_one_lost: "(monitor_notify_one m ^^ Suc n) s = monitor_notify_one m s"
  by (induction n) (simp_all add: monitor_notify_one_def ready_first_idem)

text \<open>\<^verbatim>\<open>rr_scheduler_execute_immediately\<close> does not run the requested call when another one is
  pending before it on the same thread: after the earlier call it compares the request with the next queue
  entry, reports success, and leaves the requested call in the queue.\<close>

theorem execute_immediately_skips:
  assumes "find_info t s = Some info" "call_queue info = c1 # c2 # rest" "er_thread (exec_records s (pc_record c2)) = t"
    and "interp (pc_call c1) s = (Ready v, s)"
  shows "rr_scheduler_execute_immediately (Suc n) interp (pc_record c2) s =
    Some (SCHEDULER_RESULT_DONE, update_info t (\<lambda>i. i\<lparr>call_queue := tl (call_queue i)\<rparr>) s)"
proof -
  have "find_info t (update_info t (\<lambda>i. i\<lparr>call_queue := tl (call_queue i)\<rparr>) s) = Some (info\<lparr>call_queue := c2 # rest\<rparr>)"
    using assms(1,2) by (subst find_info_update) simp_all
  with assms show ?thesis by (simp add: rr_scheduler_execute_immediately_def Let_def)
qed

theorem execute_immediately_skips_witness:
  "\<exists>(s :: nat rr_scheduler) info. find_info 1 s = Some info \<and> map pc_record (call_queue info) = [0, 1] \<and>
     rr_scheduler_execute_immediately 1 (\<lambda>c s. (Ready (Bits 7), s)) 1 s =
       Some (SCHEDULER_RESULT_DONE, update_info 1 (\<lambda>i. i\<lparr>call_queue := tl (call_queue i)\<rparr>) s)"
proof -
  let ?i = "\<lparr>ti_thread = 1, call_queue = [\<lparr>pc_call = 5, pc_record = 0\<rparr>, \<lparr>pc_call = 6, pc_record = 1\<rparr>], wakeup_info = None\<rparr> :: nat thread_info"
  let ?s = "(rr_scheduler_init (\<lambda>_. idle_vm_thread) (\<lambda>_. blank_record\<lparr>er_thread := 1\<rparr>))\<lparr>round_robin := [?i]\<rparr>"
  have "find_info 1 ?s = Some ?i" by (simp add: find_info_def)
  moreover have "er_thread (exec_records ?s 1) = 1" by (simp add: rr_scheduler_init_def)
  ultimately show ?thesis
    using execute_immediately_skips [of 1 ?s ?i "\<lparr>pc_call = 5, pc_record = 0\<rparr>" "\<lparr>pc_call = 6, pc_record = 1\<rparr>" "[]"
        "\<lambda>c s. (Ready (Bits 7), s)" "Bits 7" 0]
    by (intro exI [of _ ?s] exI [of _ ?i]) simp
qed

text \<open>Freeing the record of a call that has not finished invalidates a handle of somebody else: the
  record's \<^verbatim>\<open>js_handle\<close> is still the 0 of \<^verbatim>\<open>calloc\<close> and not -1, so the JavaScript handle 0 is dropped
  whatever object it refers to.\<close>

theorem free_pending_record_drops_handle:
  "case rr_scheduler_run t c s of (rec, s') \<Rightarrow>
     deref_js_handle (sched_js_handles (free_execution_record rec s')) 0 = None \<and>
     sched_js_handles s' = sched_js_handles s"
  by (simp add: rr_scheduler_run_def Let_def free_execution_record_def update_info_def get_or_create_thread_info_def
      js.drop_deref split: option.splits)

section \<open>No request is lost\<close>

definition records_of :: "'c thread_info \<Rightarrow> nat list" where
  "records_of i = map pc_record (call_queue i)"

definition pending :: "'c rr_scheduler \<Rightarrow> nat list" where
  "pending s = concat (map records_of (round_robin s))"

definition sched_ok :: "'c rr_scheduler \<Rightarrow> bool" where
  "sched_ok s \<longleftrightarrow> distinct (map ti_thread (round_robin s)) \<and> distinct (pending s) \<and>
     (\<forall>r\<in>set (pending s). r < exec_made s \<and> er_status (exec_records s r) = SCHEDULER_RESULT_MORE)"

text \<open>What the scheduler relies on of the interpreter: it may make requests, but removes none, and does not
  touch the results of finished ones.\<close>

definition interp_ok :: "('c \<Rightarrow> 'c rr_scheduler \<Rightarrow> 'c outcome \<times> 'c rr_scheduler) \<Rightarrow> bool" where
  "interp_ok interp \<longleftrightarrow> (\<forall>c s. sched_ok s \<longrightarrow>
     (let s' = snd (interp c s) in sched_ok s' \<and>
        (\<forall>i\<in>set (round_robin s). \<exists>i'\<in>set (round_robin s'). \<exists>more. ti_thread i' = ti_thread i \<and>
           records_of i' = records_of i @ more)))"

definition keeps_requests :: "'c rr_scheduler \<Rightarrow> 'c rr_scheduler \<Rightarrow> bool" where
  "keeps_requests s s' \<longleftrightarrow> sched_ok s' \<and>
     (\<forall>r\<in>set (pending s). r \<in> set (pending s') \<or> er_status (exec_records s' r) = SCHEDULER_RESULT_DONE)"

lemma pending_mset:
  assumes "mset rr = mset (round_robin s)"
  shows "mset (pending (s\<lparr>round_robin := rr\<rparr>)) = mset (pending s)"
proof -
  have "mset (concat xss) = sum_mset (image_mset mset (mset xss))" for xss :: "nat list list"
    by (induction xss) auto
  then show ?thesis using assms by (simp add: pending_def)
qed

lemma sched_ok_mset:
  assumes "sched_ok s" "mset rr = mset (round_robin s)"
  shows "sched_ok (s\<lparr>round_robin := rr\<rparr>) \<and> set (pending (s\<lparr>round_robin := rr\<rparr>)) = set (pending s)"
proof -
  have "mset (map ti_thread rr) = mset (map ti_thread (round_robin s))" using assms(2) by simp
  then have "distinct (map ti_thread rr)" using assms(1) mset_eq_imp_distinct_iff by (auto simp: sched_ok_def simp del: mset_map)
  moreover have "distinct (pending (s\<lparr>round_robin := rr\<rparr>))" "set (pending (s\<lparr>round_robin := rr\<rparr>)) = set (pending s)"
    using mset_eq_imp_distinct_iff [OF pending_mset [OF assms(2)]] mset_eq_setD [OF pending_mset [OF assms(2)]] assms(1)
    by (simp_all add: sched_ok_def)
  ultimately show ?thesis using assms(1) by (simp add: sched_ok_def)
qed

text \<open>Changes that leave threads, queues and records alone.\<close>

lemma sched_ok_same:
  assumes "map (\<lambda>i. (ti_thread i, records_of i)) (round_robin s') = map (\<lambda>i. (ti_thread i, records_of i)) (round_robin s)"
    and "exec_made s' = exec_made s" "exec_records s' = exec_records s"
  shows "sched_ok s' = sched_ok s \<and> pending s' = pending s"
proof -
  have "map ti_thread (round_robin s') = map ti_thread (round_robin s)"
    and "map records_of (round_robin s') = map records_of (round_robin s)"
    using arg_cong [OF assms(1), of "map fst"] arg_cong [OF assms(1), of "map snd"] by (simp_all add: o_def)
  with assms show ?thesis by (simp add: sched_ok_def pending_def)
qed

lemma sched_ok_update_thread: "sched_ok (update_thread t f s) = sched_ok s \<and> pending (update_thread t f s) = pending s"
  by (rule sched_ok_same) (simp_all add: update_thread_def)

lemma sched_ok_update_info:
  assumes "\<And>i. ti_thread (f i) = ti_thread i" "\<And>i. i \<in> set (round_robin s) \<Longrightarrow> ti_thread i = t \<Longrightarrow> records_of (f i) = records_of i"
  shows "sched_ok (update_info t f s) = sched_ok s \<and> pending (update_info t f s) = pending s"
  using assms by (intro sched_ok_same) (auto simp: update_info_def)

lemma sched_ok_notify: "sched_ok (monitor_notify_all m s) = sched_ok s \<and> pending (monitor_notify_all m s) = pending s"
  by (rule sched_ok_same) (auto simp: monitor_notify_all_def set_ready_def records_of_def)

lemma sched_ok_split:
  assumes "sched_ok s" "i \<in> set (round_robin s)"
  obtains xs ys where "round_robin s = xs @ i # ys" "ti_thread i \<notin> ti_thread ` set (xs @ ys)"
    "find_info (ti_thread i) s = Some i"
proof -
  from assms(2) obtain xs ys where r: "round_robin s = xs @ i # ys" by (metis split_list)
  with assms(1) have n: "ti_thread i \<notin> ti_thread ` set (xs @ ys)" by (auto simp: sched_ok_def)
  then have "find (\<lambda>j. ti_thread j = ti_thread i) (xs @ i # ys) = Some i" by (induction xs) auto
  with r n show thesis by (intro that [of xs ys]) (simp_all add: find_info_def)
qed

lemma map_other_threads: "t \<notin> ti_thread ` set xs \<Longrightarrow> map (\<lambda>i. if ti_thread i = t then f i else i) xs = xs"
  by (induction xs) auto

lemma remove_info_append: "t \<notin> ti_thread ` set xs \<Longrightarrow> remove_info t (xs @ ys) = xs @ remove_info t ys"
  by (induction xs) auto

lemma unshift_spec:
  assumes ok: "sched_ok s" and i: "i \<in> set (round_robin s)" and q: "records_of i = r # rs"
  shows "distinct (map ti_thread (round_robin (unshift (ti_thread i) s))) \<and>
    (\<exists>as bs. pending s = as @ r # bs \<and> pending (unshift (ti_thread i) s) = as @ bs) \<and>
    exec_made (unshift (ti_thread i) s) = exec_made s \<and> exec_records (unshift (ti_thread i) s) = exec_records s"
proof -
  obtain xs ys where rr: "round_robin s = xs @ i # ys" and n: "ti_thread i \<notin> ti_thread ` set (xs @ ys)"
    and f: "find_info (ti_thread i) s = Some i" by (rule sched_ok_split [OF ok i])
  let ?t = "ti_thread i" let ?i = "i\<lparr>call_queue := tl (call_queue i)\<rparr>"
  let ?s = "update_info ?t (\<lambda>i. i\<lparr>call_queue := tl (call_queue i)\<rparr>) s"
  have nx: "?t \<notin> ti_thread ` set xs" "?t \<notin> ti_thread ` set ys" using n by auto
  then have rr': "round_robin ?s = xs @ ?i # ys"
    unfolding update_info_def rr by (simp add: map_other_threads [simplified])
  have ri: "records_of ?i = rs" using q by (cases "call_queue i") (auto simp: records_of_def)
  have find: "find_info ?t ?s = Some ?i" using f by (subst find_info_update) simp_all
  have dist: "distinct (map ti_thread (xs @ ys))" using ok by (auto simp: sched_ok_def rr)
  have pend: "pending s = concat (map records_of xs) @ r # rs @ concat (map records_of ys)"
    by (simp add: pending_def rr q)
  show ?thesis
  proof (cases "call_queue ?i = []")
    case True
    then have "rs = []" using ri by (simp add: records_of_def)
    let ?s' = "?s\<lparr>round_robin := remove_info ?t (round_robin ?s)\<rparr>"
    have r': "round_robin ?s' = xs @ ys" using nx by (simp add: rr' remove_info_append)
    have u: "unshift ?t s = free_thread_info ?i ?s'" using True find by (simp add: unshift_def Let_def)
    have m: "map ti_thread (round_robin (free_thread_info j z)) = map ti_thread (round_robin z)"
      "map records_of (round_robin (free_thread_info j z)) = map records_of (round_robin z)"
      "exec_made (free_thread_info j z) = exec_made z" "exec_records (free_thread_info j z) = exec_records z"
      for j and z :: "'a rr_scheduler"
      by (auto simp: free_thread_info_def monitor_notify_all_def update_thread_def set_ready_def records_of_def)
    have e: "exec_made ?s' = exec_made s" "exec_records ?s' = exec_records s" by (simp_all add: update_info_def)
    have "pending (unshift ?t s) = concat (map records_of xs) @ concat (map records_of ys)"
      unfolding pending_def u m r' by simp
    moreover have "pending s = concat (map records_of xs) @ r # concat (map records_of ys)" using pend \<open>rs = []\<close> by simp
    moreover have "distinct (map ti_thread (round_robin (unshift ?t s)))" unfolding u m r' by (rule dist)
    moreover have "exec_made (unshift ?t s) = exec_made s \<and> exec_records (unshift ?t s) = exec_records s"
      unfolding u m e by simp
    ultimately show ?thesis by blast
  next
    case False
    then have "unshift ?t s = ?s" using find by (simp add: unshift_def Let_def)
    moreover have "pending ?s = concat (map records_of xs) @ rs @ concat (map records_of ys)"
      by (simp add: pending_def rr' ri)
    moreover have "distinct (map ti_thread (round_robin ?s))" using ok by (auto simp: sched_ok_def rr rr')
    ultimately show ?thesis using pend by (auto simp: update_info_def)
  qed
qed

lemma finish_call_keeps:
  assumes "sched_ok s" "i \<in> set (round_robin s)" "records_of i = r # rs"
  shows "keeps_requests s (finish_call (ti_thread i) r v s)"
proof -
  define s1 where "s1 = s\<lparr>sched_js_handles := snd (case v of Obj (Some x) \<Rightarrow> make_js_handle (sched_js_handles s) x | _ \<Rightarrow> (-1, sched_js_handles s)),
    exec_records := (exec_records s)(r := (exec_records s r)\<lparr>er_status := SCHEDULER_RESULT_DONE, er_returned := v,
      er_js_handle := fst (case v of Obj (Some x) \<Rightarrow> make_js_handle (sched_js_handles s) x | _ \<Rightarrow> (-1, sched_js_handles s))\<rparr>)\<rparr>"
  have u: "finish_call (ti_thread i) r v s = unshift (ti_thread i) s1"
    by (simp add: finish_call_def s1_def split_beta Let_def)
  \<comment> \<open>unshift does not look at the records\<close>
  have same: "exec_records (unshift t s1) = exec_records s1" "exec_made (unshift t s1) = exec_made s"
    "round_robin (unshift t s1) = round_robin (unshift t s)" for t
    by (auto simp: unshift_def Let_def s1_def free_thread_info_def monitor_notify_all_def update_thread_def update_info_def
        find_info_def split: option.splits)
  from unshift_spec [OF assms] obtain as bs where d: "distinct (map ti_thread (round_robin (unshift (ti_thread i) s)))"
    and p: "pending s = as @ r # bs" "pending (unshift (ti_thread i) s) = as @ bs" by blast
  have p': "pending (unshift (ti_thread i) s1) = as @ bs" using p(2) same(3) by (simp add: pending_def)
  have st: "er_status (exec_records s1 x) = (if x = r then SCHEDULER_RESULT_DONE else er_status (exec_records s x))" for x
    by (simp add: s1_def)
  have "sched_ok (unshift (ti_thread i) s1)"
    using assms(1) d p(1) unfolding sched_ok_def p' same st by auto
  moreover have "er_status (exec_records (unshift (ti_thread i) s1) r) = SCHEDULER_RESULT_DONE" unfolding same st by simp
  ultimately show ?thesis unfolding keeps_requests_def u p(1) p' by auto
qed

lemma sched_ok_unique:
  assumes "sched_ok s" "i \<in> set (round_robin s)" "j \<in> set (round_robin s)" "ti_thread i = ti_thread j"
  shows "i = j"
  using assms by (auto simp: sched_ok_def distinct_map inj_on_def)

lemma run_head_keeps:
  assumes ip: "interp_ok interp" and ok: "sched_ok s" and i: "i \<in> set (round_robin s)" "ti_thread i = ti_thread info"
    and q: "call_queue i = call # q"
  shows "keeps_requests s (run_head interp info call s)"
proof -
  obtain out s' where o: "interp (pc_call call) s = (out, s')" by fastforce
  have ok': "sched_ok s'" and pre: "\<And>i. i \<in> set (round_robin s) \<Longrightarrow>
      \<exists>i'\<in>set (round_robin s'). \<exists>more. ti_thread i' = ti_thread i \<and> records_of i' = records_of i @ more"
    using ip ok o unfolding interp_ok_def Let_def by (metis snd_conv)+
  have sub: "set (pending s) \<subseteq> set (pending s')"
  proof
    fix r assume "r \<in> set (pending s)"
    then obtain j where j: "j \<in> set (round_robin s)" "r \<in> set (records_of j)" by (auto simp: pending_def)
    from pre [OF j(1)] obtain i' more where "i' \<in> set (round_robin s')" "records_of i' = records_of j @ more" by blast
    with j(2) show "r \<in> set (pending s')" by (auto simp: pending_def intro!: bexI [of _ i'])
  qed
  obtain i' more where i': "i' \<in> set (round_robin s')" "ti_thread i' = ti_thread info" "records_of i' = records_of i @ more"
    using pre [OF i(1)] i(2) by auto
  then have r: "records_of i' = pc_record call # (map pc_record q @ more)" by (simp add: records_of_def q)
  show ?thesis
  proof (cases out)
    case (Ready v)
    with finish_call_keeps [OF ok' i'(1) r, of v] sub show ?thesis
      by (auto simp: run_head_def o keeps_requests_def i'(2))
  next
    case (Not_ready w c)
    let ?f = "\<lambda>i. i\<lparr>wakeup_info := w, call_queue := call\<lparr>pc_call := c\<rparr> # tl (call_queue i)\<rparr>"
    have "records_of (?f j) = records_of j" if "j \<in> set (round_robin s')" "ti_thread j = ti_thread info" for j
      using sched_ok_unique [OF ok' that(1) i'(1)] that(2) i'(2) r by (cases "call_queue j") (auto simp: records_of_def)
    then have "sched_ok (update_info (ti_thread info) ?f s') \<and> pending (update_info (ti_thread info) ?f s') = pending s'"
      using sched_ok_update_info [of ?f s' "ti_thread info"] ok' by simp
    with sub Not_ready show ?thesis by (auto simp: run_head_def o keeps_requests_def)
  qed
qed

lemma get_next_thr_last:
  assumes "rr \<noteq> []" "get_next_thr sleeping rr = (i, rr')"
  shows "i \<in> set rr \<and> (\<not> sleeping i \<longrightarrow> last rr' = i)"
proof (cases "\<exists>x\<in>set rr. \<not> sleeping x")
  case True
  then obtain xs j ys where rr: "rr = xs @ j # ys" "\<not> sleeping j" "\<forall>x\<in>set xs. sleeping x"
    using split_list_first_prop [of rr "\<lambda>x. \<not> sleeping x"] by auto
  with get_next_thr_awake [of sleeping xs j ys] assms(2) show ?thesis by (auto simp: list_all_iff)
next
  case False
  then have "rotate_until (length rr) sleeping rr = (None, rr)"
    using rotate_until_all_asleep [of sleeping rr "[]"] by (simp add: list_all_iff)
  moreover obtain b j where f: "find_closest 0 0 (- 1) (last rr) rr = (b, j)" by fastforce
  moreover have "j \<in> set rr"
  proof -
  have "j \<in> set rr \<or> j = y" if "find_closest a c m y rr = (b, j)" for a c m y rr
    using that by (induction a c m y rr rule: find_closest.induct) (auto split: if_splits)
  from this [OF f] assms(1) show ?thesis by auto
  qed
  ultimately have "i \<in> set rr" using assms by (auto simp: get_next_thr_def)
  with False show ?thesis by blast
qed

lemma is_sleeping_earlier: "is_sleeping s t2 i \<Longrightarrow> t1 \<le> t2 \<Longrightarrow> is_sleeping s t1 i"
  by (auto simp: is_sleeping_def Let_def split: option.splits if_splits)

lemma sched_ok_drop_last:
  assumes "sched_ok s" "round_robin s \<noteq> []" "call_queue (last (round_robin s)) = []"
  shows "sched_ok (s\<lparr>round_robin := butlast (round_robin s)\<rparr>) \<and>
    pending (s\<lparr>round_robin := butlast (round_robin s)\<rparr>) = pending s"
proof -
  obtain xs x where r: "round_robin s = xs @ [x]" using assms(2) by (metis append_butlast_last_id)
  with assms show ?thesis by (auto simp: sched_ok_def pending_def records_of_def)
qed

lemma rr_scheduler_step_keeps:
  assumes "interp_ok interp" "\<forall>n. clock n \<le> clock (Suc n)" "sched_ok s"
  shows "keeps_requests s (snd (rr_scheduler_step interp clock n s))"
  using assms
proof (induction interp clock n s rule: rr_scheduler_step.induct)
  case (1 interp clock n s)
  show ?case
  proof (cases "no_work s")
    case True
    with "1.prems" show ?thesis by (simp add: rr_scheduler_step.simps [of _ _ n] keeps_requests_def)
  next
    case False
    obtain info rr where g: "get_next_thr (is_sleeping s (clock (Suc n))) (round_robin s) = (info, rr)" by fastforce
    have ne: "round_robin s \<noteq> []" using False by (simp add: no_work_def)
    define t where "t = ti_thread info"
    define s1 where "s1 = update_thread t (\<lambda>v. v\<lparr>vt_fuel := 200000\<rparr>) (s\<lparr>round_robin := rr\<rparr>)"
    define s2 where "s2 = update_thread t (\<lambda>v. v\<lparr>vt_yield_at_time := yield_time (clock n) (preemption_us s1)\<rparr>)
      (update_info t (\<lambda>i. i\<lparr>wakeup_info := None\<rparr>) s1)"
    note m = get_next_thr_mset [OF ne g]
    have ok1: "sched_ok s1" "set (pending s1) = set (pending s)"
      using sched_ok_mset [OF "1.prems"(3) m] by (simp_all add: s1_def sched_ok_update_thread)
    then have ok2: "sched_ok s2" "set (pending s2) = set (pending s)"
      by (simp_all add: s2_def sched_ok_update_thread sched_ok_update_info records_of_def)
    have sl: "is_sleeping s1 time i = is_sleeping s time i" for time i
      by (auto simp: is_sleeping_def s1_def update_thread_def Let_def split: option.splits)
    have info: "info \<in> set rr" using get_next_thr_last [OF ne g] m by (metis mset_eq_setD)
    then have in2: "info\<lparr>wakeup_info := None\<rparr> \<in> set (round_robin s2)"
      by (force simp: s2_def s1_def update_thread_def update_info_def t_def)
    show ?thesis
    proof (cases "is_sleeping s1 (clock n) info")
      case True
      then have "snd (rr_scheduler_step interp clock n s) = s1"
        using False g by (simp add: rr_scheduler_step.simps [of _ _ n] Let_def s1_def t_def)
      with ok1 show ?thesis by (simp add: keeps_requests_def)
    next
      case awake: False
      then have "\<not> is_sleeping s (clock (Suc n)) info"
        using is_sleeping_earlier [of s "clock (Suc n)" info "clock n"] "1.prems"(2) by (auto simp: sl)
      then have last: "last rr = info" using get_next_thr_last [OF ne g] by blast
      show ?thesis
      proof (cases "call_queue info")
        case Nil
        let ?s3 = "s2\<lparr>round_robin := butlast (round_robin s2)\<rparr>"
        have "rr \<noteq> []" using info by auto
        then have l2: "last (round_robin s2) = info\<lparr>wakeup_info := None\<rparr>" "round_robin s2 \<noteq> []"
          using last by (auto simp: s2_def s1_def update_thread_def update_info_def t_def last_map)
        have ok3: "sched_ok ?s3" "pending ?s3 = pending s2"
          using sched_ok_drop_last [OF ok2(1) l2(2)] l2(1) Nil by auto
        have "keeps_requests ?s3 (snd (rr_scheduler_step interp clock (n + 2) ?s3))"
          using "1.IH" [OF False refl g [symmetric] refl s1_def [unfolded t_def]] awake Nil "1.prems" ok3(1)
          by (simp add: s2_def t_def)
        moreover have "snd (rr_scheduler_step interp clock n s) = snd (rr_scheduler_step interp clock (n + 2) ?s3)"
          using False g awake Nil by (simp add: rr_scheduler_step.simps [of _ _ n] Let_def s1_def s2_def t_def)
        ultimately show ?thesis using ok2(2) ok3(2) by (simp add: keeps_requests_def)
      next
        case (Cons call q)
        have "snd (rr_scheduler_step interp clock n s) = run_head interp info call s2"
          using False g awake Cons by (simp add: rr_scheduler_step.simps [of _ _ n] Let_def s1_def s2_def t_def)
        moreover have "keeps_requests s2 (run_head interp info call s2)"
          using run_head_keeps [OF "1.prems"(1) ok2(1) in2, of info call q] Cons by simp
        ultimately show ?thesis using ok2(2) by (simp add: keeps_requests_def)
      qed
    qed
  qed
qed

text \<open>C31. No request is lost: a step of the scheduler keeps one info per thread, keeps the pending calls
  distinct and unfinished, and every call that was pending is afterwards still pending or has its record
  marked done, provided the clock does not run backwards and the interpreter only adds requests. A finished
  or interrupted thread, a thread found asleep, and the removal of threads without calls are all covered.\<close>

theorem rr_scheduler_step_no_loss:
  assumes "interp_ok interp" "\<forall>n. clock n \<le> clock (Suc n)" "sched_ok s" "rr_scheduler_step interp clock n s = (st, s')"
  shows "sched_ok s' \<and>
    (\<forall>r\<in>set (pending s). r \<in> set (pending s') \<or> er_status (exec_records s' r) = SCHEDULER_RESULT_DONE)"
  using rr_scheduler_step_keeps [OF assms(1-3), of n] assms(4) by (simp add: keeps_requests_def)

theorem rr_scheduler_step_no_loss_witness:
  "let s = snd (rr_scheduler_run 1 (5 :: nat) (rr_scheduler_init (\<lambda>_. idle_vm_thread) (\<lambda>_. blank_record)));
       s' = snd (rr_scheduler_step (\<lambda>c s. (Ready (Bits 7), s)) (\<lambda>_. 0) 0 s) in
   pending s = [0] \<and> (0 \<in> set (pending s') \<or> er_status (exec_records s' 0) = SCHEDULER_RESULT_DONE)"
proof -
  let ?s = "snd (rr_scheduler_run 1 (5 :: nat) (rr_scheduler_init (\<lambda>_. idle_vm_thread) (\<lambda>_. blank_record)))"
  let ?ip = "\<lambda>(c :: nat) (s :: nat rr_scheduler). (Ready (Bits 7) :: nat outcome, s)"
  have p: "pending ?s = [0]"
    by (simp add: rr_scheduler_run_def rr_scheduler_init_def get_or_create_thread_info_def find_info_def Let_def
        update_info_def pending_def records_of_def)
  have ok: "sched_ok ?s" unfolding sched_ok_def p
    by (simp add: rr_scheduler_run_def rr_scheduler_init_def get_or_create_thread_info_def find_info_def Let_def update_info_def)
  have ip: "interp_ok ?ip" by (auto simp: interp_ok_def)
  obtain st s' where st: "rr_scheduler_step ?ip (\<lambda>_. 0) 0 ?s = (st, s')" by (metis surj_pair)
  from rr_scheduler_step_no_loss [OF ip _ ok st] p st show ?thesis by (simp add: Let_def)
qed

end
