(* ===== verification/Monitor.thy ===== *)
theory Monitor
  imports Scheduler
begin

text \<open>
  Object monitors: \<^verbatim>\<open>vm/monitors.c\<close>, with \<^verbatim>\<open>wait\<close> and \<^verbatim>\<open>notify\<close> of
  \<^verbatim>\<open>natives/share/java/lang/Object.c\<close>. A header word is the mark word of an object that was never
  locked, or points to its \<^verbatim>\<open>monitor_data\<close>, which belongs to that object alone and is kept in the
  header here. The VM runs one thread at a time, so that an operation runs without interruption until it
  yields; a compare-and-swap is then a test and a store. Thread \<open>t\<close> has the \<^verbatim>\<open>tid\<close> \<open>int t\<close>.

  An asynchronous operation is split where it yields: the first part and the part that resumes with the
  contents of its \<^verbatim>\<open>wakeup_info\<close>. The section on steps puts the operations together with the
  scheduler's queue, and shows that no waiting thread is forgotten.
\<close>

section \<open>Data\<close>

record monitor_data =
  m_tid :: int
  m_hold_count :: u32
  m_mark_word :: "u32 \<times> u32"

datatype header_word = Mark_word "u32 \<times> u32" | Expanded_data monitor_data

record 'c mon_vm =
  mv_sched :: "'c rr_scheduler"
  mv_headers :: "nat \<Rightarrow> header_word"

abbreviation (input) NOT_HELD_TID :: int where "NOT_HELD_TID \<equiv> -1"

fun inspect_monitor :: "header_word \<Rightarrow> monitor_data option" where
  "inspect_monitor (Expanded_data m) = Some m"
| "inspect_monitor (Mark_word _) = None"

definition set_monitor :: "nat \<Rightarrow> monitor_data \<Rightarrow> 'c mon_vm \<Rightarrow> 'c mon_vm" where
  "set_monitor obj m s = s\<lparr>mv_headers := (mv_headers s)(obj := Expanded_data m)\<rparr>"

datatype async_result = Finished int | Wait rr_wakeup_info

section \<open>Acquiring\<close>

text \<open>\<open>alloc\<close> is whether \<^verbatim>\<open>allocate_monitor_for\<close> finds memory.\<close>

definition ensure_monitor :: "bool \<Rightarrow> nat \<Rightarrow> 'c mon_vm \<Rightarrow> 'c mon_vm option" where
  "ensure_monitor alloc obj s = (case mv_headers s obj of
      Expanded_data _ \<Rightarrow> Some s
    | Mark_word w \<Rightarrow>
        if alloc then Some (set_monitor obj \<lparr>m_tid = NOT_HELD_TID, m_hold_count = 0, m_mark_word = w\<rparr> s) else None)"

definition enter_wait :: "nat \<Rightarrow> rr_wakeup_info \<Rightarrow> rr_wakeup_info" where
  "enter_wait obj w = w\<lparr>w_kind := RR_MONITOR_ENTER_WAITING, w_us := 0, w_monitor := obj\<rparr>"

text \<open>One round of the second loop of \<^verbatim>\<open>monitor_acquire\<close>; \<open>w\<close> is \<^verbatim>\<open>self->wakeup_info\<close>. The
  \<^verbatim>\<open>ready\<close> flag is not reset. Where the monitor data do not exist the assertion fails, which is the
  result \<open>Finished (-2)\<close> here.\<close>

definition try_acquire :: "nat \<Rightarrow> nat \<Rightarrow> rr_wakeup_info \<Rightarrow> 'c mon_vm \<Rightarrow> async_result \<times> 'c mon_vm" where
  "try_acquire t obj w s = (case inspect_monitor (mv_headers s obj) of
      None \<Rightarrow> (Finished (-2), s)
    | Some lock \<Rightarrow>
        if m_tid lock = NOT_HELD_TID then
          (Finished 0, set_monitor obj (lock\<lparr>m_tid := int t, m_hold_count := 1\<rparr>) s)
        else if m_tid lock = int t then
          (Finished 0, set_monitor obj (lock\<lparr>m_hold_count := m_hold_count lock + 1\<rparr>) s)
        else (Wait (enter_wait obj w), s))"

text \<open>\<^verbatim>\<open>ZeroInternalState\<close> zeroes the locals of an asynchronous function.\<close>

definition zero_wakeup :: rr_wakeup_info where
  "zero_wakeup = \<lparr>w_kind = RR_WAKEUP_YIELDING, w_us = 0, w_monitor = 0, w_ready = False\<rparr>"

definition monitor_acquire :: "bool \<Rightarrow> nat \<Rightarrow> nat \<Rightarrow> 'c mon_vm \<Rightarrow> async_result \<times> 'c mon_vm" where
  "monitor_acquire alloc t obj s = (case ensure_monitor alloc obj s of
      None \<Rightarrow> (Finished (-1), s)
    | Some s' \<Rightarrow> try_acquire t obj zero_wakeup s')"

definition try_reacquire :: "nat \<Rightarrow> nat \<Rightarrow> u32 \<Rightarrow> rr_wakeup_info \<Rightarrow> 'c mon_vm \<Rightarrow> async_result \<times> 'c mon_vm" where
  "try_reacquire t obj hold w s = (case inspect_monitor (mv_headers s obj) of
      None \<Rightarrow> (Finished (-2), s)
    | Some lock \<Rightarrow>
        if m_tid lock = NOT_HELD_TID then
          (Finished 0, set_monitor obj (lock\<lparr>m_tid := int t, m_hold_count := hold\<rparr>) s)
        else if m_tid lock = int t then (Finished (-1), s)
        else (Wait (enter_wait obj w), s))"

definition monitor_reacquire_hold_count :: "nat \<Rightarrow> nat \<Rightarrow> u32 \<Rightarrow> 'c mon_vm \<Rightarrow> async_result \<times> 'c mon_vm" where
  "monitor_reacquire_hold_count t obj hold s = try_reacquire t obj hold zero_wakeup s"

section \<open>Releasing\<close>

definition current_thread_hold_count :: "nat \<Rightarrow> nat \<Rightarrow> 'c mon_vm \<Rightarrow> u32" where
  "current_thread_hold_count t obj s = (case inspect_monitor (mv_headers s obj) of
      None \<Rightarrow> 0
    | Some lock \<Rightarrow> if m_tid lock \<noteq> int t then 0 else m_hold_count lock)"

definition exit_monitor :: "nat \<Rightarrow> monitor_data \<Rightarrow> 'c mon_vm \<Rightarrow> 'c mon_vm" where
  "exit_monitor obj lock s =
     (let s = set_monitor obj (lock\<lparr>m_hold_count := 0, m_tid := NOT_HELD_TID\<rparr>) s in
      s\<lparr>mv_sched := monitor_exit_handler obj (mv_sched s)\<rparr>)"

definition monitor_release_all_hold_count :: "nat \<Rightarrow> nat \<Rightarrow> 'c mon_vm \<Rightarrow> u32 \<times> 'c mon_vm" where
  "monitor_release_all_hold_count t obj s = (case inspect_monitor (mv_headers s obj) of
      None \<Rightarrow> (0, s)
    | Some lock \<Rightarrow>
        if m_tid lock \<noteq> int t then (0, s)
        else if m_hold_count lock = 0 then (0, s)
        else (m_hold_count lock, exit_monitor obj lock s))"

definition monitor_release :: "nat \<Rightarrow> nat \<Rightarrow> 'c mon_vm \<Rightarrow> int \<times> 'c mon_vm" where
  "monitor_release t obj s = (case inspect_monitor (mv_headers s obj) of
      None \<Rightarrow> (-1, s)
    | Some lock \<Rightarrow>
        if m_tid lock \<noteq> int t then (-1, s)
        else if m_hold_count lock = 0 then (-1, s)
        else if m_hold_count lock - 1 = 0 then (0, exit_monitor obj lock s)
        else (0, set_monitor obj (lock\<lparr>m_hold_count := m_hold_count lock - 1\<rparr>) s))"

section \<open>Waiting and notifying\<close>

datatype monitor_exception = IllegalMonitorStateException | InterruptedException

definition object_notify :: "nat \<Rightarrow> nat \<Rightarrow> 'c mon_vm \<Rightarrow> monitor_exception + 'c mon_vm" where
  "object_notify t obj s =
     (if current_thread_hold_count t obj s = 0 then Inl IllegalMonitorStateException
      else Inr (s\<lparr>mv_sched := monitor_notify_one obj (mv_sched s)\<rparr>))"

definition object_notifyAll :: "nat \<Rightarrow> nat \<Rightarrow> 'c mon_vm \<Rightarrow> monitor_exception + 'c mon_vm" where
  "object_notifyAll t obj s =
     (if current_thread_hold_count t obj s = 0 then Inl IllegalMonitorStateException
      else Inr (s\<lparr>mv_sched := monitor_notify_all obj (mv_sched s)\<rparr>))"

definition clear_interrupt :: "nat \<Rightarrow> 'c mon_vm \<Rightarrow> 'c mon_vm" where
  "clear_interrupt t s = s\<lparr>mv_sched := update_thread t (\<lambda>v. v\<lparr>vt_interrupted := False\<rparr>) (mv_sched s)\<rparr>"

text \<open>\<^verbatim>\<open>Object.wait0\<close> up to its yield: the saved hold count and what it waits for, or an exception.
  \<open>now\<close> is the time and \<open>ms\<close> the timeout in milliseconds, which is not negative.\<close>

definition object_wait0 :: "nat \<Rightarrow> nat \<Rightarrow> u64 \<Rightarrow> u64 \<Rightarrow> 'c mon_vm \<Rightarrow>
    (monitor_exception + u32 \<times> rr_wakeup_info) \<times> 'c mon_vm" where
  "object_wait0 t obj now ms s =
     (if vt_interrupted (threads (mv_sched s) t) then (Inl InterruptedException, clear_interrupt t s)
      else let (hold, s') = monitor_release_all_hold_count t obj s in
        if hold = 0 then (Inl IllegalMonitorStateException, s')
        else (Inr (hold, \<lparr>w_kind = RR_MONITOR_WAIT, w_us = (if ms = 0 then 0 else now + ms * 1000),
                          w_monitor = obj, w_ready = False\<rparr>), s'))"

text \<open>The end of \<^verbatim>\<open>wait0\<close>, after the monitor is held again.\<close>

definition object_wait0_end :: "nat \<Rightarrow> 'c mon_vm \<Rightarrow> monitor_exception option \<times> 'c mon_vm" where
  "object_wait0_end t s =
     (if vt_interrupted (threads (mv_sched s) t) then (Some InterruptedException, clear_interrupt t s)
      else (None, s))"

section \<open>Steps of the threads\<close>

text \<open>A thread that the scheduler has chosen has no \<^verbatim>\<open>wakeup_info\<close>; one that waits has its own.\<close>

definition wakeup_of :: "nat \<Rightarrow> 'c mon_vm \<Rightarrow> rr_wakeup_info option" where
  "wakeup_of t s = (case find_info t (mv_sched s) of None \<Rightarrow> None | Some i \<Rightarrow> wakeup_info i)"

definition running :: "nat \<Rightarrow> 'c mon_vm \<Rightarrow> bool" where
  "running t s \<longleftrightarrow> (\<exists>i. find_info t (mv_sched s) = Some i \<and> wakeup_info i = None)"

definition set_wakeup :: "nat \<Rightarrow> rr_wakeup_info option \<Rightarrow> 'c mon_vm \<Rightarrow> 'c mon_vm" where
  "set_wakeup t w s = s\<lparr>mv_sched := update_info t (\<lambda>i. i\<lparr>wakeup_info := w\<rparr>) (mv_sched s)\<rparr>"

text \<open>What the scheduler does with the outcome of an operation of thread \<open>t\<close>.\<close>

fun after :: "nat \<Rightarrow> async_result \<times> 'c mon_vm \<Rightarrow> 'c mon_vm" where
  "after t (Finished r, s) = s"
| "after t (Wait w, s) = set_wakeup t (Some w) s"

definition entering :: "nat \<Rightarrow> 'c mon_vm \<Rightarrow> bool" where
  "entering t s \<longleftrightarrow> (\<exists>w. wakeup_of t s = Some w \<and> w_kind w = RR_MONITOR_ENTER_WAITING)"

text \<open>The steps: a running thread acquires, releases, waits, notifies, or blocks on something else; a thread
  that waits to enter a monitor is resumed when it is not asleep; a thread that waits for a notification is
  resumed and reacquires; the queue is reordered, running threads come and end.\<close>

inductive mon_step :: "'c mon_vm \<Rightarrow> 'c mon_vm \<Rightarrow> bool" where
  acquire: "running t s \<Longrightarrow> mon_step s (after t (monitor_acquire alloc t obj s))"
| release: "running t s \<Longrightarrow> mon_step s (snd (monitor_release t obj s))"
| notify: "running t s \<Longrightarrow> object_notify t obj s = Inr s' \<Longrightarrow> mon_step s s'"
| notify_all: "running t s \<Longrightarrow> object_notifyAll t obj s = Inr s' \<Longrightarrow> mon_step s s'"
| wait: "running t s \<Longrightarrow> object_wait0 t obj now ms s = (Inr (hold, w), s') \<Longrightarrow> mon_step s (set_wakeup t (Some w) s')"
| wait_fails: "running t s \<Longrightarrow> object_wait0 t obj now ms s = (Inl e, s') \<Longrightarrow> mon_step s s'"
| resume_enter: "find_info t (mv_sched s) = Some i \<Longrightarrow> wakeup_info i = Some w \<Longrightarrow>
    w_kind w = RR_MONITOR_ENTER_WAITING \<Longrightarrow> \<not> is_sleeping (mv_sched s) time i \<Longrightarrow>
    mon_step s (after t (try_acquire t (w_monitor w) w (set_wakeup t None s)))"
| resume_reenter: "find_info t (mv_sched s) = Some i \<Longrightarrow> wakeup_info i = Some w \<Longrightarrow>
    w_kind w = RR_MONITOR_ENTER_WAITING \<Longrightarrow> \<not> is_sleeping (mv_sched s) time i \<Longrightarrow>
    mon_step s (after t (try_reacquire t (w_monitor w) hold w (set_wakeup t None s)))"
| resume_wait: "find_info t (mv_sched s) = Some i \<Longrightarrow> wakeup_info i = Some w \<Longrightarrow> w_kind w = RR_MONITOR_WAIT \<Longrightarrow>
    \<not> is_sleeping (mv_sched s) time i \<Longrightarrow>
    mon_step s (after t (monitor_reacquire_hold_count t (w_monitor w) hold (set_wakeup t None s)))"
| block: "running t s \<Longrightarrow> w_kind w \<noteq> RR_MONITOR_ENTER_WAITING \<Longrightarrow> mon_step s (set_wakeup t (Some w) s)"
| resume_other: "\<not> entering t s \<Longrightarrow> mon_step s (set_wakeup t None s)"
| environment: "mset (filter (\<lambda>i. wakeup_info i \<noteq> None) (round_robin sch)) =
      mset (filter (\<lambda>i. wakeup_info i \<noteq> None) (round_robin (mv_sched s))) \<Longrightarrow>
    distinct (map ti_thread (round_robin sch)) \<Longrightarrow> mon_step s (s\<lparr>mv_sched := sch\<rparr>)"

section \<open>Waiting threads\<close>

lemma find_info_iff:
  assumes "distinct (map ti_thread (round_robin sch))"
  shows "find_info t sch = Some i \<longleftrightarrow> i \<in> set (round_robin sch) \<and> ti_thread i = t"
proof -
  have "distinct (map ti_thread rr) \<Longrightarrow> find (\<lambda>i. ti_thread i = t) rr = Some i \<longleftrightarrow> i \<in> set rr \<and> ti_thread i = t"
    for rr :: "'a thread_info list"
    by (induction rr) (auto simp: image_iff)
  with assms show ?thesis unfolding find_info_def by blast
qed

definition threads_distinct :: "'c mon_vm \<Rightarrow> bool" where
  "threads_distinct s \<longleftrightarrow> distinct (map ti_thread (round_robin (mv_sched s)))"

lemma wakeup_of_iff:
  assumes "threads_distinct s"
  shows "wakeup_of t s = Some w \<longleftrightarrow> (\<exists>i\<in>set (round_robin (mv_sched s)). ti_thread i = t \<and> wakeup_info i = Some w)"
  unfolding wakeup_of_def using find_info_iff [OF assms [unfolded threads_distinct_def], of t]
  by (cases "find_info t (mv_sched s)") (auto, (metis option.distinct(1) option.inject)+)

lemma wakeup_of_set:
  "wakeup_of u (set_wakeup t w s) = (if u = t \<and> find_info t (mv_sched s) \<noteq> None then w else wakeup_of u s)"
  by (auto simp: wakeup_of_def set_wakeup_def find_info_update split: option.splits)

lemma threads_distinct_set [simp]: "threads_distinct (set_wakeup t w s) = threads_distinct s"
  by (simp add: threads_distinct_def set_wakeup_def update_info_def o_def if_distrib cong: if_cong)

text \<open>Some threads get their \<^verbatim>\<open>ready\<close> flag set; nothing else changes.\<close>

definition upgrades :: "'c mon_vm \<Rightarrow> 'c mon_vm \<Rightarrow> bool" where
  "upgrades s s' \<longleftrightarrow> threads_distinct s' = threads_distinct s \<and> (\<forall>u. wakeup_of u s' = wakeup_of u s \<or>
     (\<exists>w. wakeup_of u s = Some w \<and> wakeup_of u s' = Some (w\<lparr>w_ready := True\<rparr>)))"

lemma set_ready_thread [simp]: "ti_thread (set_ready i) = ti_thread i"
  by (simp add: set_ready_def)

lemma find_ready_first:
  "find (\<lambda>i. ti_thread i = t) (ready_first k m rr) = find (\<lambda>i. ti_thread i = t) rr \<or>
   (\<exists>i. find (\<lambda>i. ti_thread i = t) rr = Some i \<and> waits_for k m i \<and>
      find (\<lambda>i. ti_thread i = t) (ready_first k m rr) = Some (set_ready i))"
  by (induction rr) auto

lemma ready_first_threads [simp]: "map ti_thread (ready_first k m rr) = map ti_thread rr"
  by (induction rr) auto

lemma upgrades_ready_first:
  "upgrades s (s\<lparr>mv_sched := (mv_sched s)\<lparr>round_robin := ready_first k m (round_robin (mv_sched s))\<rparr>\<rparr>)"
  unfolding upgrades_def
proof (intro conjI allI)
  fix u
  let ?s' = "s\<lparr>mv_sched := (mv_sched s)\<lparr>round_robin := ready_first k m (round_robin (mv_sched s))\<rparr>\<rparr>"
  show "wakeup_of u ?s' = wakeup_of u s \<or> (\<exists>w. wakeup_of u s = Some w \<and> wakeup_of u ?s' = Some (w\<lparr>w_ready := True\<rparr>))"
    using find_ready_first [of u k m "round_robin (mv_sched s)"]
    by (auto simp: wakeup_of_def find_info_def set_ready_def waits_for_def split: option.splits)
qed (simp add: threads_distinct_def)

lemma upgrades_notify_all: "upgrades s (s\<lparr>mv_sched := monitor_notify_all m (mv_sched s)\<rparr>)"
  unfolding upgrades_def
proof (intro conjI allI)
  fix u
  let ?f = "\<lambda>i. if waits_for RR_MONITOR_WAIT m i then set_ready i else i"
  have "find (\<lambda>i. ti_thread i = u) (map ?f rr) = map_option ?f (find (\<lambda>i. ti_thread i = u) rr)" for rr :: "'a thread_info list"
    by (induction rr) auto
  then show "wakeup_of u (s\<lparr>mv_sched := monitor_notify_all m (mv_sched s)\<rparr>) = wakeup_of u s \<or>
      (\<exists>w. wakeup_of u s = Some w \<and> wakeup_of u (s\<lparr>mv_sched := monitor_notify_all m (mv_sched s)\<rparr>) = Some (w\<lparr>w_ready := True\<rparr>))"
    by (auto simp: wakeup_of_def find_info_def monitor_notify_all_def set_ready_def waits_for_def split: option.splits)
qed (auto simp: threads_distinct_def monitor_notify_all_def o_def if_distrib cong: if_cong)

section \<open>The invariant\<close>

definition monitor_free :: "nat \<Rightarrow> 'c mon_vm \<Rightarrow> bool" where
  "monitor_free obj s \<longleftrightarrow> (case inspect_monitor (mv_headers s obj) of None \<Rightarrow> True | Some m \<Rightarrow> m_tid m = NOT_HELD_TID)"

definition enters :: "nat \<Rightarrow> rr_wakeup_info option \<Rightarrow> bool" where
  "enters obj wo \<longleftrightarrow> (\<exists>w. wo = Some w \<and> w_kind w = RR_MONITOR_ENTER_WAITING \<and> w_monitor w = obj)"

definition ready_to_enter :: "nat \<Rightarrow> rr_wakeup_info option \<Rightarrow> bool" where
  "ready_to_enter obj wo \<longleftrightarrow> (\<exists>w. wo = Some w \<and> w_kind w = RR_MONITOR_ENTER_WAITING \<and> w_monitor w = obj \<and> w_ready w)"

text \<open>A free monitor that threads wait for has a waiter that was told so.\<close>

definition woken :: "nat \<Rightarrow> 'c mon_vm \<Rightarrow> bool" where
  "woken obj s \<longleftrightarrow> (monitor_free obj s \<longrightarrow> (\<exists>t. enters obj (wakeup_of t s)) \<longrightarrow> (\<exists>t. ready_to_enter obj (wakeup_of t s)))"

definition mon_inv :: "'c mon_vm \<Rightarrow> bool" where
  "mon_inv s \<longleftrightarrow> threads_distinct s \<and> (\<forall>obj. woken obj s) \<and>
     (\<forall>t obj. enters obj (wakeup_of t s) \<longrightarrow> inspect_monitor (mv_headers s obj) \<noteq> None)"

lemma ready_enters: "ready_to_enter obj wo \<Longrightarrow> enters obj wo"
  by (auto simp: ready_to_enter_def enters_def)

lemma upgrades_enters:
  assumes "upgrades s s'"
  shows "enters obj (wakeup_of u s') = enters obj (wakeup_of u s)"
    and "ready_to_enter obj (wakeup_of u s) \<Longrightarrow> ready_to_enter obj (wakeup_of u s')"
  using assms unfolding upgrades_def enters_def ready_to_enter_def by (metis (no_types, lifting) option.inject
      rr_wakeup_info.select_convs rr_wakeup_info.surjective rr_wakeup_info.update_convs(4))+

lemma mon_inv_upgrades:
  assumes "mon_inv s" "upgrades s s'" "mv_headers s' = mv_headers s"
  shows "mon_inv s'"
  using assms upgrades_enters [OF assms(2)] unfolding mon_inv_def woken_def monitor_free_def upgrades_def by (metis (no_types, lifting))

text \<open>Releasing: the header is free, and the first waiter is told.\<close>

lemma ready_first_ready:
  assumes "\<exists>i\<in>set rr. waits_for RR_MONITOR_ENTER_WAITING m i"
  shows "\<exists>i\<in>set (ready_first RR_MONITOR_ENTER_WAITING m rr). ready_to_enter m (wakeup_info i)"
  using assms
proof (induction rr)
  case (Cons i rr)
  then show ?case
    by (cases "waits_for RR_MONITOR_ENTER_WAITING m i")
      (auto simp: waits_for_def set_ready_def ready_to_enter_def split: option.splits)
qed simp

lemma mon_inv_exit:
  assumes inv: "mon_inv s" and obj: "inspect_monitor (mv_headers s obj) \<noteq> None"
  shows "mon_inv (exit_monitor obj lock s)"
proof -
  let ?s1 = "set_monitor obj (lock\<lparr>m_hold_count := 0, m_tid := NOT_HELD_TID\<rparr>) s"
  let ?s' = "exit_monitor obj lock s"
  have w1: "wakeup_of u ?s1 = wakeup_of u s" for u by (simp add: wakeup_of_def set_monitor_def)
  have up: "upgrades ?s1 ?s'"
    using upgrades_ready_first [of ?s1 RR_MONITOR_ENTER_WAITING obj] by (simp add: exit_monitor_def Let_def monitor_exit_handler_def)
  have d: "threads_distinct ?s'" "threads_distinct s"
    using up inv by (auto simp: upgrades_def mon_inv_def threads_distinct_def set_monitor_def)
  have h: "mv_headers ?s' o' = (if o' = obj then Expanded_data (lock\<lparr>m_hold_count := 0, m_tid := NOT_HELD_TID\<rparr>) else mv_headers s o')" for o'
    by (simp add: exit_monitor_def Let_def set_monitor_def)
  have e: "enters o' (wakeup_of u ?s') = enters o' (wakeup_of u s)" for o' u using upgrades_enters(1) [OF up] w1 by simp
  have r: "ready_to_enter o' (wakeup_of u s) \<Longrightarrow> ready_to_enter o' (wakeup_of u ?s')" for o' u
    using upgrades_enters(2) [OF up] w1 by simp
  have "\<exists>u. ready_to_enter obj (wakeup_of u ?s')" if "enters obj (wakeup_of t s)" for t
  proof -
    from that obtain w where "wakeup_of t s = Some w" "w_kind w = RR_MONITOR_ENTER_WAITING" "w_monitor w = obj"
      by (auto simp: enters_def)
    then obtain i where "i \<in> set (round_robin (mv_sched s))" "waits_for RR_MONITOR_ENTER_WAITING obj i"
      using wakeup_of_iff [OF d(2)] by (auto simp: waits_for_def)
    then have "\<exists>i\<in>set (round_robin (mv_sched ?s')). ready_to_enter obj (wakeup_info i)"
      using ready_first_ready by (auto simp: exit_monitor_def Let_def set_monitor_def monitor_exit_handler_def)
    then obtain i w where i: "i \<in> set (round_robin (mv_sched ?s'))" "wakeup_info i = Some w" "ready_to_enter obj (Some w)"
      by (auto simp: ready_to_enter_def)
    then have "wakeup_of (ti_thread i) ?s' = Some w" using wakeup_of_iff [OF d(1)] by blast
    with i(3) show ?thesis by metis
  qed
  then have "woken obj ?s'" unfolding woken_def e by blast
  moreover have "woken o' ?s'" if "o' \<noteq> obj" for o'
  proof -
    have "woken o' s" using inv by (simp add: mon_inv_def)
    moreover have "monitor_free o' ?s' = monitor_free o' s" using that by (simp add: monitor_free_def h)
    ultimately show ?thesis using r [of o'] unfolding woken_def e by blast
  qed
  ultimately have "\<forall>o'. woken o' ?s'" by metis
  then show ?thesis using inv d(1) unfolding mon_inv_def e h by auto
qed

text \<open>Acquiring: afterwards the monitor is held, by this thread or by another one.\<close>

lemma mon_inv_after:
  assumes d: "threads_distinct s" and run: "wakeup_of t s = None" "find_info t (mv_sched s) \<noteq> None"
    and other: "\<And>o'. o' \<noteq> obj \<Longrightarrow> woken o' s"
    and exp: "\<And>u o'. enters o' (wakeup_of u s) \<Longrightarrow> inspect_monitor (mv_headers s o') \<noteq> None"
    and sched: "mv_sched s' = mv_sched s" and hd: "\<And>o'. o' \<noteq> obj \<Longrightarrow> mv_headers s' o' = mv_headers s o'"
    and held: "\<not> monitor_free obj s'" and w: "\<And>w. r = Wait w \<Longrightarrow> w_kind w = RR_MONITOR_ENTER_WAITING \<and> w_monitor w = obj"
  shows "mon_inv (after t (r, s'))"
proof -
  have wk: "wakeup_of u s' = wakeup_of u s" for u by (simp add: wakeup_of_def sched)
  have obj: "inspect_monitor (mv_headers s' obj) \<noteq> None" using held by (auto simp: monitor_free_def split: option.splits)
  have free: "monitor_free o' s' = monitor_free o' s" if "o' \<noteq> obj" for o' using hd [OF that] by (simp add: monitor_free_def)
  have exp': "inspect_monitor (mv_headers s' o') \<noteq> None" if "enters o' (wakeup_of u s)" for u o'
    using exp [OF that] obj hd [of o'] by (cases "o' = obj") auto
  show ?thesis
  proof (cases r)
    case (Finished n)
    have "woken o' s'" for o'
      using other [of o'] free [of o'] held unfolding woken_def wk by (cases "o' = obj") auto
    with exp' d sched wk show ?thesis by (simp add: Finished mon_inv_def threads_distinct_def)
  next
    case (Wait w)
    note ww = assms(9) [OF Wait]
    let ?s = "set_wakeup t (Some w) s'"
    have wk': "wakeup_of u ?s = (if u = t then Some w else wakeup_of u s)" for u
      using run(2) by (simp add: wakeup_of_set sched wk)
    have hs: "mv_headers ?s = mv_headers s'" by (simp add: set_wakeup_def)
    have en: "enters o' (wakeup_of u ?s) \<longleftrightarrow> (if u = t then o' = obj else enters o' (wakeup_of u s))" for u o'
      using ww by (auto simp: wk' enters_def)
    have "woken o' ?s" for o'
    proof (cases "o' = obj")
      case True
      then show ?thesis using held by (simp add: woken_def monitor_free_def hs)
    next
      case False
      have "monitor_free o' ?s = monitor_free o' s" using free [OF False] by (simp add: monitor_free_def hs)
      moreover have "ready_to_enter o' (wakeup_of u s) \<Longrightarrow> ready_to_enter o' (wakeup_of u ?s)" for u
        using run(1) by (auto simp: wk' ready_to_enter_def)
      moreover have "enters o' (wakeup_of u ?s) \<Longrightarrow> enters o' (wakeup_of u s)" for u
        using False by (auto simp: en split: if_splits)
      ultimately show ?thesis using other [OF False] unfolding woken_def by blast
    qed
    moreover have "inspect_monitor (mv_headers ?s o') \<noteq> None" if "enters o' (wakeup_of u ?s)" for u o'
      using that exp' obj hs by (auto simp: en split: if_splits)
    ultimately show ?thesis using d sched by (simp add: Wait mon_inv_def threads_distinct_def set_wakeup_def update_info_def o_def if_distrib cong: if_cong)
  qed
qed

lemma try_acquire_shape:
  assumes "inspect_monitor (mv_headers s obj) \<noteq> None" "try_acquire t obj w s = (r, s')"
  shows "mv_sched s' = mv_sched s" "o' \<noteq> obj \<Longrightarrow> mv_headers s' o' = mv_headers s o'" "\<not> monitor_free obj s'"
    "r = Wait w' \<Longrightarrow> w_kind w' = RR_MONITOR_ENTER_WAITING \<and> w_monitor w' = obj"
  using assms by (auto simp: try_acquire_def monitor_free_def set_monitor_def enter_wait_def split: option.splits if_splits)

lemma try_reacquire_shape:
  assumes "inspect_monitor (mv_headers s obj) \<noteq> None" "try_reacquire t obj hold w s = (r, s')"
  shows "mv_sched s' = mv_sched s" "o' \<noteq> obj \<Longrightarrow> mv_headers s' o' = mv_headers s o'" "\<not> monitor_free obj s'"
    "r = Wait w' \<Longrightarrow> w_kind w' = RR_MONITOR_ENTER_WAITING \<and> w_monitor w' = obj"
  using assms by (auto simp: try_reacquire_def monitor_free_def set_monitor_def enter_wait_def split: option.splits if_splits)

text \<open>A thread that has been chosen, seen from the state in which it still waited.\<close>

lemma chosen:
  assumes "mon_inv s" "find_info t (mv_sched s) = Some i" "wakeup_info i = Some w" "s0 = set_wakeup t None s"
  shows "threads_distinct s0" "wakeup_of t s0 = None" "find_info t (mv_sched s0) \<noteq> None"
    "enters o' (wakeup_of u s0) \<Longrightarrow> inspect_monitor (mv_headers s0 o') \<noteq> None"
    "(w_kind w = RR_MONITOR_ENTER_WAITING \<Longrightarrow> o' \<noteq> w_monitor w) \<Longrightarrow> woken o' s0"
proof -
  have wt: "wakeup_of t s = Some w" using assms(2,3) by (simp add: wakeup_of_def)
  have wk: "wakeup_of u s0 = (if u = t then None else wakeup_of u s)" for u using assms(2) by (simp add: assms(4) wakeup_of_set)
  have hs: "mv_headers s0 = mv_headers s" by (simp add: assms(4) set_wakeup_def)
  show "threads_distinct s0" using assms(1) by (simp add: mon_inv_def assms(4))
  show "wakeup_of t s0 = None" by (simp add: wk)
  show "find_info t (mv_sched s0) \<noteq> None" using assms(2) by (simp add: assms(4) set_wakeup_def find_info_update)
  show "enters o' (wakeup_of u s0) \<Longrightarrow> inspect_monitor (mv_headers s0 o') \<noteq> None"
    using assms(1) by (auto simp: mon_inv_def hs wk enters_def split: if_splits)
  assume o': "w_kind w = RR_MONITOR_ENTER_WAITING \<Longrightarrow> o' \<noteq> w_monitor w"
  have "ready_to_enter o' (wakeup_of u s) \<Longrightarrow> ready_to_enter o' (wakeup_of u s0)" for u
    using o' wt by (auto simp: wk ready_to_enter_def)
  moreover have "enters o' (wakeup_of u s0) \<Longrightarrow> enters o' (wakeup_of u s)" for u by (auto simp: wk enters_def split: if_splits)
  moreover have "woken o' s" using assms(1) by (simp add: mon_inv_def)
  ultimately show "woken o' s0" unfolding woken_def monitor_free_def hs by blast
qed

lemma running_iff: "running t s \<longleftrightarrow> find_info t (mv_sched s) \<noteq> None \<and> wakeup_of t s = None"
  by (auto simp: running_def wakeup_of_def split: option.splits)

lemma mon_inv_same:
  assumes "mon_inv s" "\<And>u. wakeup_of u s' = wakeup_of u s" "mv_headers s' = mv_headers s" "threads_distinct s'"
  shows "mon_inv s'"
  using assms by (simp add: mon_inv_def woken_def monitor_free_def)

text \<open>A thread that does not wait to enter a monitor starts or stops waiting for something else.\<close>

lemma mon_inv_set_wakeup:
  assumes "mon_inv s" "\<And>obj. \<not> enters obj (wakeup_of t s)" "\<And>obj. \<not> enters obj wo"
  shows "mon_inv (set_wakeup t wo s)"
proof -
  have hs: "mv_headers (set_wakeup t wo s) = mv_headers s" by (simp add: set_wakeup_def)
  have en: "enters obj (wakeup_of u (set_wakeup t wo s)) = enters obj (wakeup_of u s)" for u obj
    using assms(2,3) by (auto simp: wakeup_of_set)
  have re: "ready_to_enter obj (wakeup_of u (set_wakeup t wo s)) = ready_to_enter obj (wakeup_of u s)" for u obj
    using assms(2,3) ready_enters by (auto simp: wakeup_of_set)
  show ?thesis using assms(1) unfolding mon_inv_def woken_def monitor_free_def hs en re by simp
qed

lemma exit_monitor_enters: "enters o' (wakeup_of u (exit_monitor obj lock s)) = enters o' (wakeup_of u s)"
proof -
  let ?s1 = "set_monitor obj (lock\<lparr>m_hold_count := 0, m_tid := NOT_HELD_TID\<rparr>) s"
  have "upgrades ?s1 (exit_monitor obj lock s)"
    using upgrades_ready_first [of ?s1 RR_MONITOR_ENTER_WAITING obj] by (simp add: exit_monitor_def Let_def monitor_exit_handler_def)
  from upgrades_enters(1) [OF this] show ?thesis by (simp add: wakeup_of_def set_monitor_def)
qed

lemma mon_inv_acquire:
  assumes inv: "mon_inv s" and run: "running t s"
  shows "mon_inv (after t (monitor_acquire alloc t obj s))"
proof (cases "ensure_monitor alloc obj s")
  case None
  with inv show ?thesis by (simp add: monitor_acquire_def)
next
  case (Some s1)
  have same: "mv_sched s1 = mv_sched s" "\<And>o'. o' \<noteq> obj \<Longrightarrow> mv_headers s1 o' = mv_headers s o'"
    and ex: "inspect_monitor (mv_headers s1 obj) \<noteq> None"
    using Some by (auto simp: ensure_monitor_def set_monitor_def split: header_word.splits if_splits)
  have wk: "wakeup_of u s1 = wakeup_of u s" for u by (simp add: wakeup_of_def same)
  obtain r s' where r: "try_acquire t obj zero_wakeup s1 = (r, s')" by fastforce
  have "mon_inv (after t (r, s'))"
  proof (rule mon_inv_after [where s = s1 and obj = obj])
    show "threads_distinct s1" using inv by (simp add: mon_inv_def threads_distinct_def same)
    show "wakeup_of t s1 = None" "find_info t (mv_sched s1) \<noteq> None" using run by (simp_all add: wk same running_iff)
    show "woken o' s1" if "o' \<noteq> obj" for o'
      using inv same(2) [OF that] by (simp add: mon_inv_def woken_def wk monitor_free_def)
    show "inspect_monitor (mv_headers s1 o') \<noteq> None" if "enters o' (wakeup_of u s1)" for u o'
      using inv that ex same(2) [of o'] by (cases "o' = obj") (auto simp: mon_inv_def wk)
  qed (use try_acquire_shape [OF ex r] in auto)
  with r show ?thesis by (simp add: monitor_acquire_def Some)
qed

lemma mon_inv_resume:
  assumes inv: "mon_inv s" and i: "find_info t (mv_sched s) = Some i" "wakeup_info i = Some w"
    and k: "w_kind w = RR_MONITOR_ENTER_WAITING"
    and op: "op = try_acquire t (w_monitor w) w (set_wakeup t None s) \<or> op = try_reacquire t (w_monitor w) hold w (set_wakeup t None s)"
  shows "mon_inv (after t op)"
proof -
  let ?s0 = "set_wakeup t None s"
  have "enters (w_monitor w) (wakeup_of t s)" using i k by (simp add: wakeup_of_def enters_def)
  with inv have ex: "inspect_monitor (mv_headers ?s0 (w_monitor w)) \<noteq> None" by (auto simp: mon_inv_def set_wakeup_def)
  obtain r s' where r: "op = (r, s')" by fastforce
  have shape: "mv_sched s' = mv_sched ?s0" "\<And>o'. o' \<noteq> w_monitor w \<Longrightarrow> mv_headers s' o' = mv_headers ?s0 o'"
    "\<not> monitor_free (w_monitor w) s'" "\<And>w'. r = Wait w' \<Longrightarrow> w_kind w' = RR_MONITOR_ENTER_WAITING \<and> w_monitor w' = w_monitor w"
    using op r try_acquire_shape [OF ex] try_reacquire_shape [OF ex] by metis+
  note ch = chosen [OF inv i refl]
  show ?thesis unfolding r
    by (rule mon_inv_after [where s = ?s0 and obj = "w_monitor w"]) (use ch shape k in blast)+
qed

lemma mon_inv_resume_wait:
  assumes inv: "mon_inv s" and i: "find_info t (mv_sched s) = Some i" "wakeup_info i = Some w"
    and k: "w_kind w = RR_MONITOR_WAIT"
  shows "mon_inv (after t (monitor_reacquire_hold_count t (w_monitor w) hold (set_wakeup t None s)))"
proof -
  let ?s0 = "set_wakeup t None s"
  have nt: "\<not> enters obj (wakeup_of t s)" for obj using i k by (simp add: wakeup_of_def enters_def)
  have inv0: "mon_inv ?s0" using mon_inv_set_wakeup [OF inv nt] by (simp add: enters_def)
  obtain r s' where r: "try_reacquire t (w_monitor w) hold zero_wakeup ?s0 = (r, s')" by fastforce
  show ?thesis
  proof (cases "inspect_monitor (mv_headers ?s0 (w_monitor w))")
    case None
    with inv0 show ?thesis by (simp add: monitor_reacquire_hold_count_def try_reacquire_def)
  next
    case (Some m)
    then have ex: "inspect_monitor (mv_headers ?s0 (w_monitor w)) \<noteq> None" by simp
    note ch = chosen [OF inv i refl]
    have "mon_inv (after t (r, s'))"
      by (rule mon_inv_after [where s = ?s0 and obj = "w_monitor w"]) (use ch try_reacquire_shape [OF ex r] k in blast)+
    with r show ?thesis by (simp add: monitor_reacquire_hold_count_def)
  qed
qed

lemma mon_inv_release:
  assumes "mon_inv s"
  shows "mon_inv (snd (monitor_release t obj s))"
proof (cases "inspect_monitor (mv_headers s obj)")
  case (Some lock)
  have "mon_inv (set_monitor obj (lock\<lparr>m_hold_count := n\<rparr>) s)" for n
  proof -
    let ?s = "set_monitor obj (lock\<lparr>m_hold_count := n\<rparr>) s"
    have wk: "wakeup_of u ?s = wakeup_of u s" for u by (simp add: wakeup_of_def set_monitor_def)
    have fr: "monitor_free o' ?s = monitor_free o' s" for o'
      using Some by (cases "o' = obj") (simp_all add: monitor_free_def set_monitor_def)
    have ex: "inspect_monitor (mv_headers s o') \<noteq> None \<Longrightarrow> inspect_monitor (mv_headers ?s o') \<noteq> None" for o'
      by (simp add: set_monitor_def)
    have "threads_distinct ?s = threads_distinct s" by (simp add: threads_distinct_def set_monitor_def)
    with assms ex show ?thesis unfolding mon_inv_def woken_def wk fr by blast
  qed
  with assms Some mon_inv_exit [OF assms, of obj lock] show ?thesis by (simp add: monitor_release_def)
qed (use assms in \<open>simp add: monitor_release_def\<close>)

lemma mon_inv_environment:
  assumes inv: "mon_inv s" and d: "distinct (map ti_thread (round_robin sch))"
    and m: "mset (filter (\<lambda>i. wakeup_info i \<noteq> None) (round_robin sch)) =
      mset (filter (\<lambda>i. wakeup_info i \<noteq> None) (round_robin (mv_sched s)))"
  shows "mon_inv (s\<lparr>mv_sched := sch\<rparr>)"
proof (rule mon_inv_same [OF inv])
  have td: "threads_distinct (s\<lparr>mv_sched := sch\<rparr>)" "threads_distinct s"
    using d inv by (simp_all add: threads_distinct_def mon_inv_def)
  then show "threads_distinct (s\<lparr>mv_sched := sch\<rparr>)" by simp
  have "wakeup_of u (s\<lparr>mv_sched := sch\<rparr>) = Some w \<longleftrightarrow> wakeup_of u s = Some w" for u w
    using mset_eq_setD [OF m] unfolding wakeup_of_iff [OF td(1)] wakeup_of_iff [OF td(2)]
    by (auto simp: set_eq_iff)
  then show "wakeup_of u (s\<lparr>mv_sched := sch\<rparr>) = wakeup_of u s" for u by (metis not_None_eq)
qed simp

lemma mon_inv_wait0:
  assumes inv: "mon_inv s" and run: "running t s" and w: "object_wait0 t obj now ms s = (r, s')"
  shows "mon_inv s' \<and> (\<forall>o'. \<not> enters o' (wakeup_of t s'))"
proof -
  have nt: "\<not> enters o' (wakeup_of t s)" for o' using run by (simp add: running_iff enters_def)
  have clear: "mon_inv (clear_interrupt t s)" "wakeup_of u (clear_interrupt t s) = wakeup_of u s" for u
    by (rule mon_inv_same [OF inv])
      (use inv in \<open>auto simp: mon_inv_def wakeup_of_def clear_interrupt_def update_thread_def find_info_def threads_distinct_def\<close>)
  obtain hold s1 where rel: "monitor_release_all_hold_count t obj s = (hold, s1)" by fastforce
  have "mon_inv s1 \<and> (\<forall>o'. \<not> enters o' (wakeup_of t s1))"
  proof (cases "s1 = s")
    case False
    then obtain lock where "inspect_monitor (mv_headers s obj) = Some lock" "s1 = exit_monitor obj lock s"
      using rel by (auto simp: monitor_release_all_hold_count_def split: option.splits if_splits)
    with mon_inv_exit [OF inv, of obj lock] nt show ?thesis by (simp add: exit_monitor_enters)
  qed (use inv nt in simp)
  with w rel clear nt show ?thesis by (auto simp: object_wait0_def Let_def split: if_splits)
qed

lemma mon_inv_step:
  assumes "mon_step s s'" "mon_inv s"
  shows "mon_inv s'"
  using assms
proof (cases rule: mon_step.cases)
  case (notify t obj)
  then have "s' = s\<lparr>mv_sched := monitor_notify_one obj (mv_sched s)\<rparr>" by (auto simp: object_notify_def split: if_splits)
  with mon_inv_upgrades [OF assms(2) upgrades_ready_first] show ?thesis by (simp add: monitor_notify_one_def)
next
  case (notify_all t obj)
  then have "s' = s\<lparr>mv_sched := monitor_notify_all obj (mv_sched s)\<rparr>" by (auto simp: object_notifyAll_def split: if_splits)
  with mon_inv_upgrades [OF assms(2) upgrades_notify_all] show ?thesis by simp
next
  case (wait t obj now ms hold w s1)
  note i1 = mon_inv_wait0 [OF assms(2) wait(2,3)]
  have "w_kind w = RR_MONITOR_WAIT" using wait(3) by (auto simp: object_wait0_def Let_def split: if_splits prod.splits)
  then show ?thesis using mon_inv_set_wakeup [of s1 t "Some w"] i1 wait(1) by (auto simp: enters_def)
next
  case (block t w)
  then show ?thesis using mon_inv_set_wakeup [OF assms(2), of t "Some w"] by (auto simp: enters_def running_iff)
next
  case (resume_other t)
  then show ?thesis using mon_inv_set_wakeup [OF assms(2), of t None] by (auto simp: enters_def entering_def)
qed (auto intro: mon_inv_acquire mon_inv_release mon_inv_resume mon_inv_resume_wait mon_inv_environment dest: mon_inv_wait0)

section \<open>Properties\<close>

text \<open>C32. No wake-up is lost: in every state that the threads can reach by acquiring, releasing, waiting,
  notifying and blocking, under any interleaving that the scheduler allows, a monitor that is free and that
  some thread waits to enter has a waiter that the scheduler does not consider asleep at any time; so the
  monitor is taken again. This holds although \<^verbatim>\<open>monitor_exit_handler\<close> tells at most one waiter,
  and another thread may take the monitor before that waiter runs.\<close>

theorem monitor_no_lost_wakeup:
  assumes "rtranclp mon_step s0 s" "threads_distinct s0" "\<forall>t o'. \<not> enters o' (wakeup_of t s0)"
    and "monitor_free obj s" "enters obj (wakeup_of t s)"
  shows "\<exists>i\<in>set (round_robin (mv_sched s)). enters obj (wakeup_info i) \<and> (\<forall>time. \<not> is_sleeping (mv_sched s) time i)"
proof -
  have "mon_inv s0" using assms(2,3) by (simp add: mon_inv_def woken_def)
  with assms(1) have inv: "mon_inv s" by (induction rule: rtranclp_induct) (auto intro: mon_inv_step)
  then obtain u where "ready_to_enter obj (wakeup_of u s)" using assms(4,5) by (auto simp: mon_inv_def woken_def)
  then obtain w where w: "wakeup_of u s = Some w" "w_kind w = RR_MONITOR_ENTER_WAITING" "w_monitor w = obj" "w_ready w"
    by (auto simp: ready_to_enter_def)
  then obtain i where i: "i \<in> set (round_robin (mv_sched s))" "wakeup_info i = Some w"
    using wakeup_of_iff inv by (fastforce simp: mon_inv_def)
  with w show ?thesis by (intro bexI [OF _ i(1)]) (simp add: enters_def is_sleeping_def)
qed

text \<open>Two threads that contend for the monitor of object 5.\<close>

definition contenders :: "nat mon_vm" where
  "contenders = \<lparr>mv_sched = (rr_scheduler_init (\<lambda>_. idle_vm_thread) (\<lambda>_. blank_record))\<lparr>round_robin :=
       [\<lparr>ti_thread = 0, call_queue = [], wakeup_info = None\<rparr>, \<lparr>ti_thread = 1, call_queue = [], wakeup_info = None\<rparr>]\<rparr>,
     mv_headers = (\<lambda>_. Mark_word (0, 0))\<rparr>"

definition contended1 :: "nat mon_vm" where
  "contended1 = after 0 (monitor_acquire True 0 5 contenders)"

definition contended2 :: "nat mon_vm" where
  "contended2 = after 1 (monitor_acquire True 1 5 contended1)"

definition contended3 :: "nat mon_vm" where
  "contended3 = snd (monitor_release 0 5 contended2)"

lemmas contended_defs = contenders_def contended1_def contended2_def contended3_def monitor_acquire_def ensure_monitor_def
  try_acquire_def monitor_release_def set_monitor_def exit_monitor_def monitor_exit_handler_def set_wakeup_def update_info_def
  enter_wait_def zero_wakeup_def running_def find_info_def waits_for_def set_ready_def wakeup_of_def enters_def monitor_free_def
  Let_def

theorem monitor_no_lost_wakeup_witness:
  "\<exists>i\<in>set (round_robin (mv_sched contended3)). enters 5 (wakeup_info i) \<and> (\<forall>time. \<not> is_sleeping (mv_sched contended3) time i)"
proof -
  have a: "mon_step contenders contended1" unfolding contended1_def by (rule mon_step.acquire) (simp add: contended_defs)
  have b: "mon_step contended1 contended2" unfolding contended2_def by (rule mon_step.acquire) (simp add: contended_defs)
  have c: "mon_step contended2 contended3" unfolding contended3_def by (rule mon_step.release) (simp add: contended_defs)
  have reach: "rtranclp mon_step contenders contended3"
    using a b c by (auto intro: rtranclp.rtrancl_into_rtrancl [where r = mon_step] rtranclp.rtrancl_refl [where r = mon_step])
  have "threads_distinct contenders" "\<forall>t o'. \<not> enters o' (wakeup_of t contenders)"
    by (simp_all add: contended_defs threads_distinct_def)
  moreover have "monitor_free 5 contended3" "enters 5 (wakeup_of 1 contended3)"
    by (simp_all add: contended_defs)
  ultimately show ?thesis by (rule monitor_no_lost_wakeup [OF reach])
qed

text \<open>The lock that a header word stands for: the owner and how often it holds the monitor.\<close>

definition abs_lock :: "header_word \<Rightarrow> (nat \<times> nat) option" where
  "abs_lock h = (case inspect_monitor h of
      None \<Rightarrow> None
    | Some m \<Rightarrow> if m_tid m = NOT_HELD_TID then None else Some (nat (m_tid m), unat (m_hold_count m)))"

definition lock_ok :: "header_word \<Rightarrow> bool" where
  "lock_ok h \<longleftrightarrow> (case inspect_monitor h of
      None \<Rightarrow> True
    | Some m \<Rightarrow> -1 \<le> m_tid m \<and> (m_tid m = NOT_HELD_TID \<longleftrightarrow> m_hold_count m = 0))"

fun lock_acquire :: "nat \<Rightarrow> (nat \<times> nat) option \<Rightarrow> (nat \<times> nat) option option" where
  "lock_acquire t None = Some (Some (t, 1))"
| "lock_acquire t (Some (u, n)) = (if u = t then Some (Some (t, n + 1)) else None)"

fun lock_release :: "nat \<Rightarrow> (nat \<times> nat) option \<Rightarrow> (nat \<times> nat) option option" where
  "lock_release t None = None"
| "lock_release t (Some (u, n)) = (if u = t then Some (if n = 1 then None else Some (u, n - 1)) else None)"

lemma unat_pred: "(c :: u32) \<noteq> 0 \<Longrightarrow> unat (c - 1) = unat c - 1"
  by (simp add: unat_minus_one)

text \<open>C33. Monitors implement reentrant locks: on a well-formed header, acquiring takes a free monitor with
  count 1, adds one when the thread owns it, and waits, changing nothing, when another thread does; releasing
  takes one away and frees the monitor at 0, and fails, changing nothing, for a thread that is not the owner.
  Headers stay well formed. The count must not be about to wrap around.\<close>

theorem monitor_refines_lock:
  assumes "lock_ok (mv_headers s obj)" "\<forall>u n. abs_lock (mv_headers s obj) = Some (u, n) \<longrightarrow> n + 1 < 2 ^ 32"
  shows "(case monitor_acquire True t obj s of
      (Finished r, s') \<Rightarrow> r = 0 \<and> lock_acquire t (abs_lock (mv_headers s obj)) = Some (abs_lock (mv_headers s' obj)) \<and>
        lock_ok (mv_headers s' obj)
    | (Wait w, s') \<Rightarrow> lock_acquire t (abs_lock (mv_headers s obj)) = None \<and> s' = s) \<and>
    (case monitor_release t obj s of (r, s') \<Rightarrow>
      if r = 0 then lock_release t (abs_lock (mv_headers s obj)) = Some (abs_lock (mv_headers s' obj)) \<and> lock_ok (mv_headers s' obj)
      else r = -1 \<and> lock_release t (abs_lock (mv_headers s obj)) = None \<and> s' = s)"
proof (cases "mv_headers s obj")
  case (Mark_word x)
  then show ?thesis
    by (simp add: monitor_acquire_def ensure_monitor_def try_acquire_def monitor_release_def set_monitor_def abs_lock_def lock_ok_def)
next
  case (Expanded_data m)
  have tid: "-1 \<le> m_tid m" "m_tid m = -1 \<longleftrightarrow> m_hold_count m = 0" using assms(1) Expanded_data by (auto simp: lock_ok_def)
  consider (free) "m_tid m = -1" | (own) "m_tid m = int t" | (other) "m_tid m \<noteq> -1" "m_tid m \<noteq> int t" by blast
  then show ?thesis
  proof cases
    case free
    with Expanded_data tid show ?thesis
      by (simp add: monitor_acquire_def ensure_monitor_def try_acquire_def monitor_release_def set_monitor_def abs_lock_def lock_ok_def)
  next
    case own
    with tid have nz: "m_hold_count m \<noteq> 0" by simp
    have lt: "unat (m_hold_count m) + 1 < 2 ^ 32" using assms(2) own Expanded_data by (simp add: abs_lock_def)
    then have "unat (m_hold_count m + 1) = unat (m_hold_count m) + 1" using unat_add_lem [of "m_hold_count m" 1] by simp
    moreover from this have "m_hold_count m + 1 \<noteq> 0" by (metis add_is_0 unsigned_0 zero_neq_one)
    moreover have "m_hold_count m = 1 \<longleftrightarrow> unat (m_hold_count m) = 1" by (simp add: word_unat_eq_iff)
    ultimately show ?thesis using own Expanded_data nz unat_pred [OF nz]
      by (simp add: monitor_acquire_def ensure_monitor_def try_acquire_def monitor_release_def set_monitor_def abs_lock_def
          lock_ok_def exit_monitor_def Let_def)
  next
    case other
    then show ?thesis using Expanded_data tid
      by (auto simp: monitor_acquire_def ensure_monitor_def try_acquire_def monitor_release_def abs_lock_def)
  qed
qed

theorem monitor_refines_lock_witness:
  "case monitor_acquire True 0 5 contended1 of
      (Finished r, s') \<Rightarrow> r = 0 \<and> lock_acquire 0 (Some (0, 1)) = Some (abs_lock (mv_headers s' 5))
    | (Wait w, s') \<Rightarrow> False"
proof -
  have h: "mv_headers contended1 5 = Expanded_data \<lparr>m_tid = 0, m_hold_count = 1, m_mark_word = (0, 0)\<rparr>"
    by (simp add: contended_defs)
  then have "lock_ok (mv_headers contended1 5)" "abs_lock (mv_headers contended1 5) = Some (0, 1)"
    by (simp_all add: lock_ok_def abs_lock_def)
  with monitor_refines_lock [of contended1 5 0] show ?thesis by (auto split: prod.splits async_result.splits)
qed

text \<open>C34. \<^verbatim>\<open>Object.wait\<close> gives the monitor up completely and gets it back at the same depth: when it
  begins to wait the monitor is free, and whenever the monitor is free later, reacquiring with the saved count
  succeeds and restores the number of times the thread held it, which was not 0.\<close>

theorem wait_restores_hold_count:
  assumes "object_wait0 t obj now ms s = (Inr (hold, w), s')" "monitor_free obj u" "inspect_monitor (mv_headers u obj) \<noteq> None"
  shows "monitor_free obj s' \<and> current_thread_hold_count t obj s \<noteq> 0 \<and>
    (\<exists>u'. monitor_reacquire_hold_count t obj hold u = (Finished 0, u') \<and>
      current_thread_hold_count t obj u' = current_thread_hold_count t obj s)"
proof -
  have "monitor_release_all_hold_count t obj s = (hold, s')" "hold \<noteq> 0"
    using assms(1) by (auto simp: object_wait0_def Let_def split: if_splits prod.splits)
  then obtain lock where l: "inspect_monitor (mv_headers s obj) = Some lock" "m_tid lock = int t" "m_hold_count lock = hold"
    "s' = exit_monitor obj lock s" "hold \<noteq> 0"
    by (auto simp: monitor_release_all_hold_count_def split: option.splits if_splits)
  then have "monitor_free obj s'" "current_thread_hold_count t obj s = hold"
    by (auto simp: monitor_free_def exit_monitor_def Let_def set_monitor_def current_thread_hold_count_def)
  with assms(2,3) l(5) show ?thesis
    by (auto simp: monitor_free_def monitor_reacquire_hold_count_def try_reacquire_def current_thread_hold_count_def set_monitor_def)
qed

theorem wait_restores_hold_count_witness:
  "\<exists>w s' u'. object_wait0 0 5 0 0 contended1 = (Inr (1, w), s') \<and>
     monitor_reacquire_hold_count 0 5 1 s' = (Finished 0, u') \<and> current_thread_hold_count 0 5 u' = 1"
proof -
  obtain w s' where w: "object_wait0 0 5 0 0 contended1 = (Inr (1, w), s')"
    and f: "monitor_free 5 s'" "inspect_monitor (mv_headers s' 5) \<noteq> None" "current_thread_hold_count 0 5 contended1 = 1"
    by (simp add: object_wait0_def monitor_release_all_hold_count_def contended_defs current_thread_hold_count_def
        rr_scheduler_init_def idle_vm_thread_def)
  from wait_restores_hold_count [OF w f(1,2)] w f(3) show ?thesis by auto
qed

end
