(* ===== verification/Gc_Sort.thy ===== *)
theory Gc_Sort
  imports Prelude "HOL-Library.Multiset"
begin

text \<open>
  Sorting and searching of the collector's vector of pointers, \<^verbatim>\<open>quicksort_pointers\<close> and
  \<^verbatim>\<open>binary_search_for_pointer\<close> of \<^verbatim>\<open>vm/gc.c\<close>. Pointers are numbers. The two pointers of the
  partitioning loop are integers, since the right one may end up before the array; an access outside of the
  array makes the result \<open>None\<close>. Both functions are proved correct, the absence of such accesses included.
\<close>

section \<open>Partitioning\<close>

text \<open>\<^verbatim>\<open>while (*left < pivot) left++;\<close> and \<^verbatim>\<open>while (*right > pivot) right--;\<close>\<close>

function scan_up :: "nat list \<Rightarrow> nat \<Rightarrow> int \<Rightarrow> int option" where
  "scan_up xs p l =
     (if l < 0 \<or> l \<ge> int (length xs) then None
      else if xs ! nat l < p then scan_up xs p (l + 1) else Some l)"
  by pat_completeness auto
termination by (relation "measure (\<lambda>(xs, p, l). nat (int (length xs) - l))") auto

function scan_down :: "nat list \<Rightarrow> nat \<Rightarrow> int \<Rightarrow> int option" where
  "scan_down xs p r =
     (if r < 0 \<or> r \<ge> int (length xs) then None
      else if xs ! nat r > p then scan_down xs p (r - 1) else Some r)"
  by pat_completeness auto
termination by (relation "measure (\<lambda>(xs, p, r). nat (r + 1))") auto

declare scan_up.simps [simp del] scan_down.simps [simp del]

lemma scan_up_ge: "scan_up xs p l = Some l' \<Longrightarrow> l \<le> l'"
  by (induction xs p l rule: scan_up.induct) (subst (asm) (2) scan_up.simps, fastforce split: if_splits)

lemma scan_down_le: "scan_down xs p r = Some r' \<Longrightarrow> r' \<le> r"
  by (induction xs p r rule: scan_down.induct) (subst (asm) (2) scan_down.simps, fastforce split: if_splits)

definition swap :: "nat list \<Rightarrow> nat \<Rightarrow> nat \<Rightarrow> nat list" where
  "swap xs i j = xs[i := xs ! j, j := xs ! i]"

function partition_loop :: "nat list \<Rightarrow> nat \<Rightarrow> int \<Rightarrow> int \<Rightarrow> (nat list \<times> int \<times> int) option" where
  "partition_loop xs p l r =
     (if l \<le> r then
        case scan_up xs p l of None \<Rightarrow> None
        | Some l' \<Rightarrow> (case scan_down xs p r of None \<Rightarrow> None
          | Some r' \<Rightarrow>
              if l' \<le> r' then partition_loop (swap xs (nat l') (nat r')) p (l' + 1) (r' - 1)
              else partition_loop xs p l' r')
      else Some (xs, l, r))"
  by pat_completeness auto
termination
  by (relation "measure (\<lambda>(xs, p, l, r). nat (r - l + 1))") (auto dest!: scan_up_ge scan_down_le)

declare partition_loop.simps [simp del]

lemma scan_up_finds:
  assumes "0 \<le> l" "l \<le> i" "i < int (length xs)" "p \<le> xs ! nat i"
  shows "\<exists>l'. scan_up xs p l = Some l' \<and> l \<le> l' \<and> l' \<le> i \<and> p \<le> xs ! nat l' \<and> (\<forall>k. l \<le> k \<and> k < l' \<longrightarrow> xs ! nat k < p)"
  using assms
proof (induction xs p l rule: scan_up.induct)
  case (1 xs p l)
  show ?case
  proof (cases "xs ! nat l < p")
    case True
    with "1.prems" have "l \<noteq> i" by auto
    with 1 True obtain l' where l': "scan_up xs p (l + 1) = Some l'" "l + 1 \<le> l'" "l' \<le> i" "p \<le> xs ! nat l'"
      "\<forall>k. l + 1 \<le> k \<and> k < l' \<longrightarrow> xs ! nat k < p" by auto
    have "\<forall>k. l \<le> k \<and> k < l' \<longrightarrow> xs ! nat k < p" using l'(5) True by (metis zless_add1_eq add.commute linorder_not_less order_le_less zle_add1_eq_le)
    with l' True "1.prems" show ?thesis by (subst scan_up.simps) auto
  next
    case False
    with "1.prems" show ?thesis by (subst scan_up.simps) auto
  qed
qed

lemma scan_down_finds:
  assumes "r < int (length xs)" "i \<le> r" "0 \<le> i" "xs ! nat i \<le> p"
  shows "\<exists>r'. scan_down xs p r = Some r' \<and> r' \<le> r \<and> i \<le> r' \<and> xs ! nat r' \<le> p \<and> (\<forall>k. r' < k \<and> k \<le> r \<longrightarrow> p < xs ! nat k)"
  using assms
proof (induction xs p r rule: scan_down.induct)
  case (1 xs p r)
  show ?case
  proof (cases "xs ! nat r > p")
    case True
    with "1.prems" have "r \<noteq> i" by auto
    with 1 True obtain r' where r': "scan_down xs p (r - 1) = Some r'" "r' \<le> r - 1" "i \<le> r'" "xs ! nat r' \<le> p"
      "\<forall>k. r' < k \<and> k \<le> r - 1 \<longrightarrow> p < xs ! nat k" by auto
    have "\<forall>k. r' < k \<and> k \<le> r \<longrightarrow> p < xs ! nat k" using r'(5) True by (metis order_le_less zle_diff1_eq)
    with r' True "1.prems" show ?thesis by (subst scan_down.simps) auto
  next
    case False
    with "1.prems" show ?thesis by (subst scan_down.simps) auto
  qed
qed

text \<open>Hoare's invariant: what lies left of the left pointer is not above the pivot, what lies right of the
  right pointer is not below it, and while the pointers have not met both scans will stop.\<close>

definition hoare_inv :: "nat list \<Rightarrow> nat \<Rightarrow> int \<Rightarrow> int \<Rightarrow> bool" where
  "hoare_inv xs p l r \<longleftrightarrow> 0 \<le> l \<and> l \<le> int (length xs) \<and> -1 \<le> r \<and> r < int (length xs) \<and>
     (\<forall>k<length xs. (int k < l \<longrightarrow> xs ! k \<le> p) \<and> (r < int k \<longrightarrow> p \<le> xs ! k)) \<and>
     (l \<le> r \<longrightarrow> (\<exists>i. l \<le> i \<and> i < int (length xs) \<and> p \<le> xs ! nat i) \<and> (\<exists>j. 0 \<le> j \<and> j \<le> r \<and> xs ! nat j \<le> p))"

lemma mset_swap: "i < length xs \<Longrightarrow> j < length xs \<Longrightarrow> mset (swap xs i j) = mset xs"
  by (simp add: swap_def mset_swap)

lemma length_swap [simp]: "length (swap xs i j) = length xs"
  by (simp add: swap_def)

lemma hoare_inv_swap:
  assumes inv: "hoare_inv xs p l r" and l': "l \<le> l'" "l' \<le> r'" "r' \<le> r" "p \<le> xs ! nat l'" "xs ! nat r' \<le> p"
    and up: "\<forall>k. l \<le> k \<and> k < l' \<longrightarrow> xs ! nat k < p" and down: "\<forall>k. r' < k \<and> k \<le> r \<longrightarrow> p < xs ! nat k"
  shows "hoare_inv (swap xs (nat l') (nat r')) p (l' + 1) (r' - 1)"
proof -
  let ?ys = "swap xs (nat l') (nat r')"
  have b: "0 \<le> l" "r < int (length xs)" and e: "\<And>k. k < length xs \<Longrightarrow> int k < l \<Longrightarrow> xs ! k \<le> p"
    "\<And>k. k < length xs \<Longrightarrow> r < int k \<Longrightarrow> p \<le> xs ! k" using inv by (auto simp: hoare_inv_def)
  have nth: "?ys ! k = (if k = nat r' then xs ! nat l' else if k = nat l' then xs ! nat r' else xs ! k)" if "k < length xs" for k
    using b l' that by (auto simp: swap_def nth_list_update)
  have left: "?ys ! k \<le> p" if k: "k < length xs" "int k < l' + 1" for k
  proof (cases "int k < l")
    case True
    then have "k \<noteq> nat l'" "k \<noteq> nat r'" using l' b by auto
    with e(1) [OF that(1) True] show ?thesis by (simp add: nth [OF that(1)])
  next
    case False
    then consider "int k = l'" | "l \<le> int k" "int k < l'" using k by linarith
    then show ?thesis
    proof cases
      case 1
      then have "k = nat l'" by simp
      with l' show ?thesis unfolding nth [OF k(1)] by auto
    next
      case 2
      then have "k \<noteq> nat l'" "k \<noteq> nat r'" using l' b by auto
      with up [rule_format, of "int k"] 2 show ?thesis by (simp add: nth [OF that(1)])
    qed
  qed
  have right: "p \<le> ?ys ! k" if k: "k < length xs" "r' - 1 < int k" for k
  proof (cases "r < int k")
    case True
    then have "k \<noteq> nat l'" "k \<noteq> nat r'" using l' b by auto
    with e(2) [OF that(1) True] show ?thesis by (simp add: nth [OF that(1)])
  next
    case False
    then consider "int k = r'" | "r' < int k" "int k \<le> r" using k by linarith
    then show ?thesis
    proof cases
      case 1
      then have "k = nat r'" by simp
      with l' show ?thesis unfolding nth [OF k(1)] by auto
    next
      case 2
      then have "k \<noteq> nat l'" "k \<noteq> nat r'" using l' b by auto
      with down [rule_format, of "int k"] 2 show ?thesis by (simp add: nth [OF that(1)])
    qed
  qed
  have "p \<le> ?ys ! nat r'" "?ys ! nat l' \<le> p" using right [of "nat r'"] left [of "nat l'"] l' b by auto
  then show ?thesis using left right l' b unfolding hoare_inv_def length_swap
    by (intro conjI allI impI exI [of _ r'] exI [of _ l']) auto
qed

lemma partition_loop_spec:
  assumes "hoare_inv xs p l r"
  shows "\<exists>ys l' r'. partition_loop xs p l r = Some (ys, l', r') \<and> hoare_inv ys p l' r' \<and> r' < l' \<and> l \<le> l' \<and> r' \<le> r \<and> mset ys = mset xs"
  using assms
proof (induction xs p l r rule: partition_loop.induct)
  case (1 xs p l r)
  note inv = "1.prems"
  show ?case
  proof (cases "l \<le> r")
    case False
    with inv show ?thesis by (subst partition_loop.simps) auto
  next
    case True
    then obtain i j where ij: "l \<le> i" "i < int (length xs)" "p \<le> xs ! nat i" "0 \<le> j" "j \<le> r" "xs ! nat j \<le> p"
      using inv by (auto simp: hoare_inv_def)
    have b: "0 \<le> l" "r < int (length xs)" using inv by (auto simp: hoare_inv_def)
    obtain l1 where l1: "scan_up xs p l = Some l1" "l \<le> l1" "l1 \<le> i" "p \<le> xs ! nat l1" "\<forall>k. l \<le> k \<and> k < l1 \<longrightarrow> xs ! nat k < p"
      using scan_up_finds [OF b(1) ij(1-3)] by blast
    obtain r1 where r1: "scan_down xs p r = Some r1" "r1 \<le> r" "j \<le> r1" "xs ! nat r1 \<le> p" "\<forall>k. r1 < k \<and> k \<le> r \<longrightarrow> p < xs ! nat k"
      using scan_down_finds [OF b(2) ij(5,4,6)] by blast
    show ?thesis
    proof (cases "l1 \<le> r1")
      case le: True
      have inv': "hoare_inv (swap xs (nat l1) (nat r1)) p (l1 + 1) (r1 - 1)"
        by (rule hoare_inv_swap [OF inv l1(2) le r1(2) l1(4) r1(4) l1(5) r1(5)])
      obtain ys l' r' where res: "partition_loop (swap xs (nat l1) (nat r1)) p (l1 + 1) (r1 - 1) = Some (ys, l', r')"
        "hoare_inv ys p l' r'" "r' < l'" "l1 + 1 \<le> l'" "r' \<le> r1 - 1" "mset ys = mset (swap xs (nat l1) (nat r1))"
        using "1.IH"(1) [OF True l1(1) r1(1) le inv'] by fastforce
      have "mset ys = mset xs" using res(6) le l1(2) r1(2) b by (simp add: mset_swap)
      with res True l1 r1 le show ?thesis by (subst partition_loop.simps) auto
    next
      case gt: False
      have "hoare_inv xs p l1 r1"
        unfolding hoare_inv_def
      proof (intro conjI allI impI)
        fix k assume k: "k < length xs"
        show "xs ! k \<le> p" if "int k < l1"
          using inv k that l1(5) [rule_format, of "int k"] by (cases "int k < l") (auto simp: hoare_inv_def less_imp_le)
        show "p \<le> xs ! k" if "r1 < int k"
          using inv k that r1(5) [rule_format, of "int k"] by (cases "r < int k") (auto simp: hoare_inv_def less_imp_le)
      qed (use gt b l1 r1 ij in auto)
      with "1.IH"(2) [OF True l1(1) r1(1) gt] True l1 r1 gt show ?thesis by (subst partition_loop.simps) fastforce
    qed
  qed
qed

section \<open>Sorting\<close>

lemma partition_start:
  assumes "1 < length xs"
  shows "\<exists>ys l r. partition_loop xs (xs ! (length xs div 2)) 0 (int (length xs) - 1) = Some (ys, l, r) \<and>
    hoare_inv ys (xs ! (length xs div 2)) l r \<and> r < l \<and> 0 < l \<and> r + 1 < int (length xs) \<and> mset ys = mset xs"
proof -
  let ?m = "length xs div 2" let ?p = "xs ! ?m" let ?r = "int (length xs) - 1"
  have m: "0 \<le> int ?m" "int ?m < int (length xs)" "int ?m \<le> ?r" using assms by auto
  have inv: "hoare_inv xs ?p 0 ?r" using m by (auto simp: hoare_inv_def intro!: exI [of _ "int ?m"])
  obtain l1 where l1: "scan_up xs ?p 0 = Some l1" "0 \<le> l1" "l1 \<le> int ?m" "?p \<le> xs ! nat l1" "\<forall>k. 0 \<le> k \<and> k < l1 \<longrightarrow> xs ! nat k < ?p"
    using scan_up_finds [of 0 "int ?m" xs ?p] m by auto
  obtain r1 where r1: "scan_down xs ?p ?r = Some r1" "r1 \<le> ?r" "int ?m \<le> r1" "xs ! nat r1 \<le> ?p" "\<forall>k. r1 < k \<and> k \<le> ?r \<longrightarrow> ?p < xs ! nat k"
    using scan_down_finds [of ?r xs "int ?m" ?p] m by auto
  have le: "l1 \<le> r1" using l1(3) r1(3) by simp
  have "hoare_inv (swap xs (nat l1) (nat r1)) ?p (l1 + 1) (r1 - 1)"
    by (rule hoare_inv_swap [OF inv l1(2) le r1(2) l1(4) r1(4) l1(5) r1(5)])
  from partition_loop_spec [OF this] obtain ys l r where
    res: "partition_loop (swap xs (nat l1) (nat r1)) ?p (l1 + 1) (r1 - 1) = Some (ys, l, r)"
      "hoare_inv ys ?p l r" "r < l" "l1 + 1 \<le> l" "r \<le> r1 - 1" "mset ys = mset (swap xs (nat l1) (nat r1))" by auto
  have "partition_loop xs ?p 0 ?r = Some (ys, l, r)"
    using res(1) l1(1) r1(1) le assms by (subst partition_loop.simps) auto
  moreover have "mset ys = mset xs" using res(6) le l1(2) r1(2) by (simp add: mset_swap)
  ultimately show ?thesis using res l1(2) r1(2) by auto
qed

function quicksort_pointers :: "nat list \<Rightarrow> nat list option" where
  "quicksort_pointers xs =
     (if length xs \<le> 1 then Some xs
      else case partition_loop xs (xs ! (length xs div 2)) 0 (int (length xs) - 1) of
        None \<Rightarrow> None
      | Some (ys, l, r) \<Rightarrow>
          (case quicksort_pointers (take (nat (r + 1)) ys) of None \<Rightarrow> None
           | Some as \<Rightarrow> (case quicksort_pointers (drop (nat l) ys) of None \<Rightarrow> None
             | Some bs \<Rightarrow> Some (as @ take (nat l - nat (r + 1)) (drop (nat (r + 1)) ys) @ bs))))"
  by pat_completeness auto
termination
proof (relation "measure length", goal_cases)
  case (2 xs yslr ys lr l r)
  with partition_start [of xs] show ?case by (auto dest: mset_eq_length)
next
  case (3 xs yslr ys lr l r as)
  with partition_start [of xs] show ?case by (auto dest: mset_eq_length)
qed auto

declare quicksort_pointers.simps [simp del]

lemma quicksort_pointers_spec: "\<exists>ys. quicksort_pointers xs = Some ys \<and> sorted ys \<and> mset ys = mset xs"
proof (induction xs rule: quicksort_pointers.induct)
  case (1 xs)
  show ?case
  proof (cases "length xs \<le> 1")
    case True
    then have "sorted xs" by (cases xs; cases "tl xs") auto
    with True show ?thesis by (simp add: quicksort_pointers.simps)
  next
    case False
    let ?p = "xs ! (length xs div 2)"
    obtain ys l r where part: "partition_loop xs ?p 0 (int (length xs) - 1) = Some (ys, l, r)"
      and inv: "hoare_inv ys ?p l r" and b: "r < l" "0 < l" "r + 1 < int (length xs)" and m: "mset ys = mset xs"
      using partition_start [of xs] False by auto
    have r: "-1 \<le> r" "l \<le> int (length ys)" using inv by (auto simp: hoare_inv_def)
    define a where "a = take (nat (r + 1)) ys"
    define c where "c = take (nat l - nat (r + 1)) (drop (nat (r + 1)) ys)"
    define d where "d = drop (nat l) ys"
    have split: "ys = a @ c @ d"
      using b r unfolding a_def c_def d_def
      by (metis append_take_drop_id drop_drop le_add_diff_inverse2 nat_mono zless_imp_add1_zle add.commute)
    have ea: "\<forall>x\<in>set a. x \<le> ?p" and ec: "\<forall>x\<in>set c. x = ?p" and ed: "\<forall>x\<in>set d. ?p \<le> x"
      using inv b r unfolding a_def c_def d_def hoare_inv_def
      by (auto simp: in_set_conv_nth intro!: antisym)
    obtain as where as: "quicksort_pointers a = Some as" "sorted as" "mset as = mset a"
      using "1.IH"(1) [OF False part refl refl] by (auto simp: a_def)
    obtain bs where bs: "quicksort_pointers d = Some bs" "sorted bs" "mset bs = mset d"
      using "1.IH"(2) [OF False part refl refl as(1) [unfolded a_def]] by (auto simp: d_def)
    have sets: "set as = set a" "set bs = set d" using as(3) bs(3) by (auto dest: mset_eq_setD)
    have "c ! k = ?p" if "k < length c" for k using ec that nth_mem by blast
    then have "sorted c" by (simp add: sorted_iff_nth_mono)
    then have "sorted (as @ c @ bs)" using as(2) bs(2) ea ec ed by (fastforce simp: sorted_append sets)
    moreover have "mset (as @ c @ bs) = mset xs" using as(3) bs(3) m split by (metis mset_append)
    moreover have "quicksort_pointers xs = Some (as @ c @ bs)"
      using False part as(1) bs(1) by (subst quicksort_pointers.simps) (simp add: a_def c_def d_def)
    ultimately show ?thesis by blast
  qed
qed

section \<open>Searching\<close>

function bsearch :: "nat \<Rightarrow> nat list \<Rightarrow> int \<Rightarrow> int \<Rightarrow> nat option" where
  "bsearch ptr ptrs low high =
     (if low \<le> high then
        let mid = (low + high) div 2 in
        if ptrs ! nat mid = ptr then Some (nat mid)
        else if ptrs ! nat mid < ptr then bsearch ptr ptrs (mid + 1) high
        else bsearch ptr ptrs low (mid - 1)
      else None)"
  by pat_completeness auto
termination by (relation "measure (\<lambda>(ptr, ptrs, low, high). nat (high - low + 1))") auto

declare bsearch.simps [simp del]

definition binary_search_for_pointer :: "nat \<Rightarrow> nat list \<Rightarrow> nat option" where
  "binary_search_for_pointer ptr ptrs = bsearch ptr ptrs 0 (int (length ptrs) - 1)"

lemma bsearch_spec:
  assumes "sorted xs" "0 \<le> low" "high < int (length xs)"
    and "\<forall>k<length xs. xs ! k = x \<longrightarrow> low \<le> int k \<and> int k \<le> high"
  shows "case bsearch x xs low high of None \<Rightarrow> x \<notin> set xs | Some i \<Rightarrow> i < length xs \<and> xs ! i = x"
  using assms
proof (induction x xs low high rule: bsearch.induct)
  case (1 x xs low high)
  show ?case
  proof (cases "low \<le> high")
    case False
    with "1.prems" have "x \<notin> set xs" by (fastforce simp: in_set_conv_nth)
    with False show ?thesis by (subst bsearch.simps) simp
  next
    case True
    define mid where "mid = (low + high) div 2"
    have mid: "low \<le> mid" "mid \<le> high" "nat mid < length xs" using True "1.prems"(2,3) by (auto simp: mid_def)
    consider "xs ! nat mid = x" | "xs ! nat mid < x" | "x < xs ! nat mid" by fastforce
    then show ?thesis
    proof cases
      case 1
      with True mid "1.prems" show ?thesis by (subst bsearch.simps) (simp add: mid_def [symmetric] Let_def)
    next
      case 2
      have "mid + 1 \<le> int k" if k: "k < length xs" "xs ! k = x" for k
        using sorted_nth_mono [OF "1.prems"(1), of k "nat mid"] 2 k mid "1.prems"(2,3) by (cases "int k \<le> mid") (auto simp: le_nat_iff)
      with "1.IH"(1) [OF True mid_def] 2 "1.prems" mid
      have "case bsearch x xs (mid + 1) high of None \<Rightarrow> x \<notin> set xs | Some i \<Rightarrow> i < length xs \<and> xs ! i = x" by auto
      with True 2 show ?thesis by (subst bsearch.simps) (simp add: mid_def [symmetric] Let_def)
    next
      case 3
      have "int k \<le> mid - 1" if k: "k < length xs" "xs ! k = x" for k
        using sorted_nth_mono [OF "1.prems"(1), of "nat mid" k] 3 k mid "1.prems"(2,3) by (cases "mid \<le> int k") (auto simp: nat_le_iff)
      with "1.IH"(2) [OF True mid_def] 3 "1.prems" mid
      have "case bsearch x xs low (mid - 1) of None \<Rightarrow> x \<notin> set xs | Some i \<Rightarrow> i < length xs \<and> xs ! i = x" by auto
      with True 3 show ?thesis by (subst bsearch.simps) (simp add: mid_def [symmetric] Let_def)
    qed
  qed
qed

lemma binary_search_spec:
  assumes "sorted xs"
  shows "case binary_search_for_pointer x xs of None \<Rightarrow> x \<notin> set xs | Some i \<Rightarrow> i < length xs \<and> xs ! i = x"
  unfolding binary_search_for_pointer_def by (rule bsearch_spec [OF assms]) auto

end
