(* ===== verification/Gc.thy ===== *)
theory Gc
  imports Gc_Sort Descriptor "HOL-Library.Monad_Syntax"
begin

text \<open>
  The mark-compact collector, \<^verbatim>\<open>vm/gc.c\<close>. The heap is a partial map from addresses to cells, an object or the
  monitor of one; a cell occupies its size rounded up to eight bytes. The bit \<^verbatim>\<open>IS_REACHABLE\<close> lives in the mark
  word, which is in the object's header or, once the object has a monitor, in the monitor: the heap keeps the set
  of the addresses of the headers and monitors whose bit is set. Moving memory overwrites whatever the target
  range overlaps, as \<^verbatim>\<open>memmove\<close> does when the heap is compacted in place, so that nothing is lost has to be
  proved. A read of an address that holds no cell of the expected kind, a failing \<^verbatim>\<open>DCHECK\<close> of the copying
  loop and the \<^verbatim>\<open>abort()\<close> of the code make the result \<open>None\<close>. Pointers are 32 bits wide, the sizes are those of wasm32.
\<close>

section \<open>Heap\<close>

datatype cd_kind = CD_KIND_ORDINARY | CD_KIND_ORDINARY_ARRAY | CD_KIND_PRIMITIVE_ARRAY

text \<open>Of a class descriptor the collector reads the kind, the instance size, the component type and the number of
  dimensions, and whether the class is a subclass of \<^verbatim>\<open>java.lang.ref.Reference\<close>.\<close>

record gc_class =
  gcc_kind :: cd_kind
  gcc_instance_bytes :: nat
  gcc_primitive_component :: type_kind
  gcc_dimensions :: nat
  gcc_is_reference :: bool

text \<open>An object: the monitor its header points to (0 when the header holds a mark word), its descriptor, the array
  length, and the references it holds: at \<^verbatim>\<open>instance_references\<close> for an instance, the elements for an array.
  0 is the null pointer.\<close>

record gc_object =
  gco_monitor :: nat
  gco_class :: gc_class
  gco_length :: nat
  gco_refs :: "nat list"

datatype gc_cell = Object_Cell gc_object | Monitor_Cell int nat

record gc_heap =
  gh_cells :: "nat \<Rightarrow> gc_cell option"
  gh_reachable :: "nat set"

record gc_space =
  gs_heap :: nat
  gs_capacity :: nat

definition in_heap :: "gc_space \<Rightarrow> nat \<Rightarrow> bool" where
  "in_heap vm field \<longleftrightarrow> gs_heap vm \<le> field \<and> field < gs_heap vm + gs_capacity vm"

abbreviation (input) "kArrayDataOffset \<equiv> 16 :: nat"
abbreviation (input) "sizeof_pointer \<equiv> 4 :: nat"
abbreviation (input) "sizeof_monitor_data \<equiv> 16 :: nat"
abbreviation (input) "discovered_slot \<equiv> 3 :: nat"

text \<open>The switch of \<^verbatim>\<open>sizeof_type_kind\<close>; \<^verbatim>\<open>TYPE_KIND_VOID\<close> is \<^verbatim>\<open>UNREACHABLE\<close> and has no size.\<close>

definition sizeof_type_kind :: "type_kind \<Rightarrow> nat option" where
  "sizeof_type_kind k = (case k of
     TYPE_KIND_BYTE \<Rightarrow> Some 1 | TYPE_KIND_BOOLEAN \<Rightarrow> Some 1
   | TYPE_KIND_CHAR \<Rightarrow> Some 2 | TYPE_KIND_SHORT \<Rightarrow> Some 2
   | TYPE_KIND_FLOAT \<Rightarrow> Some 4 | TYPE_KIND_INT \<Rightarrow> Some 4
   | TYPE_KIND_REFERENCE \<Rightarrow> Some sizeof_pointer
   | TYPE_KIND_DOUBLE \<Rightarrow> Some 8 | TYPE_KIND_LONG \<Rightarrow> Some 8
   | _ \<Rightarrow> None)"

definition size_of_object :: "gc_object \<Rightarrow> nat option" where
  "size_of_object ob =
     (if gcc_kind (gco_class ob) = CD_KIND_ORDINARY then Some (gcc_instance_bytes (gco_class ob))
      else if gcc_kind (gco_class ob) = CD_KIND_ORDINARY_ARRAY then Some (kArrayDataOffset + gco_length ob * sizeof_pointer)
      else do {
        k \<leftarrow> sizeof_type_kind (gcc_primitive_component (gco_class ob));
        Some (kArrayDataOffset + gco_length ob * k)
      })"

text \<open>\<^verbatim>\<open>align_up(v, 8)\<close> on addresses and sizes that do not wrap around.\<close>

definition align8 :: "nat \<Rightarrow> nat" where
  "align8 v = (v + 7) div 8 * 8"

definition cell_size :: "gc_cell \<Rightarrow> nat option" where
  "cell_size c = (case c of Object_Cell ob \<Rightarrow> size_of_object ob | Monitor_Cell _ _ \<Rightarrow> Some sizeof_monitor_data)"

definition cell_extent :: "gc_cell \<Rightarrow> nat" where
  "cell_extent c = (case cell_size c of None \<Rightarrow> 0 | Some n \<Rightarrow> align8 n)"

definition object_at :: "gc_heap \<Rightarrow> nat \<Rightarrow> gc_object option" where
  "object_at h a = (case gh_cells h a of Some (Object_Cell ob) \<Rightarrow> Some ob | _ \<Rightarrow> None)"

definition monitor_at :: "gc_heap \<Rightarrow> nat \<Rightarrow> bool" where
  "monitor_at h a = (case gh_cells h a of Some (Monitor_Cell _ _) \<Rightarrow> True | _ \<Rightarrow> False)"

text \<open>\<^verbatim>\<open>get_flags\<close>: the address of the header or monitor that holds the mark word.\<close>

definition get_mark_word :: "gc_heap \<Rightarrow> nat \<Rightarrow> nat option" where
  "get_mark_word h a = do {
     ob \<leftarrow> object_at h a;
     if gco_monitor ob = 0 then Some a
     else if monitor_at h (gco_monitor ob) then Some (gco_monitor ob) else None
   }"

section \<open>Marking\<close>

record gc_ctx =
  gx_heap :: gc_heap
  gx_worklist :: "nat list"
  gx_objs :: "nat list"

definition mark_root :: "gc_space \<Rightarrow> nat \<Rightarrow> gc_ctx \<Rightarrow> gc_ctx option" where
  "mark_root vm root ctx =
     (if \<not> in_heap vm root then Some ctx
      else do {
        w \<leftarrow> get_mark_word (gx_heap ctx) root;
        if w \<in> gh_reachable (gx_heap ctx) then Some ctx
        else Some (ctx\<lparr>gx_heap := (gx_heap ctx)\<lparr>gh_reachable := insert w (gh_reachable (gx_heap ctx))\<rparr>,
                      gx_worklist := gx_worklist ctx @ [root]\<rparr>)
      })"

text \<open>The body of the two loops of \<^verbatim>\<open>mark_reachable\<close> adds the test for the null pointer.\<close>

definition mark_field :: "gc_space \<Rightarrow> nat \<Rightarrow> gc_ctx \<Rightarrow> gc_ctx option" where
  "mark_field vm field ctx = (if field = 0 then Some ctx else mark_root vm field ctx)"

primrec fold_option :: "('a \<Rightarrow> 's \<Rightarrow> 's option) \<Rightarrow> 'a list \<Rightarrow> 's \<Rightarrow> 's option" where
  "fold_option f [] s = Some s"
| "fold_option f (x # xs) s = Option.bind (f x s) (fold_option f xs)"

definition traced_refs :: "gc_object \<Rightarrow> nat list" where
  "traced_refs ob =
     (if gcc_kind (gco_class ob) = CD_KIND_ORDINARY then
        (if gcc_is_reference (gco_class ob) then drop 1 (gco_refs ob) else gco_refs ob)
      else if gcc_kind (gco_class ob) = CD_KIND_ORDINARY_ARRAY
        \<or> gcc_kind (gco_class ob) = CD_KIND_PRIMITIVE_ARRAY \<and> gcc_dimensions (gco_class ob) > 1 then gco_refs ob
      else [])"

text \<open>The entries an object contributes to the vector \<^verbatim>\<open>objs\<close>: itself, and its monitor with the low bit set.\<close>

definition objs_entries :: "nat \<Rightarrow> gc_object \<Rightarrow> nat list" where
  "objs_entries a ob = a # (if gco_monitor ob = 0 then [] else [gco_monitor ob + 1])"

definition mark_reachable :: "gc_space \<Rightarrow> nat \<Rightarrow> gc_ctx \<Rightarrow> gc_ctx option" where
  "mark_reachable vm obj ctx = do {
     ob \<leftarrow> object_at (gx_heap ctx) obj;
     fold_option (mark_field vm) (traced_refs ob) (ctx\<lparr>gx_objs := gx_objs ctx @ objs_entries obj ob\<rparr>)
   }"

text \<open>\<^verbatim>\<open>while (arrlen(ctx.worklist) > 0)\<close>; the fuel bounds the number of rounds.\<close>

fun mark_loop :: "gc_space \<Rightarrow> nat \<Rightarrow> gc_ctx \<Rightarrow> gc_ctx option" where
  "mark_loop vm n ctx =
     (if gx_worklist ctx = [] then Some ctx
      else case n of 0 \<Rightarrow> None
      | Suc n' \<Rightarrow> do {
          let obj = last (gx_worklist ctx);
          w \<leftarrow> get_mark_word (gx_heap ctx) obj;
          ctx' \<leftarrow> mark_reachable vm obj
            (ctx\<lparr>gx_worklist := butlast (gx_worklist ctx),
                 gx_heap := (gx_heap ctx)\<lparr>gh_reachable := insert w (gh_reachable (gx_heap ctx))\<rparr>\<rparr>);
          mark_loop vm n' ctx'
        })"

declare mark_loop.simps [simp del]

definition mark_phase :: "gc_space \<Rightarrow> nat \<Rightarrow> nat list \<Rightarrow> gc_heap \<Rightarrow> gc_ctx option" where
  "mark_phase vm fuel roots h = do {
     ctx \<leftarrow> fold_option (mark_root vm) roots \<lparr>gx_heap = h, gx_worklist = [], gx_objs = []\<rparr>;
     mark_loop vm fuel ctx
   }"

section \<open>Compaction\<close>

definition overlaps :: "gc_heap \<Rightarrow> nat \<Rightarrow> nat \<Rightarrow> nat \<Rightarrow> bool" where
  "overlaps h dst sz x = (case gh_cells h x of None \<Rightarrow> False | Some c \<Rightarrow> x < dst + sz \<and> dst < x + cell_extent c)"

definition memmove :: "nat \<Rightarrow> nat \<Rightarrow> nat \<Rightarrow> gc_heap \<Rightarrow> gc_heap option" where
  "memmove dst src sz h = (case gh_cells h src of None \<Rightarrow> None | Some c \<Rightarrow>
     Some \<lparr>gh_cells = (\<lambda>x. if x = dst then Some c else if overlaps h dst sz x then None else gh_cells h x),
           gh_reachable = Set.filter (\<lambda>x. x \<noteq> dst \<and> \<not> overlaps h dst sz x) (gh_reachable h) \<union>
             (if src \<in> gh_reachable h then {dst} else {})\<rparr>)"

text \<open>One round of the copying loop on the entry \<open>p\<close>; the two conditions are its \<^verbatim>\<open>DCHECK\<close>s.\<close>

definition compact_step :: "gc_space \<Rightarrow> nat \<Rightarrow> gc_heap \<times> nat \<times> nat list \<Rightarrow> (gc_heap \<times> nat \<times> nat list) option" where
  "compact_step vm p = (\<lambda>(h, wp, locs). do {
     let write_ptr = align8 wp;
     let a = p - p mod 2;
     c \<leftarrow> (if odd p then (if monitor_at h a then gh_cells h a else None) else map_option Object_Cell (object_at h a));
     n \<leftarrow> cell_size c;
     let sz = align8 n;
     h' \<leftarrow> (if odd p then Some h else do {
              w \<leftarrow> get_mark_word h a;
              Some (h\<lparr>gh_reachable := gh_reachable h - {w}\<rparr>)
            });
     if write_ptr \<le> p \<and> write_ptr + sz \<le> gs_heap vm + gs_capacity vm then do {
       h'' \<leftarrow> memmove write_ptr a sz h';
       Some (h'', write_ptr + sz, locs @ [write_ptr])
     } else None
   })"

definition compact :: "gc_space \<Rightarrow> nat list \<Rightarrow> gc_heap \<Rightarrow> (gc_heap \<times> nat \<times> nat list) option" where
  "compact vm objs h = fold_option (compact_step vm) objs (h, gs_heap vm, [])"

section \<open>Relocation\<close>

text \<open>\<^verbatim>\<open>relocate_object\<close> on a slot holding \<open>v\<close>: the new value of the slot and the return value.\<close>

definition relocate_object :: "nat list \<Rightarrow> nat list \<Rightarrow> nat \<Rightarrow> nat \<times> bool" where
  "relocate_object objs locs v =
     (if v = 0 then (0, True)
      else case binary_search_for_pointer v objs of Some i \<Rightarrow> (locs ! i, True) | None \<Rightarrow> (v, False))"

definition relocate_ref :: "nat list \<Rightarrow> nat list \<Rightarrow> nat \<Rightarrow> nat" where
  "relocate_ref objs locs v = fst (relocate_object objs locs v)"

definition relocate_monitor :: "nat list \<Rightarrow> nat list \<Rightarrow> gc_object \<Rightarrow> gc_object option" where
  "relocate_monitor objs locs ob =
     (if gco_monitor ob = 0 then Some ob
      else do {
        i \<leftarrow> binary_search_for_pointer (gco_monitor ob + 1) objs;
        Some (ob\<lparr>gco_monitor := locs ! i\<rparr>)
      })"

text \<open>The \<^verbatim>\<open>referent\<close> of a \<^verbatim>\<open>Reference\<close> that did not survive is cleared and the reference is put in front of the
  pending list, unless it is on the list of the discovered ones already.\<close>

definition relocate_referent :: "nat list \<Rightarrow> nat list \<Rightarrow> nat \<Rightarrow> nat \<Rightarrow> gc_object \<Rightarrow> (gc_object \<times> nat) option" where
  "relocate_referent objs locs obj pending ob =
     (if gco_refs ob = [] then None
      else case relocate_object objs locs (hd (gco_refs ob)) of (r, found) \<Rightarrow>
        let ob' = ob\<lparr>gco_refs := (gco_refs ob)[0 := r]\<rparr> in
        if found then Some (ob', pending)
        else if length (gco_refs ob) \<le> discovered_slot then None
        else let ob'' = ob'\<lparr>gco_refs := (gco_refs ob')[0 := 0]\<rparr> in
          if gco_refs ob'' ! discovered_slot = 0
          then Some (ob''\<lparr>gco_refs := (gco_refs ob'')[discovered_slot := pending]\<rparr>, obj)
          else Some (ob'', pending))"

definition relocate_fields :: "nat list \<Rightarrow> nat list \<Rightarrow> nat \<Rightarrow> nat \<Rightarrow> gc_object \<Rightarrow> (gc_object \<times> nat) option" where
  "relocate_fields objs locs obj pending ob =
     (if gcc_kind (gco_class ob) = CD_KIND_ORDINARY then
        (if gcc_is_reference (gco_class ob) then
           relocate_referent objs locs obj pending
             (ob\<lparr>gco_refs := take 1 (gco_refs ob) @ map (relocate_ref objs locs) (drop 1 (gco_refs ob))\<rparr>)
         else Some (ob\<lparr>gco_refs := map (relocate_ref objs locs) (gco_refs ob)\<rparr>, pending))
      else if gcc_kind (gco_class ob) = CD_KIND_ORDINARY_ARRAY
        \<or> gcc_kind (gco_class ob) = CD_KIND_PRIMITIVE_ARRAY \<and> gcc_dimensions (gco_class ob) > 1
      then Some (ob\<lparr>gco_refs := map (relocate_ref objs locs) (gco_refs ob)\<rparr>, pending)
      else Some (ob, pending))"

definition relocate_instance :: "nat list \<Rightarrow> nat list \<Rightarrow> nat \<times> nat \<Rightarrow> gc_heap \<times> nat \<Rightarrow> (gc_heap \<times> nat) option" where
  "relocate_instance objs locs = (\<lambda>(p, obj) (h, pending).
     if odd p then Some (h, pending)
     else do {
       ob \<leftarrow> object_at h obj;
       ob' \<leftarrow> relocate_monitor objs locs ob;
       (ob'', pending') \<leftarrow> relocate_fields objs locs obj pending ob';
       Some (h\<lparr>gh_cells := (gh_cells h)(obj \<mapsto> Object_Cell ob'')\<rparr>, pending')
     })"

definition relocate_instance_fields :: "nat list \<Rightarrow> nat list \<Rightarrow> gc_heap \<Rightarrow> nat \<Rightarrow> (gc_heap \<times> nat) option" where
  "relocate_instance_fields objs locs h pending = fold_option (relocate_instance objs locs) (zip objs locs) (h, pending)"

section \<open>The collection\<close>

text \<open>The part of the VM a collection works on: the heap, the values of the root slots other than the list of
  pending references, that list, and the number of bytes in use.\<close>

record gc_vm =
  gv_space :: gc_space
  gv_memory :: gc_heap
  gv_roots :: "nat list"
  gv_pending :: nat
  gv_used :: nat

text \<open>\<^verbatim>\<open>PUSH_ROOT\<close> keeps the slots that hold a non-null pointer into the heap. Relocation rewrites just those.\<close>

definition push_root :: "gc_space \<Rightarrow> nat \<Rightarrow> bool" where
  "push_root vm v \<longleftrightarrow> v \<noteq> 0 \<and> in_heap vm v"

definition gc_roots :: "gc_vm \<Rightarrow> nat list" where
  "gc_roots vm = filter (push_root (gv_space vm)) (gv_pending vm # gv_roots vm)"

definition relocate_root :: "gc_space \<Rightarrow> nat list \<Rightarrow> nat list \<Rightarrow> nat \<Rightarrow> nat" where
  "relocate_root s objs locs v = (if push_root s v then relocate_ref objs locs v else v)"

definition major_gc :: "nat \<Rightarrow> gc_vm \<Rightarrow> gc_vm option" where
  "major_gc fuel vm = do {
     ctx \<leftarrow> mark_phase (gv_space vm) fuel (gc_roots vm) (gv_memory vm);
     objs \<leftarrow> quicksort_pointers (gx_objs ctx);
     (h, write_ptr, locs) \<leftarrow> compact (gv_space vm) objs (gx_heap ctx);
     let roots = map (relocate_root (gv_space vm) objs locs) (gv_roots vm);
     let pending = relocate_root (gv_space vm) objs locs (gv_pending vm);
     (h', pending') \<leftarrow> relocate_instance_fields objs locs h pending;
     Some (vm\<lparr>gv_memory := h', gv_roots := roots, gv_pending := pending',
              gv_used := align8 (write_ptr - gs_heap (gv_space vm))\<rparr>)
   }"

text \<open>\<^verbatim>\<open>bump_allocate\<close>: the address of the zeroed block, or \<open>None\<close> for the null pointer it returns after raising
  the \<^verbatim>\<open>OutOfMemoryError\<close>. \<^verbatim>\<open>size_t\<close> has 32 bits: the rounded size and the sum with the bytes in use wrap around.\<close>

definition memset_zero :: "nat \<Rightarrow> nat \<Rightarrow> gc_heap \<Rightarrow> gc_heap" where
  "memset_zero dst sz h =
     \<lparr>gh_cells = (\<lambda>x. if overlaps h dst sz x then None else gh_cells h x),
      gh_reachable = Set.filter (\<lambda>x. \<not> overlaps h dst sz x \<and> \<not> (dst \<le> x \<and> x < dst + sz)) (gh_reachable h)\<rparr>"

definition bump_take :: "nat \<Rightarrow> gc_vm \<Rightarrow> nat option \<times> gc_vm" where
  "bump_take bytes vm =
     (let result = gs_heap (gv_space vm) + gv_used vm in
      (Some result, vm\<lparr>gv_memory := memset_zero result bytes (gv_memory vm), gv_used := gv_used vm + bytes\<rparr>))"

definition bump_allocate :: "nat \<Rightarrow> nat \<Rightarrow> gc_vm \<Rightarrow> (nat option \<times> gc_vm) option" where
  "bump_allocate fuel n vm =
     (let bytes = align8 n mod 2 ^ 32 in
      if (gv_used vm + bytes) mod 2 ^ 32 > gs_capacity (gv_space vm) then do {
        vm' \<leftarrow> major_gc fuel vm;
        if (gv_used vm' + bytes) mod 2 ^ 32 > gs_capacity (gv_space vm') then Some (None, vm')
        else Some (bump_take bytes vm')
      } else Some (bump_take bytes vm))"

end
