(* ===== verification/Gc_Mark.thy ===== *)
theory Gc_Mark
  imports Gc
begin

text \<open>
  The mark phase of the collector visits exactly the objects that are reachable from the roots, each of them
  once, and ends within as many rounds as there are such objects.
\<close>

section \<open>Reachable objects and well-formed heaps\<close>

inductive gc_reachable :: "gc_space \<Rightarrow> gc_heap \<Rightarrow> nat list \<Rightarrow> nat \<Rightarrow> bool" for vm h roots where
  root: "a \<in> set roots \<Longrightarrow> in_heap vm a \<Longrightarrow> gc_reachable vm h roots a"
| field: "gc_reachable vm h roots a \<Longrightarrow> object_at h a = Some ob \<Longrightarrow> b \<in> set (traced_refs ob) \<Longrightarrow> b \<noteq> 0
    \<Longrightarrow> in_heap vm b \<Longrightarrow> gc_reachable vm h roots b"

lemma gc_reachable_in_heap: "gc_reachable vm h roots a \<Longrightarrow> in_heap vm a"
  by (cases rule: gc_reachable.cases)

text \<open>The cells that have to survive: the reachable objects and their monitors.\<close>

definition live :: "gc_space \<Rightarrow> gc_heap \<Rightarrow> nat list \<Rightarrow> nat \<Rightarrow> bool" where
  "live vm h roots x \<longleftrightarrow> gc_reachable vm h roots x \<or>
     (\<exists>a ob. gc_reachable vm h roots a \<and> object_at h a = Some ob \<and> gco_monitor ob = x \<and> x \<noteq> 0)"

text \<open>What every reachable object satisfies: it is an object with a size, its monitor, if any, is a monitor of its
  own that lies behind it (monitors are allocated after their objects), and every reference has the fields of
  \<^verbatim>\<open>java.lang.ref.Reference\<close> with an even pointer as its referent.\<close>

definition objects_ok :: "gc_space \<Rightarrow> gc_heap \<Rightarrow> nat list \<Rightarrow> bool" where
  "objects_ok vm h roots \<longleftrightarrow>
     (\<forall>a. gc_reachable vm h roots a \<longrightarrow> (\<exists>ob. object_at h a = Some ob \<and> size_of_object ob \<noteq> None \<and>
        (gcc_is_reference (gco_class ob) \<longrightarrow> discovered_slot < length (gco_refs ob) \<and> even (hd (gco_refs ob))) \<and>
        (gco_monitor ob \<noteq> 0 \<longrightarrow> monitor_at h (gco_monitor ob) \<and> a < gco_monitor ob))) \<and>
     (\<forall>a b oa ob. gc_reachable vm h roots a \<and> gc_reachable vm h roots b \<and> object_at h a = Some oa \<and> object_at h b = Some ob
        \<and> gco_monitor oa = gco_monitor ob \<and> gco_monitor oa \<noteq> 0 \<longrightarrow> a = b)"

text \<open>The layout of the live cells: aligned, disjoint, below the allocation pointer.\<close>

definition layout_ok :: "gc_space \<Rightarrow> nat \<Rightarrow> gc_heap \<Rightarrow> nat list \<Rightarrow> bool" where
  "layout_ok vm used h roots \<longleftrightarrow> 8 dvd gs_heap vm \<and> 0 < gs_heap vm \<and> used \<le> gs_capacity vm \<and> 8 dvd used \<and>
     (\<forall>x c. live vm h roots x \<and> gh_cells h x = Some c \<longrightarrow>
        8 dvd x \<and> gs_heap vm \<le> x \<and> 0 < cell_extent c \<and> x + cell_extent c \<le> gs_heap vm + used \<and>
        (\<forall>y. live vm h roots y \<and> x < y \<longrightarrow> x + cell_extent c \<le> y))"

definition heap_ok :: "gc_space \<Rightarrow> nat \<Rightarrow> gc_heap \<Rightarrow> nat list \<Rightarrow> bool" where
  "heap_ok vm used h roots \<longleftrightarrow> objects_ok vm h roots \<and> layout_ok vm used h roots \<and>
     (\<forall>x. live vm h roots x \<longrightarrow> x \<notin> gh_reachable h)"

lemma object_at_cells: "object_at h a = Some ob \<longleftrightarrow> gh_cells h a = Some (Object_Cell ob)"
  by (auto simp: object_at_def split: option.splits gc_cell.splits)

lemma object_at_cong: "gh_cells h = gh_cells h' \<Longrightarrow> object_at h = object_at h'"
  by (simp add: object_at_def fun_eq_iff)

lemma monitor_at_cong: "gh_cells h = gh_cells h' \<Longrightarrow> monitor_at h = monitor_at h'"
  by (simp add: monitor_at_def fun_eq_iff)

lemma get_mark_word_cong:
  assumes "gh_cells h = gh_cells h'"
  shows "get_mark_word h = get_mark_word h'"
  unfolding fun_eq_iff get_mark_word_def object_at_cong [OF assms] monitor_at_cong [OF assms] by simp

lemma objects_okD:
  assumes "objects_ok vm h roots" "gc_reachable vm h roots a"
  obtains ob where "object_at h a = Some ob" "size_of_object ob \<noteq> None"
    "gcc_is_reference (gco_class ob) \<Longrightarrow> discovered_slot < length (gco_refs ob) \<and> even (hd (gco_refs ob))"
    "gco_monitor ob \<noteq> 0 \<Longrightarrow> monitor_at h (gco_monitor ob) \<and> a < gco_monitor ob"
  using assms unfolding objects_ok_def by metis

lemma objects_ok_inj:
  "objects_ok vm h roots \<Longrightarrow> gc_reachable vm h roots a \<Longrightarrow> gc_reachable vm h roots b \<Longrightarrow> object_at h a = Some oa
    \<Longrightarrow> object_at h b = Some ob \<Longrightarrow> gco_monitor oa = gco_monitor ob \<Longrightarrow> gco_monitor oa \<noteq> 0 \<Longrightarrow> a = b"
  unfolding objects_ok_def by blast

definition mark_word :: "gc_heap \<Rightarrow> nat \<Rightarrow> nat" where
  "mark_word h a = the (get_mark_word h a)"

lemma get_mark_word_ok:
  assumes "objects_ok vm h roots" "gc_reachable vm h roots a"
  shows "get_mark_word h a = Some (mark_word h a)" "live vm h roots (mark_word h a)"
proof -
  from objects_okD [OF assms] obtain ob where ob: "object_at h a = Some ob"
    "gco_monitor ob \<noteq> 0 \<Longrightarrow> monitor_at h (gco_monitor ob) \<and> a < gco_monitor ob" by metis
  then have g: "get_mark_word h a = Some (if gco_monitor ob = 0 then a else gco_monitor ob)"
    by (auto simp: get_mark_word_def)
  then show "get_mark_word h a = Some (mark_word h a)" by (simp add: mark_word_def)
  show "live vm h roots (mark_word h a)" using g ob assms(2) by (auto simp: mark_word_def live_def)
qed

text \<open>No two reachable objects share their mark word: a cell is either an object or a monitor.\<close>

lemma mark_word_inj:
  assumes ok: "objects_ok vm h roots" and a: "gc_reachable vm h roots a" and b: "gc_reachable vm h roots b"
    and eq: "mark_word h a = mark_word h b"
  shows "a = b"
proof -
  from objects_okD [OF ok a] obtain oa where oa: "object_at h a = Some oa"
    "gco_monitor oa \<noteq> 0 \<Longrightarrow> monitor_at h (gco_monitor oa) \<and> a < gco_monitor oa" by metis
  from objects_okD [OF ok b] obtain ob where ob: "object_at h b = Some ob"
    "gco_monitor ob \<noteq> 0 \<Longrightarrow> monitor_at h (gco_monitor ob) \<and> b < gco_monitor ob" by metis
  have not: "\<not> (object_at h x = Some ox \<and> monitor_at h x)" for x ox
    by (auto simp: object_at_cells monitor_at_def)
  have "mark_word h a = (if gco_monitor oa = 0 then a else gco_monitor oa)" using oa by (auto simp: mark_word_def get_mark_word_def)
  moreover have "mark_word h b = (if gco_monitor ob = 0 then b else gco_monitor ob)" using ob by (auto simp: mark_word_def get_mark_word_def)
  ultimately show ?thesis
    using eq oa ob not objects_ok_inj [OF ok a b oa(1) ob(1)] by (metis (full_types))
qed

lemma finite_gc_reachable: "finite {a. gc_reachable vm h roots a}"
  by (rule finite_subset [of _ "{gs_heap vm..<gs_heap vm + gs_capacity vm}"])
    (auto dest: gc_reachable_in_heap simp: in_heap_def)

section \<open>The invariant of marking\<close>

definition entries :: "gc_heap \<Rightarrow> nat \<Rightarrow> nat list" where
  "entries h a = objs_entries a (the (object_at h a))"

text \<open>\<open>ds\<close> are the objects that have been taken from the work list, in this order.\<close>

definition mark_inv :: "gc_space \<Rightarrow> gc_heap \<Rightarrow> nat list \<Rightarrow> nat list \<Rightarrow> gc_ctx \<Rightarrow> bool" where
  "mark_inv vm h roots ds ctx \<longleftrightarrow>
     gh_cells (gx_heap ctx) = gh_cells h \<and>
     gx_objs ctx = concat (map (entries h) ds) \<and>
     distinct (ds @ gx_worklist ctx) \<and>
     (\<forall>a \<in> set ds \<union> set (gx_worklist ctx). gc_reachable vm h roots a) \<and>
     gh_reachable (gx_heap ctx) = gh_reachable h \<union> mark_word h ` (set ds \<union> set (gx_worklist ctx))"

lemma mark_inv_flag:
  assumes ok: "objects_ok vm h roots" and clear: "\<forall>x. live vm h roots x \<longrightarrow> x \<notin> gh_reachable h"
    and inv: "mark_inv vm h roots ds ctx" and a: "gc_reachable vm h roots a"
  shows "mark_word h a \<in> gh_reachable (gx_heap ctx) \<longleftrightarrow> a \<in> set ds \<union> set (gx_worklist ctx)"
  using inv get_mark_word_ok(2) [OF ok a] clear mark_word_inj [OF ok a] unfolding mark_inv_def by blast

lemma mark_root_spec:
  assumes ok: "objects_ok vm h roots" and clear: "\<forall>x. live vm h roots x \<longrightarrow> x \<notin> gh_reachable h"
    and inv: "mark_inv vm h roots ds ctx" and r: "in_heap vm r \<Longrightarrow> gc_reachable vm h roots r"
  shows "\<exists>ctx'. mark_root vm r ctx = Some ctx' \<and> mark_inv vm h roots ds ctx' \<and>
    set (gx_worklist ctx) \<subseteq> set (gx_worklist ctx') \<and> (in_heap vm r \<longrightarrow> r \<in> set ds \<union> set (gx_worklist ctx'))"
proof (cases "in_heap vm r")
  case True
  have c: "get_mark_word (gx_heap ctx) = get_mark_word h"
    using inv by (intro get_mark_word_cong) (simp add: mark_inv_def)
  have flag: "mark_word h r \<in> gh_reachable (gx_heap ctx) \<longleftrightarrow> r \<in> set ds \<union> set (gx_worklist ctx)"
    by (rule mark_inv_flag [OF ok clear inv r [OF True]])
  show ?thesis
  proof (cases "r \<in> set ds \<union> set (gx_worklist ctx)")
    case in_: True
    with flag get_mark_word_ok(1) [OF ok r [OF True]] True inv show ?thesis by (auto simp: mark_root_def c)
  next
    case out: False
    with flag get_mark_word_ok(1) [OF ok r [OF True]] True
    have "mark_root vm r ctx = Some (ctx\<lparr>gx_heap := (gx_heap ctx)\<lparr>gh_reachable := insert (mark_word h r) (gh_reachable (gx_heap ctx))\<rparr>,
      gx_worklist := gx_worklist ctx @ [r]\<rparr>)" by (simp add: mark_root_def c)
    with inv out r [OF True] show ?thesis by (auto simp: mark_inv_def)
  qed
qed (use inv in \<open>auto simp: mark_root_def\<close>)

lemma mark_fields_spec:
  assumes ok: "objects_ok vm h roots" and clear: "\<forall>x. live vm h roots x \<longrightarrow> x \<notin> gh_reachable h"
  shows "mark_inv vm h roots ds ctx \<Longrightarrow> (\<forall>r \<in> set rs. r \<noteq> 0 \<and> in_heap vm r \<longrightarrow> gc_reachable vm h roots r) \<Longrightarrow>
    \<exists>ctx'. fold_option (mark_field vm) rs ctx = Some ctx' \<and> mark_inv vm h roots ds ctx' \<and>
      set (gx_worklist ctx) \<subseteq> set (gx_worklist ctx') \<and>
      (\<forall>r \<in> set rs. r \<noteq> 0 \<and> in_heap vm r \<longrightarrow> r \<in> set ds \<union> set (gx_worklist ctx'))"
proof (induction rs arbitrary: ctx)
  case (Cons r rs)
  obtain c1 where c1: "mark_field vm r ctx = Some c1" "mark_inv vm h roots ds c1" "set (gx_worklist ctx) \<subseteq> set (gx_worklist c1)"
    "r \<noteq> 0 \<and> in_heap vm r \<longrightarrow> r \<in> set ds \<union> set (gx_worklist c1)"
    using mark_root_spec [OF ok clear Cons.prems(1), of r] Cons.prems by (cases "r = 0") (auto simp: mark_field_def)
  with Cons.IH [OF c1(2)] Cons.prems(2) show ?case by fastforce
qed simp

lemma mark_roots_spec:
  assumes ok: "objects_ok vm h roots" and clear: "\<forall>x. live vm h roots x \<longrightarrow> x \<notin> gh_reachable h"
  shows "mark_inv vm h roots ds ctx \<Longrightarrow> (\<forall>r \<in> set rs. in_heap vm r \<longrightarrow> gc_reachable vm h roots r) \<Longrightarrow>
    \<exists>ctx'. fold_option (mark_root vm) rs ctx = Some ctx' \<and> mark_inv vm h roots ds ctx' \<and>
      set (gx_worklist ctx) \<subseteq> set (gx_worklist ctx') \<and>
      (\<forall>r \<in> set rs. in_heap vm r \<longrightarrow> r \<in> set ds \<union> set (gx_worklist ctx'))"
proof (induction rs arbitrary: ctx)
  case (Cons r rs)
  obtain c1 where c1: "mark_root vm r ctx = Some c1" "mark_inv vm h roots ds c1" "set (gx_worklist ctx) \<subseteq> set (gx_worklist c1)"
    "in_heap vm r \<longrightarrow> r \<in> set ds \<union> set (gx_worklist c1)"
    using mark_root_spec [OF ok clear Cons.prems(1), of r] Cons.prems by auto
  with Cons.IH [OF c1(2)] Cons.prems(2) show ?case by fastforce
qed simp

section \<open>The work list\<close>

text \<open>The references of the objects already taken have been marked.\<close>

definition mark_closed :: "gc_space \<Rightarrow> gc_heap \<Rightarrow> nat list \<Rightarrow> gc_ctx \<Rightarrow> bool" where
  "mark_closed vm h ds ctx \<longleftrightarrow> (\<forall>a \<in> set ds. \<forall>ob b. object_at h a = Some ob \<and> b \<in> set (traced_refs ob) \<and> b \<noteq> 0 \<and> in_heap vm b
     \<longrightarrow> b \<in> set ds \<union> set (gx_worklist ctx))"

lemma mark_step_spec:
  assumes ok: "objects_ok vm h roots" and clear: "\<forall>x. live vm h roots x \<longrightarrow> x \<notin> gh_reachable h"
    and inv: "mark_inv vm h roots ds ctx" and cl: "mark_closed vm h ds ctx" and wl: "gx_worklist ctx = ws @ [a]"
  shows "get_mark_word (gx_heap ctx) a = Some (mark_word h a)"
    and "\<exists>ctx'. mark_reachable vm a (ctx\<lparr>gx_worklist := ws,
        gx_heap := (gx_heap ctx)\<lparr>gh_reachable := insert (mark_word h a) (gh_reachable (gx_heap ctx))\<rparr>\<rparr>) = Some ctx' \<and>
      mark_inv vm h roots (ds @ [a]) ctx' \<and> mark_closed vm h (ds @ [a]) ctx' \<and> set ws \<subseteq> set (gx_worklist ctx')"
proof -
  have c: "gh_cells (gx_heap ctx) = gh_cells h" using inv by (simp add: mark_inv_def)
  have a: "gc_reachable vm h roots a" using inv wl by (simp add: mark_inv_def)
  then obtain ob where ob: "object_at h a = Some ob" using objects_okD [OF ok] by metis
  show "get_mark_word (gx_heap ctx) a = Some (mark_word h a)"
    using get_mark_word_ok(1) [OF ok a] get_mark_word_cong [OF c] by simp
  let ?heap = "(gx_heap ctx)\<lparr>gh_reachable := insert (mark_word h a) (gh_reachable (gx_heap ctx))\<rparr>"
  let ?ctx = "ctx\<lparr>gx_worklist := ws, gx_heap := ?heap, gx_objs := gx_objs ctx @ objs_entries a ob\<rparr>"
  have inv1: "mark_inv vm h roots (ds @ [a]) ?ctx"
    using inv wl ob by (auto simp: mark_inv_def entries_def)
  have "object_at ?heap a = Some ob" using ob object_at_cong [of ?heap h] c by simp
  then have step: "mark_reachable vm a (ctx\<lparr>gx_worklist := ws, gx_heap := ?heap\<rparr>) = fold_option (mark_field vm) (traced_refs ob) ?ctx"
    by (simp add: mark_reachable_def)
  have "\<forall>r \<in> set (traced_refs ob). r \<noteq> 0 \<and> in_heap vm r \<longrightarrow> gc_reachable vm h roots r"
    using gc_reachable.field [OF a ob] by blast
  from mark_fields_spec [OF ok clear inv1 this] obtain ctx' where
    ctx': "fold_option (mark_field vm) (traced_refs ob) ?ctx = Some ctx'" "mark_inv vm h roots (ds @ [a]) ctx'"
      "set ws \<subseteq> set (gx_worklist ctx')"
      "\<forall>r \<in> set (traced_refs ob). r \<noteq> 0 \<and> in_heap vm r \<longrightarrow> r \<in> set (ds @ [a]) \<union> set (gx_worklist ctx')" by auto
  have "mark_closed vm h (ds @ [a]) ctx'"
    using cl ctx'(3,4) ob wl unfolding mark_closed_def by fastforce
  with ctx' step show "\<exists>ctx'. mark_reachable vm a (ctx\<lparr>gx_worklist := ws, gx_heap := ?heap\<rparr>) = Some ctx' \<and>
      mark_inv vm h roots (ds @ [a]) ctx' \<and> mark_closed vm h (ds @ [a]) ctx' \<and> set ws \<subseteq> set (gx_worklist ctx')" by auto
qed

lemma mark_loop_spec:
  assumes ok: "objects_ok vm h roots" and clear: "\<forall>x. live vm h roots x \<longrightarrow> x \<notin> gh_reachable h"
  shows "mark_inv vm h roots ds ctx \<Longrightarrow> mark_closed vm h ds ctx \<Longrightarrow> card {a. gc_reachable vm h roots a} \<le> n + length ds \<Longrightarrow>
    \<exists>ctx' ds'. mark_loop vm n ctx = Some ctx' \<and> mark_inv vm h roots ds' ctx' \<and> mark_closed vm h ds' ctx' \<and>
      gx_worklist ctx' = [] \<and> set ds \<union> set (gx_worklist ctx) \<subseteq> set ds'"
proof (induction n arbitrary: ds ctx)
  case 0
  have "card (set (ds @ gx_worklist ctx)) \<le> card {a. gc_reachable vm h roots a}"
    using "0.prems"(1) by (intro card_mono finite_gc_reachable) (auto simp: mark_inv_def)
  moreover have "card (set (ds @ gx_worklist ctx)) = length (ds @ gx_worklist ctx)"
    using "0.prems"(1) by (intro distinct_card) (simp only: mark_inv_def)
  ultimately have "length (ds @ gx_worklist ctx) \<le> card {a. gc_reachable vm h roots a}" by simp
  with "0.prems"(3) have "length (gx_worklist ctx) = 0" unfolding length_append by linarith
  with "0.prems" show ?case by (subst mark_loop.simps) auto
next
  case (Suc n)
  show ?case
  proof (cases "gx_worklist ctx" rule: rev_cases)
    case Nil
    with Suc.prems show ?thesis by (subst mark_loop.simps) auto
  next
    case (snoc ws a)
    note step = mark_step_spec [OF ok clear Suc.prems(1,2) snoc]
    from step(2) obtain c1 where c1: "mark_reachable vm a (ctx\<lparr>gx_worklist := ws,
        gx_heap := (gx_heap ctx)\<lparr>gh_reachable := insert (mark_word h a) (gh_reachable (gx_heap ctx))\<rparr>\<rparr>) = Some c1"
      "mark_inv vm h roots (ds @ [a]) c1" "mark_closed vm h (ds @ [a]) c1" "set ws \<subseteq> set (gx_worklist c1)" by blast
    have "card {a. gc_reachable vm h roots a} \<le> n + length (ds @ [a])" using Suc.prems(3) by simp
    from Suc.IH [OF c1(2,3) this] obtain ctx' ds' where
      r: "mark_loop vm n c1 = Some ctx'" "mark_inv vm h roots ds' ctx'" "mark_closed vm h ds' ctx'" "gx_worklist ctx' = []"
        "set (ds @ [a]) \<union> set (gx_worklist c1) \<subseteq> set ds'" by blast
    have "mark_loop vm (Suc n) ctx = Some ctx'"
      using c1(1) r(1) step(1) snoc by (subst mark_loop.simps) (simp add: Let_def)
    with r c1(4) snoc show ?thesis by auto
  qed
qed

lemma mark_phase_spec:
  assumes ok: "objects_ok vm h roots" and clear: "\<forall>x. live vm h roots x \<longrightarrow> x \<notin> gh_reachable h"
    and fuel: "card {a. gc_reachable vm h roots a} \<le> fuel"
  shows "\<exists>ctx ds. mark_phase vm fuel roots h = Some ctx \<and> gh_cells (gx_heap ctx) = gh_cells h \<and>
    gx_objs ctx = concat (map (entries h) ds) \<and> distinct ds \<and> set ds = {a. gc_reachable vm h roots a} \<and>
    gh_reachable (gx_heap ctx) = gh_reachable h \<union> mark_word h ` set ds"
proof -
  let ?ctx = "\<lparr>gx_heap = h, gx_worklist = [], gx_objs = []\<rparr>"
  have "mark_inv vm h roots [] ?ctx" by (simp add: mark_inv_def)
  from mark_roots_spec [OF ok clear this, of roots] gc_reachable.root [of _ roots vm] obtain c1 where
    c1: "fold_option (mark_root vm) roots ?ctx = Some c1" "mark_inv vm h roots [] c1"
      "\<forall>r \<in> set roots. in_heap vm r \<longrightarrow> r \<in> set (gx_worklist c1)" by fastforce
  have "mark_closed vm h [] c1" by (simp add: mark_closed_def)
  from mark_loop_spec [OF ok clear c1(2) this, of fuel] fuel obtain ctx ds where
    r: "mark_loop vm fuel c1 = Some ctx" "mark_inv vm h roots ds ctx" "mark_closed vm h ds ctx" "gx_worklist ctx = []"
      "set (gx_worklist c1) \<subseteq> set ds" by auto
  have "gc_reachable vm h roots a \<Longrightarrow> a \<in> set ds" for a
  proof (induction rule: gc_reachable.induct)
    case (field a ob b)
    with r(3,4) show ?case by (auto simp: mark_closed_def)
  qed (use c1(3) r(5) in auto)
  with r c1(1) show ?thesis by (auto simp: mark_phase_def mark_inv_def)
qed

end
