(* ===== verification/Gc_Compact.thy ===== *)
theory Gc_Compact
  imports Gc_Mark
begin

text \<open>
  Sliding the live cells down in place, in the order of their addresses, overwrites none of the cells that have not
  been moved yet: every cell arrives at its new address unchanged, the write pointer never passes the cell that
  is moved, and all mark bits are cleared again.
\<close>

section \<open>One move\<close>

definition entry_addr :: "nat \<Rightarrow> nat" where
  "entry_addr p = p - p mod 2"

definition entry_extent :: "gc_heap \<Rightarrow> nat \<Rightarrow> nat" where
  "entry_extent h p = (case gh_cells h (entry_addr p) of None \<Rightarrow> 0 | Some c \<Rightarrow> cell_extent c)"

text \<open>The cell of an entry is of the entry's kind and has a size; an object's monitor is there.\<close>

definition entry_ok :: "gc_heap \<Rightarrow> nat \<Rightarrow> bool" where
  "entry_ok h p \<longleftrightarrow> 0 < entry_extent h p \<and>
     (if odd p then monitor_at h (entry_addr p) else get_mark_word h p \<noteq> None)"

lemma align8_aligned: "8 dvd n \<Longrightarrow> align8 n = n"
  by (auto simp: align8_def)

lemma align8_dvd: "8 dvd align8 n"
  by (simp add: align8_def)

lemma align8_ge: "n \<le> align8 n"
  unfolding align8_def by presburger

lemma cell_extent_dvd: "8 dvd cell_extent c"
  by (simp add: cell_extent_def align8_dvd split: option.splits)

lemma entry_extent_dvd: "8 dvd entry_extent h p"
  by (simp add: entry_extent_def cell_extent_dvd split: option.splits)

lemma entry_addr_even: "even p \<Longrightarrow> entry_addr p = p"
  by (auto simp: entry_addr_def)

lemma entry_addr_le: "entry_addr p \<le> p"
  by (simp add: entry_addr_def)

lemma memmove_spec:
  assumes "gh_cells h src = Some c" "memmove dst src sz h = Some h'"
  shows "gh_cells h' dst = Some c"
    and "\<And>x. dst + sz \<le> x \<Longrightarrow> 0 < sz \<Longrightarrow> gh_cells h' x = gh_cells h x"
    and "\<And>x d. gh_cells h x = Some d \<Longrightarrow> 0 < cell_extent d \<Longrightarrow> x + cell_extent d \<le> dst \<Longrightarrow> gh_cells h' x = Some d"
    and "dst \<in> gh_reachable h' \<longleftrightarrow> src \<in> gh_reachable h"
    and "\<And>x. dst + sz \<le> x \<Longrightarrow> 0 < sz \<Longrightarrow> x \<in> gh_reachable h' \<longleftrightarrow> x \<in> gh_reachable h"
    and "\<And>x. x \<noteq> dst \<Longrightarrow> x \<in> gh_reachable h' \<Longrightarrow> x \<in> gh_reachable h"
  using assms by (auto simp: memmove_def overlaps_def split: if_splits option.splits)

lemma compact_step_spec:
  assumes ok: "entry_ok h p" and wp: "8 dvd wp" "wp \<le> entry_addr p"
    and top: "entry_addr p + entry_extent h p \<le> gs_heap vm + gs_capacity vm"
  shows "\<exists>h'. compact_step vm p (h, wp, locs) = Some (h', wp + entry_extent h p, locs @ [wp]) \<and>
    gh_cells h' wp = gh_cells h (entry_addr p) \<and>
    (\<forall>x. wp + entry_extent h p \<le> x \<longrightarrow> gh_cells h' x = gh_cells h x) \<and>
    (\<forall>x d. gh_cells h x = Some d \<and> 0 < cell_extent d \<and> x + cell_extent d \<le> wp \<longrightarrow> gh_cells h' x = Some d) \<and>
    (wp \<in> gh_reachable h' \<longleftrightarrow> entry_addr p \<in> gh_reachable h \<and> (odd p \<or> mark_word h p \<noteq> p)) \<and>
    (\<forall>x. x \<noteq> wp \<and> x \<in> gh_reachable h' \<longrightarrow> x \<in> gh_reachable h \<and> (odd p \<or> x \<noteq> mark_word h p))"
proof -
  from ok obtain c where c: "gh_cells h (entry_addr p) = Some c" and ext: "entry_extent h p = cell_extent c" "0 < cell_extent c"
    by (auto simp: entry_ok_def entry_extent_def split: option.splits)
  then obtain n where n: "cell_size c = Some n" "cell_extent c = align8 n"
    by (auto simp: cell_extent_def split: option.splits)
  define g where "g = (if odd p then h else h\<lparr>gh_reachable := gh_reachable h - {mark_word h p}\<rparr>)"
  have g: "gh_cells g = gh_cells h" by (simp add: g_def)
  then obtain h' where h': "memmove wp (entry_addr p) (align8 n) g = Some h'" using c by (auto simp: memmove_def)
  note m = memmove_spec [OF _ h', unfolded g, OF c]
  have kind: "(if odd p then (if monitor_at h (entry_addr p) then gh_cells h (entry_addr p) else None)
      else map_option Object_Cell (object_at h (entry_addr p))) = Some c"
    using ok c by (auto simp: entry_ok_def entry_addr_even get_mark_word_def object_at_def bind_eq_Some_conv
        split: option.splits gc_cell.splits)
  have flag: "(if odd p then Some h else get_mark_word h (entry_addr p) \<bind> (\<lambda>w. Some (h\<lparr>gh_reachable := gh_reachable h - {w}\<rparr>))) = Some g"
    using ok by (auto simp: entry_ok_def g_def mark_word_def entry_addr_even)
  have "compact_step vm p (h, wp, locs) = Some (h', wp + entry_extent h p, locs @ [wp])"
    using kind flag n h' wp top ext entry_addr_le [of p]
    by (simp add: compact_step_def Let_def entry_addr_def [symmetric] align8_aligned del: if_split)
  moreover have "wp \<in> gh_reachable h' \<longleftrightarrow> entry_addr p \<in> gh_reachable h \<and> (odd p \<or> mark_word h p \<noteq> p)"
    using m(4) by (auto simp: g_def entry_addr_even)
  moreover have "x \<noteq> wp \<Longrightarrow> x \<in> gh_reachable h' \<Longrightarrow> x \<in> gh_reachable h \<and> (odd p \<or> x \<noteq> mark_word h p)" for x
    using m(6) [of x] by (auto simp: g_def split: if_splits)
  ultimately show ?thesis using m(1-3) c n ext by auto
qed

section \<open>All moves\<close>

text \<open>The entries still to be moved: disjoint and ascending, above the write pointer, below the end of the heap;
  the monitor of an object is moved after the object.\<close>

definition moves_ok :: "gc_space \<Rightarrow> gc_heap \<Rightarrow> nat \<Rightarrow> nat list \<Rightarrow> bool" where
  "moves_ok vm h wp ps \<longleftrightarrow>
     sorted_wrt (\<lambda>p q. entry_addr p + entry_extent h p \<le> entry_addr q) ps \<and>
     (\<forall>p \<in> set ps. entry_ok h p \<and> wp \<le> entry_addr p \<and> entry_addr p + entry_extent h p \<le> gs_heap vm + gs_capacity vm) \<and>
     (\<forall>p \<in> set ps. \<forall>ob. even p \<and> object_at h p = Some ob \<and> gco_monitor ob \<noteq> 0 \<longrightarrow>
        p < gco_monitor ob \<and> even (gco_monitor ob) \<and> gco_monitor ob + 1 \<in> set ps)"

text \<open>Every mark bit that is set will be cleared by one of the moves.\<close>

definition flags_ok :: "gc_heap \<Rightarrow> nat list \<Rightarrow> bool" where
  "flags_ok h ps \<longleftrightarrow> (\<forall>p \<in> set ps. entry_addr p \<in> gh_reachable h \<longrightarrow> (\<exists>q \<in> set ps. even q \<and> mark_word h q = entry_addr p))"

lemma entry_cong:
  assumes "gh_cells h' (entry_addr p) = gh_cells h (entry_addr p)"
  shows "entry_extent h' p = entry_extent h p"
    and "even p \<Longrightarrow> object_at h' p = object_at h p"
    and "odd p \<Longrightarrow> monitor_at h' (entry_addr p) = monitor_at h (entry_addr p)"
  using assms by (auto simp: entry_extent_def object_at_def monitor_at_def entry_addr_even)

lemma entry_addr_Suc: "even m \<Longrightarrow> entry_addr (m + 1) = m"
  unfolding entry_addr_def by presburger

lemma moves_ok_step:
  assumes mv: "moves_ok vm h wp (p # ps)" and same: "\<forall>x. wp + entry_extent h p \<le> x \<longrightarrow> gh_cells h' x = gh_cells h x"
  shows "moves_ok vm h' (wp + entry_extent h p) ps"
    and "\<And>q. q \<in> set ps \<Longrightarrow> even q \<Longrightarrow> mark_word h' q = mark_word h q"
    and "\<And>q. q \<in> set ps \<Longrightarrow> wp + entry_extent h p \<le> entry_addr q \<and> gh_cells h' (entry_addr q) = gh_cells h (entry_addr q)"
proof -
  show above: "wp + entry_extent h p \<le> entry_addr q \<and> gh_cells h' (entry_addr q) = gh_cells h (entry_addr q)" if "q \<in> set ps" for q
    using mv same that by (fastforce simp: moves_ok_def)
  note cong = entry_cong [OF above [THEN conjunct2]]
  have mon: "q < gco_monitor ob \<and> even (gco_monitor ob) \<and> gco_monitor ob + 1 \<in> set ps"
    if q: "q \<in> set ps" "even q" "object_at h q = Some ob" "gco_monitor ob \<noteq> 0" for q ob
  proof -
    have m: "q < gco_monitor ob" "even (gco_monitor ob)" "gco_monitor ob + 1 \<in> set (p # ps)"
      using mv q unfolding moves_ok_def by auto
    moreover have "entry_addr p \<le> entry_addr q" using mv q(1) by (auto simp: moves_ok_def)
    ultimately have "gco_monitor ob + 1 \<noteq> p" using entry_addr_Suc [OF m(2)] entry_addr_even [OF q(2)] by fastforce
    with m show ?thesis by simp
  qed
  have gmw: "get_mark_word h' q = get_mark_word h q" if q: "q \<in> set ps" "even q" for q
  proof (cases "object_at h q")
    case (Some ob)
    moreover have "monitor_at h' (gco_monitor ob) = monitor_at h (gco_monitor ob)" if "gco_monitor ob \<noteq> 0"
      using mon [OF q Some that] cong(3) [of "gco_monitor ob + 1"] entry_addr_Suc by fastforce
    ultimately show ?thesis using cong(2) [OF q] by (simp add: get_mark_word_def)
  qed (use cong(2) [OF q] in \<open>simp add: get_mark_word_def\<close>)
  then show "mark_word h' q = mark_word h q" if "q \<in> set ps" "even q" for q
    using that by (simp add: mark_word_def)
  have "entry_ok h' q" if "q \<in> set ps" for q
    using mv that cong [OF that] gmw [OF that] by (auto simp: moves_ok_def entry_ok_def)
  moreover have "sorted_wrt (\<lambda>p q. entry_addr p + entry_extent h' p \<le> entry_addr q) ps"
    by (rule sorted_wrt_mono_rel [of _ "\<lambda>p q. entry_addr p + entry_extent h p \<le> entry_addr q"])
      (use mv cong(1) in \<open>auto simp: moves_ok_def\<close>)
  ultimately show "moves_ok vm h' (wp + entry_extent h p) ps"
    using mv above cong mon unfolding moves_ok_def by (auto simp: entry_addr_even)
qed

text \<open>What the moves achieve: \<open>ns\<close> are the new addresses.\<close>

definition moved :: "gc_space \<Rightarrow> gc_heap \<Rightarrow> nat \<Rightarrow> nat list \<Rightarrow> gc_heap \<Rightarrow> nat \<Rightarrow> nat list \<Rightarrow> bool" where
  "moved vm h wp ps h' wp' ns \<longleftrightarrow> length ns = length ps \<and>
     (\<forall>k < length ps. gh_cells h' (ns ! k) = gh_cells h (entry_addr (ps ! k)) \<and> 8 dvd ns ! k \<and> ns ! k \<notin> gh_reachable h' \<and>
        wp \<le> ns ! k \<and> ns ! k \<le> entry_addr (ps ! k) \<and> ns ! k + entry_extent h (ps ! k) \<le> wp') \<and>
     (\<forall>i j. i < j \<and> j < length ps \<longrightarrow> ns ! i + entry_extent h (ps ! i) \<le> ns ! j) \<and>
     (\<forall>x c. gh_cells h x = Some c \<and> 0 < cell_extent c \<and> x + cell_extent c \<le> wp \<longrightarrow>
        gh_cells h' x = Some c \<and> (x \<in> gh_reachable h' \<longrightarrow> x \<in> gh_reachable h)) \<and>
     8 dvd wp' \<and> wp' = wp + sum_list (map (entry_extent h) ps)"

lemma moved_Cons:
  assumes step: "gh_cells h1 wp = gh_cells h (entry_addr p)" "wp \<notin> gh_reachable h1" "0 < entry_extent h p"
      "\<forall>x c. gh_cells h x = Some c \<and> 0 < cell_extent c \<and> x + cell_extent c \<le> wp \<longrightarrow>
         gh_cells h1 x = Some c \<and> (x \<in> gh_reachable h1 \<longrightarrow> x \<in> gh_reachable h)"
      "8 dvd wp" "wp \<le> entry_addr p"
    and above: "\<forall>q \<in> set ps. gh_cells h1 (entry_addr q) = gh_cells h (entry_addr q)"
    and mv: "moved vm h1 (wp + entry_extent h p) ps h' wp' ns"
  shows "moved vm h wp (p # ps) h' wp' (wp # ns)"
proof -
  have ext: "entry_extent h1 q = entry_extent h q" if "q \<in> set ps" for q using above that by (simp add: entry_extent_def)
  note mv = mv [unfolded moved_def]
  obtain c where c: "gh_cells h (entry_addr p) = Some c" "entry_extent h p = cell_extent c" "0 < cell_extent c"
    using step(3) by (auto simp: entry_extent_def split: option.splits)
  have first: "gh_cells h' wp = Some c \<and> wp \<notin> gh_reachable h'" using mv step(1,2) c by auto
  have sum: "wp' = wp + sum_list (map (entry_extent h) (p # ps))" using mv ext by (simp cong: map_cong)
  have elems: "gh_cells h' ((wp # ns) ! k) = gh_cells h (entry_addr ((p # ps) ! k)) \<and> 8 dvd (wp # ns) ! k \<and> (wp # ns) ! k \<notin> gh_reachable h' \<and>
      wp \<le> (wp # ns) ! k \<and> (wp # ns) ! k \<le> entry_addr ((p # ps) ! k) \<and> (wp # ns) ! k + entry_extent h ((p # ps) ! k) \<le> wp'"
    if k: "k < length (p # ps)" for k
  proof (cases k)
    case 0
    with first c step(5,6) sum show ?thesis by simp
  next
    case (Suc i)
    then have i: "i < length ps" "ps ! i \<in> set ps" using k by auto
    with mv above ext [OF i(2)] show ?thesis unfolding Suc by (auto intro: add_leD1)
  qed
  have pairs: "(wp # ns) ! i + entry_extent h ((p # ps) ! i) \<le> (wp # ns) ! j" if ij: "i < j" "j < length (p # ps)" for i j
  proof -
    from ij obtain j' where j': "j = Suc j'" "j' < length ps" by (cases j) auto
    show ?thesis
    proof (cases i)
      case 0 with j' mv show ?thesis by simp
    next
      case (Suc i')
      with ij j' have "i' < j'" "ps ! i' \<in> set ps" by auto
      moreover from this j' mv have "ns ! i' + entry_extent h1 (ps ! i') \<le> ns ! j'" by blast
      ultimately show ?thesis using Suc j' ext by simp
    qed
  qed
  have keep: "gh_cells h' x = Some d \<and> (x \<in> gh_reachable h' \<longrightarrow> x \<in> gh_reachable h)"
    if "gh_cells h x = Some d \<and> 0 < cell_extent d \<and> x + cell_extent d \<le> wp" for x d
  proof -
    from step(4) that have "gh_cells h1 x = Some d" "x \<in> gh_reachable h1 \<longrightarrow> x \<in> gh_reachable h" by blast+
    moreover from that have "0 < cell_extent d \<and> x + cell_extent d \<le> wp + entry_extent h p" by simp
    ultimately show ?thesis using mv by blast
  qed
  have len: "length (wp # ns) = length (p # ps)" "8 dvd wp'" using mv by auto
  show ?thesis unfolding moved_def
    by (intro conjI) (use elems pairs keep len sum in blast)+
qed

lemma mark_word_ge:
  assumes "moves_ok vm h wp ps" "q \<in> set ps" "even q"
  shows "q \<le> mark_word h q"
proof -
  from assms have "get_mark_word h q \<noteq> None" by (auto simp: moves_ok_def entry_ok_def)
  then obtain ob where "object_at h q = Some ob" "mark_word h q = (if gco_monitor ob = 0 then q else gco_monitor ob)"
    by (auto simp: get_mark_word_def mark_word_def split: bind_splits if_splits)
  with assms show ?thesis unfolding moves_ok_def by force
qed

lemma compact_moves:
  "moves_ok vm h wp ps \<Longrightarrow> flags_ok h ps \<Longrightarrow> 8 dvd wp \<Longrightarrow>
    \<exists>h' wp' ns. fold_option (compact_step vm) ps (h, wp, locs) = Some (h', wp', locs @ ns) \<and> moved vm h wp ps h' wp' ns"
proof (induction ps arbitrary: h wp locs)
  case Nil
  then show ?case by (simp add: moved_def)
next
  case (Cons p ps)
  have p: "entry_ok h p" "wp \<le> entry_addr p" "entry_addr p + entry_extent h p \<le> gs_heap vm + gs_capacity vm"
    using Cons.prems(1) by (auto simp: moves_ok_def)
  from compact_step_spec [OF p(1) Cons.prems(3) p(2,3), of locs] obtain h1 where
    h1: "compact_step vm p (h, wp, locs) = Some (h1, wp + entry_extent h p, locs @ [wp])"
      "gh_cells h1 wp = gh_cells h (entry_addr p)"
      "\<forall>x. wp + entry_extent h p \<le> x \<longrightarrow> gh_cells h1 x = gh_cells h x"
      "\<forall>x d. gh_cells h x = Some d \<and> 0 < cell_extent d \<and> x + cell_extent d \<le> wp \<longrightarrow> gh_cells h1 x = Some d"
      "wp \<in> gh_reachable h1 \<longleftrightarrow> entry_addr p \<in> gh_reachable h \<and> (odd p \<or> mark_word h p \<noteq> p)"
      "\<forall>x. x \<noteq> wp \<and> x \<in> gh_reachable h1 \<longrightarrow> x \<in> gh_reachable h \<and> (odd p \<or> x \<noteq> mark_word h p)" by blast
  note rest = moves_ok_step [OF Cons.prems(1) h1(3)]
  have pos: "0 < entry_extent h p" using p(1) by (simp add: entry_ok_def)
  have above: "wp < entry_addr q" "entry_addr p < entry_addr q" if "q \<in> set ps" for q
    using rest(3) [OF that] Cons.prems(1) that pos by (auto simp: moves_ok_def)
  have flags: "flags_ok h1 ps" unfolding flags_ok_def
  proof (intro ballI impI)
    fix q assume q: "q \<in> set ps" "entry_addr q \<in> gh_reachable h1"
    with h1(6) above(1) have r: "entry_addr q \<in> gh_reachable h" "odd p \<or> entry_addr q \<noteq> mark_word h p" by fastforce+
    then obtain r where "r \<in> set (p # ps)" "even r" "mark_word h r = entry_addr q"
      using Cons.prems(2) q(1) by (force simp: flags_ok_def)
    then show "\<exists>r \<in> set ps. even r \<and> mark_word h1 r = entry_addr q" using r(2) rest(2) by (metis set_ConsD)
  qed
  have clear: "wp \<notin> gh_reachable h1"
  proof
    assume "wp \<in> gh_reachable h1"
    with h1(5) have r: "entry_addr p \<in> gh_reachable h" "odd p \<or> mark_word h p \<noteq> p" by auto
    then obtain r where r': "r \<in> set (p # ps)" "even r" "mark_word h r = entry_addr p"
      using Cons.prems(2) by (force simp: flags_ok_def)
    then have "r \<noteq> p" using r(2) entry_addr_even [of p] by metis
    with r'(1) have "r \<in> set ps" by simp
    with above(2) [OF this] mark_word_ge [OF Cons.prems(1) r'(1,2)] r'(2,3) show False by (simp add: entry_addr_even)
  qed
  have "8 dvd wp + entry_extent h p" using Cons.prems(3) entry_extent_dvd by simp
  from Cons.IH [OF rest(1) flags this, of "locs @ [wp]"] obtain h' wp' ns where
    res: "fold_option (compact_step vm) ps (h1, wp + entry_extent h p, locs @ [wp]) = Some (h', wp', locs @ wp # ns)"
      "moved vm h1 (wp + entry_extent h p) ps h' wp' ns" by auto
  have keep: "\<forall>x c. gh_cells h x = Some c \<and> 0 < cell_extent c \<and> x + cell_extent c \<le> wp \<longrightarrow>
      gh_cells h1 x = Some c \<and> (x \<in> gh_reachable h1 \<longrightarrow> x \<in> gh_reachable h)"
    using h1(4,6) by auto
  have "moved vm h wp (p # ps) h' wp' (wp # ns)"
    by (rule moved_Cons [OF h1(2) clear pos keep Cons.prems(3) p(2) _ res(2)]) (intro ballI rest(3) [THEN conjunct2])
  moreover have "fold_option (compact_step vm) (p # ps) (h, wp, locs) = Some (h', wp', locs @ wp # ns)"
    by (simp only: fold_option.simps h1(1) bind.bind_lunit res(1))
  ultimately show ?case by (intro exI conjI)
qed

end
