(* ===== verification/Gc_Relocate.thy ===== *)
theory Gc_Relocate
  imports Gc_Compact
begin

text \<open>
  The vector of live entries after sorting, the heap after the moves, and the rewriting of the references: every
  live cell is moved to its place in the vector of new addresses, every reference to it is rewritten, and the
  reachable part of the result is well formed again.
\<close>

section \<open>The vector of live entries\<close>

definition is_entry :: "gc_space \<Rightarrow> gc_heap \<Rightarrow> nat list \<Rightarrow> nat \<Rightarrow> bool" where
  "is_entry vm h roots p \<longleftrightarrow> gc_reachable vm h roots p \<or>
     (\<exists>a ob. gc_reachable vm h roots a \<and> object_at h a = Some ob \<and> gco_monitor ob \<noteq> 0 \<and> p = gco_monitor ob + 1)"

lemma live_cell:
  assumes "heap_ok vm used h roots" "live vm h roots x"
  obtains c where "gh_cells h x = Some c" "8 dvd x" "gs_heap vm \<le> x" "0 < cell_extent c" "x + cell_extent c \<le> gs_heap vm + used"
    "\<And>y. live vm h roots y \<Longrightarrow> x < y \<Longrightarrow> x + cell_extent c \<le> y"
proof -
  have "\<exists>c. gh_cells h x = Some c"
    using assms objects_okD [of vm h roots] unfolding live_def heap_ok_def
    by (metis monitor_at_def object_at_cells option.case_eq_if option.collapse option.inject)
  with assms that show ?thesis unfolding heap_ok_def layout_ok_def by blast
qed

lemma live_even: "heap_ok vm used h roots \<Longrightarrow> live vm h roots x \<Longrightarrow> even x"
  by (erule live_cell) (auto elim: dvd_trans [rotated])

lemma reachable_live: "gc_reachable vm h roots a \<Longrightarrow> live vm h roots a"
  by (simp add: live_def)

lemma monitor_live:
  "gc_reachable vm h roots a \<Longrightarrow> object_at h a = Some ob \<Longrightarrow> gco_monitor ob \<noteq> 0 \<Longrightarrow> live vm h roots (gco_monitor ob)"
  unfolding live_def by blast

lemma entry_cases:
  assumes ok: "heap_ok vm used h roots" and p: "is_entry vm h roots p"
  obtains (object) "even p" "entry_addr p = p" "gc_reachable vm h roots p"
  | (monitor) a ob where "odd p" "p = gco_monitor ob + 1" "entry_addr p = gco_monitor ob" "gc_reachable vm h roots a"
      "object_at h a = Some ob" "gco_monitor ob \<noteq> 0" "live vm h roots (gco_monitor ob)" "monitor_at h (gco_monitor ob)"
proof (cases "gc_reachable vm h roots p")
  case True
  with object show ?thesis using live_even [OF ok reachable_live] entry_addr_even by blast
next
  case False
  with p obtain a ob where a: "gc_reachable vm h roots a" "object_at h a = Some ob" "gco_monitor ob \<noteq> 0" "p = gco_monitor ob + 1"
    unfolding is_entry_def by blast
  moreover have "live vm h roots (gco_monitor ob)" using a by (intro monitor_live)
  moreover have "monitor_at h (gco_monitor ob)" using objects_okD [of vm h roots a] ok a by (metis heap_ok_def option.inject)
  ultimately show ?thesis using monitor live_even [OF ok] entry_addr_Suc by (metis dvd_def even_plus_one_iff)
qed

lemma entry_live: "heap_ok vm used h roots \<Longrightarrow> is_entry vm h roots p \<Longrightarrow> live vm h roots (entry_addr p)"
  by (erule (1) entry_cases) (simp_all add: reachable_live)

lemma entry_in_heap:
  assumes ok: "heap_ok vm used h roots" and p: "is_entry vm h roots p"
  shows "in_heap vm p \<and> p \<noteq> 0"
proof -
  from live_cell [OF ok entry_live [OF ok p]] obtain c where c: "8 dvd entry_addr p" "gs_heap vm \<le> entry_addr p"
    "0 < cell_extent c" "entry_addr p + cell_extent c \<le> gs_heap vm + used" by metis
  have "8 \<le> cell_extent c" using c(3) cell_extent_dvd [of c] by (simp add: dvd_imp_le)
  moreover have "p \<le> entry_addr p + 1" unfolding entry_addr_def by presburger
  ultimately show ?thesis using c ok entry_addr_le [of p] by (auto simp: in_heap_def heap_ok_def layout_ok_def)
qed

lemma entry_entry_ok:
  assumes ok: "heap_ok vm used h roots" and p: "is_entry vm h roots p"
  shows "entry_ok h p"
proof -
  have "0 < entry_extent h p" by (rule live_cell [OF ok entry_live [OF ok p]]) (simp add: entry_extent_def)
  moreover have "if odd p then monitor_at h (entry_addr p) else get_mark_word h p \<noteq> None"
    by (rule entry_cases [OF ok p]) (use get_mark_word_ok(1) [of vm h roots p] ok in \<open>simp_all add: heap_ok_def\<close>)
  ultimately show ?thesis by (simp add: entry_ok_def)
qed

text \<open>Two entries at the same address are the same entry: a cell is an object or a monitor, not both.\<close>

lemma entry_addr_inj:
  assumes ok: "heap_ok vm used h roots" and p: "is_entry vm h roots p" and q: "is_entry vm h roots q" and eq: "entry_addr p = entry_addr q"
  shows "p = q"
proof -
  have not: "\<not> (gc_reachable vm h roots x \<and> monitor_at h x)" for x
    using ok objects_okD [of vm h roots x] by (metis (no_types, lifting) gc_cell.simps(5) heap_ok_def monitor_at_def object_at_cells option.simps(5))
  show ?thesis
  proof (cases rule: entry_cases [OF ok p, case_names object monitor])
    case p: object
    show ?thesis by (cases rule: entry_cases [OF ok q]) (use eq not p in auto)
  next
    case p: (monitor a ob)
    show ?thesis by (cases rule: entry_cases [OF ok q]) (use eq not p in auto)
  qed
qed

lemma entries_set:
  assumes ok: "objects_ok vm h roots" and ds: "set ds = {a. gc_reachable vm h roots a}"
  shows "p \<in> set (concat (map (entries h) ds)) \<longleftrightarrow> is_entry vm h roots p"
proof -
  have "p \<in> set (entries h a) \<longleftrightarrow> p = a \<or> (\<exists>ob. object_at h a = Some ob \<and> gco_monitor ob \<noteq> 0 \<and> p = gco_monitor ob + 1)"
    if "gc_reachable vm h roots a" for a
    by (rule objects_okD [OF ok that]) (auto simp: entries_def objs_entries_def)
  with ds show ?thesis unfolding is_entry_def by auto
qed

lemma entries_distinct:
  assumes ok: "heap_ok vm used h roots" and ds: "distinct ds" "\<forall>a \<in> set ds. gc_reachable vm h roots a"
  shows "distinct (concat (map (entries h) ds))"
  using ds
proof (induction ds)
  case (Cons a ds)
  obtain ob where ob: "object_at h a = Some ob" using objects_okD [of vm h roots a] ok Cons.prems by (metis heap_ok_def list.set_intros(1))
  have e: "is_entry vm h roots a" "gco_monitor ob \<noteq> 0 \<Longrightarrow> is_entry vm h roots (gco_monitor ob + 1)"
    using Cons.prems ob by (auto simp: is_entry_def)
  have ev: "even x" if "gc_reachable vm h roots x" for x using live_even [OF ok reachable_live [OF that]] .
  have "even (gco_monitor ob)" using Cons.prems ob live_even [OF ok monitor_live, of a ob] by (cases "gco_monitor ob = 0") auto
  have new: False if b: "b \<in> set ds" and p: "p \<in> set (entries h a)" "p \<in> set (entries h b)" for b p
  proof -
    from b Cons.prems have rb: "gc_reachable vm h roots b" "a \<noteq> b" "gc_reachable vm h roots a" by auto
    obtain ob' where ob': "object_at h b = Some ob'" using objects_okD [of vm h roots b] ok rb by (metis heap_ok_def)
    have even': "even (gco_monitor ob')" using rb(1) ob' live_even [OF ok monitor_live, of b ob'] by (cases "gco_monitor ob' = 0") auto
    show False
      using p ob ob' rb ev [OF rb(1)] ev [OF rb(3)] even' \<open>even (gco_monitor ob)\<close> objects_ok_inj [of vm h roots a b ob ob'] ok
      by (auto simp: entries_def objs_entries_def heap_ok_def split: if_splits)
  qed
  have "distinct (entries h a)" using ob ev [of a] Cons.prems \<open>even (gco_monitor ob)\<close> by (auto simp: entries_def objs_entries_def)
  moreover have "set (entries h a) \<inter> set (concat (map (entries h) ds)) = {}" using new by auto
  ultimately show ?case using Cons by simp
qed simp
section \<open>The heap after the moves\<close>

lemma extents_bound:
  "sorted_wrt (\<lambda>p q. entry_addr p + entry_extent h p \<le> entry_addr q) ps \<Longrightarrow> wp \<le> bound \<Longrightarrow>
    (\<forall>p \<in> set ps. wp \<le> entry_addr p \<and> entry_addr p + entry_extent h p \<le> bound) \<Longrightarrow> wp + sum_list (map (entry_extent h) ps) \<le> bound"
proof (induction ps arbitrary: wp)
  case (Cons p ps)
  have "wp + entry_extent h p + sum_list (map (entry_extent h) ps) \<le> bound"
    using Cons.prems by (intro Cons.IH) (auto intro: order_trans [of "wp + entry_extent h p" "entry_addr p + entry_extent h p"])
  then show ?case by simp
qed simp

text \<open>\<open>objs\<close> is the sorted vector of the entries, \<open>ns\<close> the vector of their new addresses.\<close>

definition compacted :: "gc_space \<Rightarrow> nat \<Rightarrow> gc_heap \<Rightarrow> nat list \<Rightarrow> nat list \<Rightarrow> nat list \<Rightarrow> gc_heap \<Rightarrow> nat \<Rightarrow> bool" where
  "compacted vm used h roots objs ns h1 wp \<longleftrightarrow> heap_ok vm used h roots \<and>
     sorted_wrt (<) objs \<and> (\<forall>p. p \<in> set objs \<longleftrightarrow> is_entry vm h roots p) \<and> length ns = length objs \<and>
     (\<forall>k < length objs. gh_cells h1 (ns ! k) = gh_cells h (entry_addr (objs ! k)) \<and> 8 dvd ns ! k \<and> ns ! k \<notin> gh_reachable h1 \<and>
        gs_heap vm \<le> ns ! k \<and> ns ! k \<le> entry_addr (objs ! k) \<and> ns ! k + entry_extent h (objs ! k) \<le> wp) \<and>
     (\<forall>i j. i < j \<and> j < length objs \<longrightarrow> ns ! i + entry_extent h (objs ! i) \<le> ns ! j) \<and>
     8 dvd wp \<and> gs_heap vm \<le> wp \<and> wp \<le> gs_heap vm + used"

lemma objs_disjoint:
  assumes ok: "heap_ok vm used h roots" and sorted: "sorted_wrt (<) objs" and set: "\<forall>p. p \<in> set objs \<longleftrightarrow> is_entry vm h roots p"
  shows "sorted_wrt (\<lambda>p q. entry_addr p + entry_extent h p \<le> entry_addr q) objs"
proof (rule sorted_wrt_mono_rel [OF _ sorted])
  fix p q assume pq: "p \<in> set objs" "q \<in> set objs" "p < q"
  then have e: "is_entry vm h roots p" "is_entry vm h roots q" using set by auto
  have "entry_addr p \<le> entry_addr q" using pq(3) unfolding entry_addr_def by presburger
  moreover have "entry_addr p \<noteq> entry_addr q" using entry_addr_inj [OF ok e] pq(3) by auto
  ultimately have "entry_addr p < entry_addr q" by simp
  then show "entry_addr p + entry_extent h p \<le> entry_addr q"
    using entry_live [OF ok e(2)] by (rule_tac live_cell [OF ok entry_live [OF ok e(1)]]) (simp add: entry_extent_def)
qed

lemma entry_bounds:
  assumes ok: "heap_ok vm used h roots" and p: "is_entry vm h roots p"
  shows "gs_heap vm \<le> entry_addr p \<and> entry_addr p + entry_extent h p \<le> gs_heap vm + used"
  by (rule live_cell [OF ok entry_live [OF ok p]]) (simp add: entry_extent_def)

lemma objs_moves_ok:
  assumes ok: "heap_ok vm used h roots" and sorted: "sorted_wrt (<) objs" and set: "\<forall>p. p \<in> set objs \<longleftrightarrow> is_entry vm h roots p"
  shows "moves_ok vm h (gs_heap vm) objs"
proof -
  have used: "used \<le> gs_capacity vm" using ok by (simp add: heap_ok_def layout_ok_def)
  have "p < gco_monitor ob \<and> even (gco_monitor ob) \<and> gco_monitor ob + 1 \<in> set objs"
    if p: "p \<in> set objs" "even p" "object_at h p = Some ob" "gco_monitor ob \<noteq> 0" for p ob
  proof -
    have r: "gc_reachable vm h roots p" using set p(1,2) by (auto elim!: entry_cases [OF ok])
    then have "p < gco_monitor ob" using objects_okD [of vm h roots p] ok p(3,4) by (metis heap_ok_def option.inject)
    moreover have "is_entry vm h roots (gco_monitor ob + 1)" using r p unfolding is_entry_def by blast
    ultimately show ?thesis using set live_even [OF ok monitor_live [OF r p(3,4)]] by simp
  qed
  moreover have "entry_ok h p \<and> gs_heap vm \<le> entry_addr p \<and> entry_addr p + entry_extent h p \<le> gs_heap vm + gs_capacity vm"
    if "p \<in> set objs" for p
    using entry_entry_ok [OF ok] entry_bounds [OF ok] set that used by fastforce
  ultimately show ?thesis using objs_disjoint [OF assms] unfolding moves_ok_def by blast
qed

lemma moves_ok_cong:
  assumes "gh_cells g = gh_cells h"
  shows "moves_ok vm g wp ps = moves_ok vm h wp ps" "entry_extent g = entry_extent h" "mark_word g = mark_word h"
proof -
  show ext: "entry_extent g = entry_extent h" using assms by (simp add: entry_extent_def fun_eq_iff)
  show "mark_word g = mark_word h" using get_mark_word_cong [OF assms] by (simp add: mark_word_def fun_eq_iff)
  show "moves_ok vm g wp ps = moves_ok vm h wp ps"
    unfolding moves_ok_def entry_ok_def ext object_at_cong [OF assms] monitor_at_cong [OF assms] get_mark_word_cong [OF assms] ..
qed

lemma compact_compacted:
  assumes ok: "heap_ok vm used h roots" and sorted: "sorted_wrt (<) objs" and set: "\<forall>p. p \<in> set objs \<longleftrightarrow> is_entry vm h roots p"
    and cells: "gh_cells g = gh_cells h" and flags: "gh_reachable g = gh_reachable h \<union> mark_word h ` {a. gc_reachable vm h roots a}"
  shows "\<exists>h1 wp ns. compact vm objs g = Some (h1, wp, ns) \<and> compacted vm used h roots objs ns h1 wp"
proof -
  note cong = moves_ok_cong [OF cells]
  have "flags_ok g objs" unfolding flags_ok_def cong
  proof (intro ballI impI)
    fix p assume p: "p \<in> set objs" "entry_addr p \<in> gh_reachable g"
    then have "entry_addr p \<notin> gh_reachable h" using entry_live [OF ok] set ok by (auto simp: heap_ok_def)
    with p(2) flags obtain q where "gc_reachable vm h roots q" "mark_word h q = entry_addr p" by auto
    then show "\<exists>q \<in> set objs. even q \<and> mark_word h q = entry_addr p"
      using set live_even [OF ok reachable_live] by (auto simp: is_entry_def)
  qed
  moreover have "8 dvd gs_heap vm" "gs_heap vm \<le> gs_heap vm + used" using ok by (simp_all add: heap_ok_def layout_ok_def)
  moreover have "moves_ok vm g (gs_heap vm) objs" using objs_moves_ok [OF ok sorted set] by (simp add: cong)
  ultimately obtain h1 wp ns where r: "compact vm objs g = Some (h1, wp, ns)" "moved vm g (gs_heap vm) objs h1 wp ns"
    using compact_moves [of vm g "gs_heap vm" objs "[]"] by (auto simp: compact_def)
  have "wp \<le> gs_heap vm + used"
    using r(2) extents_bound [OF objs_disjoint [OF ok sorted set], of "gs_heap vm" "gs_heap vm + used"] entry_bounds [OF ok] set
    by (simp add: moved_def cong)
  then show ?thesis using r ok sorted set unfolding compacted_def moved_def cells cong by auto
qed

section \<open>Relocation of the references\<close>

lemma relocate_object_spec:
  assumes "sorted_wrt (<) objs" "length ns = length objs"
  shows "k < length objs \<Longrightarrow> objs ! k \<noteq> 0 \<Longrightarrow> relocate_object objs ns (objs ! k) = (ns ! k, True)"
    and "v \<notin> set objs \<Longrightarrow> v \<noteq> 0 \<Longrightarrow> relocate_object objs ns v = (v, False)"
proof -
  have s: "sorted objs" "distinct objs" using assms(1) by (simp_all add: strict_sorted_iff)
  show "relocate_object objs ns (objs ! k) = (ns ! k, True)" if k: "k < length objs" "objs ! k \<noteq> 0"
  proof -
    from binary_search_spec [OF s(1), of "objs ! k"] k obtain i where
      i: "binary_search_for_pointer (objs ! k) objs = Some i" "i < length objs" "objs ! i = objs ! k"
      by (auto split: option.splits)
    with s(2) k have "i = k" by (simp add: nth_eq_iff_index_eq)
    with i(1) k show ?thesis by (simp add: relocate_object_def)
  qed
  show "relocate_object objs ns v = (v, False)" if v: "v \<notin> set objs" "v \<noteq> 0"
    using binary_search_spec [OF s(1), of v] v by (auto simp: relocate_object_def split: option.splits)
qed

lemma relocate_object_zero [simp]: "relocate_object objs ns 0 = (0, True)"
  by (simp add: relocate_object_def)

text \<open>How an object is rewritten; \<open>pd\<close> is the head of the pending list when its turn comes.\<close>

definition traces_refs :: "gc_class \<Rightarrow> bool" where
  "traces_refs c \<longleftrightarrow> gcc_kind c \<noteq> CD_KIND_PRIMITIVE_ARRAY \<or> gcc_dimensions c > 1"

definition weak_class :: "gc_class \<Rightarrow> bool" where
  "weak_class c \<longleftrightarrow> gcc_kind c = CD_KIND_ORDINARY \<and> gcc_is_reference c"

definition relocated_refs :: "nat list \<Rightarrow> nat list \<Rightarrow> nat \<Rightarrow> gc_object \<Rightarrow> nat list" where
  "relocated_refs objs ns pd ob =
     (if weak_class (gco_class ob) then
        (let rest = map (relocate_ref objs ns) (tl (gco_refs ob)) in
         if snd (relocate_object objs ns (hd (gco_refs ob))) then relocate_ref objs ns (hd (gco_refs ob)) # rest
         else 0 # (if rest ! 2 = 0 then rest[2 := pd] else rest))
      else if traces_refs (gco_class ob) then map (relocate_ref objs ns) (gco_refs ob) else gco_refs ob)"

definition relocated :: "nat list \<Rightarrow> nat list \<Rightarrow> nat \<Rightarrow> gc_object \<Rightarrow> gc_object" where
  "relocated objs ns pd ob = ob\<lparr>
     gco_monitor := (if gco_monitor ob = 0 then 0 else relocate_ref objs ns (gco_monitor ob + 1)),
     gco_refs := relocated_refs objs ns pd ob\<rparr>"

definition relocatable :: "nat list \<Rightarrow> gc_object \<Rightarrow> bool" where
  "relocatable objs ob \<longleftrightarrow> (gco_monitor ob \<noteq> 0 \<longrightarrow> gco_monitor ob + 1 \<in> set objs) \<and>
     (gcc_is_reference (gco_class ob) \<longrightarrow> discovered_slot < length (gco_refs ob))"

lemma relocate_monitor_spec:
  assumes "sorted objs" "relocatable objs ob"
  shows "relocate_monitor objs ns ob =
    Some (ob\<lparr>gco_monitor := (if gco_monitor ob = 0 then 0 else relocate_ref objs ns (gco_monitor ob + 1))\<rparr>)"
  using assms binary_search_spec [OF assms(1), of "gco_monitor ob + 1"]
  by (auto simp: relocate_monitor_def relocatable_def relocate_ref_def relocate_object_def split: option.splits)

lemma relocate_referent_spec:
  assumes "discovered_slot < length (gco_refs ob)"
  shows "\<exists>pd'. relocate_referent objs ns obj pd (ob\<lparr>gco_refs := take 1 (gco_refs ob) @ map (relocate_ref objs ns) (drop 1 (gco_refs ob))\<rparr>) =
      Some (ob\<lparr>gco_refs := (let rest = map (relocate_ref objs ns) (tl (gco_refs ob)) in
         if snd (relocate_object objs ns (hd (gco_refs ob))) then relocate_ref objs ns (hd (gco_refs ob)) # rest
         else 0 # (if rest ! 2 = 0 then rest[2 := pd] else rest))\<rparr>, pd') \<and> pd' \<in> {pd, obj}"
proof -
  obtain r rs where rs: "gco_refs ob = r # rs" "2 < length rs" using assms by (cases "gco_refs ob") auto
  obtain r' found where f: "relocate_object objs ns r = (r', found)" by (cases "relocate_object objs ns r")
  have nth: "(x # xs) ! 3 = xs ! 2" "(x # xs)[3 := y] = x # xs[2 := y]" for x y :: nat and xs
    by (simp_all add: eval_nat_numeral)
  show ?thesis
    by (cases found; cases "relocate_ref objs ns (rs ! 2) = 0") (use rs f in \<open>simp_all add: relocate_referent_def relocate_ref_def nth\<close>)
qed

lemma relocate_fields_spec:
  assumes "sorted objs" "relocatable objs ob"
  shows "\<exists>pd'. Option.bind (relocate_monitor objs ns ob) (relocate_fields objs ns obj pd) = Some (relocated objs ns pd ob, pd')
    \<and> pd' \<in> {pd, obj}"
proof -
  define m where "m = (if gco_monitor ob = 0 then 0 else relocate_ref objs ns (gco_monitor ob + 1))"
  let ?ob = "ob\<lparr>gco_monitor := m\<rparr>"
  have mon: "relocate_monitor objs ns ob = Some ?ob" unfolding m_def by (rule relocate_monitor_spec [OF assms])
  show ?thesis
  proof (cases "weak_class (gco_class ob)")
    case True
    then have "discovered_slot < length (gco_refs ?ob)" using assms(2) by (simp add: relocatable_def weak_class_def)
    from relocate_referent_spec [OF this, of objs ns obj pd] True show ?thesis
      unfolding mon by (simp add: relocate_fields_def weak_class_def relocated_def relocated_refs_def m_def [symmetric] Let_def
        del: One_nat_def split del: if_split cong: if_cong)
  next
    case False
    then show ?thesis unfolding mon relocated_def m_def [symmetric]
      by (cases "gcc_kind (gco_class ob)") (auto simp: relocate_fields_def weak_class_def relocated_refs_def traces_refs_def)
  qed
qed

text \<open>The loop over the entries rewrites every object once, at its new address, and nothing else.\<close>

lemma relocate_instances_spec:
  "sorted objs \<Longrightarrow> distinct (map snd zs) \<Longrightarrow>
    (\<forall>p x. (p, x) \<in> set zs \<and> even p \<longrightarrow> x \<in> Q \<and> (\<exists>ob. object_at h x = Some ob \<and> relocatable objs ob)) \<Longrightarrow> pd \<in> Q \<Longrightarrow>
    \<exists>h' pd'. fold_option (relocate_instance objs ns) zs (h, pd) = Some (h', pd') \<and> gh_reachable h' = gh_reachable h \<and>
      (\<forall>x. (\<forall>p. (p, x) \<in> set zs \<longrightarrow> odd p) \<longrightarrow> gh_cells h' x = gh_cells h x) \<and>
      (\<forall>p x. (p, x) \<in> set zs \<and> even p \<longrightarrow>
         (\<exists>pd1 \<in> Q. object_at h' x = Some (relocated objs ns pd1 (the (object_at h x))))) \<and> pd' \<in> Q"
proof (induction zs arbitrary: h pd)
  case (Cons z zs)
  obtain p x where z: "z = (p, x)" by (cases z)
  show ?case
  proof (cases "even p")
    case False
    then have step: "fold_option (relocate_instance objs ns) (z # zs) (h, pd) = fold_option (relocate_instance objs ns) zs (h, pd)"
      using z by (simp add: relocate_instance_def)
    have mem: "(q, y) \<in> set (z # zs) \<and> even q \<longleftrightarrow> (q, y) \<in> set zs \<and> even q"
      "((q, y) \<in> set (z # zs) \<longrightarrow> odd q) \<longleftrightarrow> ((q, y) \<in> set zs \<longrightarrow> odd q)" for q y using False z by auto
    have "distinct (map snd zs)" using Cons.prems(2) by simp
    from Cons.IH [OF Cons.prems(1) this Cons.prems(3) [unfolded mem] Cons.prems(4)] show ?thesis unfolding mem step .
  next
    case True
    obtain ob where ob: "object_at h x = Some ob" "relocatable objs ob" "x \<in> Q" using Cons.prems(3) True z by auto
    from relocate_fields_spec [OF Cons.prems(1) ob(2), of ns x pd] obtain pd1 where
      r: "Option.bind (relocate_monitor objs ns ob) (relocate_fields objs ns x pd) = Some (relocated objs ns pd ob, pd1)" "pd1 \<in> {pd, x}" by auto
    define h1 where "h1 = h\<lparr>gh_cells := (gh_cells h)(x \<mapsto> Object_Cell (relocated objs ns pd ob))\<rparr>"
    have step: "relocate_instance objs ns z (h, pd) = Some (h1, pd1)"
      using r(1) True ob(1) z by (auto simp: relocate_instance_def h1_def bind_eq_Some_conv)
    have same: "y \<noteq> x \<Longrightarrow> gh_cells h1 y = gh_cells h y" "y \<noteq> x \<Longrightarrow> object_at h1 y = object_at h y" for y
      by (simp_all add: h1_def object_at_def)
    have x: "object_at h1 x = Some (relocated objs ns pd ob)" "gh_reachable h1 = gh_reachable h" by (simp_all add: h1_def object_at_def)
    have fresh: "(q, y) \<in> set zs \<Longrightarrow> y \<noteq> x" for q y using Cons.prems(2) z by force
    have pd1: "pd1 \<in> Q" using r(2) ob(3) Cons.prems(4) by auto
    have "\<forall>q y. (q, y) \<in> set zs \<and> even q \<longrightarrow> y \<in> Q \<and> (\<exists>ob. object_at h1 y = Some ob \<and> relocatable objs ob)"
      using Cons.prems(3) same(2) [OF fresh] by (metis list.set_intros(2))
    from Cons.IH [OF Cons.prems(1) _ this pd1] Cons.prems(2) obtain h' pd' where
      ih: "fold_option (relocate_instance objs ns) zs (h1, pd1) = Some (h', pd')" "gh_reachable h' = gh_reachable h1"
        "\<forall>y. (\<forall>q. (q, y) \<in> set zs \<longrightarrow> odd q) \<longrightarrow> gh_cells h' y = gh_cells h1 y"
        "\<forall>q y. (q, y) \<in> set zs \<and> even q \<longrightarrow> (\<exists>pd2 \<in> Q. object_at h' y = Some (relocated objs ns pd2 (the (object_at h1 y))))"
        "pd' \<in> Q" by force
    have hx: "object_at h' x = Some (relocated objs ns pd ob)"
      using ih(3) [rule_format, of x] fresh x(1) unfolding object_at_def by (metis (no_types, lifting))
    have out: "gh_cells h' y = gh_cells h y" if "\<forall>q. (q, y) \<in> set (z # zs) \<longrightarrow> odd q" for y
    proof -
      have "y \<noteq> x" using that True z by auto
      with same(1) ih(3) that show ?thesis by simp
    qed
    have objs: "\<exists>pd2 \<in> Q. object_at h' y = Some (relocated objs ns pd2 (the (object_at h y)))"
      if qy: "(q, y) \<in> set (z # zs)" "even q" for q y
    proof (cases "(q, y) = z")
      case True then show ?thesis using hx ob(1) z Cons.prems(4) by auto
    next
      case False
      with qy have "(q, y) \<in> set zs" by simp
      with ih(4) qy(2) same(2) [OF fresh] show ?thesis by metis
    qed
    have "fold_option (relocate_instance objs ns) (z # zs) (h, pd) = Some (h', pd')" using step ih(1) by simp
    moreover have "gh_reachable h' = gh_reachable h" using ih(2) x(2) by simp
    ultimately show ?thesis using ih(5) out objs by (intro exI [of _ h'] exI [of _ pd'] conjI) blast+
  qed
qed simp
section \<open>The heap after the collection\<close>

definition rewritten :: "nat list \<Rightarrow> nat list \<Rightarrow> nat set \<Rightarrow> gc_heap \<Rightarrow> gc_heap \<Rightarrow> bool" where
  "rewritten objs ns Q h1 h' \<longleftrightarrow> gh_reachable h' = gh_reachable h1 \<and>
     (\<forall>x. (\<forall>p. (p, x) \<in> set (zip objs ns) \<longrightarrow> odd p) \<longrightarrow> gh_cells h' x = gh_cells h1 x) \<and>
     (\<forall>p x. (p, x) \<in> set (zip objs ns) \<and> even p \<longrightarrow>
        (\<exists>pd \<in> Q. object_at h' x = Some (relocated objs ns pd (the (object_at h1 x)))))"

text \<open>The values a pending list may start with: null, a pointer out of the heap, or the new address of a reachable object.\<close>

definition pending_values :: "gc_space \<Rightarrow> gc_heap \<Rightarrow> nat list \<Rightarrow> nat list \<Rightarrow> nat list \<Rightarrow> nat set" where
  "pending_values vm h roots objs ns = {v. v \<noteq> 0 \<and> in_heap vm v \<longrightarrow> (\<exists>a. gc_reachable vm h roots a \<and> v = relocate_ref objs ns a)}"

lemma entry_index:
  assumes C: "compacted vm used h roots objs ns h1 wp" and p: "is_entry vm h roots p"
  obtains k where "k < length objs" "objs ! k = p" "relocate_ref objs ns p = ns ! k" "snd (relocate_object objs ns p)"
    "gh_cells h1 (ns ! k) = gh_cells h (entry_addr p)"
proof -
  have p': "p \<in> set objs" "p \<noteq> 0" using C p entry_in_heap [of vm used h roots p] by (auto simp: compacted_def)
  then obtain k where k: "k < length objs" "objs ! k = p" by (auto simp: in_set_conv_nth)
  have "sorted_wrt (<) objs" "length ns = length objs" using C by (simp_all add: compacted_def)
  from relocate_object_spec(1) [OF this k(1)] k p'(2) have "relocate_object objs ns p = (ns ! k, True)" by simp
  with k C that show ?thesis by (auto simp: compacted_def relocate_ref_def)
qed

lemma reachable_index:
  assumes C: "compacted vm used h roots objs ns h1 wp" and a: "gc_reachable vm h roots a"
  obtains k where "k < length objs" "objs ! k = a" "even a" "relocate_ref objs ns a = ns ! k" "object_at h1 (ns ! k) = object_at h a"
proof -
  have e: "is_entry vm h roots a" "even a"
    using a C live_even [OF _ reachable_live [OF a]] by (auto simp: is_entry_def compacted_def)
  from entry_index [OF C e(1)] obtain k where k: "k < length objs" "objs ! k = a" "relocate_ref objs ns a = ns ! k"
    "gh_cells h1 (ns ! k) = gh_cells h (entry_addr a)" by blast
  with e(2) that show ?thesis by (simp add: object_at_def entry_addr_even)
qed

lemma relocate_ref_outside:
  assumes C: "compacted vm used h roots objs ns h1 wp" and v: "v = 0 \<or> \<not> in_heap vm v"
  shows "relocate_ref objs ns v = v"
proof (cases "v = 0")
  case False
  with v C have "v \<notin> set objs" using entry_in_heap [of vm used h roots v] by (auto simp: compacted_def)
  with relocate_object_spec(2) [of objs ns v] C False show ?thesis by (simp add: compacted_def relocate_ref_def)
qed (simp add: relocate_ref_def)

lemma new_address:
  assumes C: "compacted vm used h roots objs ns h1 wp" and k: "k < length objs"
  shows "in_heap vm (ns ! k) \<and> ns ! k \<noteq> 0 \<and> 8 dvd ns ! k"
proof -
  have e: "is_entry vm h roots (objs ! k)" and ok: "heap_ok vm used h roots" using C k by (auto simp: compacted_def)
  have "0 < entry_extent h (objs ! k)" using entry_entry_ok [OF ok e] by (simp add: entry_ok_def)
  moreover have "gs_heap vm \<le> ns ! k" "ns ! k + entry_extent h (objs ! k) \<le> wp" "wp \<le> gs_heap vm + used" "8 dvd ns ! k"
    using C k by (auto simp: compacted_def)
  ultimately show ?thesis using ok by (auto simp: in_heap_def heap_ok_def layout_ok_def)
qed

lemma ns_less:
  assumes C: "compacted vm used h roots objs ns h1 wp" and ij: "i < j" "j < length objs"
  shows "ns ! i < ns ! j"
proof -
  have "is_entry vm h roots (objs ! i)" "heap_ok vm used h roots" using C ij by (auto simp: compacted_def)
  then have "0 < entry_extent h (objs ! i)" using entry_entry_ok [of vm used h roots] by (simp add: entry_ok_def)
  moreover have "ns ! i + entry_extent h (objs ! i) \<le> ns ! j" using C ij by (auto simp: compacted_def)
  ultimately show ?thesis by simp
qed

lemma ns_eq_iff:
  assumes C: "compacted vm used h roots objs ns h1 wp" and "i < length objs" "j < length objs"
  shows "ns ! i = ns ! j \<longleftrightarrow> i = j"
  using ns_less [OF C, of i j] ns_less [OF C, of j i] assms(2,3) by (metis less_irrefl linorder_neqE_nat)

lemma relocate_ref_inj:
  assumes C: "compacted vm used h roots objs ns h1 wp"
  shows "inj_on (relocate_ref objs ns) {p. is_entry vm h roots p}"
proof (rule inj_onI; clarify)
  fix p q assume pq: "is_entry vm h roots p" "is_entry vm h roots q" "relocate_ref objs ns p = relocate_ref objs ns q"
  from entry_index [OF C pq(1)] obtain i where i: "i < length objs" "objs ! i = p" "relocate_ref objs ns p = ns ! i" by blast
  from entry_index [OF C pq(2)] obtain j where j: "j < length objs" "objs ! j = q" "relocate_ref objs ns q = ns ! j" by blast
  show "p = q" using i j pq(3) ns_eq_iff [OF C i(1) j(1)] by auto
qed

text \<open>The object at the new address of a reachable object is its relocated copy; a monitor is unchanged.\<close>

lemma rewritten_object:
  assumes C: "compacted vm used h roots objs ns h1 wp" and R: "rewritten objs ns Q h1 h'"
    and a: "gc_reachable vm h roots a" "object_at h a = Some ob"
  obtains pd where "pd \<in> Q" "object_at h' (relocate_ref objs ns a) = Some (relocated objs ns pd ob)"
proof -
  from reachable_index [OF C a(1)] obtain k where k: "k < length objs" "objs ! k = a" "even a" "relocate_ref objs ns a = ns ! k"
    "object_at h1 (ns ! k) = object_at h a" by blast
  then have "(a, ns ! k) \<in> set (zip objs ns)" using C by (auto simp: compacted_def set_zip)
  with R k a(2) have "\<exists>pd \<in> Q. object_at h' (ns ! k) = Some (relocated objs ns pd ob)"
    unfolding rewritten_def by (metis option.sel)
  with k that show ?thesis by auto
qed

lemma rewritten_monitor:
  assumes C: "compacted vm used h roots objs ns h1 wp" and R: "rewritten objs ns Q h1 h'"
    and k: "k < length objs" "odd (objs ! k)"
  shows "gh_cells h' (ns ! k) = gh_cells h (entry_addr (objs ! k))"
proof -
  have "odd p" if "(p, ns ! k) \<in> set (zip objs ns)" for p
  proof -
    from that obtain i where "i < length objs" "p = objs ! i" "ns ! i = ns ! k" by (auto simp: set_zip)
    with k(2) ns_eq_iff [OF C _ k(1), of i] show ?thesis by simp
  qed
  then show ?thesis using R C k by (simp add: rewritten_def compacted_def)
qed

lemma relocated_simps [simp]:
  "gco_class (relocated objs ns pd ob) = gco_class ob" "gco_length (relocated objs ns pd ob) = gco_length ob"
  "gco_refs (relocated objs ns pd ob) = relocated_refs objs ns pd ob"
  "size_of_object (relocated objs ns pd ob) = size_of_object ob"
  by (simp_all add: relocated_def size_of_object_def)

lemma relocated_monitor:
  "gco_monitor (relocated objs ns pd ob) = (if gco_monitor ob = 0 then 0 else relocate_ref objs ns (gco_monitor ob + 1))"
  by (simp add: relocated_def)

lemma traced_relocated:
  "b \<in> set (traced_refs (relocated objs ns pd ob)) \<Longrightarrow> b = pd \<or> (\<exists>c \<in> set (traced_refs ob). b = relocate_ref objs ns c)"
  by (cases "gcc_kind (gco_class ob)")
    (auto simp: traced_refs_def relocated_refs_def weak_class_def traces_refs_def Let_def drop_Suc
      dest!: set_update_subset_insert [THEN subsetD] split: if_splits)

lemma length_relocated_refs:
  "discovered_slot < length (gco_refs ob) \<or> \<not> weak_class (gco_class ob) \<Longrightarrow> length (relocated_refs objs ns pd ob) = length (gco_refs ob)"
  by (auto simp: relocated_refs_def Let_def)

lemma relocate_ref_even:
  assumes C: "compacted vm used h roots objs ns h1 wp" and v: "even v"
  shows "even (relocate_ref objs ns v)"
proof (cases "v \<in> set objs")
  case True
  then have "is_entry vm h roots v" using C by (simp add: compacted_def)
  from entry_index [OF C this] obtain k where "k < length objs" "relocate_ref objs ns v = ns ! k" by blast
  with new_address [OF C, of k] show ?thesis by (auto elim: dvd_trans [rotated])
next
  case False
  then show ?thesis using C v relocate_object_spec(2) [of objs ns v] by (cases "v = 0") (auto simp: compacted_def relocate_ref_def)
qed

lemma even_hd_relocated:
  assumes C: "compacted vm used h roots objs ns h1 wp" and ob: "gco_refs ob \<noteq> []" "even (hd (gco_refs ob))"
  shows "even (hd (relocated_refs objs ns pd ob))"
  using ob relocate_ref_even [OF C ob(2)] by (auto simp: relocated_refs_def Let_def hd_map)

text \<open>Everything that is reachable after the collection is the new address of an object that was reachable before.\<close>

lemma new_reachable:
  assumes C: "compacted vm used h roots objs ns h1 wp" and R: "rewritten objs ns (pending_values vm h roots objs ns) h1 h'"
    and roots': "\<forall>v \<in> set roots'. v \<in> pending_values vm h roots objs ns"
  shows "gc_reachable vm h' roots' x \<Longrightarrow> \<exists>a. gc_reachable vm h roots a \<and> x = relocate_ref objs ns a"
proof (induction rule: gc_reachable.induct)
  case (root x)
  then have "x \<noteq> 0" using C by (auto simp: in_heap_def compacted_def heap_ok_def layout_ok_def)
  with root roots' show ?case by (auto simp: pending_values_def)
next
  case (field x ob' b)
  then obtain a where a: "gc_reachable vm h roots a" "x = relocate_ref objs ns a" by blast
  obtain ob where ob: "object_at h a = Some ob" using objects_okD [OF _ a(1)] C by (metis compacted_def heap_ok_def)
  from rewritten_object [OF C R a(1) ob] field(2) a(2) obtain pd where
    pd: "pd \<in> pending_values vm h roots objs ns" "ob' = relocated objs ns pd ob" by auto
  from traced_relocated field(3) pd(2) consider "b = pd" | c where "c \<in> set (traced_refs ob)" "b = relocate_ref objs ns c" by blast
  then show ?case
  proof cases
    case 1
    with pd field(4,5) show ?thesis by (auto simp: pending_values_def)
  next
    case 2
    with field(4,5) relocate_ref_outside [OF C, of c] have "c \<noteq> 0" "in_heap vm c" by metis+
    with 2 gc_reachable.field [OF a(1) ob] show ?thesis by blast
  qed
qed

lemma new_live:
  assumes C: "compacted vm used h roots objs ns h1 wp" and R: "rewritten objs ns (pending_values vm h roots objs ns) h1 h'"
    and roots': "\<forall>v \<in> set roots'. v \<in> pending_values vm h roots objs ns" and x: "live vm h' roots' x"
  shows "\<exists>k c. k < length objs \<and> x = ns ! k \<and> gh_cells h' x = Some c \<and> cell_extent c = entry_extent h (objs ! k)"
proof -
  have ok: "heap_ok vm used h roots" using C by (simp add: compacted_def)
  have obj: "\<exists>k c. k < length objs \<and> relocate_ref objs ns a = ns ! k \<and> gh_cells h' (ns ! k) = Some c \<and> cell_extent c = entry_extent h (objs ! k)"
    if a: "gc_reachable vm h roots a" "object_at h a = Some ob" for a ob
  proof -
    from reachable_index [OF C a(1)] obtain k where k: "k < length objs" "objs ! k = a" "even a" "relocate_ref objs ns a = ns ! k" by blast
    from rewritten_object [OF C R a] obtain pd where "object_at h' (ns ! k) = Some (relocated objs ns pd ob)" using k(4) by metis
    with k a(2) show ?thesis
      by (intro exI [of _ k] exI [of _ "Object_Cell (relocated objs ns pd ob)"])
        (simp add: object_at_cells entry_extent_def entry_addr_even cell_extent_def cell_size_def)
  qed
  have get: "\<exists>ob. object_at h a = Some ob" if "gc_reachable vm h roots a" for a
    using objects_okD [OF _ that] ok by (metis heap_ok_def)
  consider "gc_reachable vm h' roots' x" | y ob' where "gc_reachable vm h' roots' y" "object_at h' y = Some ob'" "gco_monitor ob' = x" "x \<noteq> 0"
    using x by (auto simp: live_def)
  then show ?thesis
  proof cases
    case 1
    with new_reachable [OF C R roots'] obtain a where "gc_reachable vm h roots a" "x = relocate_ref objs ns a" by blast
    with obj get show ?thesis by metis
  next
    case 2
    with new_reachable [OF C R roots'] obtain a where a: "gc_reachable vm h roots a" "y = relocate_ref objs ns a" by blast
    with get obtain ob where ob: "object_at h a = Some ob" by blast
    from rewritten_object [OF C R a(1) ob] 2 a obtain pd where "ob' = relocated objs ns pd ob" by auto
    with 2 have m: "gco_monitor ob \<noteq> 0" "x = relocate_ref objs ns (gco_monitor ob + 1)" by (auto simp: relocated_monitor split: if_splits)
    then have e: "is_entry vm h roots (gco_monitor ob + 1)" using a ob by (auto simp: is_entry_def)
    from entry_index [OF C e] obtain k where k: "k < length objs" "objs ! k = gco_monitor ob + 1"
      "relocate_ref objs ns (gco_monitor ob + 1) = ns ! k" by blast
    have "even (gco_monitor ob)" by (rule live_even [OF ok monitor_live [OF a(1) ob m(1)]])
    then have "gh_cells h' (ns ! k) = gh_cells h (entry_addr (objs ! k))" using rewritten_monitor [OF C R k(1)] k(2) by simp
    moreover have "gh_cells h (entry_addr (objs ! k)) \<noteq> None"
      using live_cell [OF ok entry_live [OF ok e]] k(2) by (metis option.distinct(1))
    ultimately show ?thesis using k m by (auto simp: entry_extent_def)
  qed
qed

lemma index_mono:
  assumes C: "compacted vm used h roots objs ns h1 wp" and "i < length objs" "j < length objs" "objs ! i < objs ! j"
  shows "i < j"
proof (rule ccontr)
  assume "\<not> i < j"
  then have "objs ! j \<le> objs ! i" using C assms(2,3) by (intro sorted_nth_mono) (auto simp: compacted_def strict_sorted_iff)
  with assms(4) show False by simp
qed

lemma new_monitor:
  assumes C: "compacted vm used h roots objs ns h1 wp" and R: "rewritten objs ns Q h1 h'"
    and a: "gc_reachable vm h roots a" "object_at h a = Some ob" "gco_monitor ob \<noteq> 0"
  shows "monitor_at h' (relocate_ref objs ns (gco_monitor ob + 1))" "relocate_ref objs ns a < relocate_ref objs ns (gco_monitor ob + 1)"
    "gh_cells h' (relocate_ref objs ns (gco_monitor ob + 1)) = gh_cells h (gco_monitor ob)" "is_entry vm h roots (gco_monitor ob + 1)"
proof -
  have ok: "heap_ok vm used h roots" using C by (simp add: compacted_def)
  have m: "monitor_at h (gco_monitor ob)" "a < gco_monitor ob" using objects_okD [OF _ a(1)] ok a by (metis heap_ok_def option.inject)+
  have ev: "even (gco_monitor ob)" by (rule live_even [OF ok monitor_live [OF a]])
  show e: "is_entry vm h roots (gco_monitor ob + 1)" using a by (auto simp: is_entry_def)
  from entry_index [OF C e] obtain k where k: "k < length objs" "objs ! k = gco_monitor ob + 1"
    "relocate_ref objs ns (gco_monitor ob + 1) = ns ! k" by blast
  from reachable_index [OF C a(1)] obtain i where i: "i < length objs" "objs ! i = a" "relocate_ref objs ns a = ns ! i" by blast
  show cells: "gh_cells h' (relocate_ref objs ns (gco_monitor ob + 1)) = gh_cells h (gco_monitor ob)"
    using rewritten_monitor [OF C R k(1)] k ev entry_addr_Suc [OF ev] by simp
  with m(1) show "monitor_at h' (relocate_ref objs ns (gco_monitor ob + 1))" by (simp add: monitor_at_def)
  have "i < k" using index_mono [OF C i(1) k(1)] i(2) k(2) m(2) by simp
  then show "relocate_ref objs ns a < relocate_ref objs ns (gco_monitor ob + 1)" using ns_less [OF C _ k(1)] i(3) k(3) by simp
qed

lemma new_objects_ok:
  assumes C: "compacted vm used h roots objs ns h1 wp" and R: "rewritten objs ns (pending_values vm h roots objs ns) h1 h'"
    and roots': "\<forall>v \<in> set roots'. v \<in> pending_values vm h roots objs ns"
  shows "objects_ok vm h' roots'"
proof -
  have ok: "objects_ok vm h roots" using C by (simp add: compacted_def heap_ok_def)
  have old: "\<exists>a ob pd. gc_reachable vm h roots a \<and> x = relocate_ref objs ns a \<and> object_at h a = Some ob \<and>
      object_at h' x = Some (relocated objs ns pd ob)" if "gc_reachable vm h' roots' x" for x
    using new_reachable [OF C R roots' that] objects_okD [OF ok] rewritten_object [OF C R] by metis
  have "\<exists>ob. object_at h' x = Some ob \<and> size_of_object ob \<noteq> None \<and>
      (gcc_is_reference (gco_class ob) \<longrightarrow> discovered_slot < length (gco_refs ob) \<and> even (hd (gco_refs ob))) \<and>
      (gco_monitor ob \<noteq> 0 \<longrightarrow> monitor_at h' (gco_monitor ob) \<and> x < gco_monitor ob)" if "gc_reachable vm h' roots' x" for x
  proof -
    from old [OF that] obtain a ob pd where a: "gc_reachable vm h roots a" "x = relocate_ref objs ns a" "object_at h a = Some ob"
      "object_at h' x = Some (relocated objs ns pd ob)" by blast
    from objects_okD [OF ok a(1)] a(3) have o: "size_of_object ob \<noteq> None"
      "gcc_is_reference (gco_class ob) \<Longrightarrow> discovered_slot < length (gco_refs ob) \<and> even (hd (gco_refs ob))" by (metis option.inject)+
    have "discovered_slot < length (relocated_refs objs ns pd ob) \<and> even (hd (relocated_refs objs ns pd ob))" if "gcc_is_reference (gco_class ob)"
      using o(2) [OF that] even_hd_relocated [OF C, of ob pd] by (fastforce simp: length_relocated_refs)
    moreover have "monitor_at h' (relocate_ref objs ns (gco_monitor ob + 1)) \<and> x < relocate_ref objs ns (gco_monitor ob + 1)" if "gco_monitor ob \<noteq> 0"
      using new_monitor(1,2) [OF C R a(1,3) that] a(2) by simp
    ultimately show ?thesis using a(4) o(1) by (intro exI [of _ "relocated objs ns pd ob"]) (simp add: relocated_monitor)
  qed
  moreover have "x = y" if xy: "gc_reachable vm h' roots' x" "gc_reachable vm h' roots' y" "object_at h' x = Some ox" "object_at h' y = Some oy"
    "gco_monitor ox = gco_monitor oy" "gco_monitor ox \<noteq> 0" for x y ox oy
  proof -
    from old [OF xy(1)] obtain a ob pd where a: "gc_reachable vm h roots a" "x = relocate_ref objs ns a" "object_at h a = Some ob"
      "object_at h' x = Some (relocated objs ns pd ob)" by blast
    from old [OF xy(2)] obtain b ob' pd' where b: "gc_reachable vm h roots b" "y = relocate_ref objs ns b" "object_at h b = Some ob'"
      "object_at h' y = Some (relocated objs ns pd' ob')" by blast
    have m: "gco_monitor ob \<noteq> 0" "gco_monitor ob' \<noteq> 0"
      "relocate_ref objs ns (gco_monitor ob + 1) = relocate_ref objs ns (gco_monitor ob' + 1)"
      using a(4) b(4) xy(3-6) by (auto simp: relocated_monitor split: if_splits)
    have "gco_monitor ob + 1 = gco_monitor ob' + 1"
      using inj_onD [OF relocate_ref_inj [OF C] m(3)] new_monitor(4) [OF C R a(1,3) m(1)] new_monitor(4) [OF C R b(1,3) m(2)] by simp
    then have "a = b" using objects_ok_inj [OF ok a(1) b(1) a(3) b(3)] m by simp
    with a b show ?thesis by simp
  qed
  ultimately show ?thesis unfolding objects_ok_def by blast
qed

lemma new_heap_ok:
  assumes C: "compacted vm used h roots objs ns h1 wp" and R: "rewritten objs ns (pending_values vm h roots objs ns) h1 h'"
    and roots': "\<forall>v \<in> set roots'. v \<in> pending_values vm h roots objs ns"
  shows "heap_ok vm (align8 (wp - gs_heap vm)) h' roots'"
proof -
  note lv = new_live [OF C R roots']
  have base: "8 dvd gs_heap vm" "0 < gs_heap vm" "used \<le> gs_capacity vm" "8 dvd wp" "gs_heap vm \<le> wp" "wp \<le> gs_heap vm + used"
    using C by (auto simp: compacted_def heap_ok_def layout_ok_def)
  have used: "align8 (wp - gs_heap vm) = wp - gs_heap vm" using base by (intro align8_aligned) (simp add: dvd_diff_nat)
  have "8 dvd x \<and> gs_heap vm \<le> x \<and> 0 < cell_extent c \<and> x + cell_extent c \<le> gs_heap vm + (wp - gs_heap vm) \<and>
      (\<forall>y. live vm h' roots' y \<and> x < y \<longrightarrow> x + cell_extent c \<le> y)" if x: "live vm h' roots' x" "gh_cells h' x = Some c" for x c
  proof -
    from lv [OF x(1)] x(2) obtain k where k: "k < length objs" "x = ns ! k" "cell_extent c = entry_extent h (objs ! k)" by auto
    have "entry_ok h (objs ! k)" using C k(1) by (intro entry_entry_ok) (auto simp: compacted_def)
    then have "0 < cell_extent c" using k(3) by (simp add: entry_ok_def)
    moreover have "x + cell_extent c \<le> y" if y: "live vm h' roots' y" "x < y" for y
    proof -
      from lv [OF y(1)] obtain j where j: "j < length objs" "y = ns ! j" by blast
      have "k < j" using y(2) k(2) j ns_less [OF C _ k(1), of j] ns_eq_iff [OF C k(1) j(1)] by (metis less_asym linorder_neqE_nat)
      with C j k show ?thesis by (auto simp: compacted_def)
    qed
    ultimately show ?thesis using C k base by (auto simp: compacted_def)
  qed
  then have "layout_ok vm (wp - gs_heap vm) h' roots'" using base unfolding layout_ok_def by (auto simp: dvd_diff_nat)
  moreover have "x \<notin> gh_reachable h'" if "live vm h' roots' x" for x
    using lv [OF that] C R by (auto simp: compacted_def rewritten_def)
  ultimately show ?thesis using new_objects_ok [OF assms] by (simp add: heap_ok_def used)
qed

end
