(* ===== verification/Gc_Collect.thy ===== *)
theory Gc_Collect
  imports Gc_Relocate
begin

text \<open>
  The whole collection: a heap whose reachable part is well formed is compacted to a heap whose reachable part is
  well formed and isomorphic to it, except for the weak references that are cleared, and allocation hands out
  memory that no reachable cell occupies.
\<close>

section \<open>Collection and allocation\<close>

definition vm_ok :: "gc_vm \<Rightarrow> bool" where
  "vm_ok vm \<longleftrightarrow> heap_ok (gv_space vm) (gv_used vm) (gv_memory vm) (gc_roots vm)"

abbreviation vm_reachable :: "gc_vm \<Rightarrow> nat \<Rightarrow> bool" where
  "vm_reachable vm \<equiv> gc_reachable (gv_space vm) (gv_memory vm) (gc_roots vm)"

text \<open>A pointer into the heap follows its object, all others stay.\<close>

definition follow :: "gc_space \<Rightarrow> (nat \<Rightarrow> nat) \<Rightarrow> nat \<Rightarrow> nat" where
  "follow s f v = (if push_root s v then f v else v)"

text \<open>\<open>f a\<close> holds the object that was at \<open>a\<close>: of the same class and length, with the same monitor, and with references
  that follow their objects. The referent of a weak reference is cleared unless it is reachable, and in that case
  the field \<^verbatim>\<open>discovered\<close> may link the reference into the pending list.\<close>

definition same_object :: "gc_vm \<Rightarrow> (nat \<Rightarrow> nat) \<Rightarrow> gc_vm \<Rightarrow> nat \<Rightarrow> bool" where
  "same_object vm f vm' a \<longleftrightarrow> (\<exists>ob ob'. object_at (gv_memory vm) a = Some ob \<and> object_at (gv_memory vm') (f a) = Some ob' \<and>
     gco_class ob' = gco_class ob \<and> gco_length ob' = gco_length ob \<and>
     (if gco_monitor ob = 0 then gco_monitor ob' = 0
      else gco_monitor ob' \<noteq> 0 \<and> gh_cells (gv_memory vm') (gco_monitor ob') = gh_cells (gv_memory vm) (gco_monitor ob)) \<and>
     length (gco_refs ob') = length (gco_refs ob) \<and>
     (if weak_class (gco_class ob) then
        gco_refs ob' ! 0 = (if vm_reachable vm (gco_refs ob ! 0) then f (gco_refs ob ! 0) else 0) \<and>
        (\<forall>i < length (gco_refs ob). 0 < i \<and> (i \<noteq> discovered_slot \<or> gco_refs ob ! i \<noteq> 0 \<or> gco_refs ob ! 0 = 0 \<or> vm_reachable vm (gco_refs ob ! 0))
           \<longrightarrow> gco_refs ob' ! i = follow (gv_space vm) f (gco_refs ob ! i))
      else gco_refs ob' = (if traces_refs (gco_class ob) then map (follow (gv_space vm) f) (gco_refs ob) else gco_refs ob)))"

lemma relocate_ref_follow:
  assumes C: "compacted s used h roots objs ns h1 wp"
  shows "relocate_ref objs ns v = follow s (relocate_ref objs ns) v"
  using relocate_ref_outside [OF C] by (auto simp: follow_def push_root_def)

lemma relocate_object_found:
  assumes C: "compacted s used h roots objs ns h1 wp" and r: "even r"
  shows "snd (relocate_object objs ns r) \<longleftrightarrow> r = 0 \<or> gc_reachable s h roots r"
proof (cases "r \<in> set objs")
  case True
  then have e: "is_entry s h roots r" using C by (simp add: compacted_def)
  have "heap_ok s used h roots" using C by (simp add: compacted_def)
  then have "gc_reachable s h roots r" using r by (rule_tac entry_cases [OF _ e]) auto
  with entry_index [OF C e] show ?thesis by blast
next
  case False
  then have "\<not> gc_reachable s h roots r" using C by (auto simp: compacted_def is_entry_def)
  with False C relocate_object_spec(2) [of objs ns r] show ?thesis by (cases "r = 0") (auto simp: compacted_def)
qed

lemma relocate_ref_nonzero:
  assumes C: "compacted s used h roots objs ns h1 wp" and v: "v \<noteq> 0"
  shows "relocate_ref objs ns v \<noteq> 0"
proof (cases "v \<in> set objs")
  case True
  then have "is_entry s h roots v" using C by (simp add: compacted_def)
  from entry_index [OF C this] obtain k where "k < length objs" "relocate_ref objs ns v = ns ! k" by blast
  with new_address [OF C] show ?thesis by simp
next
  case False
  with C v relocate_object_spec(2) [of objs ns v] show ?thesis by (simp add: compacted_def relocate_ref_def)
qed

lemma rewritten_same_object:
  assumes C: "compacted (gv_space vm) used (gv_memory vm) (gc_roots vm) objs ns h1 wp" and R: "rewritten objs ns Q h1 (gv_memory vm')"
    and a: "vm_reachable vm a"
  shows "same_object vm (relocate_ref objs ns) vm' a"
proof -
  let ?f = "relocate_ref objs ns"
  have ok: "objects_ok (gv_space vm) (gv_memory vm) (gc_roots vm)" using C by (simp add: compacted_def heap_ok_def)
  from objects_okD [OF ok a] obtain ob where ob: "object_at (gv_memory vm) a = Some ob"
    "gcc_is_reference (gco_class ob) \<Longrightarrow> discovered_slot < length (gco_refs ob) \<and> even (hd (gco_refs ob))" by metis
  from rewritten_object [OF C R a ob(1)] obtain pd where
    ob': "object_at (gv_memory vm') (?f a) = Some (relocated objs ns pd ob)" by blast
  have mon: "if gco_monitor ob = 0 then gco_monitor (relocated objs ns pd ob) = 0
      else gco_monitor (relocated objs ns pd ob) \<noteq> 0 \<and>
        gh_cells (gv_memory vm') (gco_monitor (relocated objs ns pd ob)) = gh_cells (gv_memory vm) (gco_monitor ob)"
    using new_monitor(2,3) [OF C R a ob(1)] by (auto simp: relocated_monitor)
  have len: "length (relocated_refs objs ns pd ob) = length (gco_refs ob)"
    using ob(2) by (intro length_relocated_refs) (auto simp: weak_class_def)
  have refs: "if weak_class (gco_class ob) then
        relocated_refs objs ns pd ob ! 0 = (if vm_reachable vm (gco_refs ob ! 0) then ?f (gco_refs ob ! 0) else 0) \<and>
        (\<forall>i < length (gco_refs ob). 0 < i \<and> (i \<noteq> discovered_slot \<or> gco_refs ob ! i \<noteq> 0 \<or> gco_refs ob ! 0 = 0 \<or> vm_reachable vm (gco_refs ob ! 0))
           \<longrightarrow> relocated_refs objs ns pd ob ! i = ?f (gco_refs ob ! i))
      else relocated_refs objs ns pd ob = (if traces_refs (gco_class ob) then map ?f (gco_refs ob) else gco_refs ob)"
  proof (cases "weak_class (gco_class ob)")
    case False
    then show ?thesis by (simp add: relocated_refs_def)
  next
    case True
    then obtain r rs where rs: "gco_refs ob = r # rs" "2 < length rs" "even r"
      using ob(2) by (cases "gco_refs ob") (auto simp: weak_class_def)
    have found: "snd (relocate_object objs ns r) \<longleftrightarrow> r = 0 \<or> vm_reachable vm r" by (rule relocate_object_found [OF C rs(3)])
    have zero: "?f 0 = 0" by (simp add: relocate_ref_def)
    note nz = relocate_ref_nonzero [OF C, of "rs ! 2"]
    show ?thesis
      using True rs found zero nz by (auto simp: relocated_refs_def Let_def nth_Cons' nth_list_update)
  qed
  show ?thesis unfolding same_object_def
    using ob(1) ob' mon len refs by (intro exI [of _ ob] exI [of _ "relocated objs ns pd ob"])
      (simp add: relocate_ref_follow [OF C, symmetric] fun_eq_iff cong: if_cong)
qed

lemma relocate_instance_fields_spec:
  assumes C: "compacted s used h roots objs ns h1 wp" and pd: "pd \<in> pending_values s h roots objs ns"
  shows "\<exists>h' pd'. relocate_instance_fields objs ns h1 pd = Some (h', pd') \<and>
    rewritten objs ns (pending_values s h roots objs ns) h1 h' \<and> pd' \<in> pending_values s h roots objs ns"
proof -
  have ok: "heap_ok s used h roots" and len: "length ns = length objs" and s: "sorted objs"
    using C by (auto simp: compacted_def strict_sorted_iff)
  have d: "distinct (map snd (zip objs ns))" using len by (simp add: distinct_conv_nth ns_eq_iff [OF C])
  have "x \<in> pending_values s h roots objs ns \<and> (\<exists>ob. object_at h1 x = Some ob \<and> relocatable objs ob)"
    if px: "(p, x) \<in> set (zip objs ns)" "even p" for p x
  proof -
    from px(1) have "is_entry s h roots p" using C by (auto simp: compacted_def dest: set_zip_leftD)
    then have a: "gc_reachable s h roots p" by (rule entry_cases [OF ok]) (use px(2) in auto)
    from reachable_index [OF C a] obtain k where k: "k < length objs" "objs ! k = p" "relocate_ref objs ns p = ns ! k"
      "object_at h1 (ns ! k) = object_at h p" by blast
    from px(1) obtain i where "i < length objs" "objs ! i = p" "ns ! i = x" by (auto simp: set_zip)
    moreover have "distinct objs" using C by (auto simp: compacted_def strict_sorted_iff)
    ultimately have x: "x = ns ! k" using k by (metis nth_eq_iff_index_eq)
    from objects_okD [OF _ a] ok obtain ob where ob: "object_at h p = Some ob"
      "gcc_is_reference (gco_class ob) \<Longrightarrow> discovered_slot < length (gco_refs ob) \<and> even (hd (gco_refs ob))" by (metis heap_ok_def)
    have "relocatable objs ob" using ob a C by (auto simp: relocatable_def compacted_def is_entry_def)
    with x k a ob show ?thesis by (auto simp: pending_values_def)
  qed
  from relocate_instances_spec [OF s d, of "pending_values s h roots objs ns" h1 pd ns] this pd show ?thesis
    unfolding relocate_instance_fields_def rewritten_def by blast
qed

lemma relocate_root_pending_value:
  assumes "v \<in> set (gv_pending vm # gv_roots vm)"
  shows "relocate_root (gv_space vm) objs ns v \<in> pending_values (gv_space vm) (gv_memory vm) (gc_roots vm) objs ns"
proof (cases "push_root (gv_space vm) v")
  case True
  then have "vm_reachable vm v" using assms by (intro gc_reachable.root) (auto simp: gc_roots_def push_root_def)
  with True show ?thesis by (auto simp: relocate_root_def pending_values_def)
qed (auto simp: relocate_root_def pending_values_def push_root_def)

lemma card_reachable: "card {a. gc_reachable s h roots a} \<le> gs_capacity s"
proof -
  have "{a. gc_reachable s h roots a} \<subseteq> {gs_heap s..<gs_heap s + gs_capacity s}"
    by (auto dest: gc_reachable_in_heap simp: in_heap_def)
  from card_mono [OF _ this] show ?thesis by simp
qed

lemma major_gc_spec:
  assumes ok: "vm_ok vm" and fuel: "gs_capacity (gv_space vm) \<le> fuel"
  shows "\<exists>vm' f. major_gc fuel vm = Some vm' \<and> vm_ok vm' \<and> gv_space vm' = gv_space vm \<and> gv_used vm' \<le> gv_used vm \<and>
    inj_on f {a. vm_reachable vm a} \<and> (\<forall>a. vm_reachable vm a \<longrightarrow> same_object vm f vm' a) \<and>
    gv_roots vm' = map (follow (gv_space vm) f) (gv_roots vm)"
proof -
  let ?s = "gv_space vm" and ?h = "gv_memory vm" and ?r = "gc_roots vm"
  have hok: "heap_ok ?s (gv_used vm) ?h ?r" using ok by (simp add: vm_ok_def)
  then have "objects_ok ?s ?h ?r" "\<forall>x. live ?s ?h ?r x \<longrightarrow> x \<notin> gh_reachable ?h" by (simp_all add: heap_ok_def)
  from mark_phase_spec [OF this order_trans [OF card_reachable fuel]] obtain ctx ds where
    mark: "mark_phase ?s fuel ?r ?h = Some ctx" "gh_cells (gx_heap ctx) = gh_cells ?h" "gx_objs ctx = concat (map (entries ?h) ds)"
      "distinct ds" "set ds = {a. vm_reachable vm a}" "gh_reachable (gx_heap ctx) = gh_reachable ?h \<union> mark_word ?h ` set ds" by blast
  from quicksort_pointers_spec [of "gx_objs ctx"] obtain objs where
    sort: "quicksort_pointers (gx_objs ctx) = Some objs" "sorted objs" "mset objs = mset (gx_objs ctx)" by blast
  have "distinct (gx_objs ctx)" using entries_distinct [OF hok mark(4)] mark(3,5) by simp
  then have strict: "sorted_wrt (<) objs" using sort(2) mset_eq_imp_distinct_iff [OF sort(3)] by (simp add: strict_sorted_iff)
  have "\<forall>p. p \<in> set objs \<longleftrightarrow> is_entry ?s ?h ?r p"
    using entries_set [OF \<open>objects_ok ?s ?h ?r\<close> mark(5)] mset_eq_setD [OF sort(3)] mark(3) by simp
  from compact_compacted [OF hok strict this mark(2)] mark(5,6) obtain h1 wp ns where
    comp: "compact ?s objs (gx_heap ctx) = Some (h1, wp, ns)" and C: "compacted ?s (gv_used vm) ?h ?r objs ns h1 wp" by auto
  from relocate_instance_fields_spec [OF C relocate_root_pending_value [of "gv_pending vm"]] obtain h' pd' where
    reloc: "relocate_instance_fields objs ns h1 (relocate_root ?s objs ns (gv_pending vm)) = Some (h', pd')"
      and R: "rewritten objs ns (pending_values ?s ?h ?r objs ns) h1 h'" and pd': "pd' \<in> pending_values ?s ?h ?r objs ns" by auto
  let ?vm = "vm\<lparr>gv_memory := h', gv_roots := map (relocate_root ?s objs ns) (gv_roots vm), gv_pending := pd',
    gv_used := align8 (wp - gs_heap ?s)\<rparr>"
  have run: "major_gc fuel vm = Some ?vm" using mark(1) sort(1) comp reloc by (simp add: major_gc_def Let_def)
  have "\<forall>v \<in> set (gc_roots ?vm). v \<in> pending_values ?s ?h ?r objs ns"
    using pd' relocate_root_pending_value [of _ vm] by (auto simp: gc_roots_def)
  from new_heap_ok [OF C R this] have ok': "vm_ok ?vm" by (simp add: vm_ok_def)
  have "wp - gs_heap ?s \<le> gv_used vm" "8 dvd wp - gs_heap ?s"
    using C by (auto simp: compacted_def heap_ok_def layout_ok_def dvd_diff_nat)
  then have used: "gv_used ?vm \<le> gv_used vm" by (simp add: align8_aligned)
  have same: "\<forall>a. vm_reachable vm a \<longrightarrow> same_object vm (relocate_ref objs ns) ?vm a"
    using rewritten_same_object [OF C, of _ ?vm] R by auto
  have "inj_on (relocate_ref objs ns) {a. vm_reachable vm a}"
    by (rule inj_on_subset [OF relocate_ref_inj [OF C]]) (auto simp: is_entry_def)
  with run ok' used same show ?thesis
    by (intro exI [of _ ?vm] exI [of _ "relocate_ref objs ns"]) (simp add: relocate_root_def follow_def)
qed

text \<open>Zeroing the memory above the allocation pointer touches no live cell.\<close>

lemma gc_reachable_cong:
  assumes "\<And>a. gc_reachable s h roots a \<Longrightarrow> object_at h' a = object_at h a"
  shows "gc_reachable s h' roots a \<longleftrightarrow> gc_reachable s h roots a"
proof
  show "gc_reachable s h' roots a \<Longrightarrow> gc_reachable s h roots a"
    by (induction rule: gc_reachable.induct) (auto intro: gc_reachable.intros simp: assms)
  show "gc_reachable s h roots a \<Longrightarrow> gc_reachable s h' roots a"
  proof (induction rule: gc_reachable.induct)
    case (field a ob b)
    then show ?case using assms [of a] gc_reachable.field [of s h' roots a ob b] by simp
  qed (rule gc_reachable.root)
qed

lemma live_cong:
  assumes "\<forall>x. live s h roots x \<longrightarrow> gh_cells h' x = gh_cells h x"
  shows "live s h' roots x \<longleftrightarrow> live s h roots x" "gc_reachable s h' roots a \<longleftrightarrow> gc_reachable s h roots a"
    "gc_reachable s h roots a \<Longrightarrow> object_at h' a = object_at h a"
proof -
  show same: "object_at h' a = object_at h a" if "gc_reachable s h roots a" for a
    using assms reachable_live [OF that] by (simp add: object_at_def)
  show reach: "gc_reachable s h' roots a \<longleftrightarrow> gc_reachable s h roots a" for a by (rule gc_reachable_cong [OF same])
  show "live s h' roots x \<longleftrightarrow> live s h roots x" unfolding live_def reach using same by (metis (no_types, lifting))
qed

lemma memset_zero_live:
  assumes ok: "heap_ok s used h roots" and x: "live s h roots x"
  shows "gh_cells (memset_zero (gs_heap s + used) n h) x = gh_cells h x"
  by (rule live_cell [OF ok x]) (auto simp: memset_zero_def overlaps_def)

lemma memset_zero_heap_ok:
  assumes ok: "heap_ok s used h roots" and n: "used + n \<le> gs_capacity s" "8 dvd n"
  shows "heap_ok s (used + n) (memset_zero (gs_heap s + used) n h) roots"
proof -
  let ?h = "memset_zero (gs_heap s + used) n h"
  have cells: "\<forall>x. live s h roots x \<longrightarrow> gh_cells ?h x = gh_cells h x" using memset_zero_live [OF ok] by blast
  note cong = live_cong [OF cells]
  have mon: "monitor_at ?h (gco_monitor ob) = monitor_at h (gco_monitor ob)"
    if "gc_reachable s h roots a" "object_at h a = Some ob" "gco_monitor ob \<noteq> 0" for a ob
    using cells monitor_live [OF that] by (simp add: monitor_at_def)
  have old: "objects_ok s h roots" using ok by (simp add: heap_ok_def)
  have "objects_ok s ?h roots" unfolding objects_ok_def cong(2)
  proof (intro conjI allI impI)
    fix a assume a: "gc_reachable s h roots a"
    show "\<exists>ob. object_at ?h a = Some ob \<and> size_of_object ob \<noteq> None \<and>
        (gcc_is_reference (gco_class ob) \<longrightarrow> discovered_slot < length (gco_refs ob) \<and> even (hd (gco_refs ob))) \<and>
        (gco_monitor ob \<noteq> 0 \<longrightarrow> monitor_at ?h (gco_monitor ob) \<and> a < gco_monitor ob)"
      by (rule objects_okD [OF old a]) (use mon [OF a] cong(3) [OF a] in auto)
  next
    fix a b oa ob
    assume ab: "gc_reachable s h roots a \<and> gc_reachable s h roots b \<and> object_at ?h a = Some oa \<and> object_at ?h b = Some ob \<and>
      gco_monitor oa = gco_monitor ob \<and> gco_monitor oa \<noteq> 0"
    then show "a = b" using objects_ok_inj [OF old, of a b oa ob] cong(3) [of a] cong(3) [of b] by simp
  qed
  moreover have "layout_ok s (used + n) ?h roots"
    unfolding layout_ok_def cong(1)
  proof (intro conjI allI impI)
    fix x c assume x: "live s h roots x \<and> gh_cells ?h x = Some c"
    then have c: "gh_cells h x = Some c" using cells by metis
    have lay: "8 dvd x" "gs_heap s \<le> x" "0 < cell_extent c" "x + cell_extent c \<le> gs_heap s + used"
      "\<And>y. live s h roots y \<and> x < y \<Longrightarrow> x + cell_extent c \<le> y"
      using ok x c unfolding heap_ok_def layout_ok_def by blast+
    then show "8 dvd x" "gs_heap s \<le> x" "0 < cell_extent c" "x + cell_extent c \<le> gs_heap s + (used + n)" by simp_all
    show "x + cell_extent c \<le> y" if "live s h roots y \<and> x < y" for y using lay(5) that .
  qed (use ok n in \<open>auto simp: heap_ok_def layout_ok_def\<close>)
  moreover have "x \<notin> gh_reachable ?h" if "live s h roots x" for x
    using ok that by (auto simp: heap_ok_def memset_zero_def)
  ultimately show ?thesis by (simp add: heap_ok_def cong(1))
qed

lemma bump_take_spec:
  assumes ok: "vm_ok vm" and n: "gv_used vm + n \<le> gs_capacity (gv_space vm)" "8 dvd n"
  shows "\<exists>p vm'. bump_take n vm = (Some p, vm') \<and> vm_ok vm' \<and> 8 dvd p \<and> gs_heap (gv_space vm') \<le> p \<and>
    p + n \<le> gs_heap (gv_space vm') + gs_capacity (gv_space vm') \<and>
    (0 < n \<longrightarrow> p \<notin> gh_reachable (gv_memory vm')) \<and>
        (\<forall>x c. live (gv_space vm') (gv_memory vm') (gc_roots vm') x \<and> gh_cells (gv_memory vm') x = Some c \<longrightarrow> x + cell_extent c \<le> p)"
proof -
  let ?p = "gs_heap (gv_space vm) + gv_used vm"
  let ?vm = "vm\<lparr>gv_memory := memset_zero ?p n (gv_memory vm), gv_used := gv_used vm + n\<rparr>"
  have hok: "heap_ok (gv_space vm) (gv_used vm) (gv_memory vm) (gc_roots vm)" using ok by (simp add: vm_ok_def)
  have r: "gc_roots ?vm = gc_roots vm" by (simp add: gc_roots_def)
  have "vm_ok ?vm" using memset_zero_heap_ok [OF hok n] r by (simp add: vm_ok_def)
  moreover have "8 dvd ?p" using hok by (simp add: heap_ok_def layout_ok_def)
  moreover have "x + cell_extent c \<le> ?p" if x: "live (gv_space ?vm) (gv_memory ?vm) (gc_roots ?vm) x" "gh_cells (gv_memory ?vm) x = Some c" for x c
  proof -
    have l: "live (gv_space vm) (gv_memory vm) (gc_roots vm) x" using x(1) live_cong(1) [of "gv_space vm" "gv_memory vm" "gc_roots vm" "gv_memory ?vm"] memset_zero_live [OF hok] r by simp
    have "gh_cells (gv_memory vm) x = Some c" using x(2) memset_zero_live [OF hok l] by simp
    then show ?thesis using hok l by (auto simp: heap_ok_def layout_ok_def)
  qed
  moreover have "0 < n \<longrightarrow> ?p \<notin> gh_reachable (memset_zero ?p n (gv_memory vm))" by (auto simp: memset_zero_def)
  ultimately show ?thesis using n(1) by (auto simp: bump_take_def Let_def r)
qed

lemma bump_allocate_spec:
  assumes ok: "vm_ok vm" and fuel: "gs_capacity (gv_space vm) \<le> fuel" and n: "gs_capacity (gv_space vm) + align8 n < 2 ^ 32"
  shows "\<exists>r vm'. bump_allocate fuel n vm = Some (r, vm') \<and> vm_ok vm' \<and> gv_space vm' = gv_space vm \<and> (case r of
      None \<Rightarrow> gs_capacity (gv_space vm') < gv_used vm' + align8 n \<and> major_gc fuel vm = Some vm'
    | Some p \<Rightarrow> 8 dvd p \<and> gs_heap (gv_space vm') \<le> p \<and> p + align8 n \<le> gs_heap (gv_space vm') + gs_capacity (gv_space vm') \<and>
        p + align8 n = gs_heap (gv_space vm') + gv_used vm' \<and>
        (0 < n \<longrightarrow> p \<notin> gh_reachable (gv_memory vm')) \<and>
        (\<forall>x c. live (gv_space vm') (gv_memory vm') (gc_roots vm') x \<and> gh_cells (gv_memory vm') x = Some c \<longrightarrow> x + cell_extent c \<le> p))"
proof -
  have nowrap: "(gv_used v + align8 n mod 2 ^ 32) mod 2 ^ 32 = gv_used v + align8 n" if "vm_ok v" "gv_space v = gv_space vm" for v
    using that n by (auto simp: vm_ok_def heap_ok_def layout_ok_def)
  have bytes: "align8 n mod 2 ^ 32 = align8 n" using n by simp
  have pos: "0 < n \<longrightarrow> 0 < align8 n" using align8_ge [of n] by auto
  have take: "bump_take (align8 n) v = (Some p, v') \<Longrightarrow> p + align8 n = gs_heap (gv_space v') + gv_used v' \<and> gv_space v' = gv_space v" for v p v'
    by (auto simp: bump_take_def Let_def)
  show ?thesis
  proof (cases "gv_used vm + align8 n > gs_capacity (gv_space vm)")
    case False
    then obtain p vm' where r: "bump_take (align8 n) vm = (Some p, vm')" "vm_ok vm'" "8 dvd p" "gs_heap (gv_space vm') \<le> p"
      "p + align8 n \<le> gs_heap (gv_space vm') + gs_capacity (gv_space vm')"
      "\<forall>x c. live (gv_space vm') (gv_memory vm') (gc_roots vm') x \<and> gh_cells (gv_memory vm') x = Some c \<longrightarrow> x + cell_extent c \<le> p"
      "0 < n \<longrightarrow> p \<notin> gh_reachable (gv_memory vm')"
      using pos bump_take_spec [OF ok _ align8_dvd, of n] by auto
    then show ?thesis using False nowrap [OF ok refl] take [OF r(1)]
      by (intro exI [of _ "Some p"] exI [of _ vm']) (simp add: bump_allocate_def Let_def bytes)
  next
    case True
    from major_gc_spec [OF ok fuel] obtain v where v: "major_gc fuel vm = Some v" "vm_ok v" "gv_space v = gv_space vm" by blast
    show ?thesis
    proof (cases "gv_used v + align8 n > gs_capacity (gv_space v)")
      case full: True
      with True v nowrap [OF ok refl] nowrap [OF v(2,3)] show ?thesis
        by (intro exI [of _ None] exI [of _ v]) (simp add: bump_allocate_def Let_def bytes)
    next
      case False
      then obtain p vm' where r: "bump_take (align8 n) v = (Some p, vm')" "vm_ok vm'" "8 dvd p" "gs_heap (gv_space vm') \<le> p"
        "p + align8 n \<le> gs_heap (gv_space vm') + gs_capacity (gv_space vm')"
        "\<forall>x c. live (gv_space vm') (gv_memory vm') (gc_roots vm') x \<and> gh_cells (gv_memory vm') x = Some c \<longrightarrow> x + cell_extent c \<le> p"
        "0 < n \<longrightarrow> p \<notin> gh_reachable (gv_memory vm')"
        using pos bump_take_spec [OF v(2) _ align8_dvd, of n] by auto
      then show ?thesis using True False nowrap [OF ok refl] nowrap [OF v(2,3)] take [OF r(1)] v
        by (intro exI [of _ "Some p"] exI [of _ vm']) (simp add: bump_allocate_def Let_def bytes)
    qed
  qed
qed

section \<open>Properties\<close>

text \<open>C35. The quicksort of \<^verbatim>\<open>quicksort_pointers\<close> never reads or swaps outside of the array, ends, and returns the pointers
  in ascending order; and a binary search in the result finds a pointer just when it is there, and finds its index.\<close>

theorem quicksort_then_search:
  "\<exists>ys. quicksort_pointers xs = Some ys \<and> sorted ys \<and> mset ys = mset xs \<and>
    (case binary_search_for_pointer x ys of None \<Rightarrow> x \<notin> set xs | Some i \<Rightarrow> i < length ys \<and> ys ! i = x)"
proof -
  from quicksort_pointers_spec [of xs] obtain ys where ys: "quicksort_pointers xs = Some ys" "sorted ys" "mset ys = mset xs" by blast
  with binary_search_spec [OF ys(2), of x] mset_eq_setD [OF ys(3)] show ?thesis by (auto split: option.splits)
qed

text \<open>A heap for the examples: the object at 40, which has a monitor, and the object at 8 refer to each other, the
  object at 24 is garbage.\<close>

definition example_class :: gc_class where
  "example_class = \<lparr>gcc_kind = CD_KIND_ORDINARY, gcc_instance_bytes = 16, gcc_primitive_component = TYPE_KIND_INT,
     gcc_dimensions = 0, gcc_is_reference = False\<rparr>"

definition example_heap :: gc_heap where
  "example_heap = \<lparr>gh_cells = [8 \<mapsto> Object_Cell \<lparr>gco_monitor = 0, gco_class = example_class, gco_length = 0, gco_refs = [40]\<rparr>,
       24 \<mapsto> Object_Cell \<lparr>gco_monitor = 0, gco_class = example_class, gco_length = 0, gco_refs = [8]\<rparr>,
       40 \<mapsto> Object_Cell \<lparr>gco_monitor = 56, gco_class = example_class, gco_length = 0, gco_refs = [8, 0]\<rparr>,
       56 \<mapsto> Monitor_Cell 0 0], gh_reachable = {}\<rparr>"

definition example_vm :: gc_vm where
  "example_vm = \<lparr>gv_space = \<lparr>gs_heap = 8, gs_capacity = 64\<rparr>, gv_memory = example_heap, gv_roots = [40, 0], gv_pending = 0, gv_used = 64\<rparr>"

lemma example_roots: "gc_roots example_vm = [40]"
  by (simp add: gc_roots_def example_vm_def push_root_def in_heap_def)

lemma example_objects:
  "object_at example_heap 8 = Some \<lparr>gco_monitor = 0, gco_class = example_class, gco_length = 0, gco_refs = [40]\<rparr>"
  "object_at example_heap 40 = Some \<lparr>gco_monitor = 56, gco_class = example_class, gco_length = 0, gco_refs = [8, 0]\<rparr>"
  "monitor_at example_heap 56"
  by (simp_all add: example_heap_def object_at_def monitor_at_def)

lemma example_memory: "gv_memory example_vm = example_heap"
  by (simp add: example_vm_def)

lemma example_reachable: "gc_reachable (gv_space example_vm) example_heap (gc_roots example_vm) a \<longleftrightarrow> a = 8 \<or> a = 40"
proof
  show "gc_reachable (gv_space example_vm) example_heap (gc_roots example_vm) a \<Longrightarrow> a = 8 \<or> a = 40"
    unfolding example_roots
    by (induction rule: gc_reachable.induct) (auto simp: example_objects traced_refs_def example_class_def)
  have h: "in_heap (gv_space example_vm) 8" "in_heap (gv_space example_vm) 40" by (simp_all add: example_vm_def in_heap_def)
  have r: "gc_reachable (gv_space example_vm) example_heap (gc_roots example_vm) 40"
    unfolding example_roots by (rule gc_reachable.root) (use h in auto)
  moreover have "gc_reachable (gv_space example_vm) example_heap (gc_roots example_vm) 8"
    by (rule gc_reachable.field [OF r example_objects(2)]) (use h in \<open>auto simp: traced_refs_def example_class_def\<close>)
  ultimately show "a = 8 \<or> a = 40 \<Longrightarrow> gc_reachable (gv_space example_vm) example_heap (gc_roots example_vm) a" by auto
qed

lemma example_live: "live (gv_space example_vm) example_heap (gc_roots example_vm) x \<longleftrightarrow> x = 8 \<or> x = 40 \<or> x = 56"
  unfolding live_def example_reachable by (auto simp: example_objects)

lemma example_ok: "vm_ok example_vm"
proof -
  have "objects_ok (gv_space example_vm) example_heap (gc_roots example_vm)"
    unfolding objects_ok_def example_reachable
    by (auto simp: example_objects size_of_object_def example_class_def)
  moreover have "layout_ok (gv_space example_vm) 64 example_heap (gc_roots example_vm)"
    unfolding layout_ok_def example_live
    by (auto simp: example_vm_def example_heap_def cell_extent_def cell_size_def size_of_object_def example_class_def align8_def)
  ultimately show ?thesis unfolding vm_ok_def heap_ok_def example_memory
    by (simp add: example_vm_def example_heap_def)
qed

text \<open>C36. The mark phase visits exactly the objects that are reachable from the roots without passing through the
  referent of a weak reference, each once: it ends within as many rounds of the work list as the heap has bytes,
  touches nothing but mark bits, and the vector it builds lists every reachable object and its monitor.\<close>

theorem mark_phase_exact:
  assumes "vm_ok vm" "gs_capacity (gv_space vm) \<le> fuel"
  shows "\<exists>ctx ds. mark_phase (gv_space vm) fuel (gc_roots vm) (gv_memory vm) = Some ctx \<and> distinct ds \<and> set ds = {a. vm_reachable vm a} \<and>
    gx_objs ctx = concat (map (entries (gv_memory vm)) ds) \<and> gh_cells (gx_heap ctx) = gh_cells (gv_memory vm) \<and>
    gh_reachable (gx_heap ctx) = gh_reachable (gv_memory vm) \<union> mark_word (gv_memory vm) ` set ds"
proof -
  have "objects_ok (gv_space vm) (gv_memory vm) (gc_roots vm)"
    "\<forall>x. live (gv_space vm) (gv_memory vm) (gc_roots vm) x \<longrightarrow> x \<notin> gh_reachable (gv_memory vm)"
    using assms(1) by (simp_all add: vm_ok_def heap_ok_def)
  from mark_phase_spec [OF this order_trans [OF card_reachable assms(2)]] show ?thesis by blast
qed

theorem mark_phase_exact_witness:
  "\<exists>ctx ds. mark_phase (gv_space example_vm) 64 (gc_roots example_vm) example_heap = Some ctx \<and> distinct ds \<and> set ds = {8, 40} \<and>
    gx_objs ctx = concat (map (entries example_heap) ds)"
proof -
  have e: "{a. gc_reachable (gv_space example_vm) example_heap (gc_roots example_vm) a} = {8, 40}"
    using example_reachable by auto
  have "gs_capacity (gv_space example_vm) \<le> 64" by (simp add: example_vm_def)
  from mark_phase_exact [OF example_ok this] show ?thesis unfolding example_memory e by blast
qed

text \<open>C37. A collection of a well-formed heap runs to its end without a failing check, uses no more memory than before,
  and leaves a well-formed heap whose reachable objects are the old ones: there is an injection from old to new
  addresses under which every reachable object keeps its class, length, monitor and references, all roots follow
  their objects, and just the referents that are not reachable otherwise are cleared.\<close>

theorem major_gc_preserves_graph:
  assumes "vm_ok vm" "gs_capacity (gv_space vm) \<le> fuel"
  shows "\<exists>vm' f. major_gc fuel vm = Some vm' \<and> vm_ok vm' \<and> gv_used vm' \<le> gv_used vm \<and>
    inj_on f {a. vm_reachable vm a} \<and> (\<forall>a. vm_reachable vm a \<longrightarrow> same_object vm f vm' a) \<and>
    gv_roots vm' = map (follow (gv_space vm) f) (gv_roots vm)"
  using major_gc_spec [OF assms] by blast

theorem major_gc_preserves_graph_witness:
  "\<exists>vm' f. major_gc 64 example_vm = Some vm' \<and> vm_ok vm' \<and> gv_used vm' \<le> 64 \<and> f 8 \<noteq> f 40 \<and>
    same_object example_vm f vm' 8 \<and> same_object example_vm f vm' 40 \<and> gv_roots vm' = [f 40, 0]"
proof -
  have "gs_capacity (gv_space example_vm) \<le> 64" by (simp add: example_vm_def)
  from major_gc_preserves_graph [OF example_ok this] obtain vm' f where
    r: "major_gc 64 example_vm = Some vm'" "vm_ok vm'" "gv_used vm' \<le> gv_used example_vm" "inj_on f {a. a = 8 \<or> a = 40}"
      "\<forall>a. a = 8 \<or> a = 40 \<longrightarrow> same_object example_vm f vm' a"
      "gv_roots vm' = map (follow (gv_space example_vm) f) (gv_roots example_vm)"
    unfolding example_memory example_reachable by blast
  have "f 8 \<noteq> f 40" using inj_onD [OF r(4), of 8 40] by auto
  moreover have "gv_roots vm' = [f 40, 0]" "gv_used vm' \<le> 64"
    using r(3,6) by (simp_all add: example_vm_def follow_def push_root_def in_heap_def)
  ultimately show ?thesis using r(1,2,5) by blast
qed

text \<open>C38. Allocation on a well-formed heap returns an aligned block inside of the heap that lies behind every live
  cell, with clear mark bits, or reports that memory is exhausted, which it does only when the block does not fit behind the live
  cells of the compacted heap; the heap stays well formed. Sizes are such that their sum with the capacity does
  not wrap around.\<close>

theorem bump_allocate_fresh:
  assumes "vm_ok vm" "gs_capacity (gv_space vm) \<le> fuel" "gs_capacity (gv_space vm) + align8 n < 2 ^ 32"
  shows "\<exists>r vm'. bump_allocate fuel n vm = Some (r, vm') \<and> vm_ok vm' \<and> gv_space vm' = gv_space vm \<and> (case r of
      None \<Rightarrow> gs_capacity (gv_space vm') < gv_used vm' + align8 n \<and> major_gc fuel vm = Some vm'
    | Some p \<Rightarrow> 8 dvd p \<and> gs_heap (gv_space vm') \<le> p \<and> p + align8 n \<le> gs_heap (gv_space vm') + gs_capacity (gv_space vm') \<and>
        p + align8 n = gs_heap (gv_space vm') + gv_used vm' \<and>
        (0 < n \<longrightarrow> p \<notin> gh_reachable (gv_memory vm')) \<and>
        (\<forall>x c. live (gv_space vm') (gv_memory vm') (gc_roots vm') x \<and> gh_cells (gv_memory vm') x = Some c \<longrightarrow> x + cell_extent c \<le> p))"
  by (rule bump_allocate_spec [OF assms])

theorem bump_allocate_fresh_witness:
  "\<exists>r vm'. bump_allocate 64 12 example_vm = Some (r, vm') \<and> vm_ok vm' \<and>
    (r = None \<longrightarrow> gs_capacity (gv_space vm') < gv_used vm' + align8 12) \<and> (\<forall>p. r = Some p \<longrightarrow> 8 dvd p)"
proof -
  have "gs_capacity (gv_space example_vm) \<le> 64" by (simp add: example_vm_def)
  moreover have "gs_capacity (gv_space example_vm) + align8 12 < 2 ^ 32" by (simp add: example_vm_def align8_def)
  ultimately show ?thesis using bump_allocate_fresh [OF example_ok, of 64 12] by (auto split: option.splits)
qed


end
