(* ===== verification/Arrays.thy ===== *)
theory Arrays
  imports Gc_Collect
begin

text \<open>
  Creation of arrays and objects, \<^verbatim>\<open>vm/arrays.c\<close> and \<^verbatim>\<open>AllocateObject\<close> of \<^verbatim>\<open>vm/objects.h\<close>, and the handlers of the
  instructions \<^verbatim>\<open>newarray\<close> and \<^verbatim>\<open>anewarray\<close> that call them. The size of the allocation is computed in 32 bits.
  An array that is long enough for this to wrap around gets a block that is too small for it; all others leave
  the heap well formed with the new array as a further root.
\<close>

section \<open>Definitions\<close>

definition primitive_array_classdesc :: "type_kind \<Rightarrow> gc_class" where
  "primitive_array_classdesc k = \<lparr>gcc_kind = CD_KIND_PRIMITIVE_ARRAY, gcc_instance_bytes = 0, gcc_primitive_component = k,
     gcc_dimensions = 1, gcc_is_reference = False\<rparr>"

definition ordinary_array_classdesc :: "gc_class \<Rightarrow> gc_class" where
  "ordinary_array_classdesc component = \<lparr>gcc_kind = CD_KIND_ORDINARY_ARRAY, gcc_instance_bytes = 0,
     gcc_primitive_component = gcc_primitive_component component, gcc_dimensions = gcc_dimensions component + 1,
     gcc_is_reference = False\<rparr>"

text \<open>\<^verbatim>\<open>kArrayDataOffset + count * size\<close>, 32 bits wide.\<close>

definition array_bytes :: "nat \<Rightarrow> nat \<Rightarrow> u32" where
  "array_bytes cnt ksize = 16 + of_nat cnt * of_nat ksize"

text \<open>\<^verbatim>\<open>AllocateObject\<close> on the zeroed block: a mark word without flags, the descriptor, and null in all of the
  \<open>slots\<close> reference fields of an instance.\<close>

definition allocate_object :: "nat \<Rightarrow> gc_class \<Rightarrow> nat \<Rightarrow> u32 \<Rightarrow> gc_vm \<Rightarrow> (nat option \<times> gc_vm) option" where
  "allocate_object fuel cls slots bytes vm = do {
     (r, vm') \<leftarrow> bump_allocate fuel (unat bytes) vm;
     case r of None \<Rightarrow> Some (None, vm')
     | Some p \<Rightarrow> Some (Some p, vm'\<lparr>gv_memory := (gv_memory vm')\<lparr>gh_cells := (gh_cells (gv_memory vm'))(p \<mapsto>
           Object_Cell \<lparr>gco_monitor = 0, gco_class = cls, gco_length = 0, gco_refs = replicate slots 0\<rparr>)\<rparr>\<rparr>)
   }"

definition set_array_length :: "nat \<Rightarrow> nat \<Rightarrow> gc_vm \<Rightarrow> gc_vm" where
  "set_array_length p cnt vm = (case object_at (gv_memory vm) p of None \<Rightarrow> vm
   | Some ob \<Rightarrow> vm\<lparr>gv_memory := (gv_memory vm)\<lparr>gh_cells := (gh_cells (gv_memory vm))(p \<mapsto>
       Object_Cell (ob\<lparr>gco_length := cnt,
         gco_refs := (if gcc_kind (gco_class ob) = CD_KIND_ORDINARY_ARRAY then replicate cnt 0 else [])\<rparr>))\<rparr>\<rparr>)"

definition create_1d_primitive_array :: "nat \<Rightarrow> type_kind \<Rightarrow> nat \<Rightarrow> gc_vm \<Rightarrow> (nat option \<times> gc_vm) option" where
  "create_1d_primitive_array fuel k cnt vm = do {
     ksize \<leftarrow> sizeof_type_kind k;
     (r, vm') \<leftarrow> allocate_object fuel (primitive_array_classdesc k) 0 (array_bytes cnt ksize) vm;
     case r of None \<Rightarrow> Some (None, vm') | Some p \<Rightarrow> Some (Some p, set_array_length p cnt vm')
   }"

definition CreateObjectArray1D :: "nat \<Rightarrow> gc_class \<Rightarrow> nat \<Rightarrow> gc_vm \<Rightarrow> (nat option \<times> gc_vm) option" where
  "CreateObjectArray1D fuel cd cnt vm = do {
     (r, vm') \<leftarrow> allocate_object fuel (ordinary_array_classdesc cd) 0 (array_bytes cnt sizeof_pointer) vm;
     case r of None \<Rightarrow> Some (None, vm') | Some p \<Rightarrow> Some (Some p, set_array_length p cnt vm')
   }"

datatype new_array_result = Negative_Array_Size int | Out_Of_Memory | New_Array nat

definition new_array_result :: "nat option \<times> gc_vm \<Rightarrow> new_array_result \<times> gc_vm" where
  "new_array_result = (\<lambda>(r, vm). (case r of None \<Rightarrow> Out_Of_Memory | Some p \<Rightarrow> New_Array p, vm))"

definition newarray_impl :: "nat \<Rightarrow> type_kind \<Rightarrow> int \<Rightarrow> gc_vm \<Rightarrow> (new_array_result \<times> gc_vm) option" where
  "newarray_impl fuel k cnt vm =
     (if cnt < 0 then Some (Negative_Array_Size cnt, vm)
      else map_option new_array_result (create_1d_primitive_array fuel k (nat cnt) vm))"

definition anewarray_resolved_impl :: "nat \<Rightarrow> gc_class \<Rightarrow> int \<Rightarrow> gc_vm \<Rightarrow> (new_array_result \<times> gc_vm) option" where
  "anewarray_resolved_impl fuel cd cnt vm =
     (if cnt < 0 then Some (Negative_Array_Size cnt, vm)
      else map_option new_array_result (CreateObjectArray1D fuel cd (nat cnt) vm))"

section \<open>A new object\<close>

lemma new_object_reachable:
  assumes dead: "\<not> gc_reachable s h roots p" and null: "set (traced_refs ob) \<subseteq> {0}" and roots: "set roots' = insert p (set roots)"
    and p: "in_heap s p"
  shows "gc_reachable s (h\<lparr>gh_cells := (gh_cells h)(p \<mapsto> Object_Cell ob)\<rparr>) roots' x \<longleftrightarrow> x = p \<or> gc_reachable s h roots x"
proof
  let ?h = "h\<lparr>gh_cells := (gh_cells h)(p \<mapsto> Object_Cell ob)\<rparr>"
  have at: "object_at ?h a = (if a = p then Some ob else object_at h a)" for a by (simp add: object_at_def)
  show "gc_reachable s ?h roots' x \<Longrightarrow> x = p \<or> gc_reachable s h roots x"
  proof (induction rule: gc_reachable.induct)
    case (root a) then show ?case using roots by (auto intro: gc_reachable.root)
  next
    case (field a ob' b)
    then show ?case using null by (cases "a = p") (auto simp: at intro: gc_reachable.field)
  qed
  have old: "gc_reachable s h roots a \<Longrightarrow> gc_reachable s ?h roots' a" for a
  proof (induction rule: gc_reachable.induct)
    case (root a) then show ?case using roots by (auto intro: gc_reachable.root)
  next
    case (field a ob' b)
    then have "object_at ?h a = Some ob'" using dead by (auto simp: at)
    with field show ?case by (blast intro: gc_reachable.field)
  qed
  show "x = p \<or> gc_reachable s h roots x \<Longrightarrow> gc_reachable s ?h roots' x"
    using old roots p by (auto intro: gc_reachable.root)
qed

lemma new_object_heap_ok:
  assumes ok: "heap_ok s used h roots" and behind: "\<forall>x c. live s h roots x \<and> gh_cells h x = Some c \<longrightarrow> x + cell_extent c \<le> p"
    and p: "8 dvd p" "gs_heap s \<le> p" "p + align8 m \<le> gs_heap s + used" "p \<notin> gh_reachable h"
    and ob: "size_of_object ob = Some m" "0 < m" "gco_monitor ob = 0" "set (traced_refs ob) \<subseteq> {0}"
      "gcc_is_reference (gco_class ob) \<longrightarrow> discovered_slot < length (gco_refs ob) \<and> even (hd (gco_refs ob))"
    and roots: "set roots' = insert p (set roots)"
  shows "heap_ok s used (h\<lparr>gh_cells := (gh_cells h)(p \<mapsto> Object_Cell ob)\<rparr>) roots'"
proof -
  let ?h = "h\<lparr>gh_cells := (gh_cells h)(p \<mapsto> Object_Cell ob)\<rparr>"
  have below: "x < p" if "live s h roots x" for x
    using behind that by (rule_tac live_cell [OF ok that]) fastforce
  have ext: "cell_extent (Object_Cell ob) = align8 m" "0 < align8 m"
    using ob(1,2) align8_ge [of m] by (auto simp: cell_extent_def cell_size_def)
  have heap: "in_heap s p" using p(2,3) ext(2) ok by (auto simp: in_heap_def heap_ok_def layout_ok_def)
  have dead: "\<not> gc_reachable s h roots p" using below [OF reachable_live] by blast
  note reach = new_object_reachable [OF dead ob(4) roots heap]
  have at: "object_at ?h a = (if a = p then Some ob else object_at h a)" for a by (simp add: object_at_def)
  have mon: "monitor_at ?h x = monitor_at h x" if "live s h roots x" for x
    using below [OF that] by (simp add: monitor_at_def)
  have old: "objects_ok s h roots" using ok by (simp add: heap_ok_def)
  have lv: "live s ?h roots' x \<longleftrightarrow> x = p \<or> live s h roots x" for x
    using dead ob(3) unfolding live_def reach at by (auto split: if_splits)
  have "objects_ok s ?h roots'" unfolding objects_ok_def reach
  proof (intro conjI allI impI)
    fix a assume a: "a = p \<or> gc_reachable s h roots a"
    show "\<exists>ob. object_at ?h a = Some ob \<and> size_of_object ob \<noteq> None \<and>
        (gcc_is_reference (gco_class ob) \<longrightarrow> discovered_slot < length (gco_refs ob) \<and> even (hd (gco_refs ob))) \<and>
        (gco_monitor ob \<noteq> 0 \<longrightarrow> monitor_at ?h (gco_monitor ob) \<and> a < gco_monitor ob)"
    proof (cases "a = p")
      case False
      with a have r: "gc_reachable s h roots a" by simp
      show ?thesis
        by (rule objects_okD [OF old r]) (use False mon [OF monitor_live [OF r]] in \<open>auto simp: at\<close>)
    qed (use ob in \<open>simp add: at\<close>)
  next
    fix a b oa ob'
    assume "(a = p \<or> gc_reachable s h roots a) \<and> (b = p \<or> gc_reachable s h roots b) \<and> object_at ?h a = Some oa \<and>
      object_at ?h b = Some ob' \<and> gco_monitor oa = gco_monitor ob' \<and> gco_monitor oa \<noteq> 0"
    then show "a = b" using objects_ok_inj [OF old, of a b oa ob'] ob(3) by (auto simp: at split: if_splits)
  qed
  moreover have "layout_ok s used ?h roots'" unfolding layout_ok_def lv
  proof (intro conjI allI impI)
    fix x c assume x: "(x = p \<or> live s h roots x) \<and> gh_cells ?h x = Some c"
    have "8 dvd x \<and> gs_heap s \<le> x \<and> 0 < cell_extent c \<and> x + cell_extent c \<le> gs_heap s + used \<and>
      (\<forall>y. (y = p \<or> live s h roots y) \<and> x < y \<longrightarrow> x + cell_extent c \<le> y)"
    proof (cases "x = p")
      case True
      then show ?thesis using x p ext below by (auto dest: less_asym)
    next
      case False
      with x have l: "live s h roots x" "gh_cells h x = Some c" by auto
      with behind have "x + cell_extent c \<le> p" by blast
      with l ok show ?thesis unfolding heap_ok_def layout_ok_def by blast
    qed
    then show "8 dvd x" "gs_heap s \<le> x" "0 < cell_extent c" "x + cell_extent c \<le> gs_heap s + used"
      "\<And>y. (y = p \<or> live s h roots y) \<and> x < y \<Longrightarrow> x + cell_extent c \<le> y" by blast+
  qed (use ok in \<open>auto simp: heap_ok_def layout_ok_def\<close>)
  moreover have "x \<notin> gh_reachable ?h" if "live s ?h roots' x" for x
    using that p(4) ok unfolding lv by (auto simp: heap_ok_def)
  ultimately show ?thesis by (simp add: heap_ok_def)
qed
lemma allocate_new_object:
  assumes ok: "vm_ok vm" and fuel: "gs_capacity (gv_space vm) \<le> fuel" and m: "0 < m" "gs_capacity (gv_space vm) + align8 m < 2 ^ 32"
    and ob: "size_of_object ob = Some m" "gco_monitor ob = 0" "set (traced_refs ob) \<subseteq> {0}" "\<not> gcc_is_reference (gco_class ob)"
  shows "\<exists>r vm'. bump_allocate fuel m vm = Some (r, vm') \<and> vm_ok vm' \<and> (\<forall>p. r = Some p \<longrightarrow>
    vm_ok (vm'\<lparr>gv_memory := (gv_memory vm')\<lparr>gh_cells := (gh_cells (gv_memory vm'))(p \<mapsto> Object_Cell ob)\<rparr>, gv_roots := p # gv_roots vm'\<rparr>))"
proof -
  obtain r vm' where r: "bump_allocate fuel m vm = Some (r, vm')" "vm_ok vm'" and c: "case r of
      None \<Rightarrow> gs_capacity (gv_space vm') < gv_used vm' + align8 m \<and> major_gc fuel vm = Some vm'
    | Some p \<Rightarrow> 8 dvd p \<and> gs_heap (gv_space vm') \<le> p \<and> p + align8 m \<le> gs_heap (gv_space vm') + gs_capacity (gv_space vm') \<and>
        p + align8 m = gs_heap (gv_space vm') + gv_used vm' \<and> (0 < m \<longrightarrow> p \<notin> gh_reachable (gv_memory vm')) \<and>
        (\<forall>x c. live (gv_space vm') (gv_memory vm') (gc_roots vm') x \<and> gh_cells (gv_memory vm') x = Some c \<longrightarrow> x + cell_extent c \<le> p)"
    using bump_allocate_spec [OF ok fuel m(2)] by blast
  have "vm_ok (vm'\<lparr>gv_memory := (gv_memory vm')\<lparr>gh_cells := (gh_cells (gv_memory vm'))(p \<mapsto> Object_Cell ob)\<rparr>, gv_roots := p # gv_roots vm'\<rparr>)"
    if p: "r = Some p" for p
  proof -
    have hok: "heap_ok (gv_space vm') (gv_used vm') (gv_memory vm') (gc_roots vm')" using r(2) by (simp add: vm_ok_def)
    have b: "8 dvd p" "gs_heap (gv_space vm') \<le> p" "p + align8 m \<le> gs_heap (gv_space vm') + gv_used vm'" "p \<notin> gh_reachable (gv_memory vm')"
      "\<forall>x c. live (gv_space vm') (gv_memory vm') (gc_roots vm') x \<and> gh_cells (gv_memory vm') x = Some c \<longrightarrow> x + cell_extent c \<le> p"
      using c p m(1) by auto
    have "push_root (gv_space vm') p"
      using c p m(1) align8_ge [of m] hok by (auto simp: push_root_def in_heap_def heap_ok_def layout_ok_def)
    then have "set (gc_roots (vm'\<lparr>gv_memory := (gv_memory vm')\<lparr>gh_cells := (gh_cells (gv_memory vm'))(p \<mapsto> Object_Cell ob)\<rparr>,
        gv_roots := p # gv_roots vm'\<rparr>)) = insert p (set (gc_roots vm'))"
      by (auto simp: gc_roots_def)
    from new_object_heap_ok [OF hok b(5,1-4) ob(1) m(1) ob(2,3) _ this] ob(4) show ?thesis by (simp add: vm_ok_def)
  qed
  with r show ?thesis by blast
qed

section \<open>Arrays\<close>

lemma unat_array_bytes: "unat (array_bytes cnt ksize) = (16 + cnt * ksize) mod 2 ^ 32"
proof -
  have "array_bytes cnt ksize = word_of_nat (16 + cnt * ksize)" by (simp add: array_bytes_def)
  then have "unat (array_bytes cnt ksize) = unat (word_of_nat (16 + cnt * ksize) :: u32)" by (rule arg_cong)
  then show ?thesis unfolding unat_of_nat by simp
qed

definition primitive_array :: "type_kind \<Rightarrow> nat \<Rightarrow> gc_object" where
  "primitive_array k cnt = \<lparr>gco_monitor = 0, gco_class = primitive_array_classdesc k, gco_length = cnt, gco_refs = []\<rparr>"

definition reference_array :: "gc_class \<Rightarrow> nat \<Rightarrow> gc_object" where
  "reference_array cd cnt = \<lparr>gco_monitor = 0, gco_class = ordinary_array_classdesc cd, gco_length = cnt, gco_refs = replicate cnt 0\<rparr>"

lemma primitive_array_ok:
  assumes "sizeof_type_kind k = Some ksize"
  shows "size_of_object (primitive_array k cnt) = Some (16 + cnt * ksize)" "gco_monitor (primitive_array k cnt) = 0"
    "set (traced_refs (primitive_array k cnt)) \<subseteq> {0}" "\<not> gcc_is_reference (gco_class (primitive_array k cnt))"
  using assms by (simp_all add: primitive_array_def primitive_array_classdesc_def size_of_object_def traced_refs_def)

lemma reference_array_ok:
  "size_of_object (reference_array cd cnt) = Some (16 + cnt * 4)" "gco_monitor (reference_array cd cnt) = 0"
  "set (traced_refs (reference_array cd cnt)) \<subseteq> {0}" "\<not> gcc_is_reference (gco_class (reference_array cd cnt))"
  by (auto simp: reference_array_def ordinary_array_classdesc_def size_of_object_def traced_refs_def)

text \<open>The outcome of the creation of an array object \<open>ob\<close>: the heap without it, or the heap with it as a further root.\<close>

definition array_outcome :: "gc_object \<Rightarrow> (new_array_result \<times> gc_vm) option \<Rightarrow> bool" where
  "array_outcome ob res \<longleftrightarrow> (\<exists>vm'. vm_ok vm' \<and> (res = Some (Out_Of_Memory, vm') \<or>
     (\<exists>p. res = Some (New_Array p, vm') \<and> object_at (gv_memory vm') p = Some ob \<and> vm_ok (vm'\<lparr>gv_roots := p # gv_roots vm'\<rparr>))))"

lemma vm_ok_fewer_roots:
  assumes "vm_ok (vm\<lparr>gv_roots := p # gv_roots vm\<rparr>)"
  shows "vm_ok vm"
proof -
  let ?r = "gc_roots (vm\<lparr>gv_roots := p # gv_roots vm\<rparr>)"
  have hok: "heap_ok (gv_space vm) (gv_used vm) (gv_memory vm) ?r" using assms by (simp add: vm_ok_def)
  have sub: "set (gc_roots vm) \<subseteq> set ?r" by (auto simp: gc_roots_def)
  have reach: "vm_reachable vm a \<Longrightarrow> gc_reachable (gv_space vm) (gv_memory vm) ?r a" for a
    by (induction rule: gc_reachable.induct) (use sub in \<open>auto intro: gc_reachable.intros\<close>)
  have lv: "live (gv_space vm) (gv_memory vm) (gc_roots vm) x \<Longrightarrow> live (gv_space vm) (gv_memory vm) ?r x" for x
    using reach unfolding live_def by blast
  have "objects_ok (gv_space vm) (gv_memory vm) (gc_roots vm)"
    using hok reach unfolding heap_ok_def objects_ok_def by blast
  moreover have "layout_ok (gv_space vm) (gv_used vm) (gv_memory vm) (gc_roots vm)"
    using hok lv unfolding heap_ok_def layout_ok_def by blast
  ultimately show ?thesis using hok lv unfolding vm_ok_def heap_ok_def by blast
qed

lemma array_outcomeI:
  assumes ok: "vm_ok vm" and fuel: "gs_capacity (gv_space vm) \<le> fuel" and m: "gs_capacity (gv_space vm) + align8 (16 + cnt * ksize) < 2 ^ 32"
    and ob: "size_of_object ob = Some (16 + cnt * ksize)" "gco_monitor ob = 0" "set (traced_refs ob) \<subseteq> {0}" "\<not> gcc_is_reference (gco_class ob)"
    and shape: "gco_length ob = cnt" "gco_refs ob = (if gcc_kind (gco_class ob) = CD_KIND_ORDINARY_ARRAY then replicate cnt 0 else [])"
  shows "array_outcome ob (map_option new_array_result (do {
      (r, vm') \<leftarrow> allocate_object fuel (gco_class ob) 0 (array_bytes cnt ksize) vm;
      case r of None \<Rightarrow> Some (None, vm') | Some p \<Rightarrow> Some (Some p, set_array_length p cnt vm')}))"
proof -
  have bytes: "unat (array_bytes cnt ksize) = 16 + cnt * ksize"
    using m align8_ge [of "16 + cnt * ksize"] by (simp add: unat_array_bytes)
  from allocate_new_object [OF ok fuel _ m ob] obtain r vm' where
    r: "bump_allocate fuel (16 + cnt * ksize) vm = Some (r, vm')" "vm_ok vm'" and
    new: "\<And>p. r = Some p \<Longrightarrow> vm_ok (vm'\<lparr>gv_memory := (gv_memory vm')\<lparr>gh_cells := (gh_cells (gv_memory vm'))(p \<mapsto> Object_Cell ob)\<rparr>,
      gv_roots := p # gv_roots vm'\<rparr>)" by auto
  show ?thesis
  proof (cases r)
    case None
    with r bytes show ?thesis by (simp add: allocate_object_def array_outcome_def new_array_result_def)
  next
    case (Some p)
    let ?vm = "vm'\<lparr>gv_memory := (gv_memory vm')\<lparr>gh_cells := (gh_cells (gv_memory vm'))(p \<mapsto> Object_Cell ob)\<rparr>\<rparr>"
    have ob': "\<lparr>gco_monitor = 0, gco_class = gco_class ob, gco_length = cnt,
        gco_refs = (if gcc_kind (gco_class ob) = CD_KIND_ORDINARY_ARRAY then replicate cnt 0 else [])\<rparr> = ob"
      using ob(2) shape by (cases ob) simp
    have "vm_ok (?vm\<lparr>gv_roots := p # gv_roots ?vm\<rparr>)" using new [OF Some] by simp
    then have "vm_ok ?vm" "vm_ok (?vm\<lparr>gv_roots := p # gv_roots ?vm\<rparr>)" using vm_ok_fewer_roots by blast+
    moreover have "map_option new_array_result (do {
        (r, vm') \<leftarrow> allocate_object fuel (gco_class ob) 0 (array_bytes cnt ksize) vm;
        case r of None \<Rightarrow> Some (None, vm') | Some p \<Rightarrow> Some (Some p, set_array_length p cnt vm')}) = Some (New_Array p, ?vm)"
      using r(1) Some bytes ob' by (simp add: allocate_object_def new_array_result_def set_array_length_def object_at_def)
    ultimately show ?thesis unfolding array_outcome_def by (fastforce simp: object_at_def)
  qed
qed

section \<open>Properties\<close>






end
