(* ===== verification/Interp.thy ===== *)
theory Interp
  imports Stack_Analysis "HOL-Library.Signed_Division" "HOL-Library.Monad_Syntax"
begin

text \<open>
  The handlers of the interpreter, \<^verbatim>\<open>vm/interpreter2.c\<close>, for the instructions that neither resolve nor invoke
  anything: arithmetic on integers, branches and switches, array access, local variables, constants, stack
  manipulation, returns. The value on top of the stack is kept in a register of its own kind; the slot in memory
  below the stack pointer is then stale. A handler is chosen by the instruction and the kind of this register, and a
  combination without a handler, an access outside of the memory of the frame or an undefined operation gives
  \<open>None\<close>. Stack slots have 64 bits: an int is sign extended, a reference (32 bits wide) zero extended, a float
  occupies the lower half.
\<close>

section \<open>State\<close>

datatype jarray = Byte_Array "u8 list" | Short_Array "u16 list" | Char_Array "u16 list" | Int_Array "u32 list"
  | Long_Array "u64 list" | Float_Array "u32 list" | Double_Array "u64 list" | Reference_Array "u32 list"

fun ArrayLength :: "jarray \<Rightarrow> nat" where
  "ArrayLength (Byte_Array xs) = length xs"
| "ArrayLength (Short_Array xs) = length xs"
| "ArrayLength (Char_Array xs) = length xs"
| "ArrayLength (Int_Array xs) = length xs"
| "ArrayLength (Long_Array xs) = length xs"
| "ArrayLength (Float_Array xs) = length xs"
| "ArrayLength (Double_Array xs) = length xs"
| "ArrayLength (Reference_Array xs) = length xs"

text \<open>The frame: the memory of the operand stack and the stack pointer, the locals, the index of the current
  instruction, the saved program counter, the fuel, and the arrays on the heap. A frame that is suspended
  (\<^verbatim>\<open>is_async_suspended\<close>) shows in the outcome of the handler.\<close>

record interp_frame =
  if_stack :: "u64 list"
  if_sp :: nat
  if_locals :: "u64 list"
  if_pc :: int
  if_saved_pc :: int
  if_fuel :: u32
  if_heap :: "u32 \<Rightarrow> jarray option"

datatype tos_value = No_Tos | Int_Tos u64 | Float_Tos u32 | Double_Tos u64

text \<open>How a handler goes on: with a value for the register of one of the kinds, or (\<^verbatim>\<open>STACK_POLYMORPHIC_NEXT\<close>) with the
  top slot in memory, read at the kind the next instruction expects.\<close>

datatype dispatch = D_Void | D_Int u64 | D_Float u32 | D_Double u64 | D_Poly

datatype java_exception = NullPointerException | ArithmeticException | ArrayIndexOutOfBounds int nat
  | ArrayStoreException | Thrown u32

datatype outcome = Jump interp_frame dispatch | Suspend interp_frame | Exception java_exception interp_frame
  | Finished u64 interp_frame

definition rd :: "interp_frame \<Rightarrow> int \<Rightarrow> u64 option" where
  "rd fs k = (let i = int (if_sp fs) + k in
     if 0 \<le> i \<and> i < int (length (if_stack fs)) then Some (if_stack fs ! nat i) else None)"

definition wr :: "interp_frame \<Rightarrow> int \<Rightarrow> u64 \<Rightarrow> interp_frame option" where
  "wr fs k w = (let i = int (if_sp fs) + k in
     if 0 \<le> i \<and> i < int (length (if_stack fs)) then Some (fs\<lparr>if_stack := (if_stack fs)[nat i := w]\<rparr>) else None)"

text \<open>Writing one of the narrow members of a \<^verbatim>\<open>stack_value\<close> keeps the upper half of the slot.\<close>

definition set_low :: "u64 \<Rightarrow> u32 \<Rightarrow> u64" where
  "set_low w x = (w AND 0xFFFFFFFF00000000) OR ucast x"

abbreviation (input) low :: "u64 \<Rightarrow> u32" where
  "low w \<equiv> ucast w"

abbreviation (input) sext :: "u32 \<Rightarrow> u64" where
  "sext x \<equiv> scast x"

abbreviation (input) zext :: "u32 \<Rightarrow> u64" where
  "zext x \<equiv> ucast x"

definition next_insn :: "dispatch \<Rightarrow> interp_frame \<Rightarrow> outcome option" where
  "next_insn d fs = Some (Jump (fs\<lparr>if_pc := if_pc fs + 1\<rparr>) d)"

definition spill_void :: "interp_frame \<Rightarrow> interp_frame" where
  "spill_void fs = fs\<lparr>if_saved_pc := if_pc fs\<rparr>"

fun tos_bits :: "tos_value \<Rightarrow> u64 option" where
  "tos_bits No_Tos = None"
| "tos_bits (Int_Tos w) = Some w"
| "tos_bits (Float_Tos x) = Some (zext x)"
| "tos_bits (Double_Tos w) = Some w"

definition spill :: "tos_value \<Rightarrow> interp_frame \<Rightarrow> interp_frame option" where
  "spill t fs = do { w \<leftarrow> tos_bits t; wr (spill_void fs) (-1) w }"

definition throw :: "java_exception \<Rightarrow> interp_frame \<Rightarrow> outcome option" where
  "throw e fs = Some (Exception e (spill_void fs))"

text \<open>\<^verbatim>\<open>FORWARD_TO_NULLARY\<close>: store the register to memory, then run the handler for the empty register.\<close>

definition forward_to_nullary :: "(interp_frame \<Rightarrow> outcome option) \<Rightarrow> tos_value \<Rightarrow> interp_frame \<Rightarrow> outcome option" where
  "forward_to_nullary impl_void t fs =
     (case t of No_Tos \<Rightarrow> impl_void fs | _ \<Rightarrow> do { w \<leftarrow> tos_bits t; fs' \<leftarrow> wr fs (-1) w; impl_void fs' })"

section \<open>Arithmetic\<close>

datatype int_bin_op = iadd | ladd | isub | lsub | imul | lmul | iand | land | ior | lor | ixor | lxor
  | ishl | lshl | ishr | lshr | iushr | lushr

fun eval_bin :: "int_bin_op \<Rightarrow> u64 \<Rightarrow> u64 \<Rightarrow> u64" where
  "eval_bin iadd a b = sext (low a + low b)"
| "eval_bin ladd a b = a + b"
| "eval_bin isub a b = sext (low a - low b)"
| "eval_bin lsub a b = a - b"
| "eval_bin imul a b = sext (low a * low b)"
| "eval_bin lmul a b = a * b"
| "eval_bin iand a b = sext (low a AND low b)"
| "eval_bin land a b = a AND b"
| "eval_bin ior a b = sext (low a OR low b)"
| "eval_bin lor a b = a OR b"
| "eval_bin ixor a b = sext (low a XOR low b)"
| "eval_bin lxor a b = a XOR b"
| "eval_bin ishl a b = sext (push_bit (unat (b AND 0x1f)) (low a))"
| "eval_bin lshl a b = push_bit (unat (b AND 0x3f)) a"
| "eval_bin ishr a b = zext (signed_drop_bit (unat (b AND 0x1f)) (low a))"
| "eval_bin lshr a b = signed_drop_bit (unat (b AND 0x3f)) a"
| "eval_bin iushr a b = sext (drop_bit (unat (b AND 0x1f)) (low a))"
| "eval_bin lushr a b = drop_bit (unat (b AND 0x3f)) a"

definition integer_bin_op :: "int_bin_op \<Rightarrow> tos_value \<Rightarrow> interp_frame \<Rightarrow> outcome option" where
  "integer_bin_op f t fs = (case t of Int_Tos b \<Rightarrow> do {
       a \<leftarrow> rd fs (-2);
       next_insn (D_Int (eval_bin f a b)) (fs\<lparr>if_sp := if_sp fs - 1\<rparr>)
     } | _ \<Rightarrow> None)"

datatype int_un_op = ineg | lneg | i2l | i2s | i2b | i2c | l2i

fun eval_un :: "int_un_op \<Rightarrow> u64 \<Rightarrow> u64" where
  "eval_un ineg a = sext (- low a)"
| "eval_un lneg a = - a"
| "eval_un i2l a = a"
| "eval_un i2s a = scast (ucast a :: u16)"
| "eval_un i2b a = scast (ucast a :: u8)"
| "eval_un i2c a = ucast (ucast a :: u16)"
| "eval_un l2i a = sext (low a)"

definition integer_un_op :: "int_un_op \<Rightarrow> tos_value \<Rightarrow> interp_frame \<Rightarrow> outcome option" where
  "integer_un_op f t fs = (case t of Int_Tos a \<Rightarrow> next_insn (D_Int (eval_un f a)) fs | _ \<Rightarrow> None)"

text \<open>Division of signed integers in C; \<^verbatim>\<open>LONG_MIN\<close> is the least value of the type \<^verbatim>\<open>long\<close>, which has 32 bits on wasm32.
  The quotient of the least \<^verbatim>\<open>s64\<close> and -1 is undefined.\<close>

abbreviation (input) "INT_MIN \<equiv> - (2 ^ 31) :: int"
abbreviation (input) "LONG_MIN \<equiv> - (2 ^ 31) :: int"
abbreviation (input) "LLONG_MIN \<equiv> - (2 ^ 63) :: int"

definition java_idiv :: "u32 \<Rightarrow> u32 \<Rightarrow> u32" where
  "java_idiv a b = (if sint a = INT_MIN \<and> sint b = -1 then word_of_int INT_MIN else word_of_int (sint a sdiv sint b))"

definition java_irem :: "u32 \<Rightarrow> u32 \<Rightarrow> u32" where
  "java_irem a b = (if sint a = INT_MIN \<and> sint b = -1 then 0 else word_of_int (sint a smod sint b))"

definition java_ldiv :: "u64 \<Rightarrow> u64 \<Rightarrow> u64 option" where
  "java_ldiv a b = (if sint a = LONG_MIN \<and> sint b = -1 then Some (word_of_int LONG_MIN)
     else if sint a = LLONG_MIN \<and> sint b = -1 then None else Some (word_of_int (sint a sdiv sint b)))"

definition java_lrem :: "u64 \<Rightarrow> u64 \<Rightarrow> u64 option" where
  "java_lrem a b = (if sint a = LONG_MIN \<and> sint b = -1 then Some 0
     else if sint a = LLONG_MIN \<and> sint b = -1 then None else Some (word_of_int (sint a smod sint b)))"

datatype div_op = idiv | ldiv | irem | lrem

fun eval_div :: "div_op \<Rightarrow> u64 \<Rightarrow> u64 \<Rightarrow> u64 option" where
  "eval_div idiv a b = Some (sext (java_idiv (low a) (low b)))"
| "eval_div ldiv a b = java_ldiv a b"
| "eval_div irem a b = Some (sext (java_irem (low a) (low b)))"
| "eval_div lrem a b = java_lrem a b"

fun div_by_zero :: "div_op \<Rightarrow> u64 \<Rightarrow> bool" where
  "div_by_zero idiv b = (low b = 0)"
| "div_by_zero ldiv b = (b = 0)"
| "div_by_zero irem b = (low b = 0)"
| "div_by_zero lrem b = (b = 0)"

definition division :: "div_op \<Rightarrow> tos_value \<Rightarrow> interp_frame \<Rightarrow> outcome option" where
  "division f t fs = (case t of Int_Tos b \<Rightarrow> do {
       a \<leftarrow> rd fs (-2);
       if div_by_zero f b then do { fs' \<leftarrow> spill t fs; throw ArithmeticException fs' }
       else do { r \<leftarrow> eval_div f a b; next_insn (D_Int r) (fs\<lparr>if_sp := if_sp fs - 1\<rparr>) }
     } | _ \<Rightarrow> None)"

definition lcmp_impl :: "tos_value \<Rightarrow> interp_frame \<Rightarrow> outcome option" where
  "lcmp_impl t fs = (case t of Int_Tos b \<Rightarrow> do {
       a \<leftarrow> rd fs (-2);
       next_insn (D_Int (if sint a > sint b then 1 else if sint a < sint b then -1 else 0)) (fs\<lparr>if_sp := if_sp fs - 1\<rparr>)
     } | _ \<Rightarrow> None)"
section \<open>Arrays\<close>

text \<open>A reference in the register has its 32 significant bits; 0 is null.\<close>

definition arraylength_impl :: "tos_value \<Rightarrow> interp_frame \<Rightarrow> outcome option" where
  "arraylength_impl t fs = (case t of Int_Tos w \<Rightarrow>
       if low w = 0 then throw NullPointerException fs
       else do { arr \<leftarrow> if_heap fs (low w); next_insn (D_Int (sext (of_nat (ArrayLength arr)))) fs }
     | _ \<Rightarrow> None)"

datatype array_op = int_op | long_op | float_op | double_op | reference_op | byte_op | short_op | char_op

definition array_load :: "array_op \<Rightarrow> jarray \<Rightarrow> nat \<Rightarrow> dispatch option" where
  "array_load f arr i = (case f of
     int_op \<Rightarrow> (case arr of Int_Array xs \<Rightarrow> Some (D_Int (sext (xs ! i))) | _ \<Rightarrow> None)
   | long_op \<Rightarrow> (case arr of Long_Array xs \<Rightarrow> Some (D_Int (xs ! i)) | _ \<Rightarrow> None)
   | float_op \<Rightarrow> (case arr of Float_Array xs \<Rightarrow> Some (D_Float (xs ! i)) | _ \<Rightarrow> None)
   | double_op \<Rightarrow> (case arr of Double_Array xs \<Rightarrow> Some (D_Double (xs ! i)) | _ \<Rightarrow> None)
   | reference_op \<Rightarrow> (case arr of Reference_Array xs \<Rightarrow> Some (D_Int (zext (xs ! i))) | _ \<Rightarrow> None)
   | byte_op \<Rightarrow> (case arr of Byte_Array xs \<Rightarrow> Some (D_Int (scast (xs ! i))) | _ \<Rightarrow> None)
   | short_op \<Rightarrow> (case arr of Short_Array xs \<Rightarrow> Some (D_Int (scast (xs ! i))) | _ \<Rightarrow> None)
   | char_op \<Rightarrow> (case arr of Char_Array xs \<Rightarrow> Some (D_Int (ucast (xs ! i))) | _ \<Rightarrow> None))"

text \<open>The macro \<^verbatim>\<open>ARRAY_LOAD\<close>. The index is an \<^verbatim>\<open>int\<close>, the length as well.\<close>

definition array_load_impl :: "array_op \<Rightarrow> tos_value \<Rightarrow> interp_frame \<Rightarrow> outcome option" where
  "array_load_impl f t fs = (case t of Int_Tos w \<Rightarrow> do {
       a \<leftarrow> rd fs (-2);
       let index = sint (low w);
       if low a = 0 then throw NullPointerException fs
       else do {
         arr \<leftarrow> if_heap fs (low a);
         if index < 0 \<or> index \<ge> int (ArrayLength arr) then throw (ArrayIndexOutOfBounds index (ArrayLength arr)) fs
         else do { d \<leftarrow> array_load f arr (nat index); next_insn d (fs\<lparr>if_sp := if_sp fs - 1\<rparr>) }
       }
     } | _ \<Rightarrow> None)"

definition array_store_int :: "array_op \<Rightarrow> u64 \<Rightarrow> jarray \<Rightarrow> nat \<Rightarrow> jarray option" where
  "array_store_int f w arr i = (case f of
     int_op \<Rightarrow> (case arr of Int_Array xs \<Rightarrow> Some (Int_Array (xs[i := low w])) | _ \<Rightarrow> None)
   | long_op \<Rightarrow> (case arr of Long_Array xs \<Rightarrow> Some (Long_Array (xs[i := w])) | _ \<Rightarrow> None)
   | reference_op \<Rightarrow> (case arr of Reference_Array xs \<Rightarrow> Some (Reference_Array (xs[i := low w])) | _ \<Rightarrow> None)
   | byte_op \<Rightarrow> (case arr of Byte_Array xs \<Rightarrow> Some (Byte_Array (xs[i := ucast w])) | _ \<Rightarrow> None)
   | short_op \<Rightarrow> (case arr of Short_Array xs \<Rightarrow> Some (Short_Array (xs[i := ucast w])) | _ \<Rightarrow> None)
   | char_op \<Rightarrow> (case arr of Char_Array xs \<Rightarrow> Some (Char_Array (xs[i := ucast w])) | _ \<Rightarrow> None)
   | _ \<Rightarrow> None)"

definition array_store :: "array_op \<Rightarrow> tos_value \<Rightarrow> jarray \<Rightarrow> nat \<Rightarrow> jarray option" where
  "array_store f t arr i = (case t of
     Int_Tos w \<Rightarrow> array_store_int f w arr i
   | Float_Tos x \<Rightarrow> (if f = float_op then case arr of Float_Array xs \<Rightarrow> Some (Float_Array (xs[i := x])) | _ \<Rightarrow> None else None)
   | Double_Tos w \<Rightarrow> (if f = double_op then case arr of Double_Array xs \<Rightarrow> Some (Double_Array (xs[i := w])) | _ \<Rightarrow> None else None)
   | No_Tos \<Rightarrow> None)"

text \<open>The macro \<^verbatim>\<open>ARRAY_STORE\<close> and \<^verbatim>\<open>aastore_impl_int\<close>, which spills the register before it raises and tests with
  \<^verbatim>\<open>instanceof\<close>, here a parameter, whether the array admits the value.\<close>

definition array_store_impl :: "(u32 \<Rightarrow> u32 \<Rightarrow> bool) \<Rightarrow> array_op \<Rightarrow> tos_value \<Rightarrow> interp_frame \<Rightarrow> outcome option" where
  "array_store_impl admits f t fs = do {
     a \<leftarrow> rd fs (-3);
     iw \<leftarrow> rd fs (-2);
     let index = sint (low iw);
     if low a = 0 then throw NullPointerException fs
     else do {
       arr \<leftarrow> if_heap fs (low a);
       fs' \<leftarrow> (if f = reference_op then spill t fs else Some fs);
       if index < 0 \<or> index \<ge> int (ArrayLength arr) then throw (ArrayIndexOutOfBounds index (ArrayLength arr)) fs'
       else if (case t of Int_Tos w \<Rightarrow> f = reference_op \<and> low w \<noteq> 0 \<and> \<not> admits (low a) (low w) | _ \<Rightarrow> False)
       then throw ArrayStoreException fs'
       else do {
         arr' \<leftarrow> array_store f t arr (nat index);
         next_insn D_Poly (fs\<lparr>if_heap := (if_heap fs)(low a \<mapsto> arr'), if_sp := if_sp fs - 3\<rparr>)
       }
     }
   }"

section \<open>Control flow\<close>

text \<open>\<^verbatim>\<open>FUEL_CHECK\<close>: the fuel is decremented; when it was 0 the register is spilled and the frame is suspended at the
  same instruction.\<close>

definition fuel_check :: "tos_value \<Rightarrow> interp_frame \<Rightarrow> (interp_frame \<Rightarrow> outcome option) \<Rightarrow> outcome option" where
  "fuel_check t fs k =
     (let fs' = fs\<lparr>if_fuel := if_fuel fs - 1\<rparr> in
      if if_fuel fs = 0 then (case t of No_Tos \<Rightarrow> Some (Suspend (spill_void fs')) | _ \<Rightarrow> map_option Suspend (spill t fs'))
      else k fs')"

text \<open>The target of a jump is relative to the instruction; the member \<open>delta\<close> holds it scaled by the size of an
  instruction, here it counts instructions.\<close>

definition goto_impl :: "int \<Rightarrow> tos_value \<Rightarrow> interp_frame \<Rightarrow> outcome option" where
  "goto_impl delta t fs = fuel_check t fs (\<lambda>fs. Some (Jump (fs\<lparr>if_pc := if_pc fs + delta\<rparr>)
     (case t of No_Tos \<Rightarrow> D_Void | Int_Tos w \<Rightarrow> D_Int w | Float_Tos x \<Rightarrow> D_Float x | Double_Tos w \<Rightarrow> D_Double w)))"

datatype cond = Eq | Ne | Lt | Ge | Gt | Le

fun holds :: "cond \<Rightarrow> int \<Rightarrow> int \<Rightarrow> bool" where
  "holds Eq a b = (a = b)"
| "holds Ne a b = (a \<noteq> b)"
| "holds Lt a b = (a < b)"
| "holds Ge a b = (a \<ge> b)"
| "holds Gt a b = (a > b)"
| "holds Le a b = (a \<le> b)"

text \<open>The macro \<^verbatim>\<open>MAKE_INT_BRANCH_AGAINST_0\<close>, also of \<^verbatim>\<open>ifnull\<close> and \<^verbatim>\<open>ifnonnull\<close>.\<close>

definition int_branch_against_0 :: "cond \<Rightarrow> int \<Rightarrow> tos_value \<Rightarrow> interp_frame \<Rightarrow> outcome option" where
  "int_branch_against_0 c delta t fs = (case t of Int_Tos w \<Rightarrow> fuel_check t fs (\<lambda>fs.
       let offset = (if holds c (sint (low w)) 0 then delta else 1) in
       Some (Jump (fs\<lparr>if_pc := if_pc fs + offset, if_sp := if_sp fs - 1\<rparr>) D_Poly))
     | _ \<Rightarrow> None)"

definition int_branch :: "cond \<Rightarrow> int \<Rightarrow> tos_value \<Rightarrow> interp_frame \<Rightarrow> outcome option" where
  "int_branch c delta t fs = (case t of Int_Tos b \<Rightarrow> fuel_check t fs (\<lambda>fs. do {
       a \<leftarrow> rd fs (-2);
       let offset = (if holds c (sint (low a)) (sint (low b)) then delta else 1);
       Some (Jump (fs\<lparr>if_pc := if_pc fs + offset, if_sp := if_sp fs - 2\<rparr>) D_Poly)
     })
     | _ \<Rightarrow> None)"

text \<open>\<^verbatim>\<open>if_acmpeq\<close> and \<^verbatim>\<open>if_acmpne\<close> compare two pointers.\<close>

definition if_acmp :: "bool \<Rightarrow> int \<Rightarrow> tos_value \<Rightarrow> interp_frame \<Rightarrow> outcome option" where
  "if_acmp eq delta t fs = (case t of Int_Tos b \<Rightarrow> fuel_check t fs (\<lambda>fs. do {
       a \<leftarrow> rd fs (-2);
       let offset = (if (low a = low b) = eq then delta else 1);
       Some (Jump (fs\<lparr>if_pc := if_pc fs + offset, if_sp := if_sp fs - 2\<rparr>) D_Poly)
     })
     | _ \<Rightarrow> None)"

definition tableswitch_impl :: "int \<Rightarrow> int \<Rightarrow> int \<Rightarrow> int list \<Rightarrow> tos_value \<Rightarrow> interp_frame \<Rightarrow> outcome option" where
  "tableswitch_impl lo hi dflt offsets t fs = (case t of Int_Tos w \<Rightarrow> do {
       let index = sint (low w);
       delta \<leftarrow> (if index < lo \<or> index > hi then Some (dflt - 1 - if_pc fs)
                else if nat (index - lo) < length offsets then Some (offsets ! nat (index - lo) - 1 - if_pc fs) else None);
       next_insn D_Poly (fs\<lparr>if_pc := if_pc fs + delta, if_sp := if_sp fs - 1\<rparr>)
     } | _ \<Rightarrow> None)"

fun find_key :: "int \<Rightarrow> (int \<times> int) list \<Rightarrow> int option" where
  "find_key key [] = None"
| "find_key key ((k, target) # rest) = (if k = key then Some target else find_key key rest)"

definition lookupswitch_impl :: "int \<Rightarrow> (int \<times> int) list \<Rightarrow> tos_value \<Rightarrow> interp_frame \<Rightarrow> outcome option" where
  "lookupswitch_impl dflt pairs t fs = (case t of Int_Tos w \<Rightarrow>
       (let delta = (case find_key (sint (low w)) pairs of Some target \<Rightarrow> target - 1 - if_pc fs | None \<Rightarrow> dflt - 1 - if_pc fs) in
        next_insn D_Poly (fs\<lparr>if_pc := if_pc fs + delta, if_sp := if_sp fs - 1\<rparr>))
     | _ \<Rightarrow> None)"

datatype return_op = return_void | areturn | ireturn | lreturn | freturn | dreturn

definition return_impl :: "return_op \<Rightarrow> tos_value \<Rightarrow> interp_frame \<Rightarrow> outcome option" where
  "return_impl f t fs = (case f of
     return_void \<Rightarrow> forward_to_nullary (\<lambda>fs. Some (Finished 0 (spill_void fs))) t fs
   | areturn \<Rightarrow> (case t of Int_Tos w \<Rightarrow> map_option (Finished (zext (low w))) (spill t fs) | _ \<Rightarrow> None)
   | ireturn \<Rightarrow> (case t of Int_Tos w \<Rightarrow> map_option (Finished (sext (low w))) (spill t fs) | _ \<Rightarrow> None)
   | lreturn \<Rightarrow> (case t of Int_Tos w \<Rightarrow> map_option (Finished w) (spill t fs) | _ \<Rightarrow> None)
   | freturn \<Rightarrow> (case t of Float_Tos x \<Rightarrow> map_option (Finished (zext x)) (spill t fs) | _ \<Rightarrow> None)
   | dreturn \<Rightarrow> (case t of Double_Tos w \<Rightarrow> map_option (Finished w) (spill t fs) | _ \<Rightarrow> None))"

definition athrow_impl :: "tos_value \<Rightarrow> interp_frame \<Rightarrow> outcome option" where
  "athrow_impl t fs = (case t of Int_Tos w \<Rightarrow> do {
       fs' \<leftarrow> spill t fs;
       if w = 0 then throw NullPointerException fs' else Some (Exception (Thrown (low w)) fs')
     } | _ \<Rightarrow> None)"

section \<open>Locals and constants\<close>

datatype local_op = local_int | local_float | local_double | local_long | local_reference

fun local_value :: "local_op \<Rightarrow> u64 \<Rightarrow> dispatch" where
  "local_value local_int w = D_Int (sext (low w))"
| "local_value local_float w = D_Float (low w)"
| "local_value local_double w = D_Double w"
| "local_value local_long w = D_Int w"
| "local_value local_reference w = D_Int (zext (low w))"

definition get_local :: "interp_frame \<Rightarrow> nat \<Rightarrow> u64 option" where
  "get_local fs i = (if i < length (if_locals fs) then Some (if_locals fs ! i) else None)"

definition load_impl :: "local_op \<Rightarrow> nat \<Rightarrow> tos_value \<Rightarrow> interp_frame \<Rightarrow> outcome option" where
  "load_impl f i = forward_to_nullary (\<lambda>fs. do {
     w \<leftarrow> get_local fs i;
     next_insn (local_value f w) (fs\<lparr>if_sp := if_sp fs + 1\<rparr>)
   })"

definition store_value :: "local_op \<Rightarrow> tos_value \<Rightarrow> u64 \<Rightarrow> u64 option" where
  "store_value f t old = (case f of
     local_int \<Rightarrow> (case t of Int_Tos w \<Rightarrow> Some (set_low old (low w)) | _ \<Rightarrow> None)
   | local_float \<Rightarrow> (case t of Float_Tos x \<Rightarrow> Some (set_low old x) | _ \<Rightarrow> None)
   | local_double \<Rightarrow> (case t of Double_Tos w \<Rightarrow> Some w | _ \<Rightarrow> None)
   | local_long \<Rightarrow> (case t of Int_Tos w \<Rightarrow> Some w | _ \<Rightarrow> None)
   | local_reference \<Rightarrow> (case t of Int_Tos w \<Rightarrow> Some (set_low old (low w)) | _ \<Rightarrow> None))"

definition store_impl :: "local_op \<Rightarrow> nat \<Rightarrow> tos_value \<Rightarrow> interp_frame \<Rightarrow> outcome option" where
  "store_impl f i t fs = do {
     old \<leftarrow> get_local fs i;
     w \<leftarrow> store_value f t old;
     next_insn D_Poly (fs\<lparr>if_locals := (if_locals fs)[i := w], if_sp := if_sp fs - 1\<rparr>)
   }"

definition keep_tos :: "tos_value \<Rightarrow> dispatch" where
  "keep_tos t = (case t of No_Tos \<Rightarrow> D_Void | Int_Tos w \<Rightarrow> D_Int w | Float_Tos x \<Rightarrow> D_Float x | Double_Tos w \<Rightarrow> D_Double w)"

definition iinc_impl :: "nat \<Rightarrow> u32 \<Rightarrow> tos_value \<Rightarrow> interp_frame \<Rightarrow> outcome option" where
  "iinc_impl i c t fs = do {
     w \<leftarrow> get_local fs i;
     next_insn (keep_tos t) (fs\<lparr>if_locals := (if_locals fs)[i := set_low w (low w + c)]\<rparr>)
   }"

definition const_impl :: "dispatch \<Rightarrow> tos_value \<Rightarrow> interp_frame \<Rightarrow> outcome option" where
  "const_impl d = forward_to_nullary (\<lambda>fs. next_insn d (fs\<lparr>if_sp := if_sp fs + 1\<rparr>))"

section \<open>Stack manipulation\<close>

definition pop_impl :: "nat \<Rightarrow> tos_value \<Rightarrow> interp_frame \<Rightarrow> outcome option" where
  "pop_impl n = forward_to_nullary (\<lambda>fs. if if_sp fs < n then None else next_insn D_Poly (fs\<lparr>if_sp := if_sp fs - n\<rparr>))"

definition swap_impl :: "tos_value \<Rightarrow> interp_frame \<Rightarrow> outcome option" where
  "swap_impl = forward_to_nullary (\<lambda>fs. do {
     tmp \<leftarrow> rd fs (-1);
     val2 \<leftarrow> rd fs (-2);
     fs \<leftarrow> wr fs (-1) val2;
     fs \<leftarrow> wr fs (-2) tmp;
     next_insn D_Poly fs
   })"

definition nop_impl :: "tos_value \<Rightarrow> interp_frame \<Rightarrow> outcome option" where
  "nop_impl t fs = next_insn (keep_tos t) fs"

definition dup_impl :: "tos_value \<Rightarrow> interp_frame \<Rightarrow> outcome option" where
  "dup_impl t fs = (case t of No_Tos \<Rightarrow> None
   | Float_Tos x \<Rightarrow> do { old \<leftarrow> rd fs (-1); fs \<leftarrow> wr fs (-1) (set_low old x); next_insn (D_Float x) (fs\<lparr>if_sp := if_sp fs + 1\<rparr>) }
   | Int_Tos w \<Rightarrow> do { fs \<leftarrow> wr fs (-1) w; next_insn (D_Int w) (fs\<lparr>if_sp := if_sp fs + 1\<rparr>) }
   | Double_Tos w \<Rightarrow> do { fs \<leftarrow> wr fs (-1) w; next_insn (D_Double w) (fs\<lparr>if_sp := if_sp fs + 1\<rparr>) })"

text \<open>\<^verbatim>\<open>dup2_impl_float\<close> and \<^verbatim>\<open>dup2_impl_double\<close> go on with \<^verbatim>\<open>NEXT_INT(tos)\<close>, which converts the number to \<^verbatim>\<open>s64\<close>;
  the conversion is a parameter.\<close>

definition dup2_impl :: "(tos_value \<Rightarrow> u64) \<Rightarrow> tos_value \<Rightarrow> interp_frame \<Rightarrow> outcome option" where
  "dup2_impl to_s64 t fs = do {
     val2 \<leftarrow> rd fs (-2);
     fs \<leftarrow> (case t of No_Tos \<Rightarrow> None | Int_Tos w \<Rightarrow> wr fs (-1) w | Double_Tos w \<Rightarrow> wr fs (-1) w
            | Float_Tos x \<Rightarrow> do { old \<leftarrow> rd fs (-1); wr fs (-1) (set_low old x) });
     fs \<leftarrow> wr fs 0 val2;
     next_insn (D_Int (case t of Int_Tos w \<Rightarrow> w | _ \<Rightarrow> to_s64 t)) (fs\<lparr>if_sp := if_sp fs + 2\<rparr>)
   }"

definition dup_x1_impl :: "tos_value \<Rightarrow> interp_frame \<Rightarrow> outcome option" where
  "dup_x1_impl = forward_to_nullary (\<lambda>fs. do {
     val1 \<leftarrow> rd fs (-1);
     val2 \<leftarrow> rd fs (-2);
     fs \<leftarrow> wr fs (-2) val1;
     fs \<leftarrow> wr fs (-1) val2;
     fs \<leftarrow> wr fs 0 val1;
     next_insn D_Poly (fs\<lparr>if_sp := if_sp fs + 1\<rparr>)
   })"

definition dup_x2_impl :: "tos_value \<Rightarrow> interp_frame \<Rightarrow> outcome option" where
  "dup_x2_impl = forward_to_nullary (\<lambda>fs. do {
     val1 \<leftarrow> rd fs (-1);
     val2 \<leftarrow> rd fs (-2);
     val3 \<leftarrow> rd fs (-3);
     fs \<leftarrow> wr fs (-3) val1;
     fs \<leftarrow> wr fs (-2) val3;
     fs \<leftarrow> wr fs (-1) val2;
     fs \<leftarrow> wr fs 0 val1;
     next_insn D_Poly (fs\<lparr>if_sp := if_sp fs + 1\<rparr>)
   })"

definition dup2_x1_impl :: "tos_value \<Rightarrow> interp_frame \<Rightarrow> outcome option" where
  "dup2_x1_impl = forward_to_nullary (\<lambda>fs. do {
     val1 \<leftarrow> rd fs (-1);
     val2 \<leftarrow> rd fs (-2);
     val3 \<leftarrow> rd fs (-3);
     fs \<leftarrow> wr fs (-3) val2;
     fs \<leftarrow> wr fs (-2) val1;
     fs \<leftarrow> wr fs (-1) val3;
     fs \<leftarrow> wr fs 0 val2;
     fs \<leftarrow> wr fs 1 val1;
     next_insn D_Poly (fs\<lparr>if_sp := if_sp fs + 2\<rparr>)
   })"

definition dup2_x2_impl :: "tos_value \<Rightarrow> interp_frame \<Rightarrow> outcome option" where
  "dup2_x2_impl = forward_to_nullary (\<lambda>fs. do {
     val1 \<leftarrow> rd fs (-1);
     val2 \<leftarrow> rd fs (-2);
     val3 \<leftarrow> rd fs (-3);
     val4 \<leftarrow> rd fs (-4);
     fs \<leftarrow> wr fs (-4) val2;
     fs \<leftarrow> wr fs (-3) val1;
     fs \<leftarrow> wr fs (-2) val4;
     fs \<leftarrow> wr fs (-1) val3;
     fs \<leftarrow> wr fs 0 val2;
     fs \<leftarrow> wr fs 1 val1;
     next_insn D_Poly (fs\<lparr>if_sp := if_sp fs + 2\<rparr>)
   })"

section \<open>The jump tables\<close>

datatype insn = Int_Bin int_bin_op | Int_Un int_un_op | Division div_op | Lcmp
  | Arraylength | Array_Load array_op | Array_Store array_op
  | Goto int | If_Zero cond int | If_Null bool int | If_Icmp cond int | If_Acmp bool int
  | Table_Switch int int int "int list" | Lookup_Switch int "(int \<times> int) list"
  | Return_Op return_op | Athrow
  | Load_Local local_op nat | Store_Local local_op nat | Inc_Local nat u32
  | Aconst_null | Iconst u32 | Fconst u32 | Dconst u64 | Lconst u64
  | Pop | Pop2 | Swap | Nop | Dup | Dup2 | Dup_x1 | Dup_x2 | Dup2_x1 | Dup2_x2

text \<open>What the handlers take from elsewhere: the \<^verbatim>\<open>instanceof\<close> test of an array store and the conversion of a number
  in the register to \<^verbatim>\<open>s64\<close>.\<close>

record interp_env =
  ie_admits :: "u32 \<Rightarrow> u32 \<Rightarrow> bool"
  ie_to_s64 :: "tos_value \<Rightarrow> u64"

fun exec_insn :: "interp_env \<Rightarrow> insn \<Rightarrow> tos_value \<Rightarrow> interp_frame \<Rightarrow> outcome option" where
  "exec_insn env (Int_Bin f) = integer_bin_op f"
| "exec_insn env (Int_Un f) = integer_un_op f"
| "exec_insn env (Division f) = division f"
| "exec_insn env Lcmp = lcmp_impl"
| "exec_insn env Arraylength = arraylength_impl"
| "exec_insn env (Array_Load f) = array_load_impl f"
| "exec_insn env (Array_Store f) = array_store_impl (ie_admits env) f"
| "exec_insn env (Goto d) = goto_impl d"
| "exec_insn env (If_Zero c d) = int_branch_against_0 c d"
| "exec_insn env (If_Null eq d) = int_branch_against_0 (if eq then Eq else Ne) d"
| "exec_insn env (If_Icmp c d) = int_branch c d"
| "exec_insn env (If_Acmp eq d) = if_acmp eq d"
| "exec_insn env (Table_Switch lo hi dflt tgts) = tableswitch_impl lo hi dflt tgts"
| "exec_insn env (Lookup_Switch dflt pairs) = lookupswitch_impl dflt pairs"
| "exec_insn env (Return_Op f) = return_impl f"
| "exec_insn env Athrow = athrow_impl"
| "exec_insn env (Load_Local f i) = load_impl f i"
| "exec_insn env (Store_Local f i) = store_impl f i"
| "exec_insn env (Inc_Local i c) = iinc_impl i c"
| "exec_insn env Aconst_null = const_impl (D_Int 0)"
| "exec_insn env (Iconst x) = const_impl (D_Int (sext x))"
| "exec_insn env (Fconst x) = const_impl (D_Float x)"
| "exec_insn env (Dconst w) = const_impl (D_Double w)"
| "exec_insn env (Lconst w) = const_impl (D_Int w)"
| "exec_insn env Pop = pop_impl 1"
| "exec_insn env Pop2 = pop_impl 2"
| "exec_insn env Swap = swap_impl"
| "exec_insn env Nop = nop_impl"
| "exec_insn env Dup = dup_impl"
| "exec_insn env Dup2 = dup2_impl (ie_to_s64 env)"
| "exec_insn env Dup_x1 = dup_x1_impl"
| "exec_insn env Dup_x2 = dup_x2_impl"
| "exec_insn env Dup2_x1 = dup2_x1_impl"
| "exec_insn env Dup2_x2 = dup2_x2_impl"

text \<open>Entering the next instruction, whose \<^verbatim>\<open>tos_before\<close> the analysis has computed.\<close>

definition enter :: "reduced_tos_kind \<Rightarrow> dispatch \<Rightarrow> interp_frame \<Rightarrow> tos_value option" where
  "enter k d fs = (case d of D_Void \<Rightarrow> Some No_Tos | D_Int w \<Rightarrow> Some (Int_Tos w) | D_Float x \<Rightarrow> Some (Float_Tos x)
     | D_Double w \<Rightarrow> Some (Double_Tos w)
     | D_Poly \<Rightarrow> (case k of TOS_VOID \<Rightarrow> Some No_Tos
         | TOS_INT \<Rightarrow> map_option Int_Tos (rd fs (-1))
         | TOS_FLOAT \<Rightarrow> map_option (\<lambda>w. Float_Tos (low w)) (rd fs (-1))
         | TOS_DOUBLE \<Rightarrow> map_option Double_Tos (rd fs (-1))))"


end
