(* ===== verification/Interp_Refine.thy ===== *)
theory Interp_Refine
  imports Interp
begin

text \<open>
  The stack machine of the Java virtual machine specification for the instructions of \<open>Interp\<close>, on typed values of one
  slot each (the analysis has rewritten the instructions for wide values), and the proof that the interpreter's
  handlers implement it, with the instructions on which they do not as explicit exceptions.
\<close>

section \<open>The specification\<close>

datatype jval = JInt u32 | JLong u64 | JFloat u32 | JDouble u64 | JRef u32

record jstate =
  js_stack :: "jval list"
  js_locals :: "jval option list"
  js_pc :: int
  js_heap :: "u32 \<Rightarrow> jarray option"

datatype jresult = JNext jstate | JThrow java_exception | JReturn "jval option"

fun java_int :: "int_bin_op \<Rightarrow> u32 \<Rightarrow> u32 \<Rightarrow> u32 option" where
  "java_int iadd a b = Some (a + b)"
| "java_int isub a b = Some (a - b)"
| "java_int imul a b = Some (a * b)"
| "java_int iand a b = Some (a AND b)"
| "java_int ior a b = Some (a OR b)"
| "java_int ixor a b = Some (a XOR b)"
| "java_int ishl a b = Some (push_bit (unat b mod 32) a)"
| "java_int ishr a b = Some (word_of_int (sint a div 2 ^ (unat b mod 32)))"
| "java_int iushr a b = Some (a div 2 ^ (unat b mod 32))"
| "java_int _ a b = None"

fun java_long :: "int_bin_op \<Rightarrow> u64 \<Rightarrow> u64 \<Rightarrow> u64 option" where
  "java_long ladd a b = Some (a + b)"
| "java_long lsub a b = Some (a - b)"
| "java_long lmul a b = Some (a * b)"
| "java_long land a b = Some (a AND b)"
| "java_long lor a b = Some (a OR b)"
| "java_long lxor a b = Some (a XOR b)"
| "java_long _ a b = None"

fun java_long_shift :: "int_bin_op \<Rightarrow> u64 \<Rightarrow> u32 \<Rightarrow> u64 option" where
  "java_long_shift lshl a b = Some (push_bit (unat b mod 64) a)"
| "java_long_shift lshr a b = Some (word_of_int (sint a div 2 ^ (unat b mod 64)))"
| "java_long_shift lushr a b = Some (a div 2 ^ (unat b mod 64))"
| "java_long_shift _ a b = None"

definition java_bin :: "int_bin_op \<Rightarrow> jval \<Rightarrow> jval \<Rightarrow> jval option" where
  "java_bin f x y = (case x of
     JInt a \<Rightarrow> (case y of JInt b \<Rightarrow> map_option JInt (java_int f a b) | _ \<Rightarrow> None)
   | JLong a \<Rightarrow> (case y of JLong b \<Rightarrow> map_option JLong (java_long f a b) | JInt b \<Rightarrow> map_option JLong (java_long_shift f a b) | _ \<Rightarrow> None)
   | _ \<Rightarrow> None)"

definition java_un :: "int_un_op \<Rightarrow> jval \<Rightarrow> jval option" where
  "java_un f x = (case f of
     ineg \<Rightarrow> (case x of JInt a \<Rightarrow> Some (JInt (- a)) | _ \<Rightarrow> None)
   | lneg \<Rightarrow> (case x of JLong a \<Rightarrow> Some (JLong (- a)) | _ \<Rightarrow> None)
   | i2l \<Rightarrow> (case x of JInt a \<Rightarrow> Some (JLong (word_of_int (sint a))) | _ \<Rightarrow> None)
   | i2s \<Rightarrow> (case x of JInt a \<Rightarrow> Some (JInt (scast (ucast a :: u16))) | _ \<Rightarrow> None)
   | i2b \<Rightarrow> (case x of JInt a \<Rightarrow> Some (JInt (scast (ucast a :: u8))) | _ \<Rightarrow> None)
   | i2c \<Rightarrow> (case x of JInt a \<Rightarrow> Some (JInt (ucast (ucast a :: u16))) | _ \<Rightarrow> None)
   | l2i \<Rightarrow> (case x of JLong a \<Rightarrow> Some (JInt (ucast a)) | _ \<Rightarrow> None))"

text \<open>Division rounds towards zero, the remainder has the sign of the dividend, and the one overflowing
  quotient wraps around; the divisor zero raises.\<close>

definition java_div :: "div_op \<Rightarrow> jval \<Rightarrow> jval \<Rightarrow> (java_exception + jval) option" where
  "java_div f x y = (case (x, y) of
     (JInt a, JInt b) \<Rightarrow>
       if f \<noteq> idiv \<and> f \<noteq> irem then None else if b = 0 then Some (Inl ArithmeticException)
       else Some (Inr (JInt (if f = idiv then word_of_int (sint a sdiv sint b) else word_of_int (sint a smod sint b))))
   | (JLong a, JLong b) \<Rightarrow>
       if f \<noteq> ldiv \<and> f \<noteq> lrem then None else if b = 0 then Some (Inl ArithmeticException)
       else Some (Inr (JLong (if f = ldiv then word_of_int (sint a sdiv sint b) else word_of_int (sint a smod sint b))))
   | _ \<Rightarrow> None)"

definition java_array_get :: "array_op \<Rightarrow> jarray \<Rightarrow> nat \<Rightarrow> jval option" where
  "java_array_get f arr i = (case f of
     int_op \<Rightarrow> (case arr of Int_Array xs \<Rightarrow> Some (JInt (xs ! i)) | _ \<Rightarrow> None)
   | long_op \<Rightarrow> (case arr of Long_Array xs \<Rightarrow> Some (JLong (xs ! i)) | _ \<Rightarrow> None)
   | float_op \<Rightarrow> (case arr of Float_Array xs \<Rightarrow> Some (JFloat (xs ! i)) | _ \<Rightarrow> None)
   | double_op \<Rightarrow> (case arr of Double_Array xs \<Rightarrow> Some (JDouble (xs ! i)) | _ \<Rightarrow> None)
   | reference_op \<Rightarrow> (case arr of Reference_Array xs \<Rightarrow> Some (JRef (xs ! i)) | _ \<Rightarrow> None)
   | byte_op \<Rightarrow> (case arr of Byte_Array xs \<Rightarrow> Some (JInt (scast (xs ! i))) | _ \<Rightarrow> None)
   | short_op \<Rightarrow> (case arr of Short_Array xs \<Rightarrow> Some (JInt (scast (xs ! i))) | _ \<Rightarrow> None)
   | char_op \<Rightarrow> (case arr of Char_Array xs \<Rightarrow> Some (JInt (ucast (xs ! i))) | _ \<Rightarrow> None))"

definition java_array_put :: "array_op \<Rightarrow> jval \<Rightarrow> jarray \<Rightarrow> nat \<Rightarrow> jarray option" where
  "java_array_put f v arr i = (case v of
     JInt x \<Rightarrow> (case f of
         int_op \<Rightarrow> (case arr of Int_Array xs \<Rightarrow> Some (Int_Array (xs[i := x])) | _ \<Rightarrow> None)
       | byte_op \<Rightarrow> (case arr of Byte_Array xs \<Rightarrow> Some (Byte_Array (xs[i := ucast x])) | _ \<Rightarrow> None)
       | short_op \<Rightarrow> (case arr of Short_Array xs \<Rightarrow> Some (Short_Array (xs[i := ucast x])) | _ \<Rightarrow> None)
       | char_op \<Rightarrow> (case arr of Char_Array xs \<Rightarrow> Some (Char_Array (xs[i := ucast x])) | _ \<Rightarrow> None)
       | _ \<Rightarrow> None)
   | JLong x \<Rightarrow> (if f = long_op then case arr of Long_Array xs \<Rightarrow> Some (Long_Array (xs[i := x])) | _ \<Rightarrow> None else None)
   | JFloat x \<Rightarrow> (if f = float_op then case arr of Float_Array xs \<Rightarrow> Some (Float_Array (xs[i := x])) | _ \<Rightarrow> None else None)
   | JDouble x \<Rightarrow> (if f = double_op then case arr of Double_Array xs \<Rightarrow> Some (Double_Array (xs[i := x])) | _ \<Rightarrow> None else None)
   | JRef x \<Rightarrow> (if f = reference_op then case arr of Reference_Array xs \<Rightarrow> Some (Reference_Array (xs[i := x])) | _ \<Rightarrow> None else None))"

fun has_local_type :: "local_op \<Rightarrow> jval \<Rightarrow> bool" where
  "has_local_type f (JInt _) = (f = local_int)"
| "has_local_type f (JLong _) = (f = local_long)"
| "has_local_type f (JFloat _) = (f = local_float)"
| "has_local_type f (JDouble _) = (f = local_double)"
| "has_local_type f (JRef _) = (f = local_reference)"

fun has_return_type :: "return_op \<Rightarrow> jval \<Rightarrow> bool" where
  "has_return_type f (JInt _) = (f = ireturn)"
| "has_return_type f (JLong _) = (f = lreturn)"
| "has_return_type f (JFloat _) = (f = freturn)"
| "has_return_type f (JDouble _) = (f = dreturn)"
| "has_return_type f (JRef _) = (f = areturn)"

definition jnext :: "jstate \<Rightarrow> jval list \<Rightarrow> jresult" where
  "jnext s st = JNext (s\<lparr>js_stack := st, js_pc := js_pc s + 1\<rparr>)"

definition jjump :: "jstate \<Rightarrow> jval list \<Rightarrow> int \<Rightarrow> jresult" where
  "jjump s st target = JNext (s\<lparr>js_stack := st, js_pc := target\<rparr>)"

definition jbranch :: "jstate \<Rightarrow> jval list \<Rightarrow> bool \<Rightarrow> int \<Rightarrow> jresult" where
  "jbranch s st taken delta = jjump s st (if taken then js_pc s + delta else js_pc s + 1)"

definition jarray_access :: "jstate \<Rightarrow> u32 \<Rightarrow> u32 \<Rightarrow> (jarray \<Rightarrow> nat \<Rightarrow> jresult option) \<Rightarrow> jresult option" where
  "jarray_access s a i k =
     (if a = 0 then Some (JThrow NullPointerException)
      else case js_heap s a of None \<Rightarrow> None
      | Some arr \<Rightarrow> if sint i < 0 \<or> sint i \<ge> int (ArrayLength arr) then Some (JThrow (ArrayIndexOutOfBounds (sint i) (ArrayLength arr)))
          else k arr (nat (sint i)))"

fun jvm_step :: "interp_env \<Rightarrow> insn \<Rightarrow> jstate \<Rightarrow> jresult option" where
  "jvm_step env (Int_Bin f) s = (case js_stack s of y # x # st \<Rightarrow> map_option (\<lambda>v. jnext s (v # st)) (java_bin f x y) | _ \<Rightarrow> None)"
| "jvm_step env (Int_Un f) s = (case js_stack s of x # st \<Rightarrow> map_option (\<lambda>v. jnext s (v # st)) (java_un f x) | _ \<Rightarrow> None)"
| "jvm_step env (Division f) s = (case js_stack s of
     y # x # st \<Rightarrow> map_option (\<lambda>r. case r of Inl e \<Rightarrow> JThrow e | Inr v \<Rightarrow> jnext s (v # st)) (java_div f x y) | _ \<Rightarrow> None)"
| "jvm_step env Lcmp s = (case js_stack s of
     JLong b # JLong a # st \<Rightarrow> Some (jnext s (JInt (if sint a > sint b then 1 else if sint a < sint b then -1 else 0) # st)) | _ \<Rightarrow> None)"
| "jvm_step env Arraylength s = (case js_stack s of
     JRef a # st \<Rightarrow> if a = 0 then Some (JThrow NullPointerException)
       else map_option (\<lambda>arr. jnext s (JInt (of_nat (ArrayLength arr)) # st)) (js_heap s a) | _ \<Rightarrow> None)"
| "jvm_step env (Array_Load f) s = (case js_stack s of
     JInt i # JRef a # st \<Rightarrow> jarray_access s a i (\<lambda>arr n. map_option (\<lambda>v. jnext s (v # st)) (java_array_get f arr n)) | _ \<Rightarrow> None)"
| "jvm_step env (Array_Store f) s = (case js_stack s of
     v # JInt i # JRef a # st \<Rightarrow> jarray_access s a i (\<lambda>arr n. case java_array_put f v arr n of None \<Rightarrow> None
       | Some arr' \<Rightarrow> if (\<exists>x. v = JRef x \<and> x \<noteq> 0 \<and> \<not> ie_admits env a x) then Some (JThrow ArrayStoreException)
           else Some (jnext (s\<lparr>js_heap := (js_heap s)(a \<mapsto> arr')\<rparr>) st)) | _ \<Rightarrow> None)"
| "jvm_step env (Goto d) s = Some (jjump s (js_stack s) (js_pc s + d))"
| "jvm_step env (If_Zero c d) s = (case js_stack s of JInt x # st \<Rightarrow> Some (jbranch s st (holds c (sint x) 0) d) | _ \<Rightarrow> None)"
| "jvm_step env (If_Null eq d) s = (case js_stack s of JRef x # st \<Rightarrow> Some (jbranch s st ((x = 0) = eq) d) | _ \<Rightarrow> None)"
| "jvm_step env (If_Icmp c d) s = (case js_stack s of JInt b # JInt a # st \<Rightarrow> Some (jbranch s st (holds c (sint a) (sint b)) d) | _ \<Rightarrow> None)"
| "jvm_step env (If_Acmp eq d) s = (case js_stack s of JRef b # JRef a # st \<Rightarrow> Some (jbranch s st ((a = b) = eq) d) | _ \<Rightarrow> None)"
| "jvm_step env (Table_Switch lo hi dflt tgts) s = (case js_stack s of JInt x # st \<Rightarrow>
       if sint x < lo \<or> sint x > hi then Some (jjump s st dflt)
       else if nat (sint x - lo) < length tgts then Some (jjump s st (tgts ! nat (sint x - lo))) else None | _ \<Rightarrow> None)"
| "jvm_step env (Lookup_Switch dflt pairs) s = (case js_stack s of JInt x # st \<Rightarrow>
       Some (jjump s st (case map_of pairs (sint x) of Some t \<Rightarrow> t | None \<Rightarrow> dflt)) | _ \<Rightarrow> None)"
| "jvm_step env (Return_Op f) s = (if f = return_void then Some (JReturn None)
     else case js_stack s of v # st \<Rightarrow> if has_return_type f v then Some (JReturn (Some v)) else None | _ \<Rightarrow> None)"
| "jvm_step env Athrow s = (case js_stack s of JRef x # st \<Rightarrow> Some (JThrow (if x = 0 then NullPointerException else Thrown x)) | _ \<Rightarrow> None)"
| "jvm_step env (Load_Local f i) s =
     (if i < length (js_locals s) then case js_locals s ! i of
        Some v \<Rightarrow> if has_local_type f v then Some (jnext s (v # js_stack s)) else None | None \<Rightarrow> None else None)"
| "jvm_step env (Store_Local f i) s = (case js_stack s of
     v # st \<Rightarrow> if i < length (js_locals s) \<and> has_local_type f v then Some (jnext (s\<lparr>js_locals := (js_locals s)[i := Some v]\<rparr>) st) else None
     | _ \<Rightarrow> None)"
| "jvm_step env (Inc_Local i c) s =
     (if i < length (js_locals s) then case js_locals s ! i of
        Some (JInt x) \<Rightarrow> Some (jnext (s\<lparr>js_locals := (js_locals s)[i := Some (JInt (x + c))]\<rparr>) (js_stack s)) | _ \<Rightarrow> None else None)"
| "jvm_step env Aconst_null s = Some (jnext s (JRef 0 # js_stack s))"
| "jvm_step env (Iconst x) s = Some (jnext s (JInt x # js_stack s))"
| "jvm_step env (Fconst x) s = Some (jnext s (JFloat x # js_stack s))"
| "jvm_step env (Dconst x) s = Some (jnext s (JDouble x # js_stack s))"
| "jvm_step env (Lconst x) s = Some (jnext s (JLong x # js_stack s))"
| "jvm_step env Pop s = (case js_stack s of a # st \<Rightarrow> Some (jnext s st) | _ \<Rightarrow> None)"
| "jvm_step env Pop2 s = (case js_stack s of a # b # st \<Rightarrow> Some (jnext s st) | _ \<Rightarrow> None)"
| "jvm_step env Swap s = (case js_stack s of a # b # st \<Rightarrow> Some (jnext s (b # a # st)) | _ \<Rightarrow> None)"
| "jvm_step env Nop s = Some (jnext s (js_stack s))"
| "jvm_step env Dup s = (case js_stack s of a # st \<Rightarrow> Some (jnext s (a # a # st)) | _ \<Rightarrow> None)"
| "jvm_step env Dup2 s = (case js_stack s of a # b # st \<Rightarrow> Some (jnext s (a # b # a # b # st)) | _ \<Rightarrow> None)"
| "jvm_step env Dup_x1 s = (case js_stack s of a # b # st \<Rightarrow> Some (jnext s (a # b # a # st)) | _ \<Rightarrow> None)"
| "jvm_step env Dup_x2 s = (case js_stack s of a # b # c # st \<Rightarrow> Some (jnext s (a # b # c # a # st)) | _ \<Rightarrow> None)"
| "jvm_step env Dup2_x1 s = (case js_stack s of a # b # c # st \<Rightarrow> Some (jnext s (a # b # c # a # b # st)) | _ \<Rightarrow> None)"
| "jvm_step env Dup2_x2 s = (case js_stack s of a # b # c # d # st \<Rightarrow> Some (jnext s (a # b # c # d # a # b # st)) | _ \<Rightarrow> None)"

section \<open>The representation\<close>

fun slot_rel :: "jval \<Rightarrow> u64 \<Rightarrow> bool" where
  "slot_rel (JInt x) w = (w = sext x)"
| "slot_rel (JLong x) w = (w = x)"
| "slot_rel (JFloat x) w = (low w = x)"
| "slot_rel (JDouble x) w = (w = x)"
| "slot_rel (JRef x) w = (w = zext x)"

fun tos_rel :: "jval \<Rightarrow> tos_value \<Rightarrow> bool" where
  "tos_rel (JInt x) t = (t = Int_Tos (sext x))"
| "tos_rel (JLong x) t = (t = Int_Tos x)"
| "tos_rel (JFloat x) t = (t = Float_Tos x)"
| "tos_rel (JDouble x) t = (t = Double_Tos x)"
| "tos_rel (JRef x) t = (t = Int_Tos (zext x))"

fun local_rel :: "jval option \<Rightarrow> u64 \<Rightarrow> bool" where
  "local_rel None w = True"
| "local_rel (Some (JInt x)) w = (low w = x)"
| "local_rel (Some (JLong x)) w = (w = x)"
| "local_rel (Some (JFloat x)) w = (low w = x)"
| "local_rel (Some (JDouble x)) w = (w = x)"
| "local_rel (Some (JRef x)) w = (low w = x)"

text \<open>The values \<open>vs\<close>, top first, are in the slots below \<open>n\<close>.\<close>

fun mem_rel :: "jval list \<Rightarrow> u64 list \<Rightarrow> nat \<Rightarrow> bool" where
  "mem_rel [] ws n = (n = 0)"
| "mem_rel (v # vs) ws n = (\<exists>m. n = Suc m \<and> m < length ws \<and> slot_rel v (ws ! m) \<and> mem_rel vs ws m)"

fun stack_rel :: "jval list \<Rightarrow> u64 list \<Rightarrow> nat \<Rightarrow> tos_value \<Rightarrow> bool" where
  "stack_rel [] ws n t = (n = 0 \<and> t = No_Tos)"
| "stack_rel (v # vs) ws n t = (\<exists>m. n = Suc m \<and> m < length ws \<and> tos_rel v t \<and> mem_rel vs ws m)"

definition rest_rel :: "jstate \<Rightarrow> interp_frame \<Rightarrow> bool" where
  "rest_rel s fs \<longleftrightarrow> js_pc s = if_pc fs \<and> js_heap s = if_heap fs \<and> list_all2 local_rel (js_locals s) (if_locals fs)"

definition state_rel :: "jstate \<Rightarrow> interp_frame \<Rightarrow> tos_value \<Rightarrow> bool" where
  "state_rel s fs t \<longleftrightarrow> rest_rel s fs \<and> stack_rel (js_stack s) (if_stack fs) (if_sp fs) t"

text \<open>All values in memory, as at a suspension.\<close>

definition spilled_rel :: "jstate \<Rightarrow> interp_frame \<Rightarrow> bool" where
  "spilled_rel s fs \<longleftrightarrow> rest_rel s fs \<and> mem_rel (js_stack s) (if_stack fs) (if_sp fs)"

fun value_kind :: "jval \<Rightarrow> type_kind" where
  "value_kind (JInt _) = TYPE_KIND_INT"
| "value_kind (JLong _) = TYPE_KIND_LONG"
| "value_kind (JFloat _) = TYPE_KIND_FLOAT"
| "value_kind (JDouble _) = TYPE_KIND_DOUBLE"
| "value_kind (JRef _) = TYPE_KIND_REFERENCE"

text \<open>The kind of the register before an instruction, as \<open>calculate_tos_type\<close> of the analysis computes it from the
  types of the stack.\<close>

definition tos_kind :: "jval list \<Rightarrow> reduced_tos_kind" where
  "tos_kind vs = (case vs of [] \<Rightarrow> TOS_VOID | v # _ \<Rightarrow> the (reduce_tos (value_kind v)))"
section \<open>Word facts\<close>

lemma low_sext [simp]: "ucast (scast (x :: u32) :: u64) = x"
proof (rule bit_word_eqI)
  fix n assume "n < LENGTH(32)"
  then show "bit (ucast (scast x :: u64) :: u32) n = bit x n"
    by (cases "n = 31") (simp_all add: bit_simps min_def)
qed

lemma low_zext [simp]: "ucast (ucast (x :: u32) :: u64) = x"
  by (rule bit_word_eqI) (simp add: bit_simps)

lemma low_set_low [simp]: "ucast (set_low w x) = x"
proof (rule bit_word_eqI)
  fix n assume "n < LENGTH(32)"
  moreover have "\<not> bit (0xFFFFFFFF00000000 :: u64) n" if "n < 32" for n
  proof -
    have "(0xFFFFFFFF00000000 :: u64) = push_bit 32 0xFFFFFFFF" by (simp add: push_bit_eq_mult)
    with that show ?thesis by (simp only: bit_push_bit_iff) simp
  qed
  ultimately show "bit (ucast (set_low w x) :: u32) n = bit x n" by (simp add: set_low_def bit_simps)
qed

lemma scast_scast16 [simp]: "scast (scast (y :: u16) :: u32) = (scast y :: u64)"
  by (rule bit_word_eqI) (simp add: bit_simps min_def)

lemma scast_scast8 [simp]: "scast (scast (y :: u8) :: u32) = (scast y :: u64)"
  by (rule bit_word_eqI) (simp add: bit_simps min_def)

lemma scast_ucast16 [simp]: "scast (ucast (y :: u16) :: u32) = (ucast y :: u64)"
proof (rule bit_word_eqI)
  fix n assume "n < LENGTH(64)"
  moreover have "\<not> bit y k" if "16 \<le> k" for k using that bit_imp_le_length [of y k] by fastforce
  ultimately show "bit (scast (ucast y :: u32) :: u64) n = bit (ucast y :: u64) n" by (auto simp: bit_simps min_def)
qed

lemma ucast_sext16 [simp]: "ucast (scast (x :: u32) :: u64) = (ucast x :: u16)"
  by (rule bit_word_eqI) (simp add: bit_simps min_def)

lemma ucast_sext8 [simp]: "ucast (scast (x :: u32) :: u64) = (ucast x :: u8)"
  by (rule bit_word_eqI) (simp add: bit_simps min_def)

lemma shift_count: "unat ((scast (b :: u32) :: u64) AND 0x1f) = unat b mod 32" "unat ((scast (b :: u32) :: u64) AND 0x3f) = unat b mod 64"
proof -
  have "(scast b :: u64) AND mask n = ucast (b AND mask n)" if "n < 32" for n
    by (rule bit_word_eqI) (use that in \<open>auto simp: bit_simps min_def\<close>)
  then have "unat ((scast b :: u64) AND mask n) = unat (b AND mask n)" if "n < 32" for n
    using that unsigned_less [of "b AND mask n", where 'a = nat]
    by (simp add: unsigned_ucast_eq take_bit_nat_eq_self)
  moreover have "unat (b AND mask n) = unat b mod 2 ^ n" for n
  proof -
    have "unat (b AND mask n) = unat (take_bit n b)" by (simp only: take_bit_eq_mask)
    also have "\<dots> = take_bit n (unat b)" by (simp only: unsigned_take_bit_eq)
    finally show ?thesis by (simp only: take_bit_eq_mod)
  qed
  ultimately have "unat ((scast b :: u64) AND mask n) = unat b mod 2 ^ n" if "n < 32" for n
    using that by simp
  from this [of 5] this [of 6] show "unat ((scast b :: u64) AND 0x1f) = unat b mod 32" "unat ((scast b :: u64) AND 0x3f) = unat b mod 64"
    by (simp_all add: mask_eq_exp_minus_1)
qed

lemma signed_drop_bit_div: "signed_drop_bit n (a :: 'a::len word) = word_of_int (sint a div 2 ^ n)"
proof -
  have "sint (signed_drop_bit n a) = sint a div 2 ^ n" by (simp only: sint_signed_drop_bit_eq drop_bit_eq_div)
  then have "word_of_int (sint a div 2 ^ n) = (word_of_int (sint (signed_drop_bit n a)) :: 'a word)" by (simp only:)
  then show ?thesis by (simp only: scast_id of_int_sint)
qed

lemma ucast_eq_scast:
  assumes "0 \<le> sint (x :: u32)"
  shows "(ucast x :: u64) = scast x"
proof (rule bit_word_eqI)
  fix n assume n: "n < LENGTH(64)"
  have top: "\<not> bit x 31" using assms bit_last_iff [of x] by simp
  have "\<not> bit x k" if "32 \<le> k" for k using that bit_imp_le_length [of x k] by fastforce
  with n top show "bit (ucast x :: u64) n = bit (scast x :: u64) n"
    by (cases "n < 31") (auto simp: bit_simps min_def le_less dest: Suc_leI)
qed

lemma word_of_int_sint_scast: "word_of_int (sint (x :: u32)) = (scast x :: u64)"
  by simp

section \<open>Memory\<close>

lemma mem_rel_length: "mem_rel vs ws n \<Longrightarrow> n = length vs \<and> n \<le> length ws"
  by (induction vs arbitrary: n) (auto simp: less_eq_Suc_le)

lemma mem_rel_upd [simp]: "n \<le> i \<Longrightarrow> mem_rel vs (ws[i := w]) n = mem_rel vs ws n"
  by (induction vs arbitrary: n) (auto simp: nth_list_update)

lemma tos_rel_bits: "tos_rel v t \<Longrightarrow> \<exists>w. tos_bits t = Some w \<and> slot_rel v w"
  by (cases v) auto

lemma tos_rel_not_void: "tos_rel v t \<Longrightarrow> t \<noteq> No_Tos"
  by (cases v) auto

text \<open>Storing the register to memory.\<close>

lemma spilled_register:
  assumes "stack_rel vs (if_stack fs) (if_sp fs) t" "t \<noteq> No_Tos"
  obtains w where "tos_bits t = Some w" "wr fs (-1) w = Some (fs\<lparr>if_stack := (if_stack fs)[if_sp fs - 1 := w]\<rparr>)"
    "mem_rel vs ((if_stack fs)[if_sp fs - 1 := w]) (if_sp fs)"
proof (cases vs)
  case Nil
  with assms show thesis by simp
next
  case (Cons v st)
  from assms Cons obtain m where m: "if_sp fs = Suc m" "m < length (if_stack fs)" "tos_rel v t" "mem_rel st (if_stack fs) m" by auto
  from tos_rel_bits [OF m(3)] obtain w where w: "tos_bits t = Some w" "slot_rel v w" by blast
  show thesis
    by (rule that [OF w(1)]) (use m w(2) Cons in \<open>simp_all add: wr_def Let_def\<close>)
qed

text \<open>A handler for the empty register sees all values in memory.\<close>

lemma forward_to_nullary_spilled:
  assumes "state_rel s fs t"
  obtains ws where "forward_to_nullary impl t fs = impl (fs\<lparr>if_stack := ws\<rparr>)" "spilled_rel s (fs\<lparr>if_stack := ws\<rparr>)"
    "length ws = length (if_stack fs)"
proof (cases "t = No_Tos")
  case True
  with assms have "js_stack s = []" by (cases "js_stack s") (auto simp: state_rel_def dest: tos_rel_not_void)
  show thesis
    by (rule that [of "if_stack fs"]) (use assms True \<open>js_stack s = []\<close> in
      \<open>simp_all add: forward_to_nullary_def state_rel_def spilled_rel_def\<close>)
next
  case False
  from assms have st: "stack_rel (js_stack s) (if_stack fs) (if_sp fs) t" by (simp add: state_rel_def)
  from spilled_register [OF st False] obtain w where w: "tos_bits t = Some w"
    "wr fs (-1) w = Some (fs\<lparr>if_stack := (if_stack fs)[if_sp fs - 1 := w]\<rparr>)"
    "mem_rel (js_stack s) ((if_stack fs)[if_sp fs - 1 := w]) (if_sp fs)" .
  show thesis
  proof (rule that)
    show "forward_to_nullary impl t fs = impl (fs\<lparr>if_stack := (if_stack fs)[if_sp fs - 1 := w]\<rparr>)"
      using w(1,2) False by (cases t) (simp_all add: forward_to_nullary_def)
    show "spilled_rel s (fs\<lparr>if_stack := (if_stack fs)[if_sp fs - 1 := w]\<rparr>)"
      using assms w(3) by (simp add: state_rel_def spilled_rel_def rest_rel_def)
  qed simp
qed

text \<open>Reading the register back at the kind of the top value.\<close>

lemma enter_poly:
  assumes "spilled_rel s fs"
  shows "\<exists>t. enter (tos_kind (js_stack s)) D_Poly fs = Some t \<and> state_rel s fs t"
proof (cases "js_stack s")
  case Nil
  with assms show ?thesis by (simp add: enter_def tos_kind_def spilled_rel_def state_rel_def)
next
  case (Cons v st)
  with assms obtain m where m: "if_sp fs = Suc m" "m < length (if_stack fs)" "slot_rel v (if_stack fs ! m)" "mem_rel st (if_stack fs) m"
    "rest_rel s fs" by (auto simp: spilled_rel_def)
  then show ?thesis
    using Cons by (cases v) (simp_all add: enter_def tos_kind_def state_rel_def rd_def)
qed

section \<open>What the handlers promise\<close>

text \<open>A handler goes on with a register that represents the stack of the next state, or it suspends before the
  instruction (only when the fuel is used up), or it raises the same exception with the program counter saved, or it
  returns the same value.\<close>

fun outcome_rel :: "jstate \<Rightarrow> interp_frame \<Rightarrow> jresult \<Rightarrow> outcome \<Rightarrow> bool" where
  "outcome_rel s fs r (Jump fs' d) =
     (\<exists>s' t. r = JNext s' \<and> enter (tos_kind (js_stack s')) d fs' = Some t \<and> state_rel s' fs' t \<and> length (if_stack fs') = length (if_stack fs))"
| "outcome_rel s fs r (Suspend fs') = (if_fuel fs = 0 \<and> spilled_rel s fs' \<and> if_saved_pc fs' = js_pc s)"
| "outcome_rel s fs r (Exception e fs') = (r = JThrow e \<and> if_saved_pc fs' = js_pc s \<and> rest_rel s fs')"
| "outcome_rel s fs r (Finished w fs') = (\<exists>v. r = JReturn v \<and> (case v of None \<Rightarrow> True | Some v \<Rightarrow> slot_rel v w) \<and> rest_rel s fs')"

text \<open>The instructions and operands on which they do not: an arithmetic shift of a negative int, whose result is zero
  extended; the two quotients that overflow a \<^verbatim>\<open>long\<close> of 32 or 64 bits; \<^verbatim>\<open>dup2\<close> of a float or double.\<close>

definition defect :: "insn \<Rightarrow> jval list \<Rightarrow> bool" where
  "defect i st = (case i of
     Int_Bin ishr \<Rightarrow> (case st of _ # JInt a # _ \<Rightarrow> sint a < 0 | _ \<Rightarrow> False)
   | Division ldiv \<Rightarrow> (case st of JLong b # JLong a # _ \<Rightarrow> sint b = -1 \<and> (sint a = LONG_MIN \<or> sint a = LLONG_MIN) | _ \<Rightarrow> False)
   | Division lrem \<Rightarrow> (case st of JLong b # JLong a # _ \<Rightarrow> sint b = -1 \<and> sint a = LLONG_MIN | _ \<Rightarrow> False)
   | Dup2 \<Rightarrow> (case st of JFloat _ # _ \<Rightarrow> True | JDouble _ # _ \<Rightarrow> True | _ \<Rightarrow> False)
   | _ \<Rightarrow> False)"
definition room :: "interp_frame \<Rightarrow> jresult \<Rightarrow> bool" where
  "room fs r = (case r of JNext s \<Rightarrow> length (js_stack s) \<le> length (if_stack fs) | _ \<Rightarrow> True)"

definition implements :: "interp_env \<Rightarrow> insn \<Rightarrow> bool" where
  "implements env i \<longleftrightarrow> (\<forall>s fs t r. state_rel s fs t \<longrightarrow> jvm_step env i s = Some r \<longrightarrow> \<not> defect i (js_stack s) \<longrightarrow> room fs r \<longrightarrow>
     (\<exists>out. exec_insn env i t fs = Some out \<and> outcome_rel s fs r out))"

lemma implementsI:
  "(\<And>s fs t r. state_rel s fs t \<Longrightarrow> jvm_step env i s = Some r \<Longrightarrow> \<not> defect i (js_stack s) \<Longrightarrow> room fs r \<Longrightarrow>
     \<exists>out. exec_insn env i t fs = Some out \<and> outcome_rel s fs r out) \<Longrightarrow> implements env i"
  by (simp add: implements_def)

lemma enter_keep [simp]: "enter k (keep_tos t) fs = Some t"
  by (cases t) (simp_all add: enter_def keep_tos_def)

lemma enter_values [simp]: "enter k D_Void fs = Some No_Tos" "enter k (D_Int w) fs = Some (Int_Tos w)" "enter k (D_Float x) fs = Some (Float_Tos x)"
  "enter k (D_Double w) fs = Some (Double_Tos w)"
  by (simp_all add: enter_def)

lemma rd_nth: "0 \<le> int (if_sp fs) + k \<Longrightarrow> nat (int (if_sp fs) + k) < length (if_stack fs) \<Longrightarrow> rd fs k = Some (if_stack fs ! nat (int (if_sp fs) + k))"
  by (simp add: rd_def Let_def nat_less_iff)

lemma nat_1_plus [simp]: "nat (1 + int m) = Suc m" "nat (2 + int m) = Suc (Suc m)" "nat (3 + int m) = Suc (Suc (Suc m))"
  "nat (4 + int m) = Suc (Suc (Suc (Suc m)))" "nat (5 + int m) = Suc (Suc (Suc (Suc (Suc m))))"
  by simp_all

lemma int_slot_iff: "tos_rel v (Int_Tos w) \<longleftrightarrow> slot_rel v w \<and> (\<forall>x. v \<noteq> JFloat x) \<and> (\<forall>x. v \<noteq> JDouble x)"
  by (cases v) auto

lemma int_tos_rel: "tos_rel v t \<Longrightarrow> \<forall>x. v \<noteq> JFloat x \<Longrightarrow> \<forall>x. v \<noteq> JDouble x \<Longrightarrow> \<exists>w. t = Int_Tos w \<and> slot_rel v w"
  by (cases v) auto

section \<open>Arithmetic\<close>

lemma eval_bin_int:
  assumes "java_int f a b = Some v" "f = ishr \<longrightarrow> 0 \<le> sint a"
  shows "eval_bin f (scast a) (scast b) = scast v"
proof (cases "f = ishr")
  case True
  have "0 \<le> sint (signed_drop_bit (unat b mod 32) a)"
    using assms(2) True by (simp add: sint_signed_drop_bit_eq drop_bit_eq_div pos_imp_zdiv_nonneg_iff)
  with True assms show ?thesis by (simp add: shift_count ucast_eq_scast) (simp add: signed_drop_bit_div)
next
  case False
  with assms(1) show ?thesis
    by (cases f) (auto simp: shift_count drop_bit_eq_div)
qed

lemma eval_bin_long: "java_long f a b = Some v \<Longrightarrow> eval_bin f a b = v"
  by (cases f) auto

lemma eval_bin_long_shift: "java_long_shift f a b = Some v \<Longrightarrow> eval_bin f a (scast b) = v"
  by (cases f) (auto simp: shift_count drop_bit_eq_div signed_drop_bit_div)

lemma eval_bin_java:
  assumes "java_bin f x y = Some v" "slot_rel x a" "slot_rel y b" "f = ishr \<longrightarrow> (\<forall>k. x = JInt k \<longrightarrow> 0 \<le> sint k)"
  shows "tos_rel v (Int_Tos (eval_bin f a b))"
  using assms by (auto simp: java_bin_def eval_bin_int eval_bin_long eval_bin_long_shift split: jval.splits)

lemma eval_un_java: "java_un f x = Some v \<Longrightarrow> slot_rel x a \<Longrightarrow> tos_rel v (Int_Tos (eval_un f a))"
  by (cases f) (auto simp: java_un_def split: jval.splits)
text \<open>The next instruction, with a value in the register.\<close>

lemma outcome_value:
  assumes "rest_rel s fs" "mem_rel st (if_stack fs) m" "m < length (if_stack fs)" "tos_rel v t" "length (if_stack fs) = length (if_stack fs0)"
    "d = keep_tos t"
  shows "\<exists>out. next_insn d (fs\<lparr>if_sp := Suc m\<rparr>) = Some out \<and> outcome_rel s0 fs0 (jnext s (v # st)) out"
  using assms by (simp add: next_insn_def jnext_def state_rel_def rest_rel_def)

lemmas outcome_int = outcome_value [where t = "Int_Tos w" for w, unfolded keep_tos_def tos_value.case]

lemma implements_bin: "implements env (Int_Bin f)"
proof (rule implementsI)
  fix s fs t r
  assume sr: "state_rel s fs t" and step: "jvm_step env (Int_Bin f) s = Some r" and ok: "\<not> defect (Int_Bin f) (js_stack s)"
  from step obtain y x st v where st: "js_stack s = y # x # st" and v: "java_bin f x y = Some v" and r: "r = jnext s (v # st)"
    by (auto split: list.splits)
  from v have "(\<forall>k. y \<noteq> JFloat k) \<and> (\<forall>k. y \<noteq> JDouble k)" by (auto simp: java_bin_def split: jval.splits)
  with sr st obtain m b where m: "if_sp fs = Suc (Suc m)" "Suc m < length (if_stack fs)" "t = Int_Tos b" "slot_rel y b" "slot_rel x (if_stack fs ! m)"
      "mem_rel st (if_stack fs) m" "rest_rel s fs"
    by (auto simp: state_rel_def dest!: int_tos_rel)
  have "f = ishr \<longrightarrow> (\<forall>k. x = JInt k \<longrightarrow> 0 \<le> sint k)" using ok st by (auto simp: defect_def)
  with v m have "tos_rel v (Int_Tos (eval_bin f (if_stack fs ! m) b))" by (simp add: eval_bin_java)
  from outcome_int [OF m(7,6) _ this refl refl, of s] m(1-3) r show "\<exists>out. exec_insn env (Int_Bin f) t fs = Some out \<and> outcome_rel s fs r out"
    by (simp add: integer_bin_op_def rd_nth)
qed

lemma implements_un: "implements env (Int_Un f)"
proof (rule implementsI)
  fix s fs t r
  assume sr: "state_rel s fs t" and step: "jvm_step env (Int_Un f) s = Some r"
  from step obtain x st v where st: "js_stack s = x # st" and v: "java_un f x = Some v" and r: "r = jnext s (v # st)"
    by (auto split: list.splits)
  from v have "(\<forall>k. x \<noteq> JFloat k) \<and> (\<forall>k. x \<noteq> JDouble k)" by (cases f) (auto simp: java_un_def split: jval.splits)
  with sr st obtain m b where m: "if_sp fs = Suc m" "m < length (if_stack fs)" "t = Int_Tos b" "slot_rel x b" "mem_rel st (if_stack fs) m" "rest_rel s fs"
    by (auto simp: state_rel_def dest!: int_tos_rel)
  from eval_un_java [OF v m(4)] have "tos_rel v (Int_Tos (eval_un f b))" .
  moreover have "fs\<lparr>if_sp := Suc m\<rparr> = fs" using m(1) by (cases fs) simp
  ultimately show "\<exists>out. exec_insn env (Int_Un f) t fs = Some out \<and> outcome_rel s fs r out"
    using outcome_int [OF m(6,5,2) _ refl refl, of v "eval_un f b" s] m(3) r by (simp add: integer_un_op_def)
qed

lemma sdiv_by_minus_1: "(x::int) sdiv -1 = - x" "(x::int) smod -1 = 0" "(x::int) smod 1 = 0"
  by (simp_all add: signed_divide_int_def signed_modulo_int_def sgn_mult_abs)

lemma java_idiv_spec: "java_idiv a b = word_of_int (sint a sdiv sint b)" "java_irem a b = word_of_int (sint a smod sint b)"
  by (auto simp: java_idiv_def java_irem_def sdiv_by_minus_1)

lemma java_ldiv_spec:
  "\<not> (sint b = -1 \<and> (sint a = LONG_MIN \<or> sint a = LLONG_MIN)) \<Longrightarrow> java_ldiv a b = Some (word_of_int (sint a sdiv sint b))"
  "\<not> (sint b = -1 \<and> sint a = LLONG_MIN) \<Longrightarrow> java_lrem a b = Some (word_of_int (sint a smod sint b))"
  by (auto simp: java_ldiv_def java_lrem_def sdiv_by_minus_1)

lemma scast_eq_0_iff [simp]: "(scast (b :: u32) :: u64) = 0 \<longleftrightarrow> b = 0"
  by (metis low_sext signed_0 unsigned_0)

lemma zext_eq_0_iff: "(ucast (b :: u32) :: u64) = 0 \<longleftrightarrow> b = 0"
  by (metis low_zext unsigned_0)

lemma eval_div_java:
  assumes "java_div f x y = Some r" "slot_rel x a" "slot_rel y b"
    "\<not> defect (Division f) (y # x # st)"
  shows "(case r of Inl e \<Rightarrow> div_by_zero f b \<and> e = ArithmeticException
     | Inr v \<Rightarrow> \<not> div_by_zero f b \<and> (\<exists>w. eval_div f a b = Some w \<and> tos_rel v (Int_Tos w)))"
  using assms
  by (cases f) (auto simp: java_div_def java_idiv_spec java_ldiv_spec defect_def split: jval.splits if_splits)
lemma rest_rel_spill [simp]: "rest_rel s (fs\<lparr>if_stack := ws\<rparr>) = rest_rel s fs" "rest_rel s (fs\<lparr>if_saved_pc := k\<rparr>) = rest_rel s fs"
  "rest_rel s (fs\<lparr>if_fuel := u\<rparr>) = rest_rel s fs" "rest_rel s (fs\<lparr>if_sp := n\<rparr>) = rest_rel s fs"
  by (simp_all add: rest_rel_def)

text \<open>Spilling the register succeeds on a frame that represents a state with a nonempty stack.\<close>

lemma spill_ok:
  assumes "state_rel s fs t" "js_stack s \<noteq> []"
  obtains fs' where "spill t fs = Some fs'" "spilled_rel s fs'" "if_saved_pc fs' = js_pc s" "if_pc fs' = if_pc fs"
proof -
  from assms have st: "stack_rel (js_stack s) (if_stack fs) (if_sp fs) t" and rest: "rest_rel s fs" and t: "t \<noteq> No_Tos"
    by (auto simp: state_rel_def neq_Nil_conv dest: tos_rel_not_void)
  from spilled_register [OF st t] obtain w where w: "tos_bits t = Some w"
    "wr fs (-1) w = Some (fs\<lparr>if_stack := (if_stack fs)[if_sp fs - 1 := w]\<rparr>)"
    "mem_rel (js_stack s) ((if_stack fs)[if_sp fs - 1 := w]) (if_sp fs)" .
  have "nat (int (if_sp fs) - 1) = if_sp fs - Suc 0" by simp
  then show thesis
    by (intro that [of "fs\<lparr>if_saved_pc := if_pc fs, if_stack := (if_stack fs)[if_sp fs - 1 := w]\<rparr>"])
      (use w rest in \<open>auto simp: spill_def spill_void_def spilled_rel_def wr_def Let_def rest_rel_def split: if_splits\<close>)
qed

lemma outcome_throw:
  assumes "rest_rel s fs"
  shows "\<exists>out. throw e fs = Some out \<and> outcome_rel s fs0 (JThrow e) out"
  using assms by (simp add: throw_def spill_void_def rest_rel_def)

lemma implements_division: "implements env (Division f)"
proof (rule implementsI)
  fix s fs t r
  assume sr: "state_rel s fs t" and step: "jvm_step env (Division f) s = Some r" and ok: "\<not> defect (Division f) (js_stack s)"
  from step obtain y x st v where st: "js_stack s = y # x # st" and v: "java_div f x y = Some v"
    and r: "r = (case v of Inl e \<Rightarrow> JThrow e | Inr v \<Rightarrow> jnext s (v # st))"
    by (auto split: list.splits)
  from v have "(\<forall>k. y \<noteq> JFloat k) \<and> (\<forall>k. y \<noteq> JDouble k)" by (auto simp: java_div_def split: jval.splits)
  with sr st obtain m b where m: "if_sp fs = Suc (Suc m)" "Suc m < length (if_stack fs)" "t = Int_Tos b" "slot_rel y b" "slot_rel x (if_stack fs ! m)"
      "mem_rel st (if_stack fs) m" "rest_rel s fs"
    by (auto simp: state_rel_def dest!: int_tos_rel)
  note d = eval_div_java [OF v m(5,4) ok [unfolded st]]
  show "\<exists>out. exec_insn env (Division f) t fs = Some out \<and> outcome_rel s fs r out"
  proof (cases v)
    case (Inl e)
    from spill_ok [OF sr] st obtain fs' where fs': "spill t fs = Some fs'" "spilled_rel s fs'" by auto
    with outcome_throw [of s fs' ArithmeticException fs] Inl d m(1-3) r show ?thesis
      by (simp add: division_def rd_nth spilled_rel_def)
  next
    case (Inr u)
    with d obtain w where w: "eval_div f (if_stack fs ! m) b = Some w" "tos_rel u (Int_Tos w)" "\<not> div_by_zero f b" by auto
    from outcome_int [OF m(7,6) _ w(2) refl refl, of s] m(1-3) w(1,3) r Inr show ?thesis
      by (simp add: division_def rd_nth)
  qed
qed

lemma implements_lcmp: "implements env Lcmp"
proof (rule implementsI)
  fix s fs t r
  assume sr: "state_rel s fs t" and step: "jvm_step env Lcmp s = Some r"
  from step obtain a b st where st: "js_stack s = JLong b # JLong a # st"
    and r: "r = jnext s (JInt (if sint a > sint b then 1 else if sint a < sint b then -1 else 0) # st)"
    by (auto split: list.splits jval.splits)
  with sr obtain m where m: "if_sp fs = Suc (Suc m)" "Suc m < length (if_stack fs)" "t = Int_Tos b" "if_stack fs ! m = a"
      "mem_rel st (if_stack fs) m" "rest_rel s fs"
    by (auto simp: state_rel_def)
  have "tos_rel (JInt (if sint a > sint b then 1 else if sint a < sint b then -1 else 0))
    (Int_Tos (if sint a > sint b then 1 else if sint a < sint b then -1 else 0))" by simp
  from outcome_int [OF m(6,5) _ this refl refl, of s] m(1-4) r show "\<exists>out. exec_insn env Lcmp t fs = Some out \<and> outcome_rel s fs r out"
    by (simp add: lcmp_impl_def rd_nth)
qed

section \<open>Arrays\<close>

lemma implements_arraylength: "implements env Arraylength"
proof (rule implementsI)
  fix s fs t r
  assume sr: "state_rel s fs t" and step: "jvm_step env Arraylength s = Some r"
  from step obtain a st where st: "js_stack s = JRef a # st" by (auto split: list.splits jval.splits)
  with sr obtain m where m: "if_sp fs = Suc m" "m < length (if_stack fs)" "t = Int_Tos (ucast a)" "mem_rel st (if_stack fs) m" "rest_rel s fs"
    by (auto simp: state_rel_def)
  have fs: "fs\<lparr>if_sp := Suc m\<rparr> = fs" using m(1) by (cases fs) simp
  show "\<exists>out. exec_insn env Arraylength t fs = Some out \<and> outcome_rel s fs r out"
  proof (cases "a = 0")
    case True
    with step st m(3) outcome_throw [OF m(5), of NullPointerException fs] show ?thesis by (simp add: arraylength_impl_def)
  next
    case False
    with step st obtain arr where arr: "if_heap fs a = Some arr" "r = jnext s (JInt (of_nat (ArrayLength arr)) # st)"
      using m(5) by (auto simp: rest_rel_def)
    have "tos_rel (JInt (of_nat (ArrayLength arr))) (Int_Tos (scast (of_nat (ArrayLength arr) :: u32)))" by simp
    from outcome_int [OF m(5,4,2) this refl refl, of s] arr fs m(3) False show ?thesis
      by (simp add: arraylength_impl_def)
  qed
qed

lemma array_load_java: "java_array_get f arr i = Some v \<Longrightarrow> \<exists>t. array_load f arr i = Some (keep_tos t) \<and> tos_rel v t"
  by (cases f; cases arr) (auto simp: java_array_get_def array_load_def keep_tos_def split: tos_value.splits)

lemma implements_array_load: "implements env (Array_Load f)"
proof (rule implementsI)
  fix s fs t r
  assume sr: "state_rel s fs t" and step: "jvm_step env (Array_Load f) s = Some r"
  from step obtain i a st where st: "js_stack s = JInt i # JRef a # st" by (auto split: list.splits jval.splits)
  with sr obtain m where m: "if_sp fs = Suc (Suc m)" "Suc m < length (if_stack fs)" "t = Int_Tos (scast i)" "if_stack fs ! m = ucast a"
      "mem_rel st (if_stack fs) m" "rest_rel s fs" by (auto simp: state_rel_def)
  have rd: "rd fs (-2) = Some (ucast a)" using m(1,2,4) by (simp add: rd_nth)
  from m(6) have heap: "js_heap s = if_heap fs" by (simp add: rest_rel_def)
  note impl = array_load_impl_def m(3) rd
  show "\<exists>out. exec_insn env (Array_Load f) t fs = Some out \<and> outcome_rel s fs r out"
  proof (cases "a = 0")
    case True
    with step st outcome_throw [OF m(6), of NullPointerException fs] show ?thesis by (simp add: impl jarray_access_def)
  next
    case nonnull: False
    with step st heap obtain arr where arr: "if_heap fs a = Some arr" by (auto simp: jarray_access_def split: option.splits)
    show ?thesis
    proof (cases "sint i < 0 \<or> sint i \<ge> int (ArrayLength arr)")
      case True
      with step st nonnull arr heap outcome_throw [OF m(6), of "ArrayIndexOutOfBounds (sint i) (ArrayLength arr)" fs] show ?thesis
        by (simp add: impl jarray_access_def)
    next
      case False
      with step st nonnull arr heap obtain v where v: "java_array_get f arr (nat (sint i)) = Some v" "r = jnext s (v # st)"
        by (auto simp: jarray_access_def)
      from array_load_java [OF v(1)] obtain t' where t': "array_load f arr (nat (sint i)) = Some (keep_tos t')" "tos_rel v t'" by blast
      from outcome_value [OF m(6,5) _ t'(2) refl refl, of s] m(1,2) t'(1) v(2) nonnull arr False show ?thesis by (simp add: impl)
    qed
  qed
qed

text \<open>The next instruction, with the value on top in memory.\<close>

lemma outcome_poly:
  assumes "spilled_rel s' fs'" "length (if_stack fs') = length (if_stack fs)"
  shows "outcome_rel s fs (JNext s') (Jump fs' D_Poly)"
  using enter_poly [OF assms(1)] assms(2) by simp

lemma outcome_poly_next:
  assumes "rest_rel s fs" "mem_rel st (if_stack fs) m" "length (if_stack fs) = length (if_stack fs0)"
  shows "\<exists>out. next_insn D_Poly (fs\<lparr>if_sp := m\<rparr>) = Some out \<and> outcome_rel s0 fs0 (jnext s st) out"
  unfolding next_insn_def jnext_def
  by (intro exI conjI, rule refl, rule outcome_poly) (use assms in \<open>simp_all add: spilled_rel_def rest_rel_def\<close>)

lemma array_store_java:
  "java_array_put f v arr i = Some arr' \<Longrightarrow> tos_rel v t \<Longrightarrow> array_store f t arr i = Some arr'"
  by (cases f; cases v; cases arr) (simp_all add: java_array_put_def array_store_def array_store_int_def)

lemma java_array_put_ref: "java_array_put f (JRef x) arr i = Some arr' \<Longrightarrow> f = reference_op"
  by (auto simp: java_array_put_def split: if_splits)

lemma java_array_put_int: "java_array_put f v arr i = Some arr' \<Longrightarrow> f = reference_op \<Longrightarrow> \<exists>x. v = JRef x"
  by (cases v) (auto simp: java_array_put_def split: if_splits)

lemma implements_array_store: "implements env (Array_Store f)"
proof (rule implementsI)
  fix s fs t r
  assume sr: "state_rel s fs t" and step: "jvm_step env (Array_Store f) s = Some r"
  from step obtain v i a st where st: "js_stack s = v # JInt i # JRef a # st" by (auto split: list.splits jval.splits)
  with sr obtain m where m: "if_sp fs = Suc (Suc (Suc m))" "Suc (Suc m) < length (if_stack fs)" "tos_rel v t" "if_stack fs ! Suc m = scast i"
      "if_stack fs ! m = ucast a" "mem_rel st (if_stack fs) m" "rest_rel s fs" by (auto simp: state_rel_def)
  have rd: "rd fs (-3) = Some (ucast a)" "rd fs (-2) = Some (scast i)" using m(1,2,4,5) by (simp_all add: rd_nth)
  from m(7) have heap: "js_heap s = if_heap fs" by (simp add: rest_rel_def)
  from spill_ok [OF sr] st obtain fs1 where fs1: "spill t fs = Some fs1" "spilled_rel s fs1" by auto
  define fs' where "fs' = (if f = reference_op then fs1 else fs)"
  have spl: "(if f = reference_op then spill t fs else Some fs) = Some fs'" and rest: "rest_rel s fs'"
    using fs1 m(7) by (auto simp: fs'_def spilled_rel_def)
  note impl = array_store_impl_def rd spl
  show "\<exists>out. exec_insn env (Array_Store f) t fs = Some out \<and> outcome_rel s fs r out"
  proof (cases "a = 0")
    case True
    with step st outcome_throw [OF m(7), of NullPointerException fs] show ?thesis by (simp add: impl jarray_access_def)
  next
    case nonnull: False
    with step st heap obtain arr where arr: "if_heap fs a = Some arr" by (auto simp: jarray_access_def split: option.splits)
    show ?thesis
    proof (cases "sint i < 0 \<or> sint i \<ge> int (ArrayLength arr)")
      case True
      with step st nonnull arr heap outcome_throw [OF rest, of "ArrayIndexOutOfBounds (sint i) (ArrayLength arr)" fs] show ?thesis
        by (simp add: impl jarray_access_def)
    next
      case range: False
      with step st nonnull arr heap obtain arr' where v: "java_array_put f v arr (nat (sint i)) = Some arr'"
        and r: "r = (if \<exists>x. v = JRef x \<and> x \<noteq> 0 \<and> \<not> ie_admits env a x then JThrow ArrayStoreException
          else jnext (s\<lparr>js_heap := (js_heap s)(a \<mapsto> arr')\<rparr>) st)"
        by (auto simp: jarray_access_def split: option.splits if_splits)
      have bad: "(\<exists>x. v = JRef x \<and> x \<noteq> 0 \<and> \<not> ie_admits env a x) \<longleftrightarrow>
          (case t of Int_Tos w \<Rightarrow> f = reference_op \<and> (ucast w :: u32) \<noteq> 0 \<and> \<not> ie_admits env (ucast (ucast a :: u64)) (ucast w) | _ \<Rightarrow> False)"
        using v m(3) java_array_put_ref [of f _ arr] java_array_put_int [OF v] by (cases v) auto
      show ?thesis
      proof (cases "\<exists>x. v = JRef x \<and> x \<noteq> 0 \<and> \<not> ie_admits env a x")
        case True
        with outcome_throw [OF rest, of ArrayStoreException fs] r bad nonnull arr range show ?thesis by (simp add: impl)
      next
        case False
        have "rest_rel (s\<lparr>js_heap := (js_heap s)(a \<mapsto> arr')\<rparr>) (fs\<lparr>if_heap := (if_heap fs)(a \<mapsto> arr')\<rparr>)"
          using m(7) by (simp add: rest_rel_def)
        from outcome_poly_next [OF this, of st m fs s] False r bad nonnull arr range array_store_java [OF v m(3)] m(1,6) show ?thesis
          by (simp add: impl)
      qed
    qed
  qed
qed

section \<open>Control flow\<close>

lemma fuel_check_ok:
  assumes "state_rel s fs t" "\<exists>out. k (fs\<lparr>if_fuel := if_fuel fs - 1\<rparr>) = Some out \<and> outcome_rel s fs r out"
  shows "\<exists>out. fuel_check t fs k = Some out \<and> outcome_rel s fs r out"
proof (cases "if_fuel fs = 0")
  case False
  with assms(2) show ?thesis by (simp add: fuel_check_def Let_def)
next
  case True
  have sr: "state_rel s (fs\<lparr>if_fuel := if_fuel fs - 1\<rparr>) t" using assms(1) by (simp add: state_rel_def)
  show ?thesis
  proof (cases "js_stack s")
    case Nil
    with sr True show ?thesis by (simp add: fuel_check_def spill_void_def state_rel_def spilled_rel_def rest_rel_def)
  next
    case (Cons v st)
    from spill_ok [OF sr] Cons obtain fs' where fs': "spill t (fs\<lparr>if_fuel := if_fuel fs - 1\<rparr>) = Some fs'" "spilled_rel s fs'" "if_saved_pc fs' = js_pc s"
      by auto
    moreover have "t \<noteq> No_Tos" using sr Cons by (auto simp: state_rel_def dest: tos_rel_not_void)
    ultimately show ?thesis using True by (cases t) (simp_all add: fuel_check_def)
  qed
qed

lemma implements_goto: "implements env (Goto d)"
proof (rule implementsI)
  fix s fs t r
  assume sr: "state_rel s fs t" and step: "jvm_step env (Goto d) s = Some r"
  show "\<exists>out. exec_insn env (Goto d) t fs = Some out \<and> outcome_rel s fs r out"
    unfolding exec_insn.simps goto_impl_def
    by (rule fuel_check_ok [OF sr]) (use sr step in \<open>auto simp: jjump_def state_rel_def rest_rel_def simp flip: keep_tos_def\<close>)
qed

text \<open>A branch on values above \<open>m\<close> slots.\<close>

lemma outcome_branch:
  assumes "rest_rel s fs" "mem_rel st (if_stack fs) m" "taken' = taken"
  shows "\<exists>out. Some (Jump (fs\<lparr>if_fuel := u, if_pc := if_pc fs + (if taken' then d else 1), if_sp := m\<rparr>) D_Poly) = Some out
    \<and> outcome_rel s fs (jbranch s st taken d) out"
  unfolding jbranch_def jjump_def
  by (intro exI conjI, rule refl, rule outcome_poly) (use assms in \<open>auto simp: spilled_rel_def rest_rel_def\<close>)

lemma implements_if_zero: "implements env (If_Zero c d)"
proof (rule implementsI)
  fix s fs t r
  assume sr: "state_rel s fs t" and step: "jvm_step env (If_Zero c d) s = Some r"
  from step obtain x st where st: "js_stack s = JInt x # st" "r = jbranch s st (holds c (sint x) 0) d" by (auto split: list.splits jval.splits)
  with sr obtain m where m: "if_sp fs = Suc m" "t = Int_Tos (scast x)" "mem_rel st (if_stack fs) m" "rest_rel s fs" by (auto simp: state_rel_def)
  show "\<exists>out. exec_insn env (If_Zero c d) t fs = Some out \<and> outcome_rel s fs r out"
    unfolding exec_insn.simps int_branch_against_0_def m(2) tos_value.case
    by (rule fuel_check_ok [OF sr [unfolded m(2)]]) (use outcome_branch [OF m(4,3) refl] m(1) st(2) in \<open>simp add: Let_def\<close>)
qed

lemma sint_eq_0_iff: "sint (x :: u32) = 0 \<longleftrightarrow> x = 0"
proof
  assume "sint x = 0"
  then have "sint x = sint (0 :: u32)" by simp
  then show "x = 0" by (rule signed_word_eqI)
qed simp

lemma implements_if_null: "implements env (If_Null eq d)"
proof (rule implementsI)
  fix s fs t r
  assume sr: "state_rel s fs t" and step: "jvm_step env (If_Null eq d) s = Some r"
  from step obtain x st where st: "js_stack s = JRef x # st" "r = jbranch s st ((x = 0) = eq) d" by (auto split: list.splits jval.splits)
  with sr obtain m where m: "if_sp fs = Suc m" "t = Int_Tos (ucast x)" "mem_rel st (if_stack fs) m" "rest_rel s fs" by (auto simp: state_rel_def)
  have "holds (if eq then Eq else Ne) (sint x) 0 = ((x = 0) = eq)" by (simp add: sint_eq_0_iff)
  from outcome_branch [OF m(4,3) this] m(1) st(2)
  show "\<exists>out. exec_insn env (If_Null eq d) t fs = Some out \<and> outcome_rel s fs r out"
    unfolding exec_insn.simps int_branch_against_0_def m(2) tos_value.case
    by (intro fuel_check_ok [OF sr [unfolded m(2)]]) (simp add: Let_def)
qed

lemma implements_if_icmp: "implements env (If_Icmp c d)"
proof (rule implementsI)
  fix s fs t r
  assume sr: "state_rel s fs t" and step: "jvm_step env (If_Icmp c d) s = Some r"
  from step obtain a b st where st: "js_stack s = JInt b # JInt a # st" "r = jbranch s st (holds c (sint a) (sint b)) d"
    by (auto split: list.splits jval.splits)
  with sr obtain m where m: "if_sp fs = Suc (Suc m)" "t = Int_Tos (scast b)" "Suc m < length (if_stack fs)" "if_stack fs ! m = scast a"
      "mem_rel st (if_stack fs) m" "rest_rel s fs" by (auto simp: state_rel_def)
  show "\<exists>out. exec_insn env (If_Icmp c d) t fs = Some out \<and> outcome_rel s fs r out"
    unfolding exec_insn.simps int_branch_def m(2) tos_value.case
    by (rule fuel_check_ok [OF sr [unfolded m(2)]]) (use outcome_branch [OF m(6,5) refl] m(1,3,4) st(2) in \<open>simp add: Let_def rd_nth\<close>)
qed

lemma implements_if_acmp: "implements env (If_Acmp eq d)"
proof (rule implementsI)
  fix s fs t r
  assume sr: "state_rel s fs t" and step: "jvm_step env (If_Acmp eq d) s = Some r"
  from step obtain a b st where st: "js_stack s = JRef b # JRef a # st" "r = jbranch s st ((a = b) = eq) d"
    by (auto split: list.splits jval.splits)
  with sr obtain m where m: "if_sp fs = Suc (Suc m)" "t = Int_Tos (ucast b)" "Suc m < length (if_stack fs)" "if_stack fs ! m = ucast a"
      "mem_rel st (if_stack fs) m" "rest_rel s fs" by (auto simp: state_rel_def)
  show "\<exists>out. exec_insn env (If_Acmp eq d) t fs = Some out \<and> outcome_rel s fs r out"
    unfolding exec_insn.simps if_acmp_def m(2) tos_value.case
    by (rule fuel_check_ok [OF sr [unfolded m(2)]]) (use outcome_branch [OF m(6,5) refl] m(1,3,4) st(2) in \<open>simp add: Let_def rd_nth\<close>)
qed

text \<open>A switch jumps to an absolute target.\<close>

lemma outcome_switch:
  assumes "rest_rel s fs" "mem_rel st (if_stack fs) m"
  shows "\<exists>out. next_insn D_Poly (fs\<lparr>if_pc := if_pc fs + (target - 1 - if_pc fs), if_sp := m\<rparr>) = Some out
    \<and> outcome_rel s fs (jjump s st target) out"
  unfolding next_insn_def jjump_def
  by (intro exI conjI, rule refl, rule outcome_poly) (use assms in \<open>auto simp: spilled_rel_def rest_rel_def\<close>)

lemma implements_table_switch: "implements env (Table_Switch lo hi dflt tgts)"
proof (rule implementsI)
  fix s fs t r
  assume sr: "state_rel s fs t" and step: "jvm_step env (Table_Switch lo hi dflt tgts) s = Some r"
  from step obtain x st where st: "js_stack s = JInt x # st" by (auto split: list.splits jval.splits)
  with sr obtain m where m: "if_sp fs = Suc m" "t = Int_Tos (scast x)" "mem_rel st (if_stack fs) m" "rest_rel s fs" by (auto simp: state_rel_def)
  define target where "target = (if sint x < lo \<or> sint x > hi then dflt else tgts ! nat (sint x - lo))"
  have "(if sint x < lo \<or> sint x > hi then Some (dflt - 1 - if_pc fs) else if nat (sint x - lo) < length tgts
      then Some (tgts ! nat (sint x - lo) - 1 - if_pc fs) else None) = Some (target - 1 - if_pc fs)" "r = jjump s st target"
    using step st by (auto simp: target_def split: if_splits)
  with outcome_switch [OF m(4,3), of target] m(1,2)
  show "\<exists>out. exec_insn env (Table_Switch lo hi dflt tgts) t fs = Some out \<and> outcome_rel s fs r out"
    by (simp add: tableswitch_impl_def Let_def)
qed

lemma find_key_map_of: "find_key key pairs = map_of pairs key"
  by (induction pairs) auto

lemma implements_lookup_switch: "implements env (Lookup_Switch dflt pairs)"
proof (rule implementsI)
  fix s fs t r
  assume sr: "state_rel s fs t" and step: "jvm_step env (Lookup_Switch dflt pairs) s = Some r"
  from step obtain x st where st: "js_stack s = JInt x # st" "r = jjump s st (case map_of pairs (sint x) of Some t \<Rightarrow> t | None \<Rightarrow> dflt)"
    by (auto split: list.splits jval.splits)
  with sr obtain m where m: "if_sp fs = Suc m" "t = Int_Tos (scast x)" "mem_rel st (if_stack fs) m" "rest_rel s fs" by (auto simp: state_rel_def)
  from outcome_switch [OF m(4,3)] m(1,2) st(2)
  show "\<exists>out. exec_insn env (Lookup_Switch dflt pairs) t fs = Some out \<and> outcome_rel s fs r out"
    by (cases "map_of pairs (sint x)") (simp_all add: lookupswitch_impl_def find_key_map_of Let_def)
qed

lemma implements_return: "implements env (Return_Op f)"
proof (rule implementsI)
  fix s fs t r
  assume sr: "state_rel s fs t" and step: "jvm_step env (Return_Op f) s = Some r"
  show "\<exists>out. exec_insn env (Return_Op f) t fs = Some out \<and> outcome_rel s fs r out"
  proof (cases "f = return_void")
    case True
    from forward_to_nullary_spilled [OF sr] obtain ws where
      "forward_to_nullary (\<lambda>fs. Some (Finished 0 (spill_void fs))) t fs = Some (Finished 0 (spill_void (fs\<lparr>if_stack := ws\<rparr>)))"
      "spilled_rel s (fs\<lparr>if_stack := ws\<rparr>)" .
    with True step show ?thesis by (auto simp: return_impl_def spill_void_def spilled_rel_def)
  next
    case False
    with step obtain v st where st: "js_stack s = v # st" "has_return_type f v" "r = JReturn (Some v)"
      by (auto split: list.splits if_splits)
    from spill_ok [OF sr] st obtain fs' where "spill t fs = Some fs'" "spilled_rel s fs'" by auto
    moreover have "tos_rel v t" using sr st by (auto simp: state_rel_def)
    ultimately show ?thesis using st(2,3) by (cases v) (simp_all add: return_impl_def spilled_rel_def)
  qed
qed

lemma implements_athrow: "implements env Athrow"
proof (rule implementsI)
  fix s fs t r
  assume sr: "state_rel s fs t" and step: "jvm_step env Athrow s = Some r"
  from step obtain x st where st: "js_stack s = JRef x # st" "r = JThrow (if x = 0 then NullPointerException else Thrown x)"
    by (auto split: list.splits jval.splits)
  from spill_ok [OF sr] st obtain fs' where "spill t fs = Some fs'" "spilled_rel s fs'" "if_saved_pc fs' = js_pc s" by auto
  moreover have "t = Int_Tos (ucast x)" using sr st by (auto simp: state_rel_def)
  ultimately show "\<exists>out. exec_insn env Athrow t fs = Some out \<and> outcome_rel s fs r out"
    using st(2) outcome_throw [of s fs' NullPointerException fs] by (simp add: athrow_impl_def spilled_rel_def zext_eq_0_iff)
qed

section \<open>Locals, constants and the stack\<close>

text \<open>A handler that forwards to the one for the empty register may assume that all values are in memory.\<close>

lemma outcome_rel_cong: "length (if_stack fs1) = length (if_stack fs) \<Longrightarrow> if_fuel fs1 = if_fuel fs \<Longrightarrow> outcome_rel s fs1 r out = outcome_rel s fs r out"
  by (cases out) auto

lemma implements_nullary:
  assumes exec: "exec_insn env i = handler" and impl: "handler = forward_to_nullary impl"
    and ok: "\<And>s fs r. spilled_rel s fs \<Longrightarrow> jvm_step env i s = Some r \<Longrightarrow> room fs r \<Longrightarrow> \<exists>out. impl fs = Some out \<and> outcome_rel s fs r out"
  shows "implements env i"
proof (rule implementsI)
  fix s fs t r
  assume sr: "state_rel s fs t" and step: "jvm_step env i s = Some r" and room: "room fs r"
  from forward_to_nullary_spilled [OF sr] obtain ws where ws: "forward_to_nullary impl t fs = impl (fs\<lparr>if_stack := ws\<rparr>)"
    "spilled_rel s (fs\<lparr>if_stack := ws\<rparr>)" "length ws = length (if_stack fs)" .
  have "room (fs\<lparr>if_stack := ws\<rparr>) r" using room ws(3) by (simp add: room_def split: jresult.splits)
  from ok [OF ws(2) step this] show "\<exists>out. exec_insn env i t fs = Some out \<and> outcome_rel s fs r out"
    using ws outcome_rel_cong [of "fs\<lparr>if_stack := ws\<rparr>" fs] by (simp add: exec impl)
qed

lemma spilled_sp: "spilled_rel s fs \<Longrightarrow> if_sp fs = length (js_stack s)"
  by (auto simp: spilled_rel_def dest: mem_rel_length)

text \<open>Pushing a value of the right kind.\<close>

lemma outcome_push:
  assumes "spilled_rel s fs" "room fs (jnext s (v # js_stack s))" "tos_rel v t" "d = keep_tos t"
  shows "\<exists>out. next_insn d (fs\<lparr>if_sp := Suc (if_sp fs)\<rparr>) = Some out \<and> outcome_rel s fs (jnext s (v # js_stack s)) out"
  using outcome_value [of s fs "js_stack s" "if_sp fs" v t fs d s] assms spilled_sp [OF assms(1)]
  by (simp add: spilled_rel_def room_def jnext_def)

lemma implements_const:
  assumes "exec_insn env i = const_impl (keep_tos t)" "\<And>s. jvm_step env i s = Some (jnext s (v # js_stack s))" "tos_rel v t"
  shows "implements env i"
  by (rule implements_nullary [OF assms(1) const_impl_def]) (use assms(2) in \<open>auto intro: outcome_push [OF _ _ assms(3) refl]\<close>)

lemma implements_constants: "implements env Aconst_null" "implements env (Iconst x)" "implements env (Fconst x)" "implements env (Dconst w)"
  "implements env (Lconst w)"
  by (rule implements_const [where t = "Int_Tos 0" and v = "JRef 0"] implements_const [where t = "Int_Tos (scast x)" and v = "JInt x"]
        implements_const [where t = "Float_Tos x" and v = "JFloat x"] implements_const [where t = "Double_Tos w" and v = "JDouble w"]
        implements_const [where t = "Int_Tos w" and v = "JLong w"]; simp add: keep_tos_def; fail)+

lemma local_value_java: "local_rel (Some v) w \<Longrightarrow> has_local_type f v \<Longrightarrow> \<exists>t. local_value f w = keep_tos t \<and> tos_rel v t"
  by (cases v) (auto simp: keep_tos_def split: tos_value.splits)

lemma local_java:
  assumes "rest_rel s fs" "i < length (js_locals s)"
  shows "get_local fs i = Some (if_locals fs ! i)" "local_rel (js_locals s ! i) (if_locals fs ! i)"
  using assms by (auto simp: rest_rel_def get_local_def list_all2_conv_all_nth)

lemma implements_load: "implements env (Load_Local f i)"
proof (cases rule: implements_nullary [OF exec_insn.simps(17) [of env f i] load_impl_def, case_names spilled])
  case (spilled s fs r)
  from spilled(2) obtain v where v: "i < length (js_locals s)" "js_locals s ! i = Some v" "has_local_type f v" "r = jnext s (v # js_stack s)"
    by (auto split: if_splits option.splits)
  from spilled(1) have rest: "rest_rel s fs" by (simp add: spilled_rel_def)
  from local_value_java [OF local_java(2) [OF rest v(1), unfolded v(2)] v(3)] obtain t
    where t: "local_value f (if_locals fs ! i) = keep_tos t" "tos_rel v t" by blast
  from outcome_push [OF spilled(1) spilled(3) [unfolded v(4)] t(2,1)] show ?case
    using local_java(1) [OF rest v(1)] v(4) by simp
qed

lemma store_value_java: "tos_rel v t \<Longrightarrow> has_local_type f v \<Longrightarrow> \<exists>w. store_value f t old = Some w \<and> local_rel (Some v) w"
  by (cases v) (auto simp: store_value_def)

lemma rest_rel_local: "rest_rel s fs \<Longrightarrow> local_rel v w \<Longrightarrow> rest_rel (s\<lparr>js_locals := (js_locals s)[i := v]\<rparr>) (fs\<lparr>if_locals := (if_locals fs)[i := w]\<rparr>)"
  by (auto simp: rest_rel_def intro: list_all2_update_cong)

lemma implements_store: "implements env (Store_Local f i)"
proof (rule implementsI)
  fix s fs t r
  assume sr: "state_rel s fs t" and step: "jvm_step env (Store_Local f i) s = Some r"
  from step obtain v st where v: "js_stack s = v # st" "i < length (js_locals s)" "has_local_type f v"
    "r = jnext (s\<lparr>js_locals := (js_locals s)[i := Some v]\<rparr>) st" by (auto split: list.splits if_splits)
  with sr obtain m where m: "if_sp fs = Suc m" "tos_rel v t" "mem_rel st (if_stack fs) m" "rest_rel s fs" by (auto simp: state_rel_def)
  from store_value_java [OF m(2) v(3)] obtain w where w: "store_value f t (if_locals fs ! i) = Some w" "local_rel (Some v) w" by blast
  from outcome_poly_next [OF rest_rel_local [OF m(4) w(2), of i], of st m fs s] m(1,3) w(1) local_java(1) [OF m(4) v(2)] v(4)
  show "\<exists>out. exec_insn env (Store_Local f i) t fs = Some out \<and> outcome_rel s fs r out" by (simp add: store_impl_def)
qed

text \<open>An instruction that leaves the stack alone.\<close>

lemma outcome_keep:
  assumes "rest_rel s fs" "stack_rel st (if_stack fs) (if_sp fs) t" "length (if_stack fs) = length (if_stack fs0)"
  shows "\<exists>out. next_insn (keep_tos t) fs = Some out \<and> outcome_rel s0 fs0 (jnext s st) out"
  using assms by (simp add: next_insn_def jnext_def state_rel_def rest_rel_def)

lemma implements_iinc: "implements env (Inc_Local i c)"
proof (rule implementsI)
  fix s fs t r
  assume sr: "state_rel s fs t" and step: "jvm_step env (Inc_Local i c) s = Some r"
  from step obtain x where x: "i < length (js_locals s)" "js_locals s ! i = Some (JInt x)"
    "r = jnext (s\<lparr>js_locals := (js_locals s)[i := Some (JInt (x + c))]\<rparr>) (js_stack s)"
    by (auto split: if_splits option.splits jval.splits)
  from sr have rest: "rest_rel s fs" and st: "stack_rel (js_stack s) (if_stack fs) (if_sp fs) t" by (simp_all add: state_rel_def)
  have "local_rel (Some (JInt (x + c))) (set_low (if_locals fs ! i) (ucast (if_locals fs ! i) + c))"
    using local_java(2) [OF rest x(1)] x(2) by simp
  from outcome_keep [OF rest_rel_local [OF rest this, of i], of "js_stack s" t fs s] st local_java(1) [OF rest x(1)] x(3)
  show "\<exists>out. exec_insn env (Inc_Local i c) t fs = Some out \<and> outcome_rel s fs r out" by (simp add: iinc_impl_def)
qed

lemma implements_nop: "implements env Nop"
  by (rule implementsI) (auto simp: nop_impl_def state_rel_def intro: outcome_keep)

lemma wr_nth: "0 \<le> int (if_sp fs) + k \<Longrightarrow> nat (int (if_sp fs) + k) < length (if_stack fs) \<Longrightarrow>
    wr fs k w = Some (fs\<lparr>if_stack := (if_stack fs)[nat (int (if_sp fs) + k) := w]\<rparr>)"
  by (simp add: wr_def Let_def nat_less_iff)

lemma outcome_shuffle:
  assumes "rest_rel s fs" "mem_rel st ws m" "length ws = length (if_stack fs0)"
  shows "\<exists>out. next_insn D_Poly (fs\<lparr>if_stack := ws, if_sp := m\<rparr>) = Some out \<and> outcome_rel s0 fs0 (jnext s st) out"
  using outcome_poly_next [of s "fs\<lparr>if_stack := ws\<rparr>" st m fs0 s0] assms by simp

lemma outcome_shuffle_same:
  assumes "rest_rel s fs" "mem_rel st ws (if_sp fs)" "length ws = length (if_stack fs0)"
  shows "\<exists>out. next_insn D_Poly (fs\<lparr>if_stack := ws\<rparr>) = Some out \<and> outcome_rel s0 fs0 (jnext s st) out"
  using outcome_shuffle [OF assms, of s0] by (cases fs) simp

lemma implements_pops: "implements env Pop" "implements env Pop2"
  by (rule implements_nullary [OF exec_insn.simps(25) pop_impl_def] implements_nullary [OF exec_insn.simps(26) pop_impl_def];
      auto simp: spilled_rel_def split: list.splits intro!: outcome_poly_next; fail)+

lemma implements_swap: "implements env Swap"
proof (cases rule: implements_nullary [OF exec_insn.simps(27) [of env] swap_impl_def, case_names spilled])
  case (spilled s fs r)
  from spilled(2) obtain a b st where st: "js_stack s = a # b # st" "r = jnext s (b # a # st)" by (auto split: list.splits)
  with spilled(1) obtain m where m: "if_sp fs = Suc (Suc m)" "Suc m < length (if_stack fs)" "slot_rel a (if_stack fs ! Suc m)"
    "slot_rel b (if_stack fs ! m)" "mem_rel st (if_stack fs) m" "rest_rel s fs" by (auto simp: spilled_rel_def)
  define ws where "ws = (if_stack fs)[Suc m := if_stack fs ! m, m := if_stack fs ! Suc m]"
  have "mem_rel (b # a # st) ws (if_sp fs)" "length ws = length (if_stack fs)" using m by (auto simp: ws_def)
  from outcome_shuffle_same [OF m(6) this, of s] show ?case
    using m(1,2) st(2) by (simp add: rd_nth wr_nth ws_def)
qed

lemma implements_dup_x1: "implements env Dup_x1"
proof (cases rule: implements_nullary [OF exec_insn.simps(31) [of env] dup_x1_impl_def, case_names spilled])
  case (spilled s fs r)
  from spilled(2) obtain a b st where st: "js_stack s = a # b # st" "r = jnext s (a # b # a # st)" by (auto split: list.splits)
  with spilled(1) obtain m where m: "if_sp fs = Suc (Suc m)" "slot_rel a (if_stack fs ! Suc m)"
    "slot_rel b (if_stack fs ! m)" and mem: "mem_rel st (if_stack fs) m" and rest: "rest_rel s fs"
    by (auto simp: spilled_rel_def)
  have big: "Suc (Suc m) < length (if_stack fs)"
    using spilled(3) st mem_rel_length [OF mem] by (simp add: room_def jnext_def)
  define ws where "ws = (if_stack fs)[m := if_stack fs ! Suc m, Suc m := if_stack fs ! m, Suc (Suc m) := if_stack fs ! Suc m]"
  have "mem_rel (a # b # a # st) ws (Suc (Suc (Suc m)))" "length ws = length (if_stack fs)" using m big mem by (auto simp: ws_def)
  from outcome_shuffle [OF rest this, of s] show ?case
    using m(1) big st(2) by (simp add: rd_nth wr_nth ws_def)
qed

lemma implements_dup_x2: "implements env Dup_x2"
proof (cases rule: implements_nullary [OF exec_insn.simps(32) [of env] dup_x2_impl_def, case_names spilled])
  case (spilled s fs r)
  from spilled(2) obtain a b c st where st: "js_stack s = a # b # c # st" "r = jnext s (a # b # c # a # st)" by (auto split: list.splits)
  with spilled(1) obtain m where m: "if_sp fs = Suc (Suc (Suc m))" "slot_rel a (if_stack fs ! Suc (Suc m))"
    "slot_rel b (if_stack fs ! Suc m)" "slot_rel c (if_stack fs ! m)" and mem: "mem_rel st (if_stack fs) m" and rest: "rest_rel s fs"
    by (auto simp: spilled_rel_def)
  have big: "Suc (Suc (Suc m)) < length (if_stack fs)"
    using spilled(3) st mem_rel_length [OF mem] by (simp add: room_def jnext_def)
  define ws where "ws = (if_stack fs)[m := if_stack fs ! Suc (Suc m), Suc m := if_stack fs ! m, Suc (Suc m) := if_stack fs ! Suc m,
    Suc (Suc (Suc m)) := if_stack fs ! Suc (Suc m)]"
  have "mem_rel (a # b # c # a # st) ws (Suc (Suc (Suc (Suc m))))" "length ws = length (if_stack fs)" using m big mem by (auto simp: ws_def)
  from outcome_shuffle [OF rest this, of s] show ?case
    using m(1) big st(2) by (simp add: rd_nth wr_nth ws_def)
qed

lemma implements_dup2_x1: "implements env Dup2_x1"
proof (cases rule: implements_nullary [OF exec_insn.simps(33) [of env] dup2_x1_impl_def, case_names spilled])
  case (spilled s fs r)
  from spilled(2) obtain a b c st where st: "js_stack s = a # b # c # st" "r = jnext s (a # b # c # a # b # st)" by (auto split: list.splits)
  with spilled(1) obtain m where m: "if_sp fs = Suc (Suc (Suc m))" "slot_rel a (if_stack fs ! Suc (Suc m))"
    "slot_rel b (if_stack fs ! Suc m)" "slot_rel c (if_stack fs ! m)" and mem: "mem_rel st (if_stack fs) m" and rest: "rest_rel s fs"
    by (auto simp: spilled_rel_def)
  have big: "Suc (Suc (Suc (Suc m))) < length (if_stack fs)"
    using spilled(3) st mem_rel_length [OF mem] by (simp add: room_def jnext_def)
  define ws where "ws = (if_stack fs)[m := if_stack fs ! Suc m, Suc m := if_stack fs ! Suc (Suc m), Suc (Suc m) := if_stack fs ! m,
    Suc (Suc (Suc m)) := if_stack fs ! Suc m, Suc (Suc (Suc (Suc m))) := if_stack fs ! Suc (Suc m)]"
  have "mem_rel (a # b # c # a # b # st) ws (Suc (Suc (Suc (Suc (Suc m)))))" "length ws = length (if_stack fs)" using m big mem by (auto simp: ws_def)
  from outcome_shuffle [OF rest this, of s] show ?case
    using m(1) big st(2) by (simp add: rd_nth wr_nth ws_def)
qed

lemma implements_dup2_x2: "implements env Dup2_x2"
proof (cases rule: implements_nullary [OF exec_insn.simps(34) [of env] dup2_x2_impl_def, case_names spilled])
  case (spilled s fs r)
  from spilled(2) obtain a b c d st where st: "js_stack s = a # b # c # d # st" "r = jnext s (a # b # c # d # a # b # st)" by (auto split: list.splits)
  with spilled(1) obtain m where m: "if_sp fs = Suc (Suc (Suc (Suc m)))"
    "slot_rel a (if_stack fs ! Suc (Suc (Suc m)))" "slot_rel b (if_stack fs ! Suc (Suc m))" "slot_rel c (if_stack fs ! Suc m)"
    "slot_rel d (if_stack fs ! m)" and mem: "mem_rel st (if_stack fs) m" and rest: "rest_rel s fs"
    by (auto simp: spilled_rel_def)
  have big: "Suc (Suc (Suc (Suc (Suc m)))) < length (if_stack fs)"
    using spilled(3) st mem_rel_length [OF mem] by (simp add: room_def jnext_def)
  define ws where "ws = (if_stack fs)[m := if_stack fs ! Suc (Suc m), Suc m := if_stack fs ! Suc (Suc (Suc m)), Suc (Suc m) := if_stack fs ! m,
    Suc (Suc (Suc m)) := if_stack fs ! Suc m, Suc (Suc (Suc (Suc m))) := if_stack fs ! Suc (Suc m),
    Suc (Suc (Suc (Suc (Suc m)))) := if_stack fs ! Suc (Suc (Suc m))]"
  have "mem_rel (a # b # c # d # a # b # st) ws (Suc (Suc (Suc (Suc (Suc (Suc m))))))" "length ws = length (if_stack fs)" using m big mem by (auto simp: ws_def)
  from outcome_shuffle [OF rest this, of s] show ?case
    using m(1) big st(2) by (simp add: rd_nth wr_nth ws_def)
qed

text \<open>The handlers of \<^verbatim>\<open>dup\<close> and \<^verbatim>\<open>dup2\<close> write the register to the slot below and keep it.\<close>

lemma implements_dup: "implements env Dup"
proof (rule implementsI)
  fix s fs t r
  assume sr: "state_rel s fs t" and step: "jvm_step env Dup s = Some r" and room: "room fs r"
  from step obtain a st where st: "js_stack s = a # st" "r = jnext s (a # a # st)" by (auto split: list.splits)
  with sr obtain m where m: "if_sp fs = Suc m" "tos_rel a t" and mem: "mem_rel st (if_stack fs) m" and rest: "rest_rel s fs"
    by (auto simp: state_rel_def)
  have big: "Suc m < length (if_stack fs)"
    using room st mem_rel_length [OF mem] by (simp add: room_def jnext_def)
  define w where "w = (case t of Float_Tos x \<Rightarrow> set_low (if_stack fs ! m) x | Int_Tos w \<Rightarrow> w | Double_Tos w \<Rightarrow> w | No_Tos \<Rightarrow> 0)"
  have w: "slot_rel a w" "dup_impl t fs = next_insn (keep_tos t) (fs\<lparr>if_stack := (if_stack fs)[m := w], if_sp := Suc (Suc m)\<rparr>)"
    using m big by (cases a; simp add: w_def dup_impl_def rd_nth wr_nth keep_tos_def)+
  have "mem_rel (a # st) (if_stack (fs\<lparr>if_stack := (if_stack fs)[m := w]\<rparr>)) (Suc m)" using m mem big w(1) by simp
  from outcome_value [OF _ this _ m(2), of s fs] big rest w(2) st(2) show "\<exists>out. exec_insn env Dup t fs = Some out \<and> outcome_rel s fs r out"
    by simp
qed

lemma implements_dup2: "implements env Dup2"
proof (rule implementsI)
  fix s fs t r
  assume sr: "state_rel s fs t" and step: "jvm_step env Dup2 s = Some r" and room: "room fs r" and ok: "\<not> defect Dup2 (js_stack s)"
  from step obtain a b st where st: "js_stack s = a # b # st" "r = jnext s (a # b # a # b # st)" by (auto split: list.splits)
  with ok have num: "(\<forall>k. a \<noteq> JFloat k) \<and> (\<forall>k. a \<noteq> JDouble k)" by (auto simp: defect_def)
  with sr st obtain m w where m: "if_sp fs = Suc (Suc m)" "t = Int_Tos w" "slot_rel a w"
    "slot_rel b (if_stack fs ! m)" and mem: "mem_rel st (if_stack fs) m" and rest: "rest_rel s fs"
    by (auto simp: state_rel_def dest!: int_tos_rel)
  have big: "Suc (Suc (Suc m)) < length (if_stack fs)"
    using room st mem_rel_length [OF mem] by (simp add: room_def jnext_def)
  define ws where "ws = (if_stack fs)[Suc m := w, Suc (Suc m) := if_stack fs ! m]"
  have "mem_rel (b # a # b # st) (if_stack (fs\<lparr>if_stack := ws\<rparr>)) (Suc (Suc (Suc m)))" using m mem big by (simp add: ws_def)
  moreover have tos: "tos_rel a (Int_Tos w)" using m(3) num by (simp add: int_slot_iff)
  ultimately show "\<exists>out. exec_insn env Dup2 t fs = Some out \<and> outcome_rel s fs r out"
    using outcome_int [of s "fs\<lparr>if_stack := ws\<rparr>" "b # a # b # st" "Suc (Suc (Suc m))" a w fs _ s] m(1,2) big rest st(2)
    by (simp add: dup2_impl_def rd_nth wr_nth ws_def)
qed
section \<open>The interpreter implements the specification\<close>

lemmas implements_all = implements_bin implements_un implements_division implements_lcmp implements_arraylength implements_array_load
  implements_array_store implements_goto implements_if_zero implements_if_null implements_if_icmp implements_if_acmp
  implements_table_switch implements_lookup_switch implements_return implements_athrow implements_load implements_store
  implements_iinc implements_constants implements_pops implements_swap implements_nop implements_dup implements_dup2
  implements_dup_x1 implements_dup_x2 implements_dup2_x1 implements_dup2_x2

lemma implements_insn: "implements env i"
  by (cases i) (simp_all only: implements_all)


definition no_env :: interp_env where
  "no_env = \<lparr>ie_admits = (\<lambda>_ _. True), ie_to_s64 = (\<lambda>_. 0)\<rparr>"

definition shift_state :: jstate where
  "shift_state = \<lparr>js_stack = [JInt 33, JInt 6], js_locals = [], js_pc = 4, js_heap = Map.empty\<rparr>"

definition shift_frame :: interp_frame where
  "shift_frame = \<lparr>if_stack = [6, 0], if_sp = 2, if_locals = [], if_pc = 4, if_saved_pc = 0, if_fuel = 0, if_heap = Map.empty\<rparr>"


lemma resume_after_suspension:
  assumes "outcome_rel s fs r (Suspend fs')"
  shows "\<exists>t. enter (tos_kind (js_stack s)) D_Poly fs' = Some t \<and> state_rel s fs' t"
  using assms enter_poly by simp

section \<open>Where it does not\<close>

lemma zext_negative: "sint (x :: u32) < 0 \<Longrightarrow> (ucast x :: u64) \<noteq> scast x"
proof
  assume neg: "sint x < 0" and eq: "(ucast x :: u64) = scast x"
  have "bit x 31" using neg bit_last_iff [of x] by simp
  moreover have "\<not> bit x 32" using bit_imp_le_length [of x 32] by fastforce
  ultimately have "bit (scast x :: u64) 32" "\<not> bit (ucast x :: u64) 32" by (simp_all add: bit_simps min_def)
  with eq show False by simp
qed

lemma ishr_defect:
  assumes "sint (a :: u32) < 0"
  shows "eval_bin ishr (scast a) (scast (b :: u32)) \<noteq> scast (word_of_int (sint a div 2 ^ (unat b mod 32)) :: u32)"
proof -
  have "sint (signed_drop_bit (unat b mod 32) a) < 0"
    using assms by (simp add: sint_signed_drop_bit_eq drop_bit_eq_div pos_imp_zdiv_neg_iff)
  from zext_negative [OF this] show ?thesis by (simp add: shift_count) (simp add: signed_drop_bit_div)
qed

lemma ishr_no_outcome:
  assumes "state_rel s fs t" "jvm_step env (Int_Bin ishr) s = Some r" "js_stack s = y # JInt a # st" "sint a < 0"
    "exec_insn env (Int_Bin ishr) t fs = Some out"
  shows "\<not> outcome_rel s fs r out"
proof -
  from assms(2,3) obtain b where b: "y = JInt b" "r = jnext s (JInt (word_of_int (sint a div 2 ^ (unat b mod 32))) # st)"
    by (auto simp: java_bin_def split: jval.splits)
  with assms(1,3) obtain m where "if_sp fs = Suc (Suc m)" "Suc m < length (if_stack fs)" "t = Int_Tos (scast b)" "if_stack fs ! m = scast a"
    by (auto simp: state_rel_def)
  with assms(5) have "out = Jump (fs\<lparr>if_sp := Suc m, if_pc := if_pc fs + 1\<rparr>) (D_Int (eval_bin ishr (scast a) (scast b)))"
    by (simp add: integer_bin_op_def rd_nth next_insn_def del: eval_bin.simps)
  with ishr_defect [OF assms(4), of b] b(2) show ?thesis
    by (auto simp: jnext_def state_rel_def simp del: eval_bin.simps)
qed

lemma ldiv_no_outcome:
  assumes "state_rel s fs t" "jvm_step env (Division f) s = Some r" "js_stack s = JLong b # JLong a # st" "sint b = -1"
    "f = ldiv \<and> (sint a = LONG_MIN \<or> sint a = LLONG_MIN) \<or> f = lrem \<and> sint a = LLONG_MIN"
    "exec_insn env (Division f) t fs = Some out"
  shows "\<not> outcome_rel s fs r out"
proof -
  from assms(1,3) obtain m where m: "if_sp fs = Suc (Suc m)" "Suc m < length (if_stack fs)" "t = Int_Tos b" "if_stack fs ! m = a"
    by (auto simp: state_rel_def)
  have b0: "b \<noteq> 0" using assms(4) by auto
  have "\<not> sint a = LLONG_MIN" using m assms(4-6) b0 by (auto simp: division_def rd_nth java_ldiv_def java_lrem_def)
  with assms(5) have a: "f = ldiv" "sint a = LONG_MIN" by auto
  with m assms(4,6) b0 have "out = Jump (fs\<lparr>if_sp := Suc m, if_pc := if_pc fs + 1\<rparr>) (D_Int (word_of_int LONG_MIN))"
    by (simp add: division_def rd_nth java_ldiv_def next_insn_def)
  moreover have "r = jnext s (JLong (word_of_int (- sint a)) # st)"
    using assms(2-4) a(1) b0 by (simp add: java_div_def sdiv_by_minus_1)
  ultimately show ?thesis using a(2) by (auto simp: jnext_def state_rel_def)
qed

lemma dup2_no_outcome:
  assumes "state_rel s fs t" "jvm_step env Dup2 s = Some r" "js_stack s = v # st" "(\<exists>x. v = JFloat x) \<or> (\<exists>x. v = JDouble x)"
    "exec_insn env Dup2 t fs = Some out"
  shows "\<not> outcome_rel s fs r out"
proof -
  from assms(2,3) obtain b rest where r: "r = jnext s (v # b # v # rest)" by (auto split: list.splits)
  from assms(5) obtain fs' w where "out = Jump fs' (D_Int w)" by (auto simp: dup2_impl_def next_insn_def bind_eq_Some_conv)
  with r assms(4) show ?thesis by (auto simp: jnext_def state_rel_def)
qed

text \<open>C30. The exceptions are real: on an instruction and operands of \<open>defect\<close> no outcome of the handler is the one
  of the specification. The arithmetic shift of a negative int leaves a slot that is not a sign extended int (a
  following \<^verbatim>\<open>i2l\<close> turns \<^verbatim>\<open>-1 >> k\<close> into 4294967295); \<^verbatim>\<open>ldiv\<close> and \<^verbatim>\<open>lrem\<close> compare with \<^verbatim>\<open>LONG_MIN\<close>, which has 32 bits
  on the target, so that the quotient of -2147483648 and -1 is wrong and those of the least long and -1 are undefined;
  \<^verbatim>\<open>dup2\<close> of a float or double goes on with the register for integers.\<close>

theorem exec_insn_defects:
  assumes "state_rel s fs t" "jvm_step env i s = Some r" "defect i (js_stack s)"
  shows "\<not> (\<exists>out. exec_insn env i t fs = Some out \<and> outcome_rel s fs r out)"
proof -
  have "(\<exists>a y st. i = Int_Bin ishr \<and> js_stack s = y # JInt a # st \<and> sint a < 0) \<or>
    (\<exists>f a b st. i = Division f \<and> js_stack s = JLong b # JLong a # st \<and> sint b = -1 \<and>
       (f = ldiv \<and> (sint a = LONG_MIN \<or> sint a = LLONG_MIN) \<or> f = lrem \<and> sint a = LLONG_MIN)) \<or>
    (\<exists>v st. i = Dup2 \<and> js_stack s = v # st \<and> ((\<exists>x. v = JFloat x) \<or> (\<exists>x. v = JDouble x)))"
    using assms(3) by (cases "js_stack s"; cases "tl (js_stack s)")
      (auto simp: defect_def split: insn.split_asm int_bin_op.split_asm div_op.split_asm jval.split_asm)
  with assms(1,2) ishr_no_outcome [OF assms(1)] ldiv_no_outcome [OF assms(1)] dup2_no_outcome [OF assms(1)] show ?thesis
    by blast
qed

definition negative_shift_state :: jstate where
  "negative_shift_state = \<lparr>js_stack = [JInt 1, JInt (-8)], js_locals = [], js_pc = 0, js_heap = Map.empty\<rparr>"

definition negative_shift_frame :: interp_frame where
  "negative_shift_frame = \<lparr>if_stack = [-8, 0], if_sp = 2, if_locals = [], if_pc = 0, if_saved_pc = 0, if_fuel = 0, if_heap = Map.empty\<rparr>"

theorem exec_insn_defects_witness:
  "jvm_step no_env (Int_Bin ishr) negative_shift_state = Some (jnext negative_shift_state [JInt (-4)]) \<and>
   \<not> (\<exists>out. exec_insn no_env (Int_Bin ishr) (Int_Tos 1) negative_shift_frame = Some out \<and>
     outcome_rel negative_shift_state negative_shift_frame (jnext negative_shift_state [JInt (-4)]) out)"
proof
  show step: "jvm_step no_env (Int_Bin ishr) negative_shift_state = Some (jnext negative_shift_state [JInt (-4)])"
    by (simp add: negative_shift_state_def java_bin_def)
  have sr: "state_rel negative_shift_state negative_shift_frame (Int_Tos 1)"
    by (simp add: negative_shift_state_def negative_shift_frame_def state_rel_def rest_rel_def)
  show "\<not> (\<exists>out. exec_insn no_env (Int_Bin ishr) (Int_Tos 1) negative_shift_frame = Some out \<and>
     outcome_rel negative_shift_state negative_shift_frame (jnext negative_shift_state [JInt (-4)]) out)"
    by (rule exec_insn_defects [OF sr step]) (simp add: defect_def negative_shift_state_def)
qed

end
