(* ===== verification/Linkage.thy ===== *)
theory Linkage
  imports Gc Arena
begin

text \<open>
  Linking of classes, \<^verbatim>\<open>vm/linkage.c\<close> and \<^verbatim>\<open>vm/vtable.c\<close>, with the subtype test \<^verbatim>\<open>instanceof\<close> of \<^verbatim>\<open>vm/bjvm.c\<close> that reads
  what linking has set up. Class descriptors are entries of a table, a pointer to one is its number, and a pointer
  to a method is the class that declares it and its index there. Of the interface tables the list of the interfaces is
  modelled, not the methods in them. The analysis of the methods (theory \<open>Method_Analysis\<close>) and the table of
  paddings are parameters. A null dereference, a failed assertion and \<^verbatim>\<open>UNREACHABLE\<close> give \<open>None\<close>.
\<close>

section \<open>Class descriptors\<close>

type_synonym cid = nat
type_synonym method_ptr = "cid \<times> nat"

datatype classdesc_kind = CD_KIND_ORDINARY | CD_KIND_PRIMITIVE | CD_KIND_ORDINARY_ARRAY | CD_KIND_PRIMITIVE_ARRAY

datatype classdesc_state = CD_STATE_LINKAGE_ERROR | CD_STATE_LOADED | CD_STATE_LINKED | CD_STATE_INITIALIZING | CD_STATE_INITIALIZED

fun at_least_linked :: "classdesc_state \<Rightarrow> bool" where
  "at_least_linked CD_STATE_LINKAGE_ERROR = False"
| "at_least_linked CD_STATE_LOADED = False"
| "at_least_linked _ = True"

record link_field =
  lf_kind :: type_kind
  lf_static :: bool
  byte_offset :: u32

record link_method =
  lm_name :: string
  lm_descriptor :: string
  lm_flags :: u16
  lm_is_ctor :: bool
  lm_is_clinit :: bool
  lm_sigpoly :: bool
  vtable_index :: nat
  lm_overrides :: bool

abbreviation (input) ACC_PUBLIC :: u16 where "ACC_PUBLIC \<equiv> 0x0001"
abbreviation (input) ACC_PRIVATE :: u16 where "ACC_PRIVATE \<equiv> 0x0002"
abbreviation (input) ACC_PROTECTED :: u16 where "ACC_PROTECTED \<equiv> 0x0004"
abbreviation (input) ACC_STATIC :: u16 where "ACC_STATIC \<equiv> 0x0008"

record link_desc =
  cd_name :: string
  cd_kind :: classdesc_kind
  cd_state :: classdesc_state
  super_class :: "cid option"
  cd_interfaces :: "cid list"
  cd_is_interface :: bool
  cd_fields :: "link_field list"
  cd_methods :: "link_method list"
  cd_dimensions :: nat
  one_fewer_dim :: "cid option"
  base_component :: "cid option"
  array_type :: "cid option"
  primitive_component :: type_kind
  hierarchy :: "cid list"
  vtable :: "method_ptr list"
  itable_interfaces :: "cid list"
  static_bytes :: u32
  instance_bytes :: u32
  static_references :: "u16 list option"
  instance_references :: "u16 list option"

type_synonym class_table = "cid \<Rightarrow> link_desc option"

section \<open>Superclasses\<close>

definition setup_super_hierarchy :: "cid \<Rightarrow> class_table \<Rightarrow> class_table option" where
  "setup_super_hierarchy c T = do {
     cd \<leftarrow> T c;
     h \<leftarrow> (case super_class cd of
       Some s \<Rightarrow> do { super \<leftarrow> T s; if hierarchy super = [] then None else Some (hierarchy super) }
     | None \<Rightarrow> if cd_name cd = ''java/lang/Object'' then Some [] else None);
     Some (T(c \<mapsto> cd\<lparr>hierarchy := h @ [c]\<rparr>))
   }"

section \<open>Fields\<close>

definition allocate_field :: "u32 \<Rightarrow> type_kind \<Rightarrow> (u32 \<times> u32) option" where
  "allocate_field current k = (case k of
     TYPE_KIND_BOOLEAN \<Rightarrow> Some (current, current + 1)
   | TYPE_KIND_BYTE \<Rightarrow> Some (current, current + 1)
   | TYPE_KIND_CHAR \<Rightarrow> Some (align_up current 2, align_up current 2 + 2)
   | TYPE_KIND_SHORT \<Rightarrow> Some (align_up current 2, align_up current 2 + 2)
   | TYPE_KIND_FLOAT \<Rightarrow> Some (align_up current 4, align_up current 4 + 4)
   | TYPE_KIND_INT \<Rightarrow> Some (align_up current 4, align_up current 4 + 4)
   | TYPE_KIND_REFERENCE \<Rightarrow> Some (align_up current 4, align_up current 4 + 4)
   | TYPE_KIND_DOUBLE \<Rightarrow> Some (align_up current 8, align_up current 8 + 8)
   | TYPE_KIND_LONG \<Rightarrow> Some (align_up current 8, align_up current 8 + 8)
   | TYPE_KIND_VOID \<Rightarrow> None)"

definition bucket :: "link_field list \<Rightarrow> nat \<Rightarrow> nat list" where
  "bucket fds sz = filter (\<lambda>i. sizeof_type_kind (lf_kind (fds ! i)) = Some sz) [0..<length fds]"

definition reorder_fields_for_compactness :: "link_field list \<Rightarrow> nat list" where
  "reorder_fields_for_compactness fds = bucket fds 8 @ bucket fds 4 @ bucket fds 2 @ bucket fds 1"

text \<open>The loop that places the fields; the state is the fields with their offsets, the end of the static area and the
  end of the instance.\<close>

fun assign_offsets :: "nat list \<Rightarrow> link_field list \<Rightarrow> u32 \<Rightarrow> u32 \<Rightarrow> (link_field list \<times> u32 \<times> u32) option" where
  "assign_offsets [] fds st inst = Some (fds, st, inst)"
| "assign_offsets (i # order) fds st inst =
     (if lf_static (fds ! i) then do {
        (off, st') \<leftarrow> allocate_field st (lf_kind (fds ! i));
        assign_offsets order (fds[i := (fds ! i)\<lparr>byte_offset := off\<rparr>]) st' inst
      } else do {
        (off, inst') \<leftarrow> allocate_field inst (lf_kind (fds ! i));
        assign_offsets order (fds[i := (fds ! i)\<lparr>byte_offset := off\<rparr>]) st inst'
      })"

definition reference_slots :: "bool \<Rightarrow> link_field list \<Rightarrow> u16 list" where
  "reference_slots is_static fds =
     map (\<lambda>f. ucast (byte_offset f div 4)) (filter (\<lambda>f. lf_kind f = TYPE_KIND_REFERENCE \<and> lf_static f = is_static) fds)"

record link_env =
  le_analyze :: "cid \<Rightarrow> bool"
  le_padding :: "string \<Rightarrow> u32 option"

abbreviation (input) "sizeof_obj_header \<equiv> 8 :: u32"

definition layout_fields :: "link_env \<Rightarrow> cid \<Rightarrow> class_table \<Rightarrow> class_table option" where
  "layout_fields env c T = do {
     cd \<leftarrow> T c;
     (start, super_refs) \<leftarrow> (case super_class cd of
       Some s \<Rightarrow> do { super \<leftarrow> T s; refs \<leftarrow> instance_references super; Some (instance_bytes super, refs) }
     | None \<Rightarrow> Some (sizeof_obj_header, []));
     let order = (case le_padding env (cd_name cd) of None \<Rightarrow> reorder_fields_for_compactness (cd_fields cd)
       | Some _ \<Rightarrow> [0..<length (cd_fields cd)]);
     (fds, st, inst) \<leftarrow> assign_offsets order (cd_fields cd) 0
       (start + (case le_padding env (cd_name cd) of None \<Rightarrow> 0 | Some p \<Rightarrow> p));
     Some (T(c \<mapsto> cd\<lparr>cd_fields := fds, static_references := Some (reference_slots True fds),
       instance_references := Some (super_refs @ reference_slots False fds), static_bytes := st, instance_bytes := inst\<rparr>))
   }"

section \<open>Function tables\<close>

text \<open>What \<^verbatim>\<open>strrchr\<close> leaves before the last slash.\<close>

definition package_of :: "string \<Rightarrow> string option" where
  "package_of name = (if CHR ''/'' \<in> set name then Some (rev (tl (dropWhile (\<lambda>x. x \<noteq> CHR ''/'') (rev name)))) else None)"

definition same_runtime_package :: "link_desc \<Rightarrow> link_desc \<Rightarrow> bool" where
  "same_runtime_package a b \<longleftrightarrow> package_of (cd_name a) = package_of (cd_name b)"

definition method_overrides :: "link_desc \<Rightarrow> link_method \<Rightarrow> link_desc \<Rightarrow> bool" where
  "method_overrides my_class overrider overridden_class =
     (if lm_flags overrider AND ACC_PRIVATE \<noteq> 0 then False
      else if lm_flags overrider AND (ACC_PROTECTED OR ACC_PUBLIC) = 0 then same_runtime_package my_class overridden_class
      else True)"

definition vtable_include :: "link_method \<Rightarrow> bool" where
  "vtable_include m \<longleftrightarrow> \<not> lm_is_ctor m \<and> \<not> lm_is_clinit m \<and> lm_flags m AND ACC_STATIC = 0 \<and> \<not> lm_overrides m"

definition method_candidate_matches :: "string \<Rightarrow> string option \<Rightarrow> link_method \<Rightarrow> bool" where
  "method_candidate_matches name descriptor m \<longleftrightarrow> lm_name m = name \<and> (lm_sigpoly m \<or> descriptor = None \<or> Some (lm_descriptor m) = descriptor)"

text \<open>\<^verbatim>\<open>method_lookup\<close> without superclasses and superinterfaces: the first match in the class itself.\<close>

fun find_method :: "string \<Rightarrow> string option \<Rightarrow> link_method list \<Rightarrow> nat \<Rightarrow> nat option" where
  "find_method name descriptor [] k = None"
| "find_method name descriptor (m # ms) k =
     (if method_candidate_matches name descriptor m then Some k else find_method name descriptor ms (Suc k))"

definition method_at :: "class_table \<Rightarrow> method_ptr \<Rightarrow> link_method option" where
  "method_at T = (\<lambda>(c, k). do { cd \<leftarrow> T c; if k < length (cd_methods cd) then Some (cd_methods cd ! k) else None })"

text \<open>The loop over the superclass's table. It changes the methods of the class \<open>c\<close> and its table only.\<close>

fun inherit_vtable :: "class_table \<Rightarrow> cid \<Rightarrow> method_ptr list \<Rightarrow> link_desc \<Rightarrow> link_desc option" where
  "inherit_vtable T c [] cd = Some cd"
| "inherit_vtable T c (p # ps) cd = do {
     m \<leftarrow> method_at T p;
     my_class \<leftarrow> T (fst p);
     case find_method (lm_name m) (Some (lm_descriptor m)) (cd_methods cd) 0 of
       None \<Rightarrow> inherit_vtable T c ps (cd\<lparr>vtable := vtable cd @ [p]\<rparr>)
     | Some k \<Rightarrow>
         if method_overrides cd (cd_methods cd ! k) my_class then
           inherit_vtable T c ps (cd\<lparr>vtable := vtable cd @ [(c, k)],
             cd_methods := (cd_methods cd)[k := (cd_methods cd ! k)\<lparr>vtable_index := vtable_index m, lm_overrides := True\<rparr>]\<rparr>)
         else inherit_vtable T c ps (cd\<lparr>vtable := vtable cd @ [p]\<rparr>)
   }"

fun push_new_methods :: "cid \<Rightarrow> nat list \<Rightarrow> link_desc \<Rightarrow> link_desc" where
  "push_new_methods c [] cd = cd"
| "push_new_methods c (k # ks) cd =
     (if vtable_include (cd_methods cd ! k) then
        push_new_methods c ks (cd\<lparr>cd_methods := (cd_methods cd)[k := (cd_methods cd ! k)\<lparr>vtable_index := length (vtable cd)\<rparr>],
          vtable := vtable cd @ [(c, k)]\<rparr>)
      else push_new_methods c ks cd)"

text \<open>The interfaces for which the second loop of \<^verbatim>\<open>setup_itables\<close> makes a table, in the order of their first occurrence.\<close>

fun merge_interfaces :: "cid list \<Rightarrow> cid list \<Rightarrow> cid list" where
  "merge_interfaces acc [] = acc"
| "merge_interfaces acc (i # is) = merge_interfaces (if i \<in> set acc then acc else acc @ [i]) is"

fun interfaces_of :: "class_table \<Rightarrow> cid list \<Rightarrow> cid list option" where
  "interfaces_of T [] = Some []"
| "interfaces_of T (i # is) = do { cd \<leftarrow> T i; rest \<leftarrow> interfaces_of T is; Some (itable_interfaces cd @ rest) }"

definition set_up_function_tables :: "cid \<Rightarrow> class_table \<Rightarrow> class_table option" where
  "set_up_function_tables c T = do {
     cd \<leftarrow> T c;
     cd \<leftarrow> (if vtable cd \<noteq> [] then None else case super_class cd of
       None \<Rightarrow> Some cd
     | Some s \<Rightarrow> do {
         super \<leftarrow> T s;
         cd' \<leftarrow> inherit_vtable T c (vtable super) cd;
         is \<leftarrow> (if itable_interfaces cd \<noteq> [] then None else interfaces_of T (cd_interfaces cd @ [s]));
         Some (cd'\<lparr>itable_interfaces := merge_interfaces [] is\<rparr>)
       });
     let cd = (if cd_is_interface cd then cd\<lparr>itable_interfaces := itable_interfaces cd @ [c]\<rparr> else cd);
     Some (T(c \<mapsto> push_new_methods c [0..<length (cd_methods cd)] cd))
   }"

definition vtable_lookup :: "class_table \<Rightarrow> cid \<Rightarrow> nat \<Rightarrow> method_ptr option" where
  "vtable_lookup T c i = do { cd \<leftarrow> T c; if i < length (vtable cd) then Some (vtable cd ! i) else None }"

section \<open>Linking\<close>

definition set_state :: "cid \<Rightarrow> classdesc_state \<Rightarrow> class_table \<Rightarrow> class_table option" where
  "set_state c st T = map_option (\<lambda>cd. T(c \<mapsto> cd\<lparr>cd_state := st\<rparr>)) (T c)"

text \<open>The loop over the array types of a class; \<open>n\<close> bounds the number of dimensions.\<close>

fun set_array_states :: "nat \<Rightarrow> cid \<Rightarrow> classdesc_state \<Rightarrow> class_table \<Rightarrow> class_table option" where
  "set_array_states 0 a st T = None"
| "set_array_states (Suc n) a st T = do {
     cd \<leftarrow> T a;
     case array_type cd of None \<Rightarrow> Some T | Some b \<Rightarrow> do { T' \<leftarrow> set_state b st T; set_array_states n b st T' }
   }"

text \<open>\<^verbatim>\<open>link_class\<close>, the loop over its interfaces and \<^verbatim>\<open>link_array_class\<close>; \<open>n\<close> bounds the depth of the calls. The
  result is true for success.\<close>

fun link_class :: "nat \<Rightarrow> link_env \<Rightarrow> cid \<Rightarrow> class_table \<Rightarrow> (bool \<times> class_table) option"
  and link_interfaces :: "nat \<Rightarrow> link_env \<Rightarrow> cid list \<Rightarrow> class_table \<Rightarrow> (bool \<times> class_table) option"
  and link_array_class :: "nat \<Rightarrow> link_env \<Rightarrow> cid \<Rightarrow> class_table \<Rightarrow> (bool \<times> class_table) option" where
  "link_class 0 env c T = None"
| "link_class (Suc n) env c T = do {
     cd \<leftarrow> T c;
     if cd_state cd \<noteq> CD_STATE_LOADED then Some (True, T) else do {
       (ok, T) \<leftarrow> (case super_class cd of None \<Rightarrow> Some (True, T) | Some s \<Rightarrow> link_class n env s T);
       if \<not> ok then do { T \<leftarrow> set_state c CD_STATE_LINKAGE_ERROR T; Some (False, T) } else do {
         T \<leftarrow> setup_super_hierarchy c T;
         (ok, T) \<leftarrow> link_interfaces n env (cd_interfaces cd) T;
         if \<not> ok then do { T \<leftarrow> set_state c CD_STATE_LINKAGE_ERROR T; Some (False, T) }
         else if cd_kind cd \<noteq> CD_KIND_ORDINARY then
           (if cd_kind cd = CD_KIND_ORDINARY_ARRAY then link_array_class n env c T else None)
         else do {
           T \<leftarrow> set_state c CD_STATE_LINKED T;
           T \<leftarrow> (case array_type cd of None \<Rightarrow> Some T | Some a \<Rightarrow> map_option snd (link_array_class n env a T));
           if \<not> le_analyze env c then do { T \<leftarrow> set_state c CD_STATE_LINKAGE_ERROR T; Some (False, T) } else do {
             T \<leftarrow> layout_fields env c T;
             T \<leftarrow> set_up_function_tables c T;
             Some (True, T)
           }
         }
       }
     }
   }"
| "link_interfaces n env [] T = Some (True, T)"
| "link_interfaces 0 env (i # is) T = None"
| "link_interfaces (Suc n) env (i # is) T = do {
     (ok, T) \<leftarrow> link_class n env i T;
     if ok then link_interfaces (Suc n) env is T else Some (False, T)
   }"
| "link_array_class 0 env c T = None"
| "link_array_class (Suc n) env c T = do {
     cd \<leftarrow> T c;
     if at_least_linked (cd_state cd) then Some (True, T) else do {
       T \<leftarrow> set_state c CD_STATE_LINKED T;
       (ok, T) \<leftarrow> (case base_component cd of None \<Rightarrow> Some (True, T) | Some b \<Rightarrow> do {
         (ok, T) \<leftarrow> link_class n env b T;
         T \<leftarrow> set_array_states 256 b (if ok then CD_STATE_LINKED else CD_STATE_LINKAGE_ERROR) T;
         Some (ok, T)
       });
       T \<leftarrow> setup_super_hierarchy c T;
       T \<leftarrow> set_up_function_tables c T;
       Some (ok, T)
     }
   }"

section \<open>The subtype test\<close>

definition instanceof_interface :: "class_table \<Rightarrow> cid \<Rightarrow> cid \<Rightarrow> bool option" where
  "instanceof_interface T x target = do { cd \<leftarrow> T x; Some (x = target \<or> target \<in> set (itable_interfaces cd)) }"

definition instanceof_super :: "class_table \<Rightarrow> cid \<Rightarrow> cid \<Rightarrow> bool option" where
  "instanceof_super T x target = do {
     cd \<leftarrow> T x;
     td \<leftarrow> T target;
     if hierarchy td = [] then None
     else Some (length (hierarchy td) \<le> length (hierarchy cd) \<and> hierarchy cd ! (length (hierarchy td) - 1) = target)
   }"

text \<open>The loop that removes the dimensions of the target from both classes; \<open>Some None\<close> when the class runs out of
  dimensions.\<close>

fun strip_dims :: "class_table \<Rightarrow> nat \<Rightarrow> cid \<Rightarrow> cid \<Rightarrow> (cid \<times> cid) option option" where
  "strip_dims T 0 x target = Some (Some (x, target))"
| "strip_dims T (Suc d) x target = do {
     cd \<leftarrow> T x;
     td \<leftarrow> T target;
     target' \<leftarrow> one_fewer_dim td;
     case one_fewer_dim cd of None \<Rightarrow> Some None | Some x' \<Rightarrow> strip_dims T d x' target'
   }"

definition instanceof_plain :: "class_table \<Rightarrow> cid \<Rightarrow> cid \<Rightarrow> bool option" where
  "instanceof_plain T x target = do {
     td \<leftarrow> T target;
     if cd_is_interface td then instanceof_interface T x target else instanceof_super T x target
   }"

definition instanceof :: "class_table \<Rightarrow> cid \<Rightarrow> cid \<Rightarrow> bool option" where
  "instanceof T x target = do {
     cd \<leftarrow> T x;
     td \<leftarrow> T target;
     if cd_kind cd = CD_KIND_PRIMITIVE \<or> cd_kind td = CD_KIND_PRIMITIVE then None
     else if x = target then Some True
     else if cd_kind td \<noteq> CD_KIND_ORDINARY then
       (if cd_kind cd = CD_KIND_ORDINARY then Some False
        else if cd_kind cd = CD_KIND_ORDINARY_ARRAY then do {
          r \<leftarrow> strip_dims T (cd_dimensions td) x target;
          case r of None \<Rightarrow> Some False
          | Some (x', target') \<Rightarrow> do {
              cd' \<leftarrow> T x';
              td' \<leftarrow> T target';
              if cd_kind cd' = CD_KIND_PRIMITIVE \<or> cd_kind td' = CD_KIND_PRIMITIVE then Some False
              else instanceof_plain T x' target'
            }
        }
        else Some (cd_dimensions td = cd_dimensions cd \<and> primitive_component td = primitive_component cd))
     else instanceof_plain T x target
   }"

end
