(* ===== verification/Link_Fields.thy ===== *)
theory Link_Fields
  imports Linkage
begin

text \<open>
  The layout of the fields of a class: every field is aligned, inside of the instance or of the static area, and
  disjoint from all others and from the fields of the superclasses, and the list of references that the collector
  follows names exactly the reference fields.
\<close>

section \<open>One field\<close>

lemma align_up_exact:
  assumes "unat v + 8 < 2 ^ 32"
  shows "unat (align_up v 2) = (unat v + 1) div 2 * 2" "unat (align_up v 4) = (unat v + 3) div 4 * 4"
    "unat (align_up v 8) = (unat v + 7) div 8 * 8"
proof -
  have u: "unat (v + 1) = unat v + 1" "unat (v + 3) = unat v + 3"
    using assms unat_add_lem [of v 1] unat_add_lem [of v 3] by simp_all
  show "unat (align_up v 2) = (unat v + 1) div 2 * 2"
    using unat_and_not_mask [of "v + 1" 1] minus_exp_eq_not_mask [of 1, where 'a = "32 word"] u(1) by (simp add: align_up_def add.commute numeral_2_eq_2)
  show "unat (align_up v 4) = (unat v + 3) div 4 * 4"
    using unat_and_not_mask [of "v + 3" 2] minus_exp_eq_not_mask [of 2, where 'a = "32 word"] u(2) by (simp add: align_up_def add.commute)
  show "unat (align_up v 8) = (unat v + 7) div 8 * 8" using assms by (intro align_up_8) simp
qed

definition field_size :: "link_field \<Rightarrow> nat" where
  "field_size f = (case sizeof_type_kind (lf_kind f) of Some n \<Rightarrow> n | None \<Rightarrow> 0)"

lemma unat_plus_small: "unat (v :: u32) + n < 2 ^ 32 \<Longrightarrow> unat (v + of_nat n) = unat v + n"
  using unat_add_lem [of v "of_nat n"] by (simp add: unat_of_nat)

lemma allocate_field_spec:
  assumes "k \<noteq> TYPE_KIND_VOID" "unat current + 16 < 2 ^ 32"
  obtains off current' sz where "allocate_field current k = Some (off, current')" "sizeof_type_kind k = Some sz" "0 < sz" "sz dvd unat off"
    "unat current \<le> unat off" "unat current' = unat off + sz" "unat current' \<le> unat current + 15"
proof -
  have a: "unat (align_up current 2) = (unat current + 1) div 2 * 2" "unat (align_up current 4) = (unat current + 3) div 4 * 4"
    "unat (align_up current 8) = (unat current + 7) div 8 * 8"
    using align_up_exact [of current] assms(2) by simp_all
  have le: "unat (align_up current 2) \<le> unat current + 1" "unat (align_up current 4) \<le> unat current + 3" "unat (align_up current 8) \<le> unat current + 7"
    unfolding a by simp_all
  have ge: "unat current \<le> unat (align_up current 2)" "unat current \<le> unat (align_up current 4)" "unat current \<le> unat (align_up current 8)"
    unfolding a by simp_all
  have dvd: "2 dvd unat (align_up current 2)" "4 dvd unat (align_up current 4)" "8 dvd unat (align_up current 8)" unfolding a by simp_all
  have p: "unat (current + 1) = unat current + 1" "unat (align_up current 2 + 2) = unat (align_up current 2) + 2"
    "unat (align_up current 4 + 4) = unat (align_up current 4) + 4" "unat (align_up current 8 + 8) = unat (align_up current 8) + 8"
    using unat_plus_small [of current 1] unat_plus_small [of "align_up current 2" 2] unat_plus_small [of "align_up current 4" 4]
      unat_plus_small [of "align_up current 8" 8] le assms(2) by simp_all
  consider (b1) "k \<in> {TYPE_KIND_BOOLEAN, TYPE_KIND_BYTE}" | (b2) "k \<in> {TYPE_KIND_CHAR, TYPE_KIND_SHORT}"
    | (b4) "k \<in> {TYPE_KIND_FLOAT, TYPE_KIND_INT, TYPE_KIND_REFERENCE}" | (b8) "k \<in> {TYPE_KIND_DOUBLE, TYPE_KIND_LONG}"
    using assms(1) by (cases k) auto
  then show thesis
  proof cases
    case b1
    with p show thesis by (intro that [of current "current + 1" 1]) (auto simp: allocate_field_def sizeof_type_kind_def)
  next
    case b2
    with p le ge dvd show thesis
      by (intro that [of "align_up current 2" "align_up current 2 + 2" 2]) (auto simp: allocate_field_def sizeof_type_kind_def)
  next
    case b4
    with p le ge dvd show thesis
      by (intro that [of "align_up current 4" "align_up current 4 + 4" 4]) (auto simp: allocate_field_def sizeof_type_kind_def)
  next
    case b8
    with p le ge dvd show thesis
      by (intro that [of "align_up current 8" "align_up current 8 + 8" 8]) (auto simp: allocate_field_def sizeof_type_kind_def)
  qed
qed

section \<open>All fields\<close>

definition same_field :: "link_field \<Rightarrow> link_field \<Rightarrow> bool" where
  "same_field f g \<longleftrightarrow> lf_kind f = lf_kind g \<and> lf_static f = lf_static g"

definition field_end :: "link_field \<Rightarrow> nat" where
  "field_end f = unat (byte_offset f) + field_size f"

definition apart :: "link_field \<Rightarrow> link_field \<Rightarrow> bool" where
  "apart f g \<longleftrightarrow> field_end f \<le> unat (byte_offset g) \<or> field_end g \<le> unat (byte_offset f)"

text \<open>The fields of \<open>order\<close> lie between the two ends of their area, aligned and apart.\<close>

definition placed :: "nat list \<Rightarrow> link_field list \<Rightarrow> (bool \<Rightarrow> u32) \<Rightarrow> (bool \<Rightarrow> u32) \<Rightarrow> bool" where
  "placed order fds lo hi \<longleftrightarrow>
     (\<forall>i\<in>set order. field_size (fds ! i) dvd unat (byte_offset (fds ! i)) \<and> unat (lo (lf_static (fds ! i))) \<le> unat (byte_offset (fds ! i)) \<and>
        field_end (fds ! i) \<le> unat (hi (lf_static (fds ! i)))) \<and>
     (\<forall>i\<in>set order. \<forall>j\<in>set order. i \<noteq> j \<and> lf_static (fds ! i) = lf_static (fds ! j) \<longrightarrow> apart (fds ! i) (fds ! j))"

lemma placed_field:
  assumes "placed [0..<length fds] fds lo hi" "f \<in> set fds"
  shows "field_size f dvd unat (byte_offset f)" "field_end f \<le> unat (hi (lf_static f))"
  using assms by (auto simp: placed_def in_set_conv_nth)

lemma field_size_same: "same_field f g \<Longrightarrow> field_size f = field_size g"
  by (simp add: same_field_def field_size_def)

definition area :: "u32 \<Rightarrow> u32 \<Rightarrow> bool \<Rightarrow> u32" where
  [simp]: "area st inst s = (if s then st else inst)"

lemma placed_Cons:
  assumes "placed order fds lo' hi" "i \<notin> set order" "lf_static (fds ! i) = s"
    "field_size (fds ! i) dvd unat (byte_offset (fds ! i))" "unat (lo s) \<le> unat (byte_offset (fds ! i))"
    "field_end (fds ! i) \<le> unat (lo' s)" "\<forall>b. unat (lo b) \<le> unat (lo' b)" "\<forall>b. unat (lo' b) \<le> unat (hi b)"
  shows "placed (i # order) fds lo hi"
proof -
  have lo: "unat (lo (lf_static (fds ! j))) \<le> unat (byte_offset (fds ! j))" if "j \<in> set order" for j
    using assms(1,7) that by (fastforce simp: placed_def intro: le_trans)
  have ap: "apart (fds ! i) (fds ! j)" if "j \<in> set order" "lf_static (fds ! j) = s" for j
    using assms(1,6) that by (fastforce simp: placed_def apart_def intro: le_trans)
  have ap': "apart (fds ! j) (fds ! i)" if "j \<in> set order" "lf_static (fds ! j) = s" for j
    using ap [OF that] by (auto simp: apart_def)
  have hi: "field_end (fds ! i) \<le> unat (hi s)" using assms(6,8) le_trans by blast
  show ?thesis
    using assms(1,3,4,5) lo ap ap' hi by (auto simp: placed_def)
qed

lemma assign_offsets_spec:
  assumes "distinct order" "\<forall>i\<in>set order. i < length fds \<and> lf_kind (fds ! i) \<noteq> TYPE_KIND_VOID"
    "unat st + 16 * (length order + 1) < 2 ^ 32" "unat inst + 16 * (length order + 1) < 2 ^ 32"
  shows "\<exists>fds' st' inst'. assign_offsets order fds st inst = Some (fds', st', inst') \<and> list_all2 same_field fds fds' \<and>
    (\<forall>i. i \<notin> set order \<longrightarrow> fds' ! i = fds ! i) \<and> unat st \<le> unat st' \<and> unat inst \<le> unat inst' \<and>
    unat st' \<le> unat st + 15 * length order \<and> unat inst' \<le> unat inst + 15 * length order \<and>
    placed order fds' (area st inst) (area st' inst')"
  using assms
proof (induction order arbitrary: fds st inst)
  case Nil
  show ?case by (simp add: placed_def list_all2_conv_all_nth same_field_def)
next
  case (Cons i order)
  define s where "s = lf_static (fds ! i)"
  from Cons.prems have i: "i < length fds" "lf_kind (fds ! i) \<noteq> TYPE_KIND_VOID" "i \<notin> set order" by auto
  have "unat (area st inst s) + 16 < 2 ^ 32" using Cons.prems(3,4) by auto
  from allocate_field_spec [OF i(2) this] obtain off cur' sz where al: "allocate_field (area st inst s) (lf_kind (fds ! i)) = Some (off, cur')"
    "sizeof_type_kind (lf_kind (fds ! i)) = Some sz" "0 < sz" "sz dvd unat off" "unat (area st inst s) \<le> unat off" "unat cur' = unat off + sz"
    "unat cur' \<le> unat (area st inst s) + 15" .
  define f where "f = (fds ! i)\<lparr>byte_offset := off\<rparr>"
  define st1 where "st1 = (if s then cur' else st)"
  define inst1 where "inst1 = (if s then inst else cur')"
  have step: "assign_offsets (i # order) fds st inst = assign_offsets order (fds[i := f]) st1 inst1"
    using al(1) by (auto simp: s_def st1_def inst1_def f_def)
  have b: "unat st \<le> unat st1" "unat inst \<le> unat inst1" "unat st1 \<le> unat st + 15" "unat inst1 \<le> unat inst + 15"
    using al(5-7) by (auto simp: st1_def inst1_def)
  have "\<forall>j\<in>set order. j < length (fds[i := f]) \<and> lf_kind (fds[i := f] ! j) \<noteq> TYPE_KIND_VOID"
    using Cons.prems(2) by (auto simp: nth_list_update f_def)
  moreover have "distinct order" "unat st1 + 16 * (length order + 1) < 2 ^ 32" "unat inst1 + 16 * (length order + 1) < 2 ^ 32"
    using Cons.prems(1,3,4) b by simp_all
  ultimately obtain fds' st' inst' where
    ih: "assign_offsets order (fds[i := f]) st1 inst1 = Some (fds', st', inst')" "list_all2 same_field (fds[i := f]) fds'"
      "\<forall>j. j \<notin> set order \<longrightarrow> fds' ! j = fds[i := f] ! j" "unat st1 \<le> unat st'" "unat inst1 \<le> unat inst'"
      "unat st' \<le> unat st1 + 15 * length order" "unat inst' \<le> unat inst1 + 15 * length order"
      "placed order fds' (area st1 inst1) (area st' inst')" using Cons.IH [of "fds[i := f]" st1 inst1] by blast
  have fi: "fds' ! i = f" using ih(3) i by simp
  have "placed (i # order) fds' (area st inst) (area st' inst')"
    by (rule placed_Cons [OF ih(8) i(3), where s = s])
      (use fi al b ih(4,5) in \<open>auto simp: f_def s_def field_size_def field_end_def st1_def inst1_def\<close>)
  moreover have "list_all2 same_field fds fds'"
    using ih(2) i(1) by (auto simp: list_all2_conv_all_nth nth_list_update f_def same_field_def split: if_splits)
  moreover have "\<forall>j. j \<notin> set (i # order) \<longrightarrow> fds' ! j = fds ! j" using ih(3) by (simp add: nth_list_update)
  moreover have "assign_offsets (i # order) fds st inst = Some (fds', st', inst')" unfolding step by (rule ih(1))
  moreover have "unat st \<le> unat st'" "unat inst \<le> unat inst'" "unat st' \<le> unat st + 15 * length (i # order)"
    "unat inst' \<le> unat inst + 15 * length (i # order)" using ih(4-7) b by simp_all
  ultimately show ?case by blast
qed

lemma reorder_fields_permutation:
  assumes "\<forall>f\<in>set fds. lf_kind f \<noteq> TYPE_KIND_VOID"
  shows "distinct (reorder_fields_for_compactness fds)" "set (reorder_fields_for_compactness fds) = {..<length fds}"
    "length (reorder_fields_for_compactness fds) = length fds"
proof -
  have "sizeof_type_kind k \<in> {Some 1, Some 2, Some 4, Some 8}" if "k \<noteq> TYPE_KIND_VOID" for k
    using that by (cases k) (auto simp: sizeof_type_kind_def)
  with assms show set: "set (reorder_fields_for_compactness fds) = {..<length fds}"
    by (fastforce simp: reorder_fields_for_compactness_def bucket_def)
  show dist: "distinct (reorder_fields_for_compactness fds)"
    by (auto simp: reorder_fields_for_compactness_def bucket_def)
  from distinct_card [OF dist] set show "length (reorder_fields_for_compactness fds) = length fds" by simp
qed

text \<open>The place where the fields of a class begin, and the references that it inherits.\<close>

definition inherited_layout :: "class_table \<Rightarrow> link_desc \<Rightarrow> u32 \<Rightarrow> u16 list \<Rightarrow> bool" where
  "inherited_layout T cd start refs \<longleftrightarrow> (case super_class cd of None \<Rightarrow> start = 8 \<and> refs = []
     | Some s \<Rightarrow> \<exists>super. T s = Some super \<and> instance_bytes super = start \<and> instance_references super = Some refs)"

definition padding_of :: "link_env \<Rightarrow> link_desc \<Rightarrow> u32" where
  "padding_of env cd = (case le_padding env (cd_name cd) of None \<Rightarrow> 0 | Some p \<Rightarrow> p)"

lemma reference_slots_exact:
  assumes "\<forall>f\<in>set fds. lf_kind f = TYPE_KIND_REFERENCE \<and> lf_static f = s \<longrightarrow> 4 dvd unat (byte_offset f) \<and> unat (byte_offset f) < 4 * 65536"
  shows "map (\<lambda>r. 4 * unat r) (reference_slots s fds) =
    map (\<lambda>f. unat (byte_offset f)) (filter (\<lambda>f. lf_kind f = TYPE_KIND_REFERENCE \<and> lf_static f = s) fds)"
proof -
  have "4 * unat (ucast (byte_offset f div 4) :: u16) = unat (byte_offset f)"
    if "4 dvd unat (byte_offset f)" "unat (byte_offset f) < 4 * 65536" for f
  proof -
    have "unat (byte_offset f div 4) = unat (byte_offset f) div 4" by (simp add: unat_div)
    moreover have "unat (byte_offset f) div 4 < 65536" using that(2) by simp
    ultimately have "unat (ucast (byte_offset f div 4) :: u16) = unat (byte_offset f) div 4"
      by (simp add: unsigned_ucast_eq take_bit_nat_eq_self)
    with that(1) show ?thesis by simp
  qed
  with assms show ?thesis by (auto simp: reference_slots_def)
qed

definition laid_out :: "link_desc \<Rightarrow> u16 list \<Rightarrow> link_field list \<Rightarrow> u32 \<Rightarrow> u32 \<Rightarrow> link_desc" where
  "laid_out cd refs fds st inst = cd\<lparr>cd_fields := fds, static_references := Some (reference_slots True fds),
     instance_references := Some (refs @ reference_slots False fds), static_bytes := st, instance_bytes := inst\<rparr>"

lemma layout_fields_exec:
  assumes "T c = Some cd" "\<forall>f\<in>set (cd_fields cd). lf_kind f \<noteq> TYPE_KIND_VOID" "inherited_layout T cd start refs"
    "unat (start + padding_of env cd) + 16 * (length (cd_fields cd) + 1) < 2 ^ 32"
  shows "\<exists>fds st inst. layout_fields env c T = Some (T(c \<mapsto> laid_out cd refs fds st inst)) \<and> list_all2 same_field (cd_fields cd) fds \<and>
    placed [0..<length (cd_fields cd)] fds (area 0 (start + padding_of env cd)) (area st inst) \<and>
    unat inst \<le> unat (start + padding_of env cd) + 15 * length (cd_fields cd)"
proof -
  let ?n = "length (cd_fields cd)"
  define order where "order = (case le_padding env (cd_name cd) of None \<Rightarrow> reorder_fields_for_compactness (cd_fields cd) | Some _ \<Rightarrow> [0..<?n])"
  have order: "distinct order" "set order = {..<?n}" "length order = ?n"
    using reorder_fields_permutation [OF assms(2)] by (cases "le_padding env (cd_name cd)"; simp add: order_def atLeast0LessThan)+
  have kinds: "\<forall>i\<in>set order. i < ?n \<and> lf_kind (cd_fields cd ! i) \<noteq> TYPE_KIND_VOID" using assms(2) order(2) by auto
  have "unat (0 :: u32) + 16 * (length order + 1) < 2 ^ 32" "unat (start + padding_of env cd) + 16 * (length order + 1) < 2 ^ 32"
    unfolding order(3) using assms(4) by simp_all
  from assign_offsets_spec [OF order(1) kinds this] obtain fds st inst where
    as: "assign_offsets order (cd_fields cd) 0 (start + padding_of env cd) = Some (fds, st, inst)" "list_all2 same_field (cd_fields cd) fds"
      "placed order fds (area 0 (start + padding_of env cd)) (area st inst)"
      "unat inst \<le> unat (start + padding_of env cd) + 15 * length order" by blast
  have "layout_fields env c T = Some (T(c \<mapsto> laid_out cd refs fds st inst))"
    using assms(1,3) as(1) unfolding layout_fields_def inherited_layout_def laid_out_def order_def padding_of_def
    by (cases "super_class cd") (auto simp: Let_def)
  moreover have "placed [0..<?n] fds (area 0 (start + padding_of env cd)) (area st inst)"
    using as(3) order(2) by (simp add: placed_def atLeast0LessThan)
  ultimately show ?thesis using as(2,4) unfolding order(3) by blast
qed

text \<open>C12. Linking lays out the fields of a class correctly: no field changes its kind, each is aligned to its size, the
  instance fields lie behind the fields of the superclass (and the padding for internal fields) and inside of the
  instance, the static ones inside of the static area, no two overlap, and the list that the collector follows
  consists of the references of the superclass and exactly the offsets of the class's own reference fields, as long
  as the instance has at most 256 KiB, since the entries of the list have 16 bits.\<close>

theorem layout_fields_ok:
  assumes "T c = Some cd" "\<forall>f\<in>set (cd_fields cd). lf_kind f \<noteq> TYPE_KIND_VOID" "inherited_layout T cd start refs"
    "unat (start + padding_of env cd) + 16 * (length (cd_fields cd) + 1) < 2 ^ 32"
  shows "\<exists>cd'. layout_fields env c T = Some (T(c \<mapsto> cd')) \<and> list_all2 same_field (cd_fields cd) (cd_fields cd') \<and>
    placed [0..<length (cd_fields cd)] (cd_fields cd') (area 0 (start + padding_of env cd)) (area (static_bytes cd') (instance_bytes cd')) \<and>
    (\<exists>own. instance_references cd' = Some (refs @ own) \<and>
      (unat (instance_bytes cd') \<le> 4 * 65536 \<longrightarrow> map (\<lambda>r. 4 * unat r) own =
        map (\<lambda>f. unat (byte_offset f)) (filter (\<lambda>f. lf_kind f = TYPE_KIND_REFERENCE \<and> \<not> lf_static f) (cd_fields cd'))))"
proof -
  let ?n = "length (cd_fields cd)"
  from layout_fields_exec [OF assms] obtain fds st inst where
    l: "layout_fields env c T = Some (T(c \<mapsto> laid_out cd refs fds st inst))" "list_all2 same_field (cd_fields cd) fds"
      "placed [0..<?n] fds (area 0 (start + padding_of env cd)) (area st inst)" by blast
  have own: "map (\<lambda>r. 4 * unat r) (reference_slots False fds) =
      map (\<lambda>f. unat (byte_offset f)) (filter (\<lambda>f. lf_kind f = TYPE_KIND_REFERENCE \<and> \<not> lf_static f) fds)"
    if "unat inst \<le> 4 * 65536"
  proof -
    have "length fds = ?n" using l(2) by (simp add: list_all2_lengthD)
    with l(3) placed_field [of fds] have "\<forall>f\<in>set fds. field_size f dvd unat (byte_offset f) \<and> field_end f \<le> unat (area st inst (lf_static f))"
      by metis
    with that have "\<forall>f\<in>set fds. lf_kind f = TYPE_KIND_REFERENCE \<and> lf_static f = False \<longrightarrow> 4 dvd unat (byte_offset f) \<and> unat (byte_offset f) < 4 * 65536"
      by (fastforce simp: field_size_def field_end_def sizeof_type_kind_def)
    from reference_slots_exact [OF this] show ?thesis by simp
  qed
  have sel: "cd_fields (laid_out cd refs fds st inst) = fds" "static_bytes (laid_out cd refs fds st inst) = st"
    "instance_bytes (laid_out cd refs fds st inst) = inst"
    "instance_references (laid_out cd refs fds st inst) = Some (refs @ reference_slots False fds)" by (simp_all add: laid_out_def)
  show ?thesis
    by (rule exI [of _ "laid_out cd refs fds st inst"], unfold sel) (use l own in blast)
qed

definition pair_class :: link_desc where
  "pair_class = \<lparr>cd_name = ''java/lang/Object'', cd_kind = CD_KIND_ORDINARY, cd_state = CD_STATE_LINKED, super_class = None, cd_interfaces = [],
     cd_is_interface = False, cd_fields = [\<lparr>lf_kind = TYPE_KIND_REFERENCE, lf_static = False, byte_offset = 0\<rparr>,
       \<lparr>lf_kind = TYPE_KIND_LONG, lf_static = False, byte_offset = 0\<rparr>], cd_methods = [], cd_dimensions = 0, one_fewer_dim = None,
     base_component = None, array_type = None, primitive_component = TYPE_KIND_BOOLEAN, hierarchy = [0], vtable = [], itable_interfaces = [],
     static_bytes = 0, instance_bytes = 0, static_references = None, instance_references = None\<rparr>"

theorem layout_fields_ok_witness:
  "\<exists>cd'. layout_fields \<lparr>le_analyze = (\<lambda>_. True), le_padding = Map.empty\<rparr> 0 [0 \<mapsto> pair_class] = Some [0 \<mapsto> cd'] \<and>
    placed [0..<2] (cd_fields cd') (area 0 8) (area (static_bytes cd') (instance_bytes cd'))"
proof -
  have "\<forall>f\<in>set (cd_fields pair_class). lf_kind f \<noteq> TYPE_KIND_VOID" by (simp add: pair_class_def)
  moreover have "inherited_layout [0 \<mapsto> pair_class] pair_class 8 []" by (simp add: inherited_layout_def pair_class_def)
  moreover have "padding_of \<lparr>le_analyze = (\<lambda>_. True), le_padding = Map.empty\<rparr> pair_class = 0" by (simp add: padding_of_def)
  moreover have "length (cd_fields pair_class) = 2" by (simp add: pair_class_def)
  ultimately show ?thesis
    using layout_fields_ok [of "[0 \<mapsto> pair_class]" 0 pair_class 8 "[]" "\<lparr>le_analyze = (\<lambda>_. True), le_padding = Map.empty\<rparr>"] by auto
qed

end
