(* ===== verification/Link_Tables.thy ===== *)
theory Link_Tables
  imports Linkage
begin

text \<open>
  What linking has to set up for a class: the chain of its superclasses, the list of all of its superinterfaces, and a
  table of virtual methods that agrees with the superclass's table up to overriding. \<open>set_up\<close> states it for a class
  and, recursively, its superclass and interfaces. The steps of \<open>link_class\<close> establish it, and it is kept when other
  classes are linked.
\<close>

section \<open>Classes whose tables are set up\<close>

definition is_virtual :: "link_method \<Rightarrow> bool" where
  "is_virtual m \<longleftrightarrow> \<not> lm_is_ctor m \<and> \<not> lm_is_clinit m \<and> lm_flags m AND ACC_STATIC = 0"

text \<open>The method in the slot of \<open>p\<close> in a subclass: the one of the same name and descriptor if it overrides.\<close>

definition override_slot :: "class_table \<Rightarrow> cid \<Rightarrow> link_desc \<Rightarrow> method_ptr \<Rightarrow> method_ptr" where
  "override_slot T c cd p = (case (method_at T p, T (fst p)) of
     (Some m, Some my_class) \<Rightarrow> (case find_method (lm_name m) (Some (lm_descriptor m)) (cd_methods cd) 0 of
         Some k \<Rightarrow> if method_overrides cd (cd_methods cd ! k) my_class then (c, k) else p
       | None \<Rightarrow> p)
   | _ \<Rightarrow> p)"

definition super_vtable :: "class_table \<Rightarrow> link_desc \<Rightarrow> method_ptr list" where
  "super_vtable T cd = (case super_class cd of None \<Rightarrow> [] | Some s \<Rightarrow> (case T s of None \<Rightarrow> [] | Some sd \<Rightarrow> vtable sd))"

definition vtable_ok :: "class_table \<Rightarrow> cid \<Rightarrow> link_desc \<Rightarrow> bool" where
  "vtable_ok T c cd \<longleftrightarrow>
     take (length (super_vtable T cd)) (vtable cd) = map (override_slot T c cd) (super_vtable T cd) \<and>
     (\<forall>p\<in>set (vtable cd). fst p \<in> set (hierarchy cd) \<and> (\<exists>m. method_at T p = Some m \<and> vtable_index m < length (vtable cd) \<and>
        vtable cd ! vtable_index m = p)) \<and>
     (\<forall>k<length (cd_methods cd). is_virtual (cd_methods cd ! k) \<longrightarrow> (c, k) \<in> set (vtable cd))"

definition own_interface :: "cid \<Rightarrow> link_desc \<Rightarrow> cid set" where
  "own_interface c cd = (if cd_is_interface cd then {c} else {})"

definition supers :: "link_desc \<Rightarrow> cid list" where
  "supers cd = cd_interfaces cd @ (case super_class cd of None \<Rightarrow> [] | Some s \<Rightarrow> [s])"

definition interfaces_at :: "class_table \<Rightarrow> cid \<Rightarrow> cid set" where
  "interfaces_at T c = (case T c of None \<Rightarrow> {} | Some cd \<Rightarrow> set (itable_interfaces cd))"

definition hierarchy_at :: "class_table \<Rightarrow> cid \<Rightarrow> cid list" where
  "hierarchy_at T c = (case T c of None \<Rightarrow> [] | Some cd \<Rightarrow> hierarchy cd)"

inductive set_up :: "class_table \<Rightarrow> cid \<Rightarrow> bool" for T where
  linked: "T c = Some cd \<Longrightarrow> (\<And>s. s \<in> set (supers cd) \<Longrightarrow> set_up T s) \<Longrightarrow>
   hierarchy cd = (case super_class cd of None \<Rightarrow> [] | Some s \<Rightarrow> hierarchy_at T s) @ [c] \<Longrightarrow>
   set (itable_interfaces cd) = own_interface c cd \<union> (\<Union>s\<in>set (supers cd). interfaces_at T s) \<Longrightarrow>
   vtable_ok T c cd \<Longrightarrow> vtable cd \<noteq> [] \<Longrightarrow> set_up T c"

inductive_cases set_upE: "set_up T c"

lemma set_upD:
  assumes "set_up T c" "T c = Some cd"
  shows "s \<in> set (supers cd) \<Longrightarrow> set_up T s"
    "hierarchy cd = (case super_class cd of None \<Rightarrow> [] | Some s \<Rightarrow> hierarchy_at T s) @ [c]"
    "set (itable_interfaces cd) = own_interface c cd \<union> (\<Union>s\<in>set (supers cd). interfaces_at T s)"
    "vtable_ok T c cd" "vtable cd \<noteq> []"
  using assms by (cases rule: set_up.cases; simp)+

lemma set_up_in_table: "set_up T c \<Longrightarrow> \<exists>cd. T c = Some cd"
  by (auto elim: set_upE)

lemma super_in_supers [simp]: "super_class cd = Some s \<Longrightarrow> s \<in> set (supers cd)"
  by (simp add: supers_def)

lemma hierarchy_at_set_up:
  assumes "set_up T c" "T c = Some cd"
  shows "hierarchy_at T c = (case super_class cd of None \<Rightarrow> [] | Some s \<Rightarrow> hierarchy_at T s) @ [c]"
  using set_upD(2) [OF assms] assms(2) by (simp add: hierarchy_at_def)

lemma hierarchy_set_up: "set_up T c \<Longrightarrow> d \<in> set (hierarchy_at T c) \<Longrightarrow> set_up T d"
proof (induction rule: set_up.induct)
  case (linked c cd)
  have up: "set_up T c" by (rule set_up.linked [OF linked.hyps])
  show ?case
  proof (cases "super_class cd")
    case None
    with linked.prems up show ?thesis by (simp add: hierarchy_at_set_up [OF up linked.hyps(1)])
  next
    case (Some s)
    with linked.prems have "d = c \<or> d \<in> set (hierarchy_at T s)" by (auto simp: hierarchy_at_set_up [OF up linked.hyps(1)])
    with up linked.IH [of s] Some show ?thesis by auto
  qed
qed

section \<open>Other classes do not matter\<close>

text \<open>All of a descriptor but its state.\<close>

definition tables_of :: "link_desc \<Rightarrow> link_desc" where
  "tables_of cd = cd\<lparr>cd_state := CD_STATE_LOADED\<rparr>"

lemma tables_of_eq:
  assumes "tables_of a = tables_of b"
  shows "super_class a = super_class b" "cd_interfaces a = cd_interfaces b" "cd_is_interface a = cd_is_interface b" "cd_methods a = cd_methods b"
    "hierarchy a = hierarchy b" "vtable a = vtable b" "itable_interfaces a = itable_interfaces b" "cd_name a = cd_name b"
    "cd_kind a = cd_kind b" "instance_references a = instance_references b" "array_type a = array_type b"
  using assms by (cases a, cases b, simp add: tables_of_def)+

definition keeps_tables :: "class_table \<Rightarrow> class_table \<Rightarrow> cid \<Rightarrow> bool" where
  "keeps_tables T T' x \<longleftrightarrow> map_option tables_of (T' x) = map_option tables_of (T x)"

lemma keeps_tablesD:
  assumes "keeps_tables T T' x" "T x = Some cd"
  obtains cd' where "T' x = Some cd'" "tables_of cd' = tables_of cd"
  using assms by (auto simp: keeps_tables_def)

lemma keeps_tables_at:
  assumes "keeps_tables T T' x"
  shows "hierarchy_at T' x = hierarchy_at T x" "interfaces_at T' x = interfaces_at T x" "method_at T' (x, k) = method_at T (x, k)"
proof -
  consider "T x = None" "T' x = None" | cd cd' where "T x = Some cd" "T' x = Some cd'" "tables_of cd' = tables_of cd"
    using assms by (cases "T x") (auto simp: keeps_tables_def)
  then have "hierarchy_at T' x = hierarchy_at T x \<and> interfaces_at T' x = interfaces_at T x \<and> method_at T' (x, k) = method_at T (x, k)"
  proof cases
    case 2
    then show ?thesis by (simp add: hierarchy_at_def interfaces_at_def method_at_def tables_of_eq [OF 2(3)])
  qed (simp add: hierarchy_at_def interfaces_at_def method_at_def)
  then show "hierarchy_at T' x = hierarchy_at T x" "interfaces_at T' x = interfaces_at T x" "method_at T' (x, k) = method_at T (x, k)" by auto
qed

lemma override_slot_cong:
  assumes "keeps_tables T T' (fst p)" "tables_of cd' = tables_of cd"
  shows "override_slot T' c cd' p = override_slot T c cd p"
proof -
  have m: "method_at T' p = method_at T p" using keeps_tables_at(3) [OF assms(1)] by (cases p) simp
  show ?thesis
  proof (cases "T (fst p)")
    case None
    with assms(1) have "T' (fst p) = None" by (simp add: keeps_tables_def)
    with None m show ?thesis by (simp add: override_slot_def split: option.splits)
  next
    case (Some d)
    from keeps_tablesD [OF assms(1) Some] obtain d' where d': "T' (fst p) = Some d'" "tables_of d' = tables_of d" .
    have "method_overrides cd' om d' = method_overrides cd om d" for om
      by (simp add: method_overrides_def same_runtime_package_def tables_of_eq [OF assms(2)] tables_of_eq [OF d'(2)])
    with Some d'(1) m show ?thesis by (simp add: override_slot_def tables_of_eq [OF assms(2)] split: option.splits)
  qed
qed

lemma set_up_mono:
  assumes "set_up T c" "\<forall>x. set_up T x \<longrightarrow> keeps_tables T T' x"
  shows "set_up T' c"
  using assms(1)
proof (induction rule: set_up.induct)
  case (linked c cd)
  have up: "set_up T c" by (rule set_up.linked [OF linked.hyps])
  from keeps_tablesD [of T T' c] assms(2) up linked.hyps(1) obtain cd' where cd': "T' c = Some cd'" "tables_of cd' = tables_of cd" by blast
  note eq = tables_of_eq [OF cd'(2)]
  have sup: "supers cd' = supers cd" by (simp add: supers_def eq)
  have keep: "keeps_tables T T' s" if "s \<in> set (supers cd)" for s using linked.hyps(2) [OF that] assms(2) by blast
  have sv: "super_vtable T' cd' = super_vtable T cd"
  proof (cases "super_class cd")
    case (Some s)
    then obtain sd where sd: "T s = Some sd" using linked.hyps(2) [of s] set_up_in_table [of T s] by auto
    from keeps_tablesD [OF keep sd] Some obtain sd' where "T' s = Some sd'" and sd': "tables_of sd' = tables_of sd" by auto
    with Some sd show ?thesis by (simp add: super_vtable_def eq tables_of_eq [OF sd'])
  qed (simp add: super_vtable_def eq)
  have hier: "keeps_tables T T' (fst p)" if "p \<in> set (vtable cd)" for p
    using that linked.hyps(5) hierarchy_set_up [OF up, of "fst p"] linked.hyps(1) assms(2) by (auto simp: vtable_ok_def hierarchy_at_def)
  have svp: "keeps_tables T T' (fst p)" if p: "p \<in> set (super_vtable T cd)" for p
  proof -
    from p obtain s sd where s: "super_class cd = Some s" "T s = Some sd" "p \<in> set (vtable sd)"
      by (cases "super_class cd"; cases "T (the (super_class cd))") (auto simp: super_vtable_def)
    from linked.hyps(2) [of s] s(1) have sup: "set_up T s" by simp
    from set_upD(4) [OF sup s(2)] s(3) have "fst p \<in> set (hierarchy_at T s)" using s(2) by (auto simp: vtable_ok_def hierarchy_at_def)
    with hierarchy_set_up [OF sup] assms(2) show ?thesis by blast
  qed
  have meth: "method_at T' p = method_at T p" if "p \<in> set (vtable cd)" for p
    using keeps_tables_at(3) [OF hier [OF that]] by (cases p) simp
  have vt: "vtable_ok T' c cd'"
    using linked.hyps(5) override_slot_cong [OF svp cd'(2), of _ c] meth by (simp add: vtable_ok_def sv eq cong: map_cong)
  show ?case
  proof (rule set_up.linked [where T = T' and c = c and cd = cd', OF cd'(1)])
    show "set_up T' s" if "s \<in> set (supers cd')" for s using linked.IH that by (simp add: sup)
    show "hierarchy cd' = (case super_class cd' of None \<Rightarrow> [] | Some s \<Rightarrow> hierarchy_at T' s) @ [c]"
      using linked.hyps(3) keeps_tables_at(1) [OF keep] by (simp add: eq split: option.splits)
    show "set (itable_interfaces cd') = own_interface c cd' \<union> (\<Union>s\<in>set (supers cd'). interfaces_at T' s)"
      using linked.hyps(4) keeps_tables_at(2) [OF keep] by (simp add: eq sup own_interface_def)
  qed (use vt linked.hyps(6) eq in auto)
qed

section \<open>The table of virtual methods\<close>

text \<open>Equal but for what linking writes.\<close>

definition same_method :: "link_method \<Rightarrow> link_method \<Rightarrow> bool" where
  "same_method a b \<longleftrightarrow> lm_name a = lm_name b \<and> lm_descriptor a = lm_descriptor b \<and> lm_flags a = lm_flags b \<and> lm_is_ctor a = lm_is_ctor b \<and>
     lm_is_clinit a = lm_is_clinit b \<and> lm_sigpoly a = lm_sigpoly b"

lemma same_method_refl [simp]: "same_method m m"
  by (simp add: same_method_def)

lemma same_methods_refl [simp]: "list_all2 same_method ms ms"
  by (simp add: list_all2_conv_all_nth)

lemma same_methods_trans: "list_all2 same_method a b \<Longrightarrow> list_all2 same_method b c \<Longrightarrow> list_all2 same_method a c"
  by (auto simp: list_all2_conv_all_nth same_method_def)

lemma same_methods_upd: "k < length ms \<Longrightarrow> same_method (ms ! k) m \<Longrightarrow> list_all2 same_method ms (ms[k := m])"
  by (auto simp: list_all2_conv_all_nth nth_list_update)

lemma find_method_cong: "list_all2 same_method ms ms' \<Longrightarrow> find_method n d ms k = find_method n d ms' k"
  by (induction arbitrary: k rule: list_all2_induct) (auto simp: method_candidate_matches_def same_method_def)

lemma find_method_less: "find_method n d ms k = Some j \<Longrightarrow> k \<le> j \<and> j < k + length ms"
  by (induction ms arbitrary: k) (fastforce split: if_splits)+

lemma override_slot_methods:
  assumes "list_all2 same_method (cd_methods cd) (cd_methods cd')" "cd_name cd' = cd_name cd"
  shows "override_slot T c cd' p = override_slot T c cd p"
proof -
  have "method_overrides cd' (cd_methods cd' ! k) d = method_overrides cd (cd_methods cd ! k) d" if "k < length (cd_methods cd)" for k d
    using list_all2_nthD [OF assms(1) that] assms(2) by (simp add: method_overrides_def same_runtime_package_def same_method_def)
  then show ?thesis
    using find_method_cong [OF assms(1)] find_method_less [of _ _ "cd_methods cd" 0]
    by (auto simp: override_slot_def split: option.splits)
qed

text \<open>A method of \<open>c\<close> that overrides a slot of \<open>ps\<close> takes over the index of one that it overrides.\<close>

definition inherited_slot :: "class_table \<Rightarrow> cid \<Rightarrow> link_desc \<Rightarrow> method_ptr list \<Rightarrow> link_method list \<Rightarrow> nat \<Rightarrow> bool" where
  "inherited_slot T c cd ps ms k \<longleftrightarrow>
     (if (c, k) \<in> override_slot T c cd ` set ps
      then lm_overrides (ms ! k) \<and> (\<exists>p\<in>set ps. override_slot T c cd p = (c, k) \<and> vtable_index (ms ! k) = vtable_index (the (method_at T p)))
      else ms ! k = cd_methods cd ! k)"

lemma inherit_vtable_spec:
  assumes "\<forall>p\<in>set ps. fst p \<noteq> c \<and> method_at T p \<noteq> None"
  shows "\<exists>ms. inherit_vtable T c ps cd = Some (cd\<lparr>vtable := vtable cd @ map (override_slot T c cd) ps, cd_methods := ms\<rparr>) \<and>
    list_all2 same_method (cd_methods cd) ms \<and> (\<forall>k<length ms. inherited_slot T c cd ps ms k)"
  using assms
proof (induction ps arbitrary: cd)
  case Nil
  show ?case by (intro exI [of _ "cd_methods cd"]) (simp add: inherited_slot_def)
next
  case (Cons p ps)
  from Cons.prems obtain m where m: "method_at T p = Some m" "fst p \<noteq> c" by auto
  then obtain d where d: "T (fst p) = Some d" by (cases p) (auto simp: method_at_def split: bind_splits)
  show ?case
  proof (cases "override_slot T c cd p = p")
    case True
    define cd1 where "cd1 = cd\<lparr>vtable := vtable cd @ [p]\<rparr>"
    have step: "inherit_vtable T c (p # ps) cd = inherit_vtable T c ps cd1"
      using True m d by (auto simp: override_slot_def cd1_def split: option.splits if_splits)
    have os: "override_slot T c cd1 = override_slot T c cd"
      by (rule ext, rule override_slot_methods) (simp_all add: cd1_def)
    from Cons.IH [of cd1] Cons.prems obtain ms where
      ms: "inherit_vtable T c ps cd1 = Some (cd1\<lparr>vtable := vtable cd1 @ map (override_slot T c cd) ps, cd_methods := ms\<rparr>)"
      "list_all2 same_method (cd_methods cd1) ms" "\<forall>k<length ms. inherited_slot T c cd1 ps ms k" unfolding os by auto
    have "inherit_vtable T c (p # ps) cd = Some (cd\<lparr>vtable := vtable cd @ map (override_slot T c cd) (p # ps), cd_methods := ms\<rparr>)"
      unfolding step ms(1) by (simp add: cd1_def True)
    moreover have "inherited_slot T c cd (p # ps) ms k" if "k < length ms" for k
    proof -
      have "(c, k) \<noteq> p" using m(2) by auto
      moreover have "cd_methods cd1 = cd_methods cd" by (simp add: cd1_def)
      ultimately show ?thesis using ms(3) that True unfolding inherited_slot_def os
        by (cases "(c, k) \<in> override_slot T c cd ` set ps") auto
    qed
    ultimately show ?thesis using ms(2) by (auto simp: cd1_def)
  next
    case False
    then obtain k0 where k0: "find_method (lm_name m) (Some (lm_descriptor m)) (cd_methods cd) 0 = Some k0" "method_overrides cd (cd_methods cd ! k0) d"
      "override_slot T c cd p = (c, k0)"
      using m d by (auto simp: override_slot_def split: option.splits if_splits)
    have less: "k0 < length (cd_methods cd)" using find_method_less [OF k0(1)] by simp
    define m1 where "m1 = (cd_methods cd ! k0)\<lparr>vtable_index := vtable_index m, lm_overrides := True\<rparr>"
    define cd1 where "cd1 = cd\<lparr>vtable := vtable cd @ [(c, k0)], cd_methods := (cd_methods cd)[k0 := m1]\<rparr>"
    have step: "inherit_vtable T c (p # ps) cd = inherit_vtable T c ps cd1"
      using k0 m d by (simp add: cd1_def m1_def)
    have same: "list_all2 same_method (cd_methods cd) (cd_methods cd1)"
      using less by (auto simp: cd1_def m1_def same_method_def intro: same_methods_upd)
    have os: "override_slot T c cd1 = override_slot T c cd"
      by (rule ext, rule override_slot_methods [OF same]) (simp add: cd1_def)
    from Cons.IH [of cd1] Cons.prems obtain ms where
      ms: "inherit_vtable T c ps cd1 = Some (cd1\<lparr>vtable := vtable cd1 @ map (override_slot T c cd) ps, cd_methods := ms\<rparr>)"
      "list_all2 same_method (cd_methods cd1) ms" "\<forall>k<length ms. inherited_slot T c cd1 ps ms k" unfolding os by auto
    have "inherit_vtable T c (p # ps) cd = Some (cd\<lparr>vtable := vtable cd @ map (override_slot T c cd) (p # ps), cd_methods := ms\<rparr>)"
      unfolding step ms(1) by (simp add: cd1_def k0(3))
    moreover have "inherited_slot T c cd (p # ps) ms k" if k: "k < length ms" for k
    proof (cases "(c, k) \<in> override_slot T c cd ` set ps")
      case True
      with ms(3) k show ?thesis unfolding inherited_slot_def os by auto
    next
      case nin: False
      with ms(3) k have "ms ! k = cd_methods cd1 ! k" unfolding inherited_slot_def os by auto
      then show ?thesis using nin k0(3) less m(1) by (cases "k = k0") (auto simp: inherited_slot_def cd1_def m1_def)
    qed
    ultimately show ?thesis using same_methods_trans [OF same ms(2)] by blast
  qed
qed

definition pushed_slot :: "cid \<Rightarrow> nat list \<Rightarrow> link_desc \<Rightarrow> method_ptr list \<Rightarrow> link_method list \<Rightarrow> nat \<Rightarrow> bool" where
  "pushed_slot c ks cd vt ms k \<longleftrightarrow>
     (if k \<in> set ks \<and> vtable_include (cd_methods cd ! k) then vtable_index (ms ! k) < length vt \<and> vt ! vtable_index (ms ! k) = (c, k)
      else ms ! k = cd_methods cd ! k)"

lemma push_new_methods_spec:
  assumes "distinct ks" "\<forall>k\<in>set ks. k < length (cd_methods cd)"
  shows "\<exists>ms new. push_new_methods c ks cd = cd\<lparr>cd_methods := ms, vtable := vtable cd @ new\<rparr> \<and> list_all2 same_method (cd_methods cd) ms \<and>
    set new = Pair c ` {k \<in> set ks. vtable_include (cd_methods cd ! k)} \<and> (\<forall>k<length ms. pushed_slot c ks cd (vtable cd @ new) ms k)"
  using assms
proof (induction ks arbitrary: cd)
  case Nil
  show ?case by (intro exI [of _ "cd_methods cd"] exI [of _ "[]"]) (simp add: pushed_slot_def)
next
  case (Cons k0 ks)
  have ks: "distinct ks" "\<forall>k\<in>set ks. k < length (cd_methods cd)" "k0 < length (cd_methods cd)" "k0 \<notin> set ks" using Cons.prems by auto
  show ?case
  proof (cases "vtable_include (cd_methods cd ! k0)")
    case False
    from Cons.IH [OF ks(1,2)] obtain ms new where ms: "push_new_methods c ks cd = cd\<lparr>cd_methods := ms, vtable := vtable cd @ new\<rparr>"
      "list_all2 same_method (cd_methods cd) ms" "set new = Pair c ` {k \<in> set ks. vtable_include (cd_methods cd ! k)}"
      "\<forall>k<length ms. pushed_slot c ks cd (vtable cd @ new) ms k" by blast
    have "set new = Pair c ` {k \<in> set (k0 # ks). vtable_include (cd_methods cd ! k)}" using ms(3) False by auto
    moreover have "\<forall>k<length ms. pushed_slot c (k0 # ks) cd (vtable cd @ new) ms k"
      using ms(4) False by (auto simp: pushed_slot_def split: if_splits)
    moreover have "push_new_methods c (k0 # ks) cd = cd\<lparr>cd_methods := ms, vtable := vtable cd @ new\<rparr>" using ms(1) False by simp
    ultimately show ?thesis using ms(2) by blast
  next
    case True
    define m1 where "m1 = (cd_methods cd ! k0)\<lparr>vtable_index := length (vtable cd)\<rparr>"
    define cd1 where "cd1 = cd\<lparr>cd_methods := (cd_methods cd)[k0 := m1], vtable := vtable cd @ [(c, k0)]\<rparr>"
    have same: "list_all2 same_method (cd_methods cd) (cd_methods cd1)"
      using ks by (auto simp: cd1_def m1_def same_method_def intro: same_methods_upd)
    have other: "cd_methods cd1 ! k = cd_methods cd ! k" if "k \<noteq> k0" for k using that by (simp add: cd1_def)
    have "\<forall>k\<in>set ks. k < length (cd_methods cd1)" using ks(2) by (simp add: cd1_def)
    from Cons.IH [OF ks(1) this] obtain ms new where
      ms: "push_new_methods c ks cd1 = cd1\<lparr>cd_methods := ms, vtable := vtable cd1 @ new\<rparr>"
      "list_all2 same_method (cd_methods cd1) ms" "set new = Pair c ` {k \<in> set ks. vtable_include (cd_methods cd1 ! k)}"
      "\<forall>k<length ms. pushed_slot c ks cd1 (vtable cd1 @ new) ms k" by blast
    have "push_new_methods c (k0 # ks) cd = cd\<lparr>cd_methods := ms, vtable := vtable cd @ (c, k0) # new\<rparr>"
      using ms(1) True by (simp add: cd1_def m1_def)
    moreover have "{k \<in> set ks. vtable_include (cd_methods cd1 ! k)} = {k \<in> set ks. vtable_include (cd_methods cd ! k)}"
      using other ks(4) by force
    then have "set ((c, k0) # new) = Pair c ` {k \<in> set (k0 # ks). vtable_include (cd_methods cd ! k)}" using ms(3) True by auto
    moreover have "pushed_slot c (k0 # ks) cd (vtable cd @ (c, k0) # new) ms k" if k: "k < length ms" for k
    proof (cases "k = k0")
      case eq: True
      with ms(4) k ks(4) have "ms ! k = m1" using ks(3) by (auto simp: cd1_def pushed_slot_def)
      with eq True show ?thesis by (simp add: pushed_slot_def m1_def nth_append)
    next
      case False
      with ms(4) k other [OF False] show ?thesis by (auto simp: pushed_slot_def cd1_def split: if_splits)
    qed
    ultimately show ?thesis using same_methods_trans [OF same ms(2)] by blast
  qed
qed

section \<open>Setting up a class\<close>

lemma merge_interfaces_set: "set (merge_interfaces acc is) = set acc \<union> set is"
  by (induction acc "is" rule: merge_interfaces.induct) auto

lemma interfaces_of_spec:
  assumes "\<forall>i\<in>set is. T i \<noteq> None"
  shows "\<exists>xs. interfaces_of T is = Some xs \<and> set xs = (\<Union>i\<in>set is. interfaces_at T i)"
  using assms by (induction "is") (auto simp: interfaces_at_def)

text \<open>The part of a descriptor that the function tables do not touch.\<close>

definition linked_from :: "link_desc \<Rightarrow> link_desc \<Rightarrow> bool" where
  "linked_from cd cd' \<longleftrightarrow> (\<exists>vt is ms. cd' = cd\<lparr>vtable := vt, itable_interfaces := is, cd_methods := ms\<rparr> \<and> list_all2 same_method (cd_methods cd) ms)"

lemma push_new_methods_itables: "push_new_methods c ks (cd\<lparr>itable_interfaces := is\<rparr>) = (push_new_methods c ks cd)\<lparr>itable_interfaces := is\<rparr>"
proof (induction ks arbitrary: cd)
  case (Cons k ks)
  have eq: "cd\<lparr>itable_interfaces := is, cd_methods := a, vtable := b\<rparr> = (cd\<lparr>cd_methods := a, vtable := b\<rparr>)\<lparr>itable_interfaces := is\<rparr>" for a b
    by (cases cd) simp
  show ?case
  proof (cases "vtable_include (cd_methods cd ! k)")
    case True
    let ?a = "(cd_methods cd)[k := (cd_methods cd ! k)\<lparr>vtable_index := length (vtable cd)\<rparr>]" and ?b = "vtable cd @ [(c, k)]"
    have "push_new_methods c (k # ks) (cd\<lparr>itable_interfaces := is\<rparr>) = push_new_methods c ks (cd\<lparr>itable_interfaces := is, cd_methods := ?a, vtable := ?b\<rparr>)"
      using True by simp
    also have "\<dots> = (push_new_methods c ks (cd\<lparr>cd_methods := ?a, vtable := ?b\<rparr>))\<lparr>itable_interfaces := is\<rparr>" unfolding eq by (rule Cons.IH)
    finally show ?thesis using True by simp
  qed (simp add: Cons.IH)
qed simp

text \<open>The methods and slots of a class after both loops.\<close>

definition vtable_done :: "cid \<Rightarrow> link_desc \<Rightarrow> method_ptr list \<Rightarrow> method_ptr list \<Rightarrow> link_method list \<Rightarrow> bool" where
  "vtable_done c cd vt new ms \<longleftrightarrow> list_all2 same_method (cd_methods cd) ms \<and>
     (\<forall>k<length ms. is_virtual (cd_methods cd ! k) \<longrightarrow> (c, k) \<in> set vt) \<and>
     (\<forall>k<length ms. (c, k) \<in> set vt \<longrightarrow> vtable_index (ms ! k) < length vt \<and> vt ! vtable_index (ms ! k) = (c, k)) \<and>
     (\<forall>p\<in>set new. \<exists>k<length ms. p = (c, k))"

lemma vtable_loops:
  assumes sv: "\<forall>p\<in>set ps. fst p \<noteq> c \<and> (\<exists>m. method_at T p = Some m \<and> vtable_index m < length ps \<and> ps ! vtable_index m = p)"
    and fresh: "vtable cd = []" "\<forall>m\<in>set (cd_methods cd). \<not> lm_overrides m"
  shows "\<exists>cd1 ms new. inherit_vtable T c ps cd = Some cd1 \<and> linked_from cd cd1 \<and> itable_interfaces cd1 = itable_interfaces cd \<and>
    (\<forall>is. push_new_methods c [0..<length (cd_methods cd)] (cd1\<lparr>itable_interfaces := is\<rparr>) =
      cd\<lparr>vtable := map (override_slot T c cd) ps @ new, itable_interfaces := is, cd_methods := ms\<rparr>) \<and>
    vtable_done c cd (map (override_slot T c cd) ps @ new) new ms"
proof -
  let ?os = "override_slot T c cd" and ?n = "length (cd_methods cd)"
  have "\<forall>p\<in>set ps. fst p \<noteq> c \<and> method_at T p \<noteq> None" using sv by auto
  from inherit_vtable_spec [OF this, of cd] fresh(1) obtain ms1 where
    i: "inherit_vtable T c ps cd = Some (cd\<lparr>vtable := map ?os ps, cd_methods := ms1\<rparr>)" "list_all2 same_method (cd_methods cd) ms1"
      "\<forall>k<length ms1. inherited_slot T c cd ps ms1 k" by auto
  define cd1 where "cd1 = cd\<lparr>vtable := map ?os ps, cd_methods := ms1\<rparr>"
  have len1: "length ms1 = ?n" using i(2) by (simp add: list_all2_lengthD)
  have "\<forall>k\<in>set [0..<?n]. k < length (cd_methods cd1)" by (simp add: cd1_def len1)
  from push_new_methods_spec [OF _ this, of c] obtain ms new where
    p: "push_new_methods c [0..<?n] cd1 = cd1\<lparr>cd_methods := ms, vtable := vtable cd1 @ new\<rparr>" "list_all2 same_method (cd_methods cd1) ms"
      "set new = Pair c ` {k \<in> set [0..<?n]. vtable_include (cd_methods cd1 ! k)}"
      "\<forall>k<length ms. pushed_slot c [0..<?n] cd1 (vtable cd1 @ new) ms k" by auto
  have len: "length ms = ?n" using p(2) len1 by (simp add: list_all2_lengthD cd1_def)
  let ?vt = "map ?os ps @ new"
  have slot: "if (c, k) \<in> ?os ` set ps \<or> is_virtual (cd_methods cd ! k)
      then (c, k) \<in> set ?vt \<and> vtable_index (ms ! k) < length ?vt \<and> ?vt ! vtable_index (ms ! k) = (c, k) else (c, k) \<notin> set ?vt"
    if k: "k < ?n" for k
  proof (cases "(c, k) \<in> ?os ` set ps")
    case True
    have "inherited_slot T c cd ps ms1 k" using i(3) k len1 by simp
    then have "lm_overrides (ms1 ! k) \<and> (\<exists>q\<in>set ps. ?os q = (c, k) \<and> vtable_index (ms1 ! k) = vtable_index (the (method_at T q)))"
      using True unfolding inherited_slot_def by (simp only: if_True)
    then obtain q where q: "q \<in> set ps" "?os q = (c, k)" "vtable_index (ms1 ! k) = vtable_index (the (method_at T q))" "lm_overrides (ms1 ! k)"
      by blast
    from p(4) k len q(4) have "ms ! k = ms1 ! k" by (auto simp: pushed_slot_def cd1_def vtable_include_def)
    moreover from sv q(1) obtain m where "method_at T q = Some m" "vtable_index m < length ps" "ps ! vtable_index m = q" by auto
    ultimately show ?thesis using True q(2,3) by (auto simp: nth_append)
  next
    case False
    with i(3) k len1 have m1: "ms1 ! k = cd_methods cd ! k" unfolding inherited_slot_def by auto
    have "\<not> lm_overrides (cd_methods cd ! k)" using fresh(2) k by auto
    then have inc: "vtable_include (ms1 ! k) = is_virtual (cd_methods cd ! k)" by (simp add: m1 vtable_include_def is_virtual_def)
    have new: "(c, k) \<in> set new \<longleftrightarrow> is_virtual (cd_methods cd ! k)" using p(3) inc k by (auto simp: cd1_def)
    show ?thesis
    proof (cases "is_virtual (cd_methods cd ! k)")
      case True
      with p(4) k len inc new show ?thesis by (auto simp: pushed_slot_def cd1_def)
    next
      case nv: False
      with False new show ?thesis by auto
    qed
  qed
  have push: "push_new_methods c [0..<?n] (cd1\<lparr>itable_interfaces := is\<rparr>) = cd\<lparr>vtable := ?vt, itable_interfaces := is, cd_methods := ms\<rparr>" for "is"
    unfolding push_new_methods_itables p(1) by (simp add: cd1_def)
  have "linked_from cd cd1" using i(2) unfolding linked_from_def cd1_def
    by (intro exI [of _ "map ?os ps"] exI [of _ "itable_interfaces cd"] exI [of _ ms1]) simp
  moreover have "list_all2 same_method (cd_methods cd) ms" using same_methods_trans [OF i(2)] p(2) by (simp add: cd1_def)
  moreover have "\<forall>q\<in>set new. \<exists>k<length ms. q = (c, k)" using p(3) len by auto
  moreover have "\<forall>k<length ms. is_virtual (cd_methods cd ! k) \<longrightarrow> (c, k) \<in> set ?vt" using slot len by (metis (full_types))
  moreover have "\<forall>k<length ms. (c, k) \<in> set ?vt \<longrightarrow> vtable_index (ms ! k) < length ?vt \<and> ?vt ! vtable_index (ms ! k) = (c, k)"
    using slot len by (metis (full_types))
  ultimately have "vtable_done c cd ?vt new ms" "linked_from cd cd1" unfolding vtable_done_def by blast+
  with i(1) push show ?thesis by (intro exI [of _ cd1] exI [of _ ms] exI [of _ new]) (simp add: cd1_def)
qed

text \<open>The slots of the superclass hold methods of superclasses, each at the index that it records.\<close>

definition super_slots_ok :: "class_table \<Rightarrow> cid \<Rightarrow> link_desc \<Rightarrow> bool" where
  "super_slots_ok T c cd \<longleftrightarrow> (\<forall>p\<in>set (super_vtable T cd). fst p \<noteq> c \<and> fst p \<in> set (hierarchy cd) \<and>
     (\<exists>m. method_at T p = Some m \<and> vtable_index m < length (super_vtable T cd) \<and> super_vtable T cd ! vtable_index m = p))"

lemma super_slots:
  assumes "\<not> set_up T c" "\<forall>s\<in>set (supers cd). set_up T s"
    "hierarchy cd = (case super_class cd of None \<Rightarrow> [] | Some s \<Rightarrow> hierarchy_at T s) @ [c]"
  shows "super_slots_ok T c cd"
proof (cases "super_class cd")
  case (Some s)
  with assms(2) have up: "set_up T s" by simp
  then obtain sd where sd: "T s = Some sd" using set_up_in_table by blast
  from set_upD(4) [OF up sd] hierarchy_set_up [OF up] Some sd assms(1) show ?thesis
    by (auto simp: super_slots_ok_def super_vtable_def vtable_ok_def hierarchy_at_def assms(3))
qed (simp add: super_slots_ok_def super_vtable_def)

lemma all_interfaces:
  assumes "\<forall>s\<in>set (supers cd). set_up T s" "super_class cd = None \<longrightarrow> cd_interfaces cd = []"
  obtains xs where "(case super_class cd of None \<Rightarrow> Some [] | Some s \<Rightarrow> interfaces_of T (cd_interfaces cd @ [s])) = Some xs"
    "set xs = (\<Union>s\<in>set (supers cd). interfaces_at T s)"
proof (cases "super_class cd")
  case None
  with assms(2) that [of "[]"] show thesis by (simp add: supers_def)
next
  case (Some s)
  with assms(1) set_up_in_table have "\<forall>i\<in>set (cd_interfaces cd @ [s]). T i \<noteq> None" by (fastforce simp: supers_def)
  from interfaces_of_spec [OF this] obtain ys where "interfaces_of T (cd_interfaces cd @ [s]) = Some ys"
    "set ys = (\<Union>i\<in>set (cd_interfaces cd @ [s]). interfaces_at T i)" by blast
  with Some that [of ys] show thesis by (simp add: supers_def)
qed

lemma set_up_function_tables_exec:
  assumes T: "T c = Some cd" and sup: "\<forall>s\<in>set (supers cd). set_up T s" and slots: "super_slots_ok T c cd"
    and fresh: "vtable cd = []" "itable_interfaces cd = []" "\<forall>m\<in>set (cd_methods cd). \<not> lm_overrides m"
    and root: "super_class cd = None \<longrightarrow> cd_interfaces cd = []"
  shows "\<exists>is new ms. set_up_function_tables c T =
      Some (T(c \<mapsto> cd\<lparr>vtable := map (override_slot T c cd) (super_vtable T cd) @ new, itable_interfaces := is, cd_methods := ms\<rparr>)) \<and>
    set is = own_interface c cd \<union> (\<Union>s\<in>set (supers cd). interfaces_at T s) \<and>
    vtable_done c cd (map (override_slot T c cd) (super_vtable T cd) @ new) new ms"
proof -
  let ?sv = "super_vtable T cd"
  have sv: "\<forall>p\<in>set ?sv. fst p \<noteq> c \<and> (\<exists>m. method_at T p = Some m \<and> vtable_index m < length ?sv \<and> ?sv ! vtable_index m = p)"
    using slots unfolding super_slots_ok_def by blast
  from vtable_loops [OF sv fresh(1,3)] obtain cd1 ms new where
    l: "inherit_vtable T c ?sv cd = Some cd1" "linked_from cd cd1" "itable_interfaces cd1 = itable_interfaces cd"
      "\<forall>is. push_new_methods c [0..<length (cd_methods cd)] (cd1\<lparr>itable_interfaces := is\<rparr>) =
        cd\<lparr>vtable := map (override_slot T c cd) ?sv @ new, itable_interfaces := is, cd_methods := ms\<rparr>"
      "vtable_done c cd (map (override_slot T c cd) ?sv @ new) new ms" by blast
  from all_interfaces [OF sup root] obtain xs where
    xs: "(case super_class cd of None \<Rightarrow> Some [] | Some s \<Rightarrow> interfaces_of T (cd_interfaces cd @ [s])) = Some xs"
      "set xs = (\<Union>s\<in>set (supers cd). interfaces_at T s)" .
  define is' where "is' = (if cd_is_interface cd then merge_interfaces [] xs @ [c] else merge_interfaces [] xs)"
  let ?cd' = "cd\<lparr>vtable := map (override_slot T c cd) ?sv @ new, itable_interfaces := is', cd_methods := ms\<rparr>"
  from l(2) obtain v1 i1 m1 where cd1: "cd1 = cd\<lparr>vtable := v1, itable_interfaces := i1, cd_methods := m1\<rparr>" "list_all2 same_method (cd_methods cd) m1"
    unfolding linked_from_def by blast
  have "set_up_function_tables c T = Some (T(c \<mapsto> ?cd'))"
  proof (cases "super_class cd")
    case None
    then have eq: "cd1 = cd" using l(1) by (simp add: super_vtable_def)
    have cd0: "cd\<lparr>itable_interfaces := []\<rparr> = cd" using fresh(2) by (cases cd) simp
    note l(4) [rule_format, of "[]", unfolded eq cd0]
    then show ?thesis
      using l(4) [rule_format, of is'] eq None T fresh(1,2) xs(1) by (auto simp: set_up_function_tables_def is'_def Let_def)
  next
    case (Some s)
    with sup obtain sd where sd: "T s = Some sd" using set_up_in_table [of T s] by auto
    then have "super_vtable T cd = vtable sd" using Some by (simp add: super_vtable_def)
    then show ?thesis
      using l(1) l(4) [rule_format, of is'] Some sd T fresh(1,2) xs(1) cd1 list_all2_lengthD [OF cd1(2)]
      by (auto simp: set_up_function_tables_def is'_def Let_def)
  qed
  moreover have "set is' = own_interface c cd \<union> (\<Union>s\<in>set (supers cd). interfaces_at T s)"
    using xs(2) by (simp add: is'_def own_interface_def merge_interfaces_set)
  ultimately show ?thesis using l(5) by blast
qed

lemma linked_slot:
  assumes slots: "super_slots_ok T c cd" and d: "vtable_done c cd vt new ms" and vt: "vt = map (override_slot T c cd) (super_vtable T cd) @ new"
    and p: "p \<in> set vt" and c: "c \<in> set (hierarchy cd)" and cd': "T' c = Some cd'" "cd_methods cd' = ms" "\<forall>x. x \<noteq> c \<longrightarrow> T' x = T x"
  shows "fst p \<in> set (hierarchy cd) \<and> (\<exists>m. method_at T' p = Some m \<and> vtable_index m < length vt \<and> vt ! vtable_index m = p)"
proof -
  have len: "length ms = length (cd_methods cd)" using d by (auto simp: vtable_done_def list_all2_lengthD)
  consider (new) "p \<in> set new" | (old) q where "q \<in> set (super_vtable T cd)" "override_slot T c cd q = p" using p vt by auto
  then have "(\<exists>k<length ms. p = (c, k)) \<or> p \<in> set (super_vtable T cd) \<and> override_slot T c cd p = p"
  proof cases
    case new
    then show ?thesis using d by (auto simp: vtable_done_def)
  next
    case old
    then show ?thesis using len find_method_less [of _ _ "cd_methods cd" 0]
      by (fastforce simp: override_slot_def split: option.splits if_splits)
  qed
  then show ?thesis
  proof
    assume "\<exists>k<length ms. p = (c, k)"
    with d p c cd'(1,2) show ?thesis by (auto simp: vtable_done_def method_at_def)
  next
    assume q: "p \<in> set (super_vtable T cd) \<and> override_slot T c cd p = p"
    with slots obtain m where m: "fst p \<noteq> c" "fst p \<in> set (hierarchy cd)" "method_at T p = Some m" "vtable_index m < length (super_vtable T cd)"
      "super_vtable T cd ! vtable_index m = p" unfolding super_slots_ok_def by blast
    have "method_at T' p = Some m" using m(1,3) cd'(3) by (cases p) (simp add: method_at_def)
    with m q show ?thesis by (auto simp: vt nth_append)
  qed
qed

lemma linked_set_up:
  assumes not_up: "\<not> set_up T c" and sup: "\<forall>s\<in>set (supers cd). set_up T s" and slots: "super_slots_ok T c cd"
    and hier: "hierarchy cd = (case super_class cd of None \<Rightarrow> [] | Some s \<Rightarrow> hierarchy_at T s) @ [c]"
    and root: "super_class cd = None \<longrightarrow> (\<exists>m\<in>set (cd_methods cd). is_virtual m)"
    and vt: "vt = map (override_slot T c cd) (super_vtable T cd) @ new" and d: "vtable_done c cd vt new ms"
    and ifs: "set is = own_interface c cd \<union> (\<Union>s\<in>set (supers cd). interfaces_at T s)"
    and cd': "cd' = cd\<lparr>vtable := vt, itable_interfaces := is, cd_methods := ms\<rparr>"
  shows "set_up (T(c \<mapsto> cd')) c"
proof -
  let ?T = "T(c \<mapsto> cd')" and ?sv = "super_vtable T cd"
  have keep: "\<forall>x. set_up T x \<longrightarrow> keeps_tables T ?T x" using not_up by (auto simp: keeps_tables_def)
  have other: "s \<noteq> c" if "s \<in> set (supers cd)" for s using sup that not_up by auto
  have ms: "list_all2 same_method (cd_methods cd) ms" "length ms = length (cd_methods cd)"
    using d by (auto simp: vtable_done_def list_all2_lengthD)
  have sups: "supers cd' = supers cd" by (simp add: supers_def cd')
  have sv': "super_vtable ?T cd' = ?sv" using other by (auto simp: super_vtable_def cd' split: option.splits)
  have os: "override_slot ?T c cd' p = override_slot T c cd p" if "p \<in> set ?sv" for p
  proof -
    have "override_slot ?T c cd' p = override_slot ?T c cd p" by (rule override_slot_methods) (use ms(1) in \<open>simp_all add: cd'\<close>)
    also have "\<dots> = override_slot T c cd p" using slots that unfolding super_slots_ok_def by (cases p) (auto simp: override_slot_def method_at_def)
    finally show ?thesis .
  qed
  have "is_virtual (ms ! k) = is_virtual (cd_methods cd ! k)" if "k < length ms" for k
    using ms list_all2_nthD2 [OF ms(1) that] by (simp add: same_method_def is_virtual_def)
  moreover have "\<forall>p\<in>set vt. fst p \<in> set (hierarchy cd) \<and> (\<exists>m. method_at ?T p = Some m \<and> vtable_index m < length vt \<and> vt ! vtable_index m = p)"
    using linked_slot [OF slots d vt, of _ ?T cd'] hier by (simp add: cd')
  ultimately have ok: "vtable_ok ?T c cd'" using d os sv' by (simp add: vtable_ok_def vtable_done_def cd' vt)
  have ne: "vt \<noteq> []"
  proof (cases "super_class cd")
    case None
    with root obtain k where "k < length ms" "is_virtual (cd_methods cd ! k)" using ms(2) by (auto simp: in_set_conv_nth)
    with d have "(c, k) \<in> set vt" by (simp add: vtable_done_def)
    then show ?thesis by auto
  next
    case (Some s)
    with sup have up: "set_up T s" by simp
    with Some set_upD(5) [OF up] set_up_in_table [OF up] show ?thesis by (auto simp: super_vtable_def vt)
  qed
  show ?thesis
  proof (rule set_up.linked [where T = ?T and c = c and cd = cd'])
    show "set_up ?T s" if "s \<in> set (supers cd')" for s using set_up_mono [OF _ keep] sup that sups by auto
    show "hierarchy cd' = (case super_class cd' of None \<Rightarrow> [] | Some s \<Rightarrow> hierarchy_at ?T s) @ [c]"
      using hier other by (auto simp: cd' hierarchy_at_def split: option.splits)
    have "(\<Union>s\<in>set (supers cd). interfaces_at ?T s) = (\<Union>s\<in>set (supers cd). interfaces_at T s)"
      using other by (auto simp: interfaces_at_def)
    then show "set (itable_interfaces cd') = own_interface c cd' \<union> (\<Union>s\<in>set (supers cd'). interfaces_at ?T s)"
      using ifs unfolding sups by (simp add: cd' own_interface_def)
  qed (use ok ne in \<open>simp_all add: cd'\<close>)
qed

lemma set_up_linked_from:
  assumes T: "T c = Some cd" and sup: "\<forall>s\<in>set (supers cd). set_up T s"
    and hier: "hierarchy cd = (case super_class cd of None \<Rightarrow> [] | Some s \<Rightarrow> hierarchy_at T s) @ [c]"
    and fresh: "vtable cd = []" "itable_interfaces cd = []" "\<forall>m\<in>set (cd_methods cd). \<not> lm_overrides m"
    and root: "super_class cd = None \<longrightarrow> cd_interfaces cd = [] \<and> (\<exists>m\<in>set (cd_methods cd). is_virtual m)"
  shows "\<exists>cd'. set_up_function_tables c T = Some (T(c \<mapsto> cd')) \<and> linked_from cd cd' \<and> set_up (T(c \<mapsto> cd')) c"
proof -
  have not_up: "\<not> set_up T c" using set_upD(5) [of T c cd] T fresh(1) by blast
  note slots = super_slots [OF not_up sup hier]
  from set_up_function_tables_exec [OF T sup slots fresh] root obtain "is" new ms where
    l: "set_up_function_tables c T =
        Some (T(c \<mapsto> cd\<lparr>vtable := map (override_slot T c cd) (super_vtable T cd) @ new, itable_interfaces := is, cd_methods := ms\<rparr>))"
      "set is = own_interface c cd \<union> (\<Union>s\<in>set (supers cd). interfaces_at T s)"
      "vtable_done c cd (map (override_slot T c cd) (super_vtable T cd) @ new) new ms" by blast
  have r: "super_class cd = None \<longrightarrow> (\<exists>m\<in>set (cd_methods cd). is_virtual m)" using root by blast
  have "list_all2 same_method (cd_methods cd) ms" using l(3) by (simp add: vtable_done_def)
  with l(1) linked_set_up [OF not_up sup slots hier r HOL.refl l(3,2) HOL.refl] show ?thesis unfolding linked_from_def by blast
qed

end
