(* ===== verification/Link_Class.thy ===== *)
theory Link_Class
  imports Link_Fields Link_Tables
begin

text \<open>
  Linking a class as a whole. The classes that a table names are as the loader leaves them or linked; linking one
  links its superclass and interfaces first, sets up its tables and leaves every other class alone. Array classes
  that exist before their element class is linked are not covered here.
\<close>

section \<open>Tables of loaded classes\<close>

text \<open>What the loader guarantees of a class: \<open>rank\<close> grows from a class to its subclasses, \<open>room\<close> bounds the size of
  its instances.\<close>

definition loaded_ok :: "link_env \<Rightarrow> (cid \<Rightarrow> nat) \<Rightarrow> (cid \<Rightarrow> nat) \<Rightarrow> class_table \<Rightarrow> cid \<Rightarrow> link_desc \<Rightarrow> bool" where
  "loaded_ok env rank room T c cd \<longleftrightarrow>
     cd_kind cd = CD_KIND_ORDINARY \<and> array_type cd = None \<and> le_analyze env c \<and>
     (\<forall>s\<in>set (supers cd). T s \<noteq> None \<and> rank s < rank c) \<and>
     (super_class cd = None \<longrightarrow> cd_name cd = ''java/lang/Object'' \<and> cd_interfaces cd = [] \<and> (\<exists>m\<in>set (cd_methods cd). is_virtual m)) \<and>
     (\<forall>f\<in>set (cd_fields cd). lf_kind f \<noteq> TYPE_KIND_VOID) \<and>
     (case super_class cd of None \<Rightarrow> 8 | Some s \<Rightarrow> room s) + unat (padding_of env cd) + 16 * (length (cd_fields cd) + 1) \<le> room c \<and>
     room c < 2 ^ 32"

definition fresh_class :: "link_desc \<Rightarrow> bool" where
  "fresh_class cd \<longleftrightarrow> vtable cd = [] \<and> itable_interfaces cd = [] \<and> (\<forall>m\<in>set (cd_methods cd). \<not> lm_overrides m)"

definition linked_class :: "(cid \<Rightarrow> nat) \<Rightarrow> class_table \<Rightarrow> cid \<Rightarrow> link_desc \<Rightarrow> bool" where
  "linked_class room T c cd \<longleftrightarrow> set_up T c \<and> instance_references cd \<noteq> None \<and> unat (instance_bytes cd) \<le> room c"

definition linkable :: "link_env \<Rightarrow> (cid \<Rightarrow> nat) \<Rightarrow> (cid \<Rightarrow> nat) \<Rightarrow> class_table \<Rightarrow> bool" where
  "linkable env rank room T \<longleftrightarrow> (\<forall>c cd. T c = Some cd \<longrightarrow> loaded_ok env rank room T c cd \<and>
     (case cd_state cd of CD_STATE_LINKAGE_ERROR \<Rightarrow> False | CD_STATE_LOADED \<Rightarrow> fresh_class cd | _ \<Rightarrow> linked_class room T c cd))"

lemma linkableD:
  assumes "linkable env rank room T" "T c = Some cd"
  shows "loaded_ok env rank room T c cd" "cd_state cd = CD_STATE_LOADED \<Longrightarrow> fresh_class cd" "cd_state cd \<noteq> CD_STATE_LOADED \<Longrightarrow> linked_class room T c cd"
  using assms by (cases "cd_state cd"; fastforce simp: linkable_def)+

lemma linkable_set_up:
  assumes "linkable env rank room T" "set_up T c" "T c = Some cd"
  shows "cd_state cd \<noteq> CD_STATE_LOADED" "linked_class room T c cd"
proof -
  show "cd_state cd \<noteq> CD_STATE_LOADED" using linkableD(2) [OF assms(1,3)] set_upD(5) [OF assms(2,3)] by (auto simp: fresh_class_def)
  then show "linked_class room T c cd" by (rule linkableD(3) [OF assms(1,3)])
qed

text \<open>Two descriptors of the same class, before and after some steps of linking.\<close>

definition same_class :: "link_desc \<Rightarrow> link_desc \<Rightarrow> bool" where
  "same_class cd cd' \<longleftrightarrow> cd_kind cd' = cd_kind cd \<and> array_type cd' = array_type cd \<and> super_class cd' = super_class cd \<and>
     cd_interfaces cd' = cd_interfaces cd \<and> cd_name cd' = cd_name cd \<and> list_all2 same_method (cd_methods cd) (cd_methods cd') \<and>
     list_all2 same_field (cd_fields cd) (cd_fields cd')"

lemma same_methods_virtual: "list_all2 same_method ms ms' \<Longrightarrow> (\<exists>m\<in>set ms'. is_virtual m) = (\<exists>m\<in>set ms. is_virtual m)"
  by (induction rule: list_all2_induct) (auto simp: same_method_def is_virtual_def)

lemma same_fields_kinds: "list_all2 same_field fs fs' \<Longrightarrow> (\<forall>f\<in>set fs'. lf_kind f \<noteq> k) = (\<forall>f\<in>set fs. lf_kind f \<noteq> k)"
  by (induction rule: list_all2_induct) (auto simp: same_field_def)

lemma loaded_ok_same:
  assumes "loaded_ok env rank room T c cd" "same_class cd cd'" "\<forall>x. T x \<noteq> None \<longrightarrow> T' x \<noteq> None"
  shows "loaded_ok env rank room T' c cd'"
proof -
  have eq: "cd_kind cd' = cd_kind cd" "array_type cd' = array_type cd" "super_class cd' = super_class cd" "cd_interfaces cd' = cd_interfaces cd"
    "cd_name cd' = cd_name cd" and ms: "list_all2 same_method (cd_methods cd) (cd_methods cd')" and fs: "list_all2 same_field (cd_fields cd) (cd_fields cd')"
    using assms(2) by (simp_all add: same_class_def)
  have "supers cd' = supers cd" "padding_of env cd' = padding_of env cd" by (simp_all add: supers_def padding_of_def eq)
  with assms(1,3) show ?thesis
    unfolding loaded_ok_def eq same_methods_virtual [OF ms] same_fields_kinds [OF fs] using list_all2_lengthD [OF fs] by simp
qed

lemma linkable_upd:
  assumes lk: "linkable env rank room T" and c: "T c = Some cd" "cd_state cd = CD_STATE_LOADED" and same: "same_class cd cd'"
    and new: "cd_state cd' = CD_STATE_LOADED \<and> fresh_class cd' \<or> cd_state cd' = CD_STATE_LINKED \<and> linked_class room (T(c \<mapsto> cd')) c cd'"
  shows "linkable env rank room (T(c \<mapsto> cd'))"
  unfolding linkable_def
proof (intro allI impI)
  fix x xd assume x: "(T(c \<mapsto> cd')) x = Some xd"
  have not_up: "\<not> set_up T c" using linkable_set_up(1) [OF lk _ c(1)] c(2) by blast
  show "loaded_ok env rank room (T(c \<mapsto> cd')) x xd \<and> (case cd_state xd of CD_STATE_LINKAGE_ERROR \<Rightarrow> False | CD_STATE_LOADED \<Rightarrow> fresh_class xd
    | _ \<Rightarrow> linked_class room (T(c \<mapsto> cd')) x xd)"
  proof (cases "x = c")
    case True
    with x have "xd = cd'" by simp
    with loaded_ok_same [OF linkableD(1) [OF lk c(1)] same, of "T(c \<mapsto> cd')"] new True show ?thesis by auto
  next
    case False
    with x have xT: "T x = Some xd" by simp
    have "loaded_ok env rank room (T(c \<mapsto> cd')) x xd" by (rule loaded_ok_same [OF linkableD(1) [OF lk xT]])
      (auto simp: same_class_def list_all2_conv_all_nth same_field_def)
    moreover have "linked_class room (T(c \<mapsto> cd')) x xd" if "linked_class room T x xd"
      using that set_up_mono [of T x "T(c \<mapsto> cd')"] not_up by (auto simp: linked_class_def keeps_tables_def)
    ultimately show ?thesis using lk xT by (auto simp: linkable_def split: classdesc_state.splits)
  qed
qed

section \<open>The last steps for one class\<close>

definition finish_class :: "link_env \<Rightarrow> cid \<Rightarrow> class_table \<Rightarrow> class_table option" where
  "finish_class env c T = do { T \<leftarrow> set_state c CD_STATE_LINKED T; T \<leftarrow> layout_fields env c T; set_up_function_tables c T }"

lemma set_ups_upd:
  assumes "\<forall>s\<in>S. set_up T s" "\<not> set_up T c"
  shows "\<forall>s\<in>S. set_up (T(c \<mapsto> cd)) s"
  using set_up_mono [of T _ "T(c \<mapsto> cd)"] assms by (simp add: keeps_tables_def)

lemma inherited_layout_linked:
  assumes "linkable env rank room T" "T c = Some cd" "\<forall>s\<in>set (supers cd). set_up T s"
  obtains start refs where "inherited_layout T cd start refs" "unat (start + padding_of env cd) + 16 * (length (cd_fields cd) + 1) \<le> room c"
    "room c < 2 ^ 32"
proof -
  note ok = linkableD(1) [OF assms(1,2)]
  obtain start refs where *: "inherited_layout T cd start refs" "unat start \<le> (case super_class cd of None \<Rightarrow> 8 | Some s \<Rightarrow> room s)"
  proof (cases "super_class cd")
    case None
    then show thesis by (intro that [of 8 "[]"]) (simp_all add: inherited_layout_def)
  next
    case (Some s)
    with assms(3) have up: "set_up T s" by simp
    then obtain sd where sd: "T s = Some sd" using set_up_in_table by blast
    from linkable_set_up(2) [OF assms(1) up sd] Some sd show thesis
      by (auto simp: linked_class_def inherited_layout_def intro: that)
  qed
  have "unat (start + padding_of env cd) \<le> unat start + unat (padding_of env cd)" by (simp add: unat_word_ariths)
  with * ok show thesis by (intro that) (auto simp: loaded_ok_def)
qed

lemma finish_class_ok:
  assumes lk: "linkable env rank room T" and c: "T c = Some cd" "cd_state cd = CD_STATE_LOADED" and sup: "\<forall>s\<in>set (supers cd). set_up T s"
    and hier: "hierarchy cd = (case super_class cd of None \<Rightarrow> [] | Some s \<Rightarrow> hierarchy_at T s) @ [c]"
  shows "\<exists>cd'. finish_class env c T = Some (T(c \<mapsto> cd')) \<and> linkable env rank room (T(c \<mapsto> cd')) \<and> set_up (T(c \<mapsto> cd')) c"
proof -
  note ok = linkableD(1) [OF lk c(1)] and fresh = linkableD(2) [OF lk c]
  have not_up: "\<not> set_up T c" using linkable_set_up(1) [OF lk _ c(1)] c(2) by blast
  then have other: "c \<notin> set (supers cd)" using sup by blast
  from inherited_layout_linked [OF lk c(1) sup] obtain start refs where
    start: "inherited_layout T cd start refs" "unat (start + padding_of env cd) + 16 * (length (cd_fields cd) + 1) \<le> room c" "room c < 2 ^ 32" .
  define cd1 where "cd1 = cd\<lparr>cd_state := CD_STATE_LINKED\<rparr>"
  let ?T1 = "T(c \<mapsto> cd1)"
  have "inherited_layout ?T1 cd1 start refs" "padding_of env cd1 = padding_of env cd"
    using start(1) other by (auto simp: cd1_def inherited_layout_def padding_of_def split: option.splits)
  with layout_fields_exec [of ?T1 c cd1 start refs env] start(2,3) ok obtain fds st inst where
    l: "layout_fields env c ?T1 = Some (?T1(c \<mapsto> laid_out cd1 refs fds st inst))" "list_all2 same_field (cd_fields cd) fds"
      "unat inst \<le> room c" by (fastforce simp: loaded_ok_def cd1_def)
  define cd2 where "cd2 = laid_out cd1 refs fds st inst"
  let ?T2 = "T(c \<mapsto> cd2)"
  have sel: "super_class cd2 = super_class cd" "supers cd2 = supers cd" "hierarchy cd2 = hierarchy cd" "cd_methods cd2 = cd_methods cd"
    "vtable cd2 = vtable cd" "itable_interfaces cd2 = itable_interfaces cd" "cd_interfaces cd2 = cd_interfaces cd"
    by (simp_all add: cd2_def laid_out_def cd1_def supers_def)
  have up2: "\<forall>s\<in>set (supers cd2). set_up ?T2 s" using set_ups_upd [OF sup not_up] unfolding sel .
  have "hierarchy cd2 = (case super_class cd2 of None \<Rightarrow> [] | Some s \<Rightarrow> hierarchy_at ?T2 s) @ [c]"
    using hier other unfolding sel by (auto simp: hierarchy_at_def split: option.splits)
  from set_up_linked_from [of ?T2 c cd2, OF _ up2 this] fresh ok obtain cd' where
    t: "set_up_function_tables c ?T2 = Some (?T2(c \<mapsto> cd'))" "linked_from cd2 cd'" "set_up (?T2(c \<mapsto> cd')) c"
    unfolding sel fresh_class_def loaded_ok_def by auto
  have upd: "?T2(c \<mapsto> cd') = T(c \<mapsto> cd')" "?T1(c \<mapsto> laid_out cd1 refs fds st inst) = ?T2" by (simp_all add: cd2_def)
  obtain vt "is" ms where cd': "cd' = cd2\<lparr>vtable := vt, itable_interfaces := is, cd_methods := ms\<rparr>" "list_all2 same_method (cd_methods cd2) ms"
    using t(2) unfolding linked_from_def by blast
  have "finish_class env c T = Some (T(c \<mapsto> cd'))"
    using c(1) l(1) t(1) unfolding upd by (simp add: finish_class_def set_state_def cd1_def)
  moreover have "same_class cd cd'" using cd'(2) l(2) unfolding cd'(1) by (simp add: same_class_def cd2_def laid_out_def cd1_def)
  moreover have "cd_state cd' = CD_STATE_LINKED" "instance_references cd' \<noteq> None" "unat (instance_bytes cd') \<le> room c"
    using l(3) unfolding cd'(1) by (simp_all add: cd2_def laid_out_def cd1_def)
  ultimately show ?thesis using linkable_upd [OF lk c, of cd'] t(3) unfolding upd linked_class_def by blast
qed

section \<open>Superclasses and interfaces first\<close>

text \<open>From \<open>T\<close> to \<open>T'\<close> the classes \<open>C\<close> were linked, and no class changed that was linked before or has a rank of at
  least \<open>b\<close>.\<close>

definition links :: "link_env \<Rightarrow> (cid \<Rightarrow> nat) \<Rightarrow> (cid \<Rightarrow> nat) \<Rightarrow> nat \<Rightarrow> cid set \<Rightarrow> class_table \<Rightarrow> class_table \<Rightarrow> bool" where
  "links env rank room b C T T' \<longleftrightarrow> linkable env rank room T' \<and> (\<forall>c\<in>C. set_up T' c) \<and>
     (\<forall>x. b \<le> rank x \<or> set_up T x \<longrightarrow> T' x = T x) \<and> (\<forall>x. T x \<noteq> None \<longrightarrow> T' x \<noteq> None)"

lemma linksD:
  assumes "links env rank room b C T T'"
  shows "linkable env rank room T'" "c \<in> C \<Longrightarrow> set_up T' c" "b \<le> rank x \<Longrightarrow> T' x = T x" "set_up T x \<Longrightarrow> T' x = T x" "T x \<noteq> None \<Longrightarrow> T' x \<noteq> None"
  using assms by (auto simp: links_def)

lemma links_set_up: "links env rank room b C T T' \<Longrightarrow> set_up T c \<Longrightarrow> set_up T' c"
  using set_up_mono [of T c T'] by (simp add: keeps_tables_def linksD(4))

lemma links_none: "linkable env rank room T \<Longrightarrow> links env rank room b {} T T"
  by (simp add: links_def)

lemma links_trans:
  assumes "links env rank room b C T T1" "links env rank room b' D T1 T2" "b \<le> B" "b' \<le> B"
  shows "links env rank room B (C \<union> D) T T2"
  unfolding links_def
proof (intro conjI ballI allI impI)
  show "set_up T2 c" if "c \<in> C \<union> D" for c using that linksD(2) [OF assms(1)] linksD(2) [OF assms(2)] links_set_up [OF assms(2)] by blast
  show "T2 x = T x" if "B \<le> rank x \<or> set_up T x" for x
    using that linksD(3,4) [OF assms(1), of x] linksD(3,4) [OF assms(2), of x] links_set_up [OF assms(1), of x] assms(3,4) by auto
qed (use linksD(1) [OF assms(2)] linksD(5) [OF assms(1)] linksD(5) [OF assms(2)] in auto)

lemma links_upd:
  assumes "linkable env rank room T" "T c = Some cd" "cd_state cd = CD_STATE_LOADED" "linkable env rank room (T(c \<mapsto> cd'))" "\<forall>x\<in>C. set_up (T(c \<mapsto> cd')) x"
  shows "links env rank room (Suc (rank c)) C T (T(c \<mapsto> cd'))"
  using assms linkable_set_up(1) [OF assms(1) _ assms(2)] by (auto simp: links_def)

lemma link_interfaces_ok:
  assumes "\<And>i T. i \<in> set is \<Longrightarrow> linkable env rank room T \<Longrightarrow> T i \<noteq> None \<Longrightarrow> \<exists>T'. link_class n env i T = Some (True, T') \<and> links env rank room b {i} T T'"
    "linkable env rank room T" "\<forall>i\<in>set is. T i \<noteq> None"
  shows "\<exists>T'. link_interfaces (Suc n) env is T = Some (True, T') \<and> links env rank room b (set is) T T'"
  using assms
proof (induction "is" arbitrary: T)
  case Nil
  then show ?case by (simp add: links_none)
next
  case (Cons i "is")
  from Cons.prems(1) [of i T] Cons.prems(2,3) obtain T1 where
    T1: "link_class n env i T = Some (True, T1)" "links env rank room b {i} T T1" by auto
  have "\<forall>j\<in>set is. T1 j \<noteq> None" using Cons.prems(3) linksD(5) [OF T1(2)] by simp
  with Cons.IH [of T1] Cons.prems(1) linksD(1) [OF T1(2)] obtain T2 where
    T2: "link_interfaces (Suc n) env is T1 = Some (True, T2)" "links env rank room b (set is) T1 T2" by auto
  from links_trans [OF T1(2) T2(2) order_refl order_refl] T1(1) T2(1) show ?case by auto
qed

lemma setup_super_hierarchy_ok:
  assumes "linkable env rank room T" "T c = Some cd" "\<forall>s. super_class cd = Some s \<longrightarrow> set_up T s"
  shows "setup_super_hierarchy c T = Some (T(c \<mapsto> cd\<lparr>hierarchy := (case super_class cd of None \<Rightarrow> [] | Some s \<Rightarrow> hierarchy_at T s) @ [c]\<rparr>))"
proof (cases "super_class cd")
  case None
  with linkableD(1) [OF assms(1,2)] assms(2) show ?thesis by (simp add: setup_super_hierarchy_def loaded_ok_def)
next
  case (Some s)
  with assms(3) have up: "set_up T s" by simp
  then obtain sd where sd: "T s = Some sd" using set_up_in_table by blast
  with set_upD(2) [OF up sd] assms(2) Some show ?thesis by (simp add: setup_super_hierarchy_def hierarchy_at_def)
qed

lemma link_class_exec:
  assumes "T c = Some cd" "cd_state cd = CD_STATE_LOADED" "cd_kind cd = CD_KIND_ORDINARY" "array_type cd = None" "le_analyze env c"
    "(case super_class cd of None \<Rightarrow> Some (True, T) | Some s \<Rightarrow> link_class n env s T) = Some (True, T1)"
    "setup_super_hierarchy c T1 = Some T2" "link_interfaces n env (cd_interfaces cd) T2 = Some (True, T3)" "finish_class env c T3 = Some T4"
  shows "link_class (Suc n) env c T = Some (True, T4)"
  using assms unfolding finish_class_def by (auto split: bind_splits)

text \<open>The induction step: a loaded class, given that its superclass and interfaces can be linked.\<close>

lemma link_class_step:
  assumes lk: "linkable env rank room T" and cd: "T c = Some cd" and st: "cd_state cd = CD_STATE_LOADED" and m: "2 * rank c \<le> m"
    and call: "\<And>s T0 k. s \<in> set (supers cd) \<Longrightarrow> linkable env rank room T0 \<Longrightarrow> T0 s \<noteq> None \<Longrightarrow> 2 * rank c \<le> Suc k \<Longrightarrow>
      \<exists>T'. link_class k env s T0 = Some (True, T') \<and> links env rank room (rank c) {s} T0 T'"
  shows "\<exists>T'. link_class (Suc m) env c T = Some (True, T') \<and> links env rank room (Suc (rank c)) {c} T T'"
proof -
  note ok = linkableD(1) [OF lk cd]
  obtain T1 where T1: "(case super_class cd of None \<Rightarrow> Some (True, T) | Some s \<Rightarrow> link_class m env s T) = Some (True, T1)"
    "links env rank room (rank c) {s. super_class cd = Some s} T T1"
  proof (cases "super_class cd")
    case None
    with that [of T] links_none [OF lk] show thesis by simp
  next
    case (Some s)
    with call [of s T m] that ok lk m show thesis by (auto simp: loaded_ok_def)
  qed
  have c1: "T1 c = Some cd" using linksD(3) [OF T1(2), of c] cd by simp
  define cd1 where "cd1 = cd\<lparr>hierarchy := (case super_class cd of None \<Rightarrow> [] | Some s \<Rightarrow> hierarchy_at T1 s) @ [c]\<rparr>"
  let ?T2 = "T1(c \<mapsto> cd1)"
  have hs: "setup_super_hierarchy c T1 = Some ?T2"
    unfolding cd1_def by (rule setup_super_hierarchy_ok [OF linksD(1) [OF T1(2)] c1]) (use linksD(2) [OF T1(2)] in blast)
  have same: "same_class cd cd1" by (simp add: same_class_def cd1_def list_all2_conv_all_nth same_field_def)
  have "linkable env rank room ?T2"
    using linkable_upd [OF linksD(1) [OF T1(2)] c1 st same] linkableD(2) [OF lk cd st] st by (simp add: cd1_def fresh_class_def)
  with links_upd [OF linksD(1) [OF T1(2)] c1 st] have T2: "links env rank room (Suc (rank c)) {} T1 ?T2" by blast
  have dom2: "\<forall>i\<in>set (cd_interfaces cd). ?T2 i \<noteq> None" using ok linksD(5) [OF T1(2)] by (simp add: loaded_ok_def supers_def)
  obtain T3 where T3: "link_interfaces m env (cd_interfaces cd) ?T2 = Some (True, T3)" "links env rank room (rank c) (set (cd_interfaces cd)) ?T2 T3"
  proof (cases m)
    case 0
    with m ok have "cd_interfaces cd = []" by (cases "cd_interfaces cd") (auto simp: loaded_ok_def supers_def)
    with that [of ?T2] links_none [OF linksD(1) [OF T2]] show thesis by simp
  next
    case (Suc k)
    have "\<exists>T'. link_class k env i T0 = Some (True, T') \<and> links env rank room (rank c) {i} T0 T'"
      if "i \<in> set (cd_interfaces cd)" "linkable env rank room T0" "T0 i \<noteq> None" for i T0
      by (rule call) (use that m Suc in \<open>auto simp: supers_def\<close>)
    from link_interfaces_ok [where T = ?T2, OF this linksD(1) [OF T2] dom2] Suc that show thesis by auto
  qed
  have c3: "T3 c = Some cd1" using linksD(3) [OF T3(2), of c] by simp
  have "set (supers cd) = {s. super_class cd = Some s} \<union> {} \<union> set (cd_interfaces cd)" by (auto simp: supers_def split: option.splits)
  then have T13: "links env rank room (Suc (rank c)) (set (supers cd)) T T3"
    using links_trans [OF links_trans [OF T1(2) T2, of "Suc (rank c)"] T3(2), of "Suc (rank c)"] by simp
  have "\<forall>s\<in>set (supers cd1). set_up T3 s" using linksD(2) [OF T13] by (simp add: cd1_def supers_def)
  moreover have "hierarchy cd1 = (case super_class cd1 of None \<Rightarrow> [] | Some s \<Rightarrow> hierarchy_at T3 s) @ [c]"
    using linksD(4) [OF T3(2)] links_set_up [OF T2] linksD(4) [OF T2] linksD(2) [OF T1(2)]
    by (auto simp: cd1_def hierarchy_at_def split: option.splits)
  moreover have st1: "cd_state cd1 = CD_STATE_LOADED" using st by (simp add: cd1_def)
  ultimately obtain cd' where f: "finish_class env c T3 = Some (T3(c \<mapsto> cd'))" "linkable env rank room (T3(c \<mapsto> cd'))" "set_up (T3(c \<mapsto> cd')) c"
    using finish_class_ok [OF linksD(1) [OF T3(2)] c3] by blast
  have "links env rank room (Suc (rank c)) {c} T (T3(c \<mapsto> cd'))"
    using links_trans [OF T13 links_upd [OF linksD(1) [OF T3(2)] c3 st1 f(2)], of "{c}" "Suc (rank c)"] f(3) by (simp add: links_def)
  with link_class_exec [OF cd st _ _ _ T1(1) hs T3(1) f(1)] ok show ?thesis by (auto simp: loaded_ok_def)
qed

lemma link_class_links:
  "linkable env rank room T \<Longrightarrow> T c \<noteq> None \<Longrightarrow> 2 * rank c < n \<Longrightarrow>
    \<exists>T'. link_class n env c T = Some (True, T') \<and> links env rank room (Suc (rank c)) {c} T T'"
proof (induction "rank c" arbitrary: c n T rule: less_induct)
  case less
  obtain cd m where cd: "T c = Some cd" and n: "n = Suc m" "2 * rank c \<le> m" using less.prems(2,3) by (cases n) auto
  show ?case
  proof (cases "cd_state cd = CD_STATE_LOADED")
    case False
    with linkableD(3) [OF less.prems(1) cd] less.prems(1) cd n show ?thesis by (auto simp: links_def linked_class_def)
  next
    case True
    have call: "\<exists>T'. link_class k env s T0 = Some (True, T') \<and> links env rank room (rank c) {s} T0 T'"
      if "s \<in> set (supers cd)" "linkable env rank room T0" "T0 s \<noteq> None" "2 * rank c \<le> Suc k" for s T0 k
    proof -
      have r: "rank s < rank c" using linkableD(1) [OF less.prems(1) cd] that(1) by (simp add: loaded_ok_def)
      with less.hyps [OF r that(2,3), of k] that(4) obtain T' where T': "link_class k env s T0 = Some (True, T')"
        "links env rank room (Suc (rank s)) {s} T0 T'" by auto
      from links_trans [OF T'(2) links_none [OF linksD(1) [OF T'(2)]], of "rank c" 0] r T'(1) show ?thesis by auto
    qed
    from link_class_step [OF less.prems(1) cd True n(2) call] n(1) show ?thesis by simp
  qed
qed


definition plain_method :: "string \<Rightarrow> link_method" where
  "plain_method name = \<lparr>lm_name = name, lm_descriptor = ''()I'', lm_flags = 1, lm_is_ctor = False, lm_is_clinit = False, lm_sigpoly = False,
     vtable_index = 0, lm_overrides = False\<rparr>"

definition loaded_class :: "string \<Rightarrow> cid option \<Rightarrow> cid list \<Rightarrow> bool \<Rightarrow> link_desc" where
  "loaded_class name super ifaces iface = \<lparr>cd_name = name, cd_kind = CD_KIND_ORDINARY, cd_state = CD_STATE_LOADED, super_class = super,
     cd_interfaces = ifaces, cd_is_interface = iface, cd_fields = [], cd_methods = [plain_method ''hashCode''], cd_dimensions = 0, one_fewer_dim = None,
     base_component = None, array_type = None, primitive_component = TYPE_KIND_BOOLEAN, hierarchy = [], vtable = [], itable_interfaces = [],
     static_bytes = 0, instance_bytes = 0, static_references = None, instance_references = None\<rparr>"

definition loaded_table :: class_table where
  "loaded_table = [0 \<mapsto> loaded_class ''java/lang/Object'' None [] False, 1 \<mapsto> loaded_class ''I'' (Some 0) [] True,
     2 \<mapsto> loaded_class ''A'' (Some 0) [1] False]"


end
