(* ===== verification/Link_Subtype.thy ===== *)
theory Link_Subtype
  imports Link_Tables
begin

text \<open>
  The two questions that the tables answer: which method an \<^verbatim>\<open>invokevirtual\<close> selects, and whether one class is a
  subtype of another.
\<close>

section \<open>Dispatch\<close>

text \<open>The method of \<open>p\<close> or, for each class on the way down the hierarchy, the one that overrides it there.\<close>

fun selected :: "class_table \<Rightarrow> method_ptr \<Rightarrow> cid list \<Rightarrow> method_ptr" where
  "selected T p [] = p"
| "selected T p (d # ds) = selected T (case T d of None \<Rightarrow> p | Some dd \<Rightarrow> override_slot T d dd p) ds"

lemma selected_snoc: "selected T p (ds @ [d]) = (case T d of None \<Rightarrow> selected T p ds | Some dd \<Rightarrow> override_slot T d dd (selected T p ds))"
  by (induction ds arbitrary: p) (auto split: option.splits)


section \<open>Subtypes\<close>

text \<open>The subtype relation of the virtual machine specification: superclasses, superinterfaces, and arrays of
  references with the subtype relation of their components.\<close>

inductive subtype :: "class_table \<Rightarrow> cid \<Rightarrow> cid \<Rightarrow> bool" for T where
  refl: "subtype T c c"
| super: "T c = Some cd \<Longrightarrow> s \<in> set (supers cd) \<Longrightarrow> subtype T s d \<Longrightarrow> subtype T c d"
| array: "T c = Some cd \<Longrightarrow> T d = Some dd \<Longrightarrow> one_fewer_dim cd = Some a \<Longrightarrow> one_fewer_dim dd = Some b \<Longrightarrow>
    T a = Some ad \<Longrightarrow> T b = Some bd \<Longrightarrow> cd_kind ad \<noteq> CD_KIND_PRIMITIVE \<Longrightarrow> cd_kind bd \<noteq> CD_KIND_PRIMITIVE \<Longrightarrow>
    subtype T a b \<Longrightarrow> subtype T c d"

text \<open>What the class loader and the creation of array classes guarantee.\<close>

definition plain_class :: "class_table \<Rightarrow> cid \<Rightarrow> bool \<Rightarrow> bool" where
  "plain_class T c iface \<longleftrightarrow> (\<exists>cd. T c = Some cd \<and> cd_kind cd = CD_KIND_ORDINARY \<and> cd_is_interface cd = iface)"

definition root_class :: "class_table \<Rightarrow> cid \<Rightarrow> bool" where
  "root_class T c \<longleftrightarrow> (\<exists>cd. T c = Some cd \<and> cd_kind cd = CD_KIND_ORDINARY \<and> \<not> cd_is_interface cd \<and> super_class cd = None \<and> cd_interfaces cd = [])"

definition component_ok :: "class_table \<Rightarrow> link_desc \<Rightarrow> bool" where
  "component_ok T cd \<longleftrightarrow> (case cd_kind cd of
     CD_KIND_ORDINARY \<Rightarrow> one_fewer_dim cd = None \<and> cd_dimensions cd = 0 \<and> primitive_component cd = TYPE_KIND_BOOLEAN
   | CD_KIND_PRIMITIVE \<Rightarrow> one_fewer_dim cd = None \<and> cd_dimensions cd = 0
   | k \<Rightarrow> \<exists>a ad. one_fewer_dim cd = Some a \<and> T a = Some ad \<and> cd_dimensions cd = cd_dimensions ad + 1 \<and>
       primitive_component cd = primitive_component ad \<and> (cd_kind ad = CD_KIND_PRIMITIVE) = (k = CD_KIND_PRIMITIVE_ARRAY))"

definition class_ok :: "class_table \<Rightarrow> link_desc \<Rightarrow> bool" where
  "class_ok T cd \<longleftrightarrow> component_ok T cd \<and>
     (\<forall>i\<in>set (cd_interfaces cd). plain_class T i True) \<and>
     (\<forall>s. super_class cd = Some s \<longrightarrow> plain_class T s False \<and> (cd_is_interface cd \<or> cd_kind cd \<noteq> CD_KIND_ORDINARY \<longrightarrow> root_class T s)) \<and>
     (super_class cd = None \<longrightarrow> cd_interfaces cd = [] \<and> (cd_kind cd = CD_KIND_PRIMITIVE \<or> cd_kind cd = CD_KIND_ORDINARY \<and> \<not> cd_is_interface cd)) \<and>
     (cd_kind cd \<noteq> CD_KIND_ORDINARY \<longrightarrow> \<not> cd_is_interface cd)"

definition wf_table :: "class_table \<Rightarrow> bool" where
  "wf_table T \<longleftrightarrow> (\<forall>c cd. T c = Some cd \<longrightarrow> class_ok T cd) \<and> (\<forall>c d. root_class T c \<longrightarrow> root_class T d \<longrightarrow> c = d) \<and>
     (\<forall>c d cd dd a. T c = Some cd \<longrightarrow> T d = Some dd \<longrightarrow> one_fewer_dim cd = Some a \<longrightarrow> one_fewer_dim dd = Some a \<longrightarrow> c = d) \<and>
     (\<forall>c d cd dd. T c = Some cd \<longrightarrow> T d = Some dd \<longrightarrow> cd_kind cd = CD_KIND_PRIMITIVE \<longrightarrow> cd_kind dd = CD_KIND_PRIMITIVE \<longrightarrow>
        primitive_component cd = primitive_component dd \<longrightarrow> c = d)"

lemma wf_tableD: "wf_table T \<Longrightarrow> T c = Some cd \<Longrightarrow> class_ok T cd"
  by (simp add: wf_table_def)

lemma hierarchy_prefix: "set_up T c \<Longrightarrow> d \<in> set (hierarchy_at T c) \<Longrightarrow> \<exists>post. hierarchy_at T c = hierarchy_at T d @ post"
proof (induction rule: set_up.induct)
  case (linked c cd)
  have up: "set_up T c" by (rule set_up.linked [OF linked.hyps])
  note h = hierarchy_at_set_up [OF up linked.hyps(1)]
  show ?case
  proof (cases "d = c")
    case False
    with linked.prems h obtain s where s: "super_class cd = Some s" "d \<in> set (hierarchy_at T s)" by (auto split: option.splits)
    from linked.IH [of s] s obtain post where "hierarchy_at T s = hierarchy_at T d @ post" by auto
    with h s(1) show ?thesis by simp
  qed simp
qed

lemma instanceof_super_hierarchy:
  assumes "set_up T c" "set_up T d"
  shows "instanceof_super T c d = Some (d \<in> set (hierarchy_at T c))"
proof -
  obtain cd dd where cd: "T c = Some cd" "T d = Some dd" using assms set_up_in_table by blast
  obtain pre where d: "hierarchy dd = pre @ [d]" using set_upD(2) [OF assms(2) cd(2)] by blast
  have "length (hierarchy dd) \<le> length (hierarchy cd) \<and> hierarchy cd ! (length (hierarchy dd) - 1) = d \<longleftrightarrow> d \<in> set (hierarchy cd)"
  proof
    assume "length (hierarchy dd) \<le> length (hierarchy cd) \<and> hierarchy cd ! (length (hierarchy dd) - 1) = d"
    then show "d \<in> set (hierarchy cd)" using d nth_mem [of "length (hierarchy dd) - 1" "hierarchy cd"] by auto
  next
    assume "d \<in> set (hierarchy cd)"
    with hierarchy_prefix [OF assms(1), of d] cd obtain post where "hierarchy cd = hierarchy dd @ post" by (auto simp: hierarchy_at_def)
    with d show "length (hierarchy dd) \<le> length (hierarchy cd) \<and> hierarchy cd ! (length (hierarchy dd) - 1) = d" by (simp add: nth_append)
  qed
  then show ?thesis using cd d by (simp add: instanceof_super_def hierarchy_at_def)
qed


lemma wf_super:
  assumes "wf_table T" "T c = Some cd" "s \<in> set (supers cd)"
  shows "plain_class T s (s \<in> set (cd_interfaces cd)) \<or> plain_class T s False"
  using wf_tableD [OF assms(1,2)] assms(3) by (auto simp: class_ok_def supers_def split: option.splits)

lemma plain_classD:
  assumes "wf_table T" "plain_class T c b" "T c = Some cd"
  shows "cd_kind cd = CD_KIND_ORDINARY" "cd_is_interface cd = b" "one_fewer_dim cd = None"
  using assms(2,3) wf_tableD [OF assms(1,3)] by (auto simp: plain_class_def class_ok_def component_ok_def)

lemma supers_plain:
  assumes "wf_table T" "T c = Some cd" "s \<in> set (supers cd)" "T s = Some sd"
  shows "cd_kind sd = CD_KIND_ORDINARY" "one_fewer_dim sd = None"
  using wf_super [OF assms(1-3)] plain_classD [OF assms(1) _ assms(4)] by blast+

lemma own_hierarchy: "set_up T c \<Longrightarrow> c \<in> set (hierarchy_at T c)"
  using set_up_in_table [of T c] hierarchy_at_set_up [of T c] by fastforce

lemma hierarchy_subtype: "set_up T c \<Longrightarrow> d \<in> set (hierarchy_at T c) \<Longrightarrow> subtype T c d"
proof (induction rule: set_up.induct)
  case (linked c cd)
  have up: "set_up T c" by (rule set_up.linked [OF linked.hyps])
  show ?case
  proof (cases "d = c")
    case False
    with linked.prems hierarchy_at_set_up [OF up linked.hyps(1)] obtain s where s: "super_class cd = Some s" "d \<in> set (hierarchy_at T s)"
      by (auto split: option.splits)
    with linked.IH [OF super_in_supers [OF s(1)]] have "subtype T s d" by blast
    with subtype.super [where T = T, OF linked.hyps(1) super_in_supers [OF s(1)]] show ?thesis .
  qed (simp add: subtype.refl)
qed

lemma interfaces_subtype: "set_up T c \<Longrightarrow> d \<in> interfaces_at T c \<Longrightarrow> subtype T c d"
proof (induction rule: set_up.induct)
  case (linked c cd)
  from linked.prems linked.hyps(1,4) have "d = c \<or> (\<exists>s\<in>set (supers cd). d \<in> interfaces_at T s)"
    by (auto simp: interfaces_at_def own_interface_def split: if_splits)
  with linked.IH linked.hyps(1) show ?case by (auto intro: subtype.super subtype.refl)
qed

lemma root_in_hierarchy:
  assumes "wf_table T" "root_class T r"
  shows "set_up T c \<Longrightarrow> T c = Some cd \<Longrightarrow> cd_kind cd \<noteq> CD_KIND_PRIMITIVE \<Longrightarrow> r \<in> set (hierarchy_at T c)"
proof (induction arbitrary: cd rule: set_up.induct)
  case (linked c cd')
  have up: "set_up T c" by (rule set_up.linked [OF linked.hyps])
  have cd: "cd' = cd" using linked.hyps(1) linked.prems by simp
  show ?case
  proof (cases "super_class cd")
    case None
    with wf_tableD [OF assms(1) linked.prems(1)] linked.prems have "root_class T c"
      by (auto simp: class_ok_def root_class_def)
    with assms have "r = c" by (simp add: wf_table_def)
    with own_hierarchy [OF up] show ?thesis by simp
  next
    case (Some s)
    then have "set_up T s" using linked.hyps(2) [of s] cd by simp
    then obtain sd where sd: "T s = Some sd" using set_up_in_table by blast
    with supers_plain [OF assms(1) linked.prems(1) _ sd] Some have "cd_kind sd \<noteq> CD_KIND_PRIMITIVE" by simp
    with linked.IH [of s sd] sd Some cd hierarchy_at_set_up [OF up linked.prems(1)] show ?thesis by simp
  qed
qed

lemma interface_hierarchy:
  assumes "wf_table T" "set_up T i" "plain_class T i True"
  shows "\<exists>r. root_class T r \<and> hierarchy_at T i = [r, i]"
proof -
  obtain d where d: "T i = Some d" "cd_is_interface d" using assms(3) by (auto simp: plain_class_def)
  with wf_tableD [OF assms(1) d(1)] obtain r where r: "super_class d = Some r" "root_class T r"
    by (cases "super_class d") (auto simp: class_ok_def)
  have up: "set_up T r" using set_upD(1) [OF assms(2) d(1)] r(1) by simp
  obtain rd where rd: "T r = Some rd" "super_class rd = None" using r(2) by (auto simp: root_class_def)
  show ?thesis using hierarchy_at_set_up [OF assms(2) d(1)] hierarchy_at_set_up [OF up rd(1)] r rd by auto
qed

lemma subtype_hierarchy:
  assumes "wf_table T"
  shows "subtype T c t \<Longrightarrow> plain_class T t False \<Longrightarrow> set_up T c \<Longrightarrow> T c = Some cd \<Longrightarrow> cd_kind cd \<noteq> CD_KIND_PRIMITIVE \<Longrightarrow>
    t \<in> set (hierarchy_at T c)"
proof (induction arbitrary: cd rule: subtype.induct)
  case (refl c)
  then show ?case by (simp add: own_hierarchy)
next
  case (super c cd' s d)
  have cd: "cd' = cd" using super.hyps(1) super.prems by simp
  have up: "set_up T s" using set_upD(1) [OF super.prems(2,3)] super.hyps(2) cd by simp
  obtain sd where sd: "T s = Some sd" using set_up_in_table [OF up] by blast
  with supers_plain [OF assms super.hyps(1,2) sd] have "cd_kind sd \<noteq> CD_KIND_PRIMITIVE" by simp
  with super.IH [OF super.prems(1) up sd] have d: "d \<in> set (hierarchy_at T s)" .
  show ?case
  proof (cases "super_class cd = Some s")
    case True
    with d hierarchy_at_set_up [OF super.prems(2,3)] show ?thesis by simp
  next
    case False
    then have "s \<in> set (cd_interfaces cd)" using super.hyps(2) cd by (auto simp: supers_def split: option.splits)
    then have i: "plain_class T s True" using wf_tableD [OF assms super.prems(3)] by (simp add: class_ok_def)
    from interface_hierarchy [OF assms up i] obtain r where r: "root_class T r" "hierarchy_at T s = [r, s]" by blast
    with d i super.prems(1) have "d = r" by (auto simp: plain_class_def)
    with root_in_hierarchy [OF assms r(1) super.prems(2-4)] show ?thesis by simp
  qed
next
  case (array c cd' d dd)
  with plain_classD(3) [OF assms array.prems(1) array.hyps(2)] show ?case by simp
qed

lemma subtype_interfaces:
  assumes "wf_table T"
  shows "subtype T c t \<Longrightarrow> plain_class T t True \<Longrightarrow> set_up T c \<Longrightarrow> t = c \<or> t \<in> interfaces_at T c"
proof (induction rule: subtype.induct)
  case (super c cd s d)
  have up: "set_up T s" using set_upD(1) [OF super.prems(2) super.hyps(1)] super.hyps(2) .
  have "d \<in> interfaces_at T s"
  proof (cases "d = s")
    case True
    obtain sd where sd: "T s = Some sd" using set_up_in_table [OF up] by blast
    with True super.prems(1) plain_classD(2) [OF assms _ sd] set_upD(3) [OF up sd] show ?thesis
      by (simp add: interfaces_at_def own_interface_def)
  qed (use super.IH super.prems up in blast)
  with set_upD(3) [OF super.prems(2) super.hyps(1)] super.hyps(1,2) show ?case by (auto simp: interfaces_at_def)
next
  case (array c cd d dd)
  with plain_classD(3) [OF assms array.prems(1) array.hyps(2)] show ?case by simp
qed simp

text \<open>Below an array class there are only itself and arrays with a component below its component.\<close>

definition below_component :: "class_table \<Rightarrow> cid \<Rightarrow> cid \<Rightarrow> bool" where
  "below_component T x t \<longleftrightarrow> (\<exists>cd td a b ad bd. T x = Some cd \<and> T t = Some td \<and> one_fewer_dim cd = Some a \<and> one_fewer_dim td = Some b \<and>
     T a = Some ad \<and> T b = Some bd \<and> cd_kind ad \<noteq> CD_KIND_PRIMITIVE \<and> cd_kind bd \<noteq> CD_KIND_PRIMITIVE \<and> subtype T a b)"

lemma below_component_subtype: "below_component T x t \<Longrightarrow> subtype T x t"
  by (auto simp: below_component_def intro: subtype.array)

lemma subtype_array:
  assumes "wf_table T"
  shows "subtype T x t \<Longrightarrow> T t = Some td \<Longrightarrow> one_fewer_dim td \<noteq> None \<Longrightarrow> x = t \<or> below_component T x t"
proof (induction rule: subtype.induct)
  case (super c cd s d)
  then consider "s = d" | "below_component T s d" by blast
  then obtain sd where sd: "T s = Some sd" "one_fewer_dim sd \<noteq> None" using super.prems unfolding below_component_def by cases blast+
  from supers_plain(2) [OF assms super.hyps(1,2) sd(1)] sd(2) show ?case by simp
next
  case (array c cd d dd a b ad bd)
  show ?case unfolding below_component_def
    by (rule disjI2, intro exI [of _ cd] exI [of _ dd] exI [of _ a] exI [of _ b] exI [of _ ad] exI [of _ bd]) (simp add: array.hyps)
qed simp

section \<open>The test\<close>

text \<open>A class whose tables are set up, with its component class if that is not primitive, and so on down to the
  element.\<close>

inductive ready :: "class_table \<Rightarrow> cid \<Rightarrow> bool" for T where
  ready: "set_up T c \<Longrightarrow> T c = Some cd \<Longrightarrow>
   (\<And>a ad. one_fewer_dim cd = Some a \<Longrightarrow> T a = Some ad \<Longrightarrow> cd_kind ad \<noteq> CD_KIND_PRIMITIVE \<Longrightarrow> ready T a) \<Longrightarrow> ready T c"

inductive_cases readyE: "ready T c"

lemma ready_set_up: "ready T c \<Longrightarrow> set_up T c"
  by (auto elim: readyE)

lemma ready_component: "ready T c \<Longrightarrow> T c = Some cd \<Longrightarrow> one_fewer_dim cd = Some a \<Longrightarrow> T a = Some ad \<Longrightarrow> cd_kind ad \<noteq> CD_KIND_PRIMITIVE \<Longrightarrow> ready T a"
  by (auto elim: readyE)

lemma instanceof_plain_subtype:
  assumes "wf_table T" "set_up T x" "set_up T t" "T x = Some cd" "cd_kind cd \<noteq> CD_KIND_PRIMITIVE" "plain_class T t b"
  shows "instanceof_plain T x t = Some (subtype T x t)"
proof -
  obtain td where td: "T t = Some td" "cd_is_interface td = b" using assms(6) by (auto simp: plain_class_def)
  show ?thesis
  proof (cases b)
    case True
    have "x = t \<or> t \<in> interfaces_at T x \<longleftrightarrow> subtype T x t"
      using subtype_interfaces [OF assms(1), of x t] assms(2,6) True interfaces_subtype [OF assms(2)] subtype.refl [of T x] by metis
    then show ?thesis using td True assms(4) by (simp add: instanceof_plain_def instanceof_interface_def interfaces_at_def)
  next
    case False
    with assms(6) have "plain_class T t False" by simp
    with subtype_hierarchy [OF assms(1) _ _ assms(2,4,5)] hierarchy_subtype [OF assms(2)]
    have "t \<in> set (hierarchy_at T x) \<longleftrightarrow> subtype T x t" by blast
    then show ?thesis using td False by (simp add: instanceof_plain_def instanceof_super_hierarchy [OF assms(2,3)])
  qed
qed

text \<open>The test for an array class as target.\<close>

definition instanceof_stripped :: "class_table \<Rightarrow> nat \<Rightarrow> cid \<Rightarrow> cid \<Rightarrow> bool option" where
  "instanceof_stripped T d x t = do {
     r \<leftarrow> strip_dims T d x t;
     case r of None \<Rightarrow> Some False
     | Some (x', target') \<Rightarrow> do {
         cd' \<leftarrow> T x';
         td' \<leftarrow> T target';
         if cd_kind cd' = CD_KIND_PRIMITIVE \<or> cd_kind td' = CD_KIND_PRIMITIVE then Some False
         else instanceof_plain T x' target'
       }
   }"

lemma component_cases:
  assumes "wf_table T" "T c = Some cd"
  obtains (ordinary) "cd_kind cd = CD_KIND_ORDINARY" "one_fewer_dim cd = None" "cd_dimensions cd = 0" "primitive_component cd = TYPE_KIND_BOOLEAN"
    | (prim) "cd_kind cd = CD_KIND_PRIMITIVE" "one_fewer_dim cd = None" "cd_dimensions cd = 0"
    | (array) a ad where "cd_kind cd \<noteq> CD_KIND_PRIMITIVE" "cd_kind cd \<noteq> CD_KIND_ORDINARY" "one_fewer_dim cd = Some a" "T a = Some ad"
        "cd_dimensions cd = cd_dimensions ad + 1" "primitive_component cd = primitive_component ad"
        "(cd_kind ad = CD_KIND_PRIMITIVE) = (cd_kind cd = CD_KIND_PRIMITIVE_ARRAY)"
  using wf_tableD [OF assms] by (cases "cd_kind cd") (auto simp: class_ok_def component_ok_def)

lemma instanceof_stripped_subtype:
  assumes "wf_table T"
  shows "T x = Some cd \<Longrightarrow> T t = Some td \<Longrightarrow> cd_dimensions td = d \<Longrightarrow> (cd_kind cd \<noteq> CD_KIND_PRIMITIVE \<Longrightarrow> ready T x) \<Longrightarrow>
    (cd_kind td \<noteq> CD_KIND_PRIMITIVE \<Longrightarrow> ready T t) \<Longrightarrow> x \<noteq> t \<or> d = 0 \<Longrightarrow>
    instanceof_stripped T d x t = Some (cd_kind cd \<noteq> CD_KIND_PRIMITIVE \<and> cd_kind td \<noteq> CD_KIND_PRIMITIVE \<and> subtype T x t)"
proof (induction d arbitrary: x t cd td)
  case 0
  show ?case
  proof (cases "cd_kind cd = CD_KIND_PRIMITIVE \<or> cd_kind td = CD_KIND_PRIMITIVE")
    case True
    with "0.prems" show ?thesis by (auto simp: instanceof_stripped_def)
  next
    case False
    with component_cases [OF assms "0.prems"(2)] "0.prems"(3) have "cd_kind td = CD_KIND_ORDINARY" by (metis Suc_eq_plus1 nat.distinct(1))
    with "0.prems"(2) have "plain_class T t (cd_is_interface td)" by (auto simp: plain_class_def)
    with False "0.prems" instanceof_plain_subtype [OF assms, of x t cd] show ?thesis by (simp add: instanceof_stripped_def ready_set_up)
  qed
next
  case (Suc d)
  from component_cases [OF assms Suc.prems(2)] Suc.prems(3) obtain b bd where b: "cd_kind td \<noteq> CD_KIND_PRIMITIVE" "one_fewer_dim td = Some b"
    "T b = Some bd" "cd_dimensions bd = d" by (metis Suc_eq_plus1 diff_Suc_1 nat.distinct(1))
  have sub: "subtype T x t \<longleftrightarrow> below_component T x t"
    using subtype_array [OF assms _ Suc.prems(2)] b(2) below_component_subtype Suc.prems(6) by auto
  show ?case
  proof (cases "one_fewer_dim cd")
    case None
    then have "\<not> below_component T x t" using Suc.prems(1) by (simp add: below_component_def)
    with None Suc.prems(1,2) b show ?thesis by (simp add: instanceof_stripped_def sub)
  next
    case (Some a)
    with component_cases [OF assms Suc.prems(1)] obtain ad where a: "T a = Some ad" "cd_kind cd \<noteq> CD_KIND_PRIMITIVE" by (metis option.distinct(1) option.inject)
    have "a \<noteq> b" using assms Suc.prems(1,2,6) b(2) Some unfolding wf_table_def by blast
    with Suc.IH [OF a(1) b(3,4)] ready_component Suc.prems(1,2,4,5) Some a b
    have "instanceof_stripped T d a b = Some (cd_kind ad \<noteq> CD_KIND_PRIMITIVE \<and> cd_kind bd \<noteq> CD_KIND_PRIMITIVE \<and> subtype T a b)" by blast
    moreover have "instanceof_stripped T (Suc d) x t = instanceof_stripped T d a b"
      using Some Suc.prems(1,2) b(2) by (simp add: instanceof_stripped_def)
    ultimately show ?thesis using Suc.prems(1,2) b Some a by (simp add: sub below_component_def)
  qed
qed

text \<open>The answer for the array of booleans and an array of references of one dimension.\<close>

definition boolean_array_accepted :: "link_desc \<Rightarrow> link_desc \<Rightarrow> bool" where
  "boolean_array_accepted cd td \<longleftrightarrow> cd_kind cd = CD_KIND_PRIMITIVE_ARRAY \<and> primitive_component cd = TYPE_KIND_BOOLEAN \<and>
     cd_kind td = CD_KIND_ORDINARY_ARRAY \<and> cd_dimensions td = 1"

lemma primitive_array_test:
  assumes "wf_table T" "T x = Some cd" "T t = Some td" "cd_kind cd = CD_KIND_PRIMITIVE_ARRAY" "cd_kind td \<noteq> CD_KIND_ORDINARY"
    "cd_kind td \<noteq> CD_KIND_PRIMITIVE" "x \<noteq> t"
  shows "cd_dimensions td = cd_dimensions cd \<and> primitive_component td = primitive_component cd \<longleftrightarrow> boolean_array_accepted cd td" "\<not> subtype T x t"
proof -
  from component_cases [OF assms(1,2)] assms(4) obtain a ad where a: "one_fewer_dim cd = Some a" "T a = Some ad" "cd_dimensions cd = cd_dimensions ad + 1"
    "primitive_component cd = primitive_component ad" "cd_kind ad = CD_KIND_PRIMITIVE" by (metis classdesc_kind.distinct(5) classdesc_kind.distinct(9))
  from component_cases [OF assms(1,3)] assms(5,6) obtain b bd where b: "one_fewer_dim td = Some b" "T b = Some bd" "cd_dimensions td = cd_dimensions bd + 1"
    "primitive_component td = primitive_component bd" "(cd_kind bd = CD_KIND_PRIMITIVE) = (cd_kind td = CD_KIND_PRIMITIVE_ARRAY)" by metis
  have d: "cd_dimensions ad = 0" using component_cases [OF assms(1) a(2)] a(5) by (metis classdesc_kind.distinct(1))
  have "\<not> below_component T x t" using a assms(2) by (simp add: below_component_def)
  with subtype_array [OF assms(1) _ assms(3)] b(1) assms(7) show "\<not> subtype T x t" by auto
  show "cd_dimensions td = cd_dimensions cd \<and> primitive_component td = primitive_component cd \<longleftrightarrow> boolean_array_accepted cd td"
  proof (cases "cd_kind td = CD_KIND_PRIMITIVE_ARRAY")
    case True
    have "primitive_component bd \<noteq> primitive_component ad"
    proof
      assume "primitive_component bd = primitive_component ad"
      with True b a assms(1) have "a = b" unfolding wf_table_def by metis
      with a(1) b(1) assms(1-3,7) show False unfolding wf_table_def by blast
    qed
    with True a b show ?thesis by (simp add: boolean_array_accepted_def)
  next
    case False
    then have k: "cd_kind td = CD_KIND_ORDINARY_ARRAY" using assms(5,6) by (cases "cd_kind td") auto
    have "primitive_component bd = TYPE_KIND_BOOLEAN" if "cd_dimensions bd = 0"
      using component_cases [OF assms(1) b(2)] that False b(5) by (metis Suc_eq_plus1 nat.distinct(1))
    with k a b d assms(4) show ?thesis by (auto simp: boolean_array_accepted_def)
  qed
qed



section \<open>An example\<close>

text \<open>Two classes, where the second overrides the method of the first, and two array classes.\<close>

definition example_class :: "string \<Rightarrow> classdesc_kind \<Rightarrow> cid option \<Rightarrow> link_method list \<Rightarrow> cid option \<Rightarrow> cid list \<Rightarrow> method_ptr list \<Rightarrow> link_desc" where
  "example_class name kind super ms component h vt = \<lparr>cd_name = name, cd_kind = kind, cd_state = CD_STATE_LINKED, super_class = super,
     cd_interfaces = [], cd_is_interface = False, cd_fields = [], cd_methods = ms, cd_dimensions = (if component = None then 0 else 1),
     one_fewer_dim = component, base_component = component, array_type = None, primitive_component = TYPE_KIND_BOOLEAN, hierarchy = h, vtable = vt,
     itable_interfaces = [], static_bytes = 0, instance_bytes = 8, static_references = Some [], instance_references = Some []\<rparr>"

definition hash_code :: "bool \<Rightarrow> link_method" where
  "hash_code b = \<lparr>lm_name = ''hashCode'', lm_descriptor = ''()I'', lm_flags = 1, lm_is_ctor = False, lm_is_clinit = False, lm_sigpoly = False,
     vtable_index = 0, lm_overrides = b\<rparr>"

definition example_table :: class_table where
  "example_table = [0 \<mapsto> example_class ''java/lang/Object'' CD_KIND_ORDINARY None [hash_code False] None [0] [(0, 0)],
     1 \<mapsto> example_class ''A'' CD_KIND_ORDINARY (Some 0) [hash_code True] None [0, 1] [(1, 0)],
     2 \<mapsto> example_class ''Z'' CD_KIND_PRIMITIVE None [] None [] [],
     3 \<mapsto> example_class ''[Z'' CD_KIND_PRIMITIVE_ARRAY (Some 0) [] (Some 2) [0, 3] [(0, 0)],
     4 \<mapsto> example_class ''[LA;'' CD_KIND_ORDINARY_ARRAY (Some 0) [] (Some 1) [0, 4] [(0, 0)]]"

lemma example_lookup:
  "example_table 0 = Some (example_class ''java/lang/Object'' CD_KIND_ORDINARY None [hash_code False] None [0] [(0, 0)])"
  "example_table (Suc 0) = Some (example_class ''A'' CD_KIND_ORDINARY (Some 0) [hash_code True] None [0, 1] [(1, 0)])"
  "example_table 2 = Some (example_class ''Z'' CD_KIND_PRIMITIVE None [] None [] [])"
  "example_table 3 = Some (example_class ''[Z'' CD_KIND_PRIMITIVE_ARRAY (Some 0) [] (Some 2) [0, 3] [(0, 0)])"
  "example_table 4 = Some (example_class ''[LA;'' CD_KIND_ORDINARY_ARRAY (Some 0) [] (Some 1) [0, 4] [(0, 0)])"
  by (simp_all add: example_table_def)

lemma example_dom: "example_table c = Some cd \<Longrightarrow> c = 0 \<or> c = Suc 0 \<or> c = 2 \<or> c = 3 \<or> c = 4"
  by (auto simp: example_table_def split: if_splits)

lemmas example_simps = example_lookup example_class_def hash_code_def

lemma example_set_up: "set_up example_table 0" "set_up example_table 1" "set_up example_table 3" "set_up example_table 4"
proof -
  note simps = example_simps supers_def own_interface_def vtable_ok_def super_vtable_def method_at_def hierarchy_at_def interfaces_at_def
    override_slot_def method_candidate_matches_def method_overrides_def
  show 0: "set_up example_table 0" by (rule set_up.linked [where T = example_table, OF example_lookup(1)]) (simp_all add: simps)
  have "set_up example_table (Suc 0)" by (rule set_up.linked [where T = example_table, OF example_lookup(2)]) (use 0 in \<open>simp_all add: simps\<close>)
  then show "set_up example_table 1" by simp
  show "set_up example_table 3" by (rule set_up.linked [where T = example_table, OF example_lookup(4)]) (use 0 in \<open>simp_all add: simps\<close>)
  show "set_up example_table 4" by (rule set_up.linked [where T = example_table, OF example_lookup(5)]) (use 0 in \<open>simp_all add: simps\<close>)
qed

lemma example_wf: "wf_table example_table"
proof -
  have root: "c = 0" if "root_class example_table c" for c
    using that example_dom [of c] by (auto simp: root_class_def example_simps)
  have prim: "c = 2" if "example_table c = Some cd" "cd_kind cd = CD_KIND_PRIMITIVE" for c cd
    using that example_dom [of c] by (auto simp: example_simps)
  show ?thesis
    unfolding wf_table_def
  proof (intro conjI allI impI)
    show "class_ok example_table cd" if "example_table c = Some cd" for c cd
      using example_dom [OF that] that by (auto simp: example_simps class_ok_def component_ok_def plain_class_def root_class_def)
    show "c = d" if "root_class example_table c" "root_class example_table d" for c d using root that by blast
    show "c = d" if "example_table c = Some cd" "example_table d = Some dd" "one_fewer_dim cd = Some a" "one_fewer_dim dd = Some a" for c d cd dd a
      using that example_dom [of c] example_dom [of d] by (auto simp: example_simps)
    show "c = d" if "example_table c = Some cd" "example_table d = Some dd" "cd_kind cd = CD_KIND_PRIMITIVE" "cd_kind dd = CD_KIND_PRIMITIVE" for c d cd dd
      using prim [OF that(1,3)] prim [OF that(2,4)] by simp
  qed
qed

lemma example_ready: "ready example_table 3" "ready example_table 4"
proof -
  show "ready example_table 3" by (rule ready.ready [where T = example_table, OF example_set_up(3) example_lookup(4)]) (auto simp: example_simps)
  have 1: "ready example_table (Suc 0)"
    by (rule ready.ready [where T = example_table, OF _ example_lookup(2)]) (use example_set_up(2) in \<open>simp_all add: example_simps\<close>)
  show "ready example_table 4" by (rule ready.ready [where T = example_table, OF example_set_up(4) example_lookup(5)]) (use 1 in \<open>simp add: example_simps\<close>)
qed



end
