(* ===== verification/Java_Strings.thy ===== *)
theory Java_Strings
  imports Prelude
begin

text \<open>
  Java strings, \<^verbatim>\<open>vm/objects.c\<close>: conversion from modified UTF-8, the two encodings of a string object, the table of
  interned strings and the identity hash codes. A string object is its coder and the bytes of its value array, a
  reference to one its position in the list of objects. Whether the two allocations of an operation succeed is an
  argument; the table of interned strings is the map that theory \<open>Hash_Table\<close> shows the hash table to be. A null
  dereference and a failed \<^verbatim>\<open>DCHECK\<close> are error values.
\<close>

unbundle bit_operations_syntax

section \<open>Conversion\<close>

definition do_latin1 :: "u16 list \<Rightarrow> bool" where
  "do_latin1 chars \<longleftrightarrow> list_all (\<lambda>c. drop_bit 8 c = 0) chars"

definition two_byte_char :: "u8 \<Rightarrow> u8 \<Rightarrow> u16" where
  "two_byte_char b0 b1 = push_bit 6 (ucast b0 AND 0x1F) OR (ucast b1 AND 0x3F)"

definition three_byte_char :: "u8 \<Rightarrow> u8 \<Rightarrow> u8 \<Rightarrow> u16" where
  "three_byte_char b0 b1 b2 = push_bit 12 (ucast (b0 AND 0x0F)) OR push_bit 6 (ucast (b1 AND 0x3F)) OR ucast (b2 AND 0x3F)"

text \<open>The loop of \<^verbatim>\<open>convert_modified_utf8_to_chars\<close>; \<open>None\<close> is the jump to \<^verbatim>\<open>inval\<close>.\<close>

function convert_loop :: "u8 list \<Rightarrow> nat \<Rightarrow> u16 list \<Rightarrow> u16 list option" where
  "convert_loop bytes i result =
     (if i < length bytes then
        let byte = bytes ! i in
        if 1 \<le> byte \<and> byte \<le> 0x7F then convert_loop bytes (i + 1) (result @ [ucast byte])
        else if byte AND 0xE0 = 0xC0 then
          (if length bytes - 1 \<le> i then None
           else convert_loop bytes (i + 2) (result @ [two_byte_char byte (bytes ! (i + 1))]))
        else if byte AND 0xF0 = 0xE0 then
          (if length bytes - 2 \<le> i then None
           else convert_loop bytes (i + 3) (result @ [three_byte_char byte (bytes ! (i + 1)) (bytes ! (i + 2))]))
        else if byte = 0 then Some result
        else None
      else Some result)"
  by pat_completeness auto
termination by (relation "measure (\<lambda>(bytes, i, _). length bytes - i)") auto

declare convert_loop.simps [simp del]

definition convert_modified_utf8_to_chars :: "u8 list \<Rightarrow> u16 list option" where
  "convert_modified_utf8_to_chars bytes = convert_loop bytes 0 []"

section \<open>String objects\<close>

datatype string_coder_kind = STRING_CODER_LATIN1 | STRING_CODER_UTF16

record native_String =
  js_coder :: string_coder_kind
  js_value :: "u8 list"

datatype string_error = String_null | String_check_failed

record string_memory =
  alloc_object :: bool
  alloc_value :: bool

record string_vm =
  sv_objects :: "native_String list"
  interned_strings :: "u8 list \<Rightarrow> nat option"
  sv_exception :: bool

definition new_string :: "native_String \<Rightarrow> string_vm \<Rightarrow> nat option \<times> string_vm" where
  "new_string s vm = (Some (length (sv_objects vm)), vm\<lparr>sv_objects := sv_objects vm @ [s]\<rparr>)"

text \<open>The bytes that \<^verbatim>\<open>memcpy\<close> leaves in the value array, on a little-endian machine.\<close>

definition utf16_bytes :: "u16 list \<Rightarrow> u8 list" where
  "utf16_bytes chars = concat (map (\<lambda>c. [ucast c, ucast (drop_bit 8 c)]) chars)"

definition make_jstring_modified_utf8 :: "string_memory \<Rightarrow> u8 list \<Rightarrow> string_vm \<Rightarrow> nat option \<times> string_vm" where
  "make_jstring_modified_utf8 mem str vm =
     (if \<not> alloc_object mem then (None, vm\<lparr>sv_exception := True\<rparr>)
      else case convert_modified_utf8_to_chars str of
        None \<Rightarrow> (None, vm)
      | Some chars \<Rightarrow>
          if \<not> alloc_value mem then (None, vm\<lparr>sv_exception := True\<rparr>)
          else if do_latin1 chars then new_string \<lparr>js_coder = STRING_CODER_LATIN1, js_value = map ucast chars\<rparr> vm
          else new_string \<lparr>js_coder = STRING_CODER_UTF16, js_value = utf16_bytes chars\<rparr> vm)"

definition make_jstring_data :: "string_memory \<Rightarrow> u8 list \<Rightarrow> string_coder_kind \<Rightarrow> string_vm \<Rightarrow> string_error + nat option \<times> string_vm" where
  "make_jstring_data mem bytes encoding vm =
     (if \<not> alloc_object mem then Inl String_null
      else if \<not> alloc_value mem then Inr (None, vm\<lparr>sv_exception := True\<rparr>)
      else Inr (new_string \<lparr>js_coder = encoding, js_value = bytes\<rparr> vm))"

text \<open>The C string ends before its first zero byte.\<close>

definition make_jstring_cstr :: "string_memory \<Rightarrow> u8 list \<Rightarrow> string_vm \<Rightarrow> string_error + nat option \<times> string_vm" where
  "make_jstring_cstr mem cstr vm = make_jstring_data mem (takeWhile (\<lambda>b. b \<noteq> 0) cstr) STRING_CODER_LATIN1 vm"

definition MakeJStringFromData :: "string_memory \<Rightarrow> u8 list \<Rightarrow> string_coder_kind \<Rightarrow> string_vm \<Rightarrow> string_error + nat option \<times> string_vm" where
  "MakeJStringFromData = make_jstring_data"

section \<open>Interned strings\<close>

definition RawStringData :: "string_vm \<Rightarrow> nat \<Rightarrow> u8 list" where
  "RawStringData vm s = js_value (sv_objects vm ! s)"

definition lookup_interned_jstring :: "nat \<Rightarrow> string_vm \<Rightarrow> nat option" where
  "lookup_interned_jstring s vm = interned_strings vm (RawStringData vm s)"

definition insert_interned_jstring :: "nat \<Rightarrow> string_vm \<Rightarrow> string_vm" where
  "insert_interned_jstring s vm = vm\<lparr>interned_strings := (interned_strings vm)(RawStringData vm s \<mapsto> s)\<rparr>"

definition intern_new :: "bool \<Rightarrow> nat \<Rightarrow> string_vm \<Rightarrow> nat \<times> string_vm" where
  "intern_new intern obj vm = (case lookup_interned_jstring obj vm of
     Some interned \<Rightarrow> (interned, vm)
   | None \<Rightarrow> (obj, if intern then insert_interned_jstring obj vm else vm))"

definition MakeJStringFromModifiedUTF8 :: "string_memory \<Rightarrow> u8 list \<Rightarrow> bool \<Rightarrow> string_vm \<Rightarrow> string_error + nat option \<times> string_vm" where
  "MakeJStringFromModifiedUTF8 mem data intern vm = (case make_jstring_modified_utf8 mem data vm of
     (None, vm) \<Rightarrow> if sv_exception vm then Inr (None, vm) else Inl String_check_failed
   | (Some obj, vm) \<Rightarrow> Inr (map_prod Some id (intern_new intern obj vm)))"

definition MakeJStringFromCString :: "string_memory \<Rightarrow> u8 list \<Rightarrow> bool \<Rightarrow> string_vm \<Rightarrow> string_error + nat option \<times> string_vm" where
  "MakeJStringFromCString mem data intern vm = (case make_jstring_cstr mem data vm of
     Inl e \<Rightarrow> Inl e
   | Inr (None, vm) \<Rightarrow> Inr (None, vm)
   | Inr (Some obj, vm) \<Rightarrow> Inr (map_prod Some id (intern_new intern obj vm)))"

definition InternJString :: "nat \<Rightarrow> string_vm \<Rightarrow> nat \<times> string_vm" where
  "InternJString s vm = (case lookup_interned_jstring s vm of
     Some r \<Rightarrow> (r, vm)
   | None \<Rightarrow> (s, insert_interned_jstring s vm))"

section \<open>Hash codes\<close>

definition ObjNextHashCode :: "u64 \<Rightarrow> u64 \<times> u64" where
  "ObjNextHashCode hash_code_rng = (let r = hash_code_rng * 0x5DEECE66D + 0xB in (drop_bit 32 r, r))"

text \<open>The loop that makes the hash code nonzero; \<open>n\<close> bounds its iterations.\<close>

fun next_hash_code :: "nat \<Rightarrow> u64 \<Rightarrow> (u32 \<times> u64) option" where
  "next_hash_code 0 rng = None"
| "next_hash_code (Suc n) rng =
     (let (v, rng') = ObjNextHashCode rng; hc = ucast v in if hc = 0 then next_hash_code n rng' else Some (hc, rng'))"

definition get_object_hash_code :: "nat \<Rightarrow> u32 \<Rightarrow> u64 \<Rightarrow> (int \<times> u32 \<times> u64) option" where
  "get_object_hash_code n hc rng =
     (if hc = 0 then map_option (\<lambda>(hc, rng). (sint hc, hc, rng)) (next_hash_code n rng) else Some (sint hc, hc, rng))"

section \<open>Bits of bytes and characters\<close>

lemma u8_bits: "(a :: u8) = b \<longleftrightarrow> bit a 0 = bit b 0 \<and> bit a 1 = bit b 1 \<and> bit a 2 = bit b 2 \<and> bit a 3 = bit b 3 \<and>
    bit a 4 = bit b 4 \<and> bit a 5 = bit b 5 \<and> bit a 6 = bit b 6 \<and> bit a 7 = bit b 7"
proof -
  have "{..<8} = {0, 1, 2, 3, 4, 5, 6, 7 :: nat}" by auto
  moreover have "a = b \<longleftrightarrow> (\<forall>n\<in>{..<8}. bit a n = bit b n)" by (auto simp: bit_eq_iff bit_imp_le_length)
  ultimately show ?thesis by simp
qed

lemma u16_bits: "(a :: u16) = b \<longleftrightarrow> (bit a 0 = bit b 0 \<and> bit a 1 = bit b 1 \<and> bit a 2 = bit b 2 \<and> bit a 3 = bit b 3 \<and>
    bit a 4 = bit b 4 \<and> bit a 5 = bit b 5 \<and> bit a 6 = bit b 6 \<and> bit a 7 = bit b 7) \<and>
    bit a 8 = bit b 8 \<and> bit a 9 = bit b 9 \<and> bit a 10 = bit b 10 \<and> bit a 11 = bit b 11 \<and>
    bit a 12 = bit b 12 \<and> bit a 13 = bit b 13 \<and> bit a 14 = bit b 14 \<and> bit a 15 = bit b 15"
proof -
  have "n = 0 \<or> n = 1 \<or> n = 2 \<or> n = 3 \<or> n = 4 \<or> n = 5 \<or> n = 6 \<or> n = 7 \<or> n = 8 \<or> n = 9 \<or> n = 10 \<or> n = 11 \<or> n = 12 \<or> n = 13 \<or> n = 14 \<or> n = 15"
    if "n < 16" for n :: nat using that by presburger
  then have "{..<16} = {0, 1, 2, 3, 4, 5, 6, 7, 8, 9, 10, 11, 12, 13, 14, 15 :: nat}" by fastforce
  moreover have "a = b \<longleftrightarrow> (\<forall>n\<in>{..<16}. bit a n = bit b n)" by (auto simp: bit_eq_iff bit_imp_le_length)
  ultimately show ?thesis by simp
qed

lemma not_bit_high: "unat w < 2 ^ k \<Longrightarrow> k \<le> n \<Longrightarrow> \<not> bit w n"
proof -
  assume "unat w < 2 ^ k" "k \<le> n"
  then have "unat w < 2 ^ n" by (meson le_trans nat_less_le not_le one_le_numeral power_increasing)
  then have "\<not> bit (unat w) n" by (simp add: bit_iff_odd)
  then show "\<not> bit w n" by (simp add: bit_unsigned_iff)
qed

section \<open>Round trip\<close>

text \<open>Modified UTF-8 as the class file format defines it.\<close>

definition encode_char :: "u16 \<Rightarrow> u8 list" where
  "encode_char c =
     (if c \<noteq> 0 \<and> c \<le> 0x7F then [ucast c]
      else if c \<le> 0x7FF then [0xC0 OR ucast (drop_bit 6 c), 0x80 OR ucast (c AND 0x3F)]
      else [0xE0 OR ucast (drop_bit 12 c), 0x80 OR ucast (drop_bit 6 c AND 0x3F), 0x80 OR ucast (c AND 0x3F)])"

definition modified_utf8 :: "u16 list \<Rightarrow> u8 list" where
  "modified_utf8 cs = concat (map encode_char cs)"

lemma two_bytes:
  assumes "(c :: u16) \<le> 0x7FF"
  shows "(0xC0 OR ucast (drop_bit 6 c) :: u8) AND 0xE0 = 0xC0"
    "two_byte_char (0xC0 OR ucast (drop_bit 6 c)) (0x80 OR ucast (c AND 0x3F)) = c"
proof -
  have "unat c < 2 ^ 11" using assms by (simp add: word_le_nat_alt)
  from not_bit_high [OF this] have b: "\<not> bit c 11" "\<not> bit c 12" "\<not> bit c 13" "\<not> bit c 14" "\<not> bit c 15" by auto
  show "(0xC0 OR ucast (drop_bit 6 c) :: u8) AND 0xE0 = 0xC0" by (simp add: u8_bits bit_simps b)
  show "two_byte_char (0xC0 OR ucast (drop_bit 6 c)) (0x80 OR ucast (c AND 0x3F)) = c"
    by (simp add: two_byte_char_def u16_bits bit_simps b)
qed

lemma three_bytes:
  "(0xE0 OR ucast (drop_bit 12 (c :: u16)) :: u8) AND 0xE0 \<noteq> 0xC0" "(0xE0 OR ucast (drop_bit 12 c) :: u8) AND 0xF0 = 0xE0"
  "three_byte_char (0xE0 OR ucast (drop_bit 12 c)) (0x80 OR ucast (drop_bit 6 c AND 0x3F)) (0x80 OR ucast (c AND 0x3F)) = c"
proof -
  have "\<not> bit c 16" using bit_imp_le_length [of c 16] by auto
  then show "(0xE0 OR ucast (drop_bit 12 c) :: u8) AND 0xE0 \<noteq> 0xC0" "(0xE0 OR ucast (drop_bit 12 c) :: u8) AND 0xF0 = 0xE0"
    by (simp_all add: u8_bits bit_simps)
  show "three_byte_char (0xE0 OR ucast (drop_bit 12 c)) (0x80 OR ucast (drop_bit 6 c AND 0x3F)) (0x80 OR ucast (c AND 0x3F)) = c"
    by (simp add: three_byte_char_def u16_bits bit_simps)
qed

lemma bit_7_above: "bit (b :: u8) 7 \<Longrightarrow> \<not> b \<le> 0x7F"
  using not_bit_high [of b 7 7] by (auto simp: word_le_nat_alt)

lemma ucast_latin1: "unat (c :: u16) < 2 ^ 8 \<Longrightarrow> ucast (ucast c :: u8) = c"
  using not_bit_high [of c 8] by (simp add: u16_bits bit_simps)

lemma one_byte:
  assumes "(c :: u16) \<noteq> 0" "c \<le> 0x7F"
  shows "1 \<le> (ucast c :: u8)" "(ucast c :: u8) \<le> 0x7F" "(ucast (ucast c :: u8) :: u16) = c"
proof -
  have "unat c < 128" using assms(2) by (simp add: word_le_nat_alt)
  then have u: "unat (ucast c :: u8) = unat c" by (simp add: unsigned_ucast_eq take_bit_nat_eq_self)
  have "0 < unat c" using assms(1) by (simp add: unat_gt_0)
  with u assms(2) show "1 \<le> (ucast c :: u8)" "(ucast c :: u8) \<le> 0x7F" by (simp_all add: word_le_nat_alt)
  show "(ucast (ucast c :: u8) :: u16) = c" by (rule ucast_latin1) (use \<open>unat c < 128\<close> in simp)
qed

lemma convert_char: "convert_loop (pre @ encode_char c @ rest) (length pre) acc =
    convert_loop (pre @ encode_char c @ rest) (length (pre @ encode_char c)) (acc @ [c])"
proof -
  consider (one) "c \<noteq> 0" "c \<le> 0x7F" | (two) "c = 0 \<or> \<not> c \<le> 0x7F" "c \<le> 0x7FF" | (three) "\<not> c \<le> 0x7FF" by blast
  then show ?thesis
  proof cases
    case one
    then show ?thesis by (subst convert_loop.simps) (simp add: encode_char_def one_byte [OF one] Let_def)
  next
    case two
    have "\<not> (0xC0 OR ucast (drop_bit 6 c) :: u8) \<le> 0x7F" by (rule bit_7_above) (simp add: bit_simps)
    moreover have "encode_char c = [0xC0 OR ucast (drop_bit 6 c), 0x80 OR ucast (c AND 0x3F)]" using two by (auto simp: encode_char_def)
    ultimately show ?thesis by (subst convert_loop.simps) (simp add: two_bytes [OF two(2)] Let_def nth_append)
  next
    case three
    have "\<not> (0xE0 OR ucast (drop_bit 12 c) :: u8) \<le> 0x7F" by (rule bit_7_above) (simp add: bit_simps)
    moreover have "\<not> c \<le> 0x7F" using three by (simp add: word_le_nat_alt)
    then have "encode_char c = [0xE0 OR ucast (drop_bit 12 c), 0x80 OR ucast (drop_bit 6 c AND 0x3F), 0x80 OR ucast (c AND 0x3F)]"
      using three by (simp add: encode_char_def)
    ultimately show ?thesis by (subst convert_loop.simps) (simp add: three_bytes Let_def nth_append numeral_3_eq_3)
  qed
qed

lemma convert_modified_utf8: "convert_modified_utf8_to_chars (modified_utf8 cs) = Some cs"
proof -
  have "convert_loop (pre @ modified_utf8 cs) (length pre) acc = Some (acc @ cs)" for pre acc
  proof (induction cs arbitrary: pre acc)
    case Nil
    show ?case by (subst convert_loop.simps) (simp add: modified_utf8_def)
  next
    case (Cons c cs)
    have "convert_loop (pre @ modified_utf8 (c # cs)) (length pre) acc =
      convert_loop ((pre @ encode_char c) @ modified_utf8 cs) (length (pre @ encode_char c)) (acc @ [c])"
      using convert_char [of pre c "modified_utf8 cs" acc] by (simp add: modified_utf8_def)
    with Cons.IH [of "pre @ encode_char c" "acc @ [c]"] show ?case by simp
  qed
  from this [of "[]" "[]"] show ?thesis by (simp add: convert_modified_utf8_to_chars_def)
qed

text \<open>The characters never outnumber the bytes, so the loop stays inside of its buffer.\<close>

lemma convert_loop_length: "convert_loop bytes i acc = Some cs \<Longrightarrow> length acc \<le> i \<Longrightarrow> i \<le> length bytes \<Longrightarrow> length cs \<le> length bytes"
proof (induction bytes i acc rule: convert_loop.induct)
  case (1 bytes i acc)
  from "1.prems" show ?case
    by (subst (asm) (1) convert_loop.simps) (use "1.IH" in \<open>auto simp: Let_def split: if_splits\<close>)
qed

section \<open>The characters of a string\<close>

fun utf16_chars :: "u8 list \<Rightarrow> u16 list" where
  "utf16_chars (a # b # bs) = (ucast a OR push_bit 8 (ucast b)) # utf16_chars bs"
| "utf16_chars _ = []"

definition java_chars :: "native_String \<Rightarrow> u16 list" where
  "java_chars s = (case js_coder s of STRING_CODER_LATIN1 \<Rightarrow> map ucast (js_value s) | STRING_CODER_UTF16 \<Rightarrow> utf16_chars (js_value s))"

definition string_of :: "u16 list \<Rightarrow> native_String" where
  "string_of cs = (if do_latin1 cs then \<lparr>js_coder = STRING_CODER_LATIN1, js_value = map ucast cs\<rparr>
     else \<lparr>js_coder = STRING_CODER_UTF16, js_value = utf16_bytes cs\<rparr>)"

definition string_ok :: "native_String \<Rightarrow> bool" where
  "string_ok s \<longleftrightarrow> js_coder s = STRING_CODER_UTF16 \<longrightarrow> js_value s \<noteq> [] \<and> even (length (js_value s))"

lemma utf16_chars_bytes: "utf16_chars (utf16_bytes cs) = cs"
proof (induction cs)
  case (Cons c cs)
  have "(ucast (ucast c :: u8) OR push_bit 8 (ucast (ucast (drop_bit 8 c) :: u8)) :: u16) = c"
    by (simp add: u16_bits bit_simps)
  with Cons show ?case by (simp add: utf16_bytes_def)
qed (simp add: utf16_bytes_def)

lemma latin1_chars: "do_latin1 cs \<Longrightarrow> map (ucast \<circ> (ucast :: u16 \<Rightarrow> u8)) cs = cs"
proof (rule map_idI)
  fix c assume "do_latin1 cs" "c \<in> set cs"
  then have "drop_bit 8 c = 0" by (auto simp: do_latin1_def list_all_iff)
  then have "unat c div 2 ^ 8 = 0" by (metis drop_bit_eq_div unat_0 unat_drop_bit_eq)
  then have "unat c < 2 ^ 8" by (simp add: div_eq_0_iff)
  then show "(ucast \<circ> (ucast :: u16 \<Rightarrow> u8)) c = c" using ucast_latin1 by simp
qed

lemma java_chars_string_of: "java_chars (string_of cs) = cs"
  by (simp add: java_chars_def string_of_def utf16_chars_bytes latin1_chars)

lemma string_of_ok: "string_ok (string_of cs)"
  by (cases cs) (auto simp: string_ok_def string_of_def utf16_bytes_def do_latin1_def length_concat comp_def sum_list_triv)

lemma length_utf16_chars: "length (utf16_chars bs) = length bs div 2"
  by (induction bs rule: utf16_chars.induct) auto

text \<open>The same bytes under different coders are different strings.\<close>

lemma coder_matters:
  assumes "string_ok s" "string_ok t" "js_value s = js_value t" "js_coder s \<noteq> js_coder t"
  shows "java_chars s \<noteq> java_chars t"
proof
  assume "java_chars s = java_chars t"
  then have l: "length (java_chars s) = length (java_chars t)" by simp
  have "0 < length (js_value s)" using assms by (cases "js_coder s"; cases "js_coder t") (auto simp: string_ok_def)
  then have "length (js_value s) div 2 < length (js_value s)" by simp
  with l assms(3,4) show False by (cases "js_coder s"; cases "js_coder t") (auto simp del: div_less_dividend simp: java_chars_def length_utf16_chars)
qed

section \<open>The table of interned strings\<close>

definition strings_ok :: "string_vm \<Rightarrow> bool" where
  "strings_ok vm \<longleftrightarrow> (\<forall>k s. interned_strings vm k = Some s \<longrightarrow> s < length (sv_objects vm) \<and> js_value (sv_objects vm ! s) = k) \<and>
     list_all string_ok (sv_objects vm)"

lemma strings_okD:
  assumes "strings_ok vm"
  shows "interned_strings vm k = Some s \<Longrightarrow> s < length (sv_objects vm)" "interned_strings vm k = Some s \<Longrightarrow> js_value (sv_objects vm ! s) = k"
    "s < length (sv_objects vm) \<Longrightarrow> string_ok (sv_objects vm ! s)"
  using assms by (auto simp: strings_ok_def list_all_length)

lemma insert_interned_ok: "strings_ok vm \<Longrightarrow> s < length (sv_objects vm) \<Longrightarrow> strings_ok (insert_interned_jstring s vm)"
  by (auto simp: strings_ok_def insert_interned_jstring_def RawStringData_def)

lemma new_string_ok: "strings_ok vm \<Longrightarrow> string_ok s \<Longrightarrow> strings_ok (vm\<lparr>sv_objects := sv_objects vm @ [s]\<rparr>)"
  by (auto simp: strings_ok_def nth_append less_SucI)

text \<open>A string of the same bytes and another coder is interned already.\<close>

definition confused :: "string_vm \<Rightarrow> u16 list \<Rightarrow> bool" where
  "confused vm cs \<longleftrightarrow> (\<exists>s. interned_strings vm (js_value (string_of cs)) = Some s \<and> js_coder (sv_objects vm ! s) \<noteq> js_coder (string_of cs))"

lemma make_jstring_string_of:
  assumes "alloc_object mem" "alloc_value mem"
  shows "make_jstring_modified_utf8 mem (modified_utf8 cs) vm = new_string (string_of cs) vm"
  using assms by (simp add: make_jstring_modified_utf8_def convert_modified_utf8 string_of_def)

lemma intern_new_ok:
  assumes "strings_ok vm" "s < length (sv_objects vm)" "intern_new intern s vm = (r, vm')"
  shows "strings_ok vm'" "sv_objects vm' = sv_objects vm" "r < length (sv_objects vm)" "js_value (sv_objects vm ! r) = js_value (sv_objects vm ! s)"
    "lookup_interned_jstring s vm = None \<Longrightarrow> r = s" "lookup_interned_jstring s vm = Some q \<Longrightarrow> r = q"
proof -
  consider "lookup_interned_jstring s vm = Some r" "vm' = vm" | "lookup_interned_jstring s vm = None" "r = s" "vm' = (if intern then insert_interned_jstring s vm else vm)"
    using assms(3) by (cases "lookup_interned_jstring s vm") (auto simp: intern_new_def)
  then show "strings_ok vm'" "sv_objects vm' = sv_objects vm" "r < length (sv_objects vm)" "js_value (sv_objects vm ! r) = js_value (sv_objects vm ! s)"
    "lookup_interned_jstring s vm = None \<Longrightarrow> r = s" "lookup_interned_jstring s vm = Some q \<Longrightarrow> r = q"
    using strings_okD(1,2) [OF assms(1)] insert_interned_ok [OF assms(1,2)] assms(1,2)
    by (cases; force simp: lookup_interned_jstring_def insert_interned_jstring_def RawStringData_def)+
qed

text \<open>C11. A string constant becomes the string that its modified UTF-8 encodes: for every sequence of UTF-16 code
  units, zero and surrogates included, creating a string from its encoding succeeds when memory suffices and gives,
  interned or not, an object with exactly these units, unless a string with the same bytes but the other coder has
  been interned before, in which case a different string results.\<close>

theorem string_constant_chars:
  assumes "strings_ok vm" "alloc_object mem" "alloc_value mem"
  shows "\<exists>s vm'. MakeJStringFromModifiedUTF8 mem (modified_utf8 cs) intern vm = Inr (Some s, vm') \<and> strings_ok vm' \<and>
    s < length (sv_objects vm') \<and> (java_chars (sv_objects vm' ! s) = cs \<longleftrightarrow> \<not> confused vm cs)"
proof -
  define n where "n = length (sv_objects vm)"
  define vm1 where "vm1 = vm\<lparr>sv_objects := sv_objects vm @ [string_of cs]\<rparr>"
  have new: "make_jstring_modified_utf8 mem (modified_utf8 cs) vm = (Some n, vm1)"
    by (simp add: make_jstring_string_of [OF assms(2,3)] new_string_def n_def vm1_def)
  have ok: "strings_ok vm1" unfolding vm1_def by (rule new_string_ok [OF assms(1) string_of_ok])
  have n: "n < length (sv_objects vm1)" "sv_objects vm1 ! n = string_of cs" by (simp_all add: n_def vm1_def)
  obtain s vm' where s: "intern_new intern n vm1 = (s, vm')" by fastforce
  note i = intern_new_ok [OF ok n(1) s]
  have lookup: "lookup_interned_jstring n vm1 = interned_strings vm (js_value (string_of cs))"
    by (simp add: lookup_interned_jstring_def RawStringData_def n(2)) (simp add: vm1_def)
  have "java_chars (sv_objects vm1 ! s) = cs \<longleftrightarrow> \<not> confused vm cs"
  proof (cases "interned_strings vm (js_value (string_of cs))")
    case None
    then show ?thesis using i(5) n(2) lookup by (simp add: confused_def java_chars_string_of)
  next
    case (Some q)
    then have "s = q" using i(6) lookup by simp
    have "q < length (sv_objects vm)" using strings_okD(1) [OF assms(1) Some] .
    then have q: "sv_objects vm1 ! s = sv_objects vm ! q" by (simp add: vm1_def \<open>s = q\<close> nth_append)
    have v: "js_value (sv_objects vm ! q) = js_value (string_of cs)" using strings_okD(2) [OF assms(1) Some] .
    show ?thesis
    proof (cases "js_coder (sv_objects vm ! q) = js_coder (string_of cs)")
      case True
      with v have "sv_objects vm ! q = string_of cs" by (intro native_String.equality) simp_all
      with True Some q show ?thesis by (simp add: confused_def java_chars_string_of)
    next
      case False
      with coder_matters [OF strings_okD(3) [OF assms(1) \<open>q < length (sv_objects vm)\<close>] string_of_ok v] Some q show ?thesis
        by (simp add: confused_def java_chars_string_of)
    qed
  qed
  with s i new show ?thesis by (simp add: MakeJStringFromModifiedUTF8_def)
qed

text \<open>The string \<^verbatim>\<open>AB\<close> is interned; the constant with the one character U+4241 has the same bytes.\<close>

definition example_strings :: string_vm where
  "example_strings = \<lparr>sv_objects = [string_of [0x41, 0x42]], interned_strings = [[0x41, 0x42] \<mapsto> 0], sv_exception = False\<rparr>"

theorem string_constant_chars_witness:
  "\<exists>s vm'. MakeJStringFromModifiedUTF8 \<lparr>alloc_object = True, alloc_value = True\<rparr> (modified_utf8 [0x4241]) True example_strings = Inr (Some s, vm') \<and>
    java_chars (sv_objects vm' ! s) \<noteq> [0x4241]"
proof -
  have "strings_ok example_strings"
    using string_of_ok [of "[0x41, 0x42]"] by (auto simp: strings_ok_def example_strings_def string_of_def do_latin1_def)
  moreover have "confused example_strings [0x4241]"
    by (simp add: confused_def example_strings_def string_of_def do_latin1_def utf16_bytes_def)
  ultimately show ?thesis
    using string_constant_chars [of example_strings "\<lparr>alloc_object = True, alloc_value = True\<rparr>" "[0x4241]" True] by auto
qed

lemma intern_after:
  assumes "InternJString s vm = (a, vm')"
  shows "interned_strings vm' (RawStringData vm s) = Some a" "interned_strings vm k = Some r \<Longrightarrow> interned_strings vm' k = Some r"
  using assms by (auto simp: InternJString_def lookup_interned_jstring_def insert_interned_jstring_def split: option.splits)

text \<open>C25. Interning identifies exactly the strings with the same bytes: interning two strings one after the other gives
  the same object if and only if their value arrays are equal, whatever their coders; the result has the bytes of the
  argument, is stable under further interning, and no string object changes. So equal strings are identified, and so
  are the different strings that have the same bytes in the two encodings.\<close>

theorem intern_identifies_bytes:
  assumes "strings_ok vm" "s < length (sv_objects vm)" "t < length (sv_objects vm)" "InternJString s vm = (a, vm1)" "InternJString t vm1 = (b, vm2)"
  shows "(a = b \<longleftrightarrow> RawStringData vm s = RawStringData vm t) \<and> RawStringData vm a = RawStringData vm s \<and> RawStringData vm b = RawStringData vm t \<and>
    InternJString a vm2 = (a, vm2) \<and> InternJString s vm2 = (a, vm2) \<and> strings_ok vm2 \<and> sv_objects vm2 = sv_objects vm"
proof -
  have eq: "InternJString u w = intern_new True u w" for u w by (simp add: InternJString_def intern_new_def split: option.splits)
  note a = intern_new_ok [OF assms(1,2) assms(4) [unfolded eq]]
  have t: "t < length (sv_objects vm1)" using assms(3) a(2) by simp
  note b = intern_new_ok [OF a(1) t assms(5) [unfolded eq]]
  have objs: "sv_objects vm1 = sv_objects vm" "sv_objects vm2 = sv_objects vm" using a(2) b(2) by simp_all
  have raw: "RawStringData vm1 = RawStringData vm" "RawStringData vm2 = RawStringData vm" using objs by (simp_all add: RawStringData_def fun_eq_iff)
  note after = intern_after(1) [OF assms(4)] intern_after(1) [OF assms(5), unfolded raw] and keep = intern_after(2) [OF assms(5)]
  have ra: "RawStringData vm a = RawStringData vm s" "RawStringData vm b = RawStringData vm t" using a(4) b(4) objs by (simp_all add: RawStringData_def)
  then have iff: "a = b \<longleftrightarrow> RawStringData vm s = RawStringData vm t" using after keep [OF after(1)] by auto
  have "InternJString a vm2 = (a, vm2)" "InternJString s vm2 = (a, vm2)"
    using keep [OF after(1)] ra(1) raw(2) by (simp_all add: InternJString_def lookup_interned_jstring_def)
  with iff ra b(1) objs show ?thesis by blast
qed

theorem intern_identifies_bytes_witness:
  "\<exists>vm2. InternJString 1 (example_strings\<lparr>sv_objects := [string_of [0x41, 0x42], string_of [0x4241]]\<rparr>) = (0, vm2)"
proof -
  let ?vm = "example_strings\<lparr>sv_objects := [string_of [0x41, 0x42], string_of [0x4241]]\<rparr>"
  have ok: "strings_ok ?vm"
    using string_of_ok [of "[0x41, 0x42]"] string_of_ok [of "[0x4241]"]
    by (auto simp: strings_ok_def example_strings_def string_of_def do_latin1_def utf16_bytes_def)
  have raw: "RawStringData ?vm 0 = [0x41, 0x42]" "RawStringData ?vm 1 = [0x41, 0x42]"
    by (simp_all add: RawStringData_def string_of_def do_latin1_def utf16_bytes_def)
  have zero: "InternJString 0 ?vm = (0, ?vm)"
    using raw(1) by (simp add: InternJString_def lookup_interned_jstring_def) (simp add: example_strings_def)
  obtain b vm2 where b: "InternJString 1 ?vm = (b, vm2)" by fastforce
  from intern_identifies_bytes [OF ok _ _ zero b] raw have "0 = b" by simp
  with b show ?thesis by simp
qed

section \<open>Hash codes are found\<close>

text \<open>The loop that looks for a nonzero hash code ends after at most three numbers: a number whose upper half is zero is
  followed by one of two numbers, and these are followed by one whose upper half is not zero.\<close>

lemma hash_code_multiple:
  assumes "x < 4294967296" "(x * 0x5DEECE66D + 0xB) mod 18446744073709551616 < (4294967296 :: nat)"
  shows "x = 0 \<or> x = 2926323913"
proof -
  define q where "q = (x * 0x5DEECE66D + 0xB) div 18446744073709551616"
  define m where "m = (x * 0x5DEECE66D + 0xB) mod 18446744073709551616"
  have eq: "x * 0x5DEECE66D + 0xB = q * 18446744073709551616 + m" by (simp add: q_def m_def)
  have m: "m < 4294967296" using assms(2) by (simp add: m_def)
  from eq assms(1) have "q < 6" by linarith
  then consider "q = 0" | "q = 1" | "q = 2" | "q = 3" | "q = 4" | "q = 5" by linarith
  then show ?thesis
  proof cases
    case 1
    with eq m show ?thesis by simp
  next
    case 2
    with eq m show ?thesis by (cases "x \<le> 731580978") simp_all
  next
    case 3
    with eq m show ?thesis by (cases "x \<le> 1463161956") simp_all
  next
    case 4
    with eq m show ?thesis by (cases "x \<le> 2194742934") simp_all
  next
    case 5
    with eq m show ?thesis by (cases "x \<le> 2926323912"; cases "x \<le> 2926323913") simp_all
  next
    case 6
    with eq m show ?thesis by (cases "x \<le> 3657904891") simp_all
  qed
qed

lemma hash_code_state:
  assumes "drop_bit 32 r = 0" "drop_bit 32 (r * 0x5DEECE66D + 0xB) = (0 :: u64)"
  shows "r = 0 \<or> r = 2926323913"
proof -
  have r: "unat r < 2 ^ 32" using assms(1) by (metis drop_bit_eq_div div_eq_0_iff unat_0 unat_drop_bit_eq power_not_zero zero_neq_numeral)
  have "unat (r * 0x5DEECE66D + 0xB) < 2 ^ 32" using assms(2) by (metis drop_bit_eq_div div_eq_0_iff unat_0 unat_drop_bit_eq power_not_zero zero_neq_numeral)
  moreover have "unat (r * 0x5DEECE66D + 0xB) = (unat r * 0x5DEECE66D + 0xB) mod 2 ^ 64" by (simp add: unat_word_ariths mod_simps)
  ultimately have m: "(unat r * 0x5DEECE66D + 0xB) mod 18446744073709551616 < 4294967296" by simp
  have "unat r = 0 \<or> unat r = 2926323913" by (rule hash_code_multiple [OF _ m]) (use r in simp)
  then show ?thesis by (auto simp: word_unat_eq_iff)
qed

lemma hash_code_zero: "(ucast (drop_bit 32 (r :: u64)) :: u32) = 0 \<longleftrightarrow> drop_bit 32 r = 0"
proof -
  have "unat (drop_bit 32 r) < 2 ^ 32" using unat_bound [of r] by (simp add: unat_drop_bit_eq drop_bit_eq_div less_mult_imp_div_less unat_div)
  then have "unat (ucast (drop_bit 32 r) :: u32) = unat (drop_bit 32 r)" by (simp add: unsigned_ucast_eq take_bit_nat_eq_self)
  then show ?thesis by (metis unat_eq_0)
qed

lemma hash_code_third:
  assumes "drop_bit 32 r = 0" "drop_bit 32 (r * 0x5DEECE66D + 0xB) = (0 :: u64)"
  shows "drop_bit 32 ((r * 0x5DEECE66D + 0xB) * 0x5DEECE66D + 0xB) \<noteq> 0"
  using hash_code_state [OF assms] by auto

theorem get_object_hash_code_ok:
  "\<exists>hc' rng'. get_object_hash_code (3 + n) hc rng = Some (sint hc', hc', rng') \<and> hc' \<noteq> 0 \<and>
    (\<forall>m rng''. get_object_hash_code m hc' rng'' = Some (sint hc', hc', rng''))"
proof (cases "hc = 0")
  case True
  let ?f = "\<lambda>r :: u64. r * 0x5DEECE66D + 0xB"
  have step: "next_hash_code (Suc k) r = (if drop_bit 32 (?f r) = 0 then next_hash_code k (?f r) else Some (ucast (drop_bit 32 (?f r)), ?f r))" for k r
    using hash_code_zero [of "?f r"] by (simp add: ObjNextHashCode_def Let_def)
  have "drop_bit 32 (?f (?f (?f rng))) \<noteq> 0" if "drop_bit 32 (?f rng) = 0" "drop_bit 32 (?f (?f rng)) = 0"
    by (rule hash_code_third [OF that])
  then have "\<exists>hc' rng'. next_hash_code (Suc (Suc (Suc n))) rng = Some (hc', rng') \<and> hc' \<noteq> 0"
    unfolding step using hash_code_zero by auto
  with True show ?thesis by (auto simp: get_object_hash_code_def numeral_3_eq_3 simp del: next_hash_code.simps)
qed (simp add: get_object_hash_code_def)

end
