(* ===== verification/Spec2Isabelle.thy ===== *)
theory Spec2Isabelle
  imports Method_Analysis Hash_Table Arena Monitor Gc_Collect Arrays Interp_Refine Link_Class Link_Subtype Java_Strings
begin

text \<open>
  Verification of the core of the tracejvm engine, the Java virtual machine in C under \<^verbatim>\<open>src/engine/bjvm/vm\<close> that
  is compiled to WebAssembly. All definitions follow the source for its 32-bit target: pointers, \<^verbatim>\<open>size_t\<close> and \<^verbatim>\<open>long\<close>
  have 32 bits, stack slots 64.

  \<^bold>\<open>The program.\<close> A class file is parsed into a class (\<^verbatim>\<open>classfile.c\<close>); linking (\<^verbatim>\<open>linkage.c\<close>, \<^verbatim>\<open>vtable.c\<close>) lays out
  its fields and sets up the tables for dispatch and subtype tests, and the bodies of its methods are analysed and rewritten (\<^verbatim>\<open>analysis.c\<close>, with the frames that \<^verbatim>\<open>stackmaptable.c\<close> decodes); the interpreter
  (\<^verbatim>\<open>interpreter2.c\<close>) executes the rewritten instructions, keeps the top of the stack in a register of the kind the
  analysis has computed, allocates objects (\<^verbatim>\<open>arrays.c\<close>, \<^verbatim>\<open>objects.h\<close>) in a heap that a mark-compact collector
  (\<^verbatim>\<open>gc.c\<close>) tidies up, and gives up control when its fuel is used up or a monitor (\<^verbatim>\<open>monitors.c\<close>) is taken; the
  scheduler (\<^verbatim>\<open>roundrobin_scheduler.c\<close>) then picks the next thread. Native code and JavaScript hold objects through
  handles (\<^verbatim>\<open>bjvm.c\<close>). Hash tables and arenas (\<^verbatim>\<open>adt.c\<close>) serve all of them.

  \<^bold>\<open>Theories.\<close> \<open>Prelude\<close> has the machine integers, the state-and-error monad of the parsers, its counted loop and
  a Hoare logic for it. Then, each with its data, operations, invariant and properties:

  \<^item> \<open>Descriptor\<close>: type kinds, field and method descriptors (\<^verbatim>\<open>parse_field_descriptor\<close>, \<^verbatim>\<open>parse_method_descriptor\<close>).
    The parsers accept exactly the grammar, up to trailing characters after a method descriptor.
  \<^item> \<open>Reader\<close>: the big-endian reader (\<^verbatim>\<open>endian.h\<close>, \<^verbatim>\<open>reader_*\<close>), as an instance of the locale \<open>byte_reader\<close>.
  \<^item> \<open>Constant_Pool\<close>, \<open>Bytecode\<close>, \<open>Attribute\<close>, \<open>Classfile\<close>: the class file parser. A class file that is accepted
    gives a well-formed class (pool references of the right kinds, branch targets inside the code), no input makes
    the parser do anything undefined, and the recursion of attributes and code ends: the fuel is the nesting depth, the
    number of remaining bytes plus one is enough, and more changes nothing.
  \<^item> \<open>Stack_Map\<close>: the iterator over stack map frames, its invariant, and the overflow of its buffer by an append frame.
  \<^item> \<open>Stack_Analysis\<close>, \<open>Analysis_Safety\<close>, \<open>Method_Analysis\<close>: \<^verbatim>\<open>locals_on_method_entry\<close>, \<^verbatim>\<open>analyze_instruction\<close> and
    \<^verbatim>\<open>analyze_method_code\<close>. The renumbering of the locals is a permutation, the analysis of an instruction stays
    inside its arrays, and the repeated passes end. The fuel of the repetition counts the changes that the types of all
    locals and stack slots still admit; the bound is computed from the code size, \<^verbatim>\<open>max_stack\<close> and \<^verbatim>\<open>max_locals\<close>.
  \<^item> \<open>Interp\<close>, \<open>Interp_Refine\<close>: the handlers that neither resolve nor invoke anything, and the stack machine of the
    specification, on typed values. \<open>state_rel\<close> relates a typed state to a frame and the register; every handler
    preserves it and does what the specification says, but for the operands of \<open>defect\<close>, on which it does not. The
    lemmas \<open>implements_*\<close> show this per instruction, from shared lemmas on spilling, on the kinds of outcomes and on
    words.
  \<^item> \<open>Linkage\<close>, \<open>Link_Fields\<close>, \<open>Link_Tables\<close>, \<open>Link_Class\<close>, \<open>Link_Subtype\<close>: \<^verbatim>\<open>link_class\<close> with the layout of fields, the
    superclass hierarchy and the function tables, and \<^verbatim>\<open>instanceof\<close>, on a table of class descriptors. Fields are
    aligned and disjoint; \<open>set_up\<close> says what the tables of a class must be, linking establishes it and keeps it for
    other classes; from it follow that a vtable slot holds the method that overriding selects, and that \<^verbatim>\<open>instanceof\<close> is
    the subtype relation of the specification, but for one case. The fuel of linking is the depth of the calls, twice
    the depth of the class graph plus one.
  \<^item> \<open>Java_Strings\<close>: strings from modified UTF-8, interning and identity hash codes (\<^verbatim>\<open>objects.c\<close>). The conversion inverts the
    encoding, interning identifies exactly the strings with equal bytes, also of different coders, and the
    search for a nonzero hash code needs at most three numbers, which is its fuel.
  \<^item> \<open>Hash_Table\<close>, \<open>Arena\<close>: the string hash table refines a finite map under every sequence of operations (locale
    \<open>dictionary\<close>), and the arena hands out disjoint, aligned, zeroed blocks.
  \<^item> \<open>Handles\<close>: the tables of native and JavaScript handles, instances of the locale \<open>slot_table\<close>.
  \<^item> \<open>Scheduler\<close>, \<open>Monitor\<close>: queues, sleeping and waking threads, execution of calls (the interpreter is a parameter);
    acquire, release, wait and notify, with the parts of an asynchronous operation before and after it yields as
    separate steps. Scheduling is fair, monitors refine reentrant locks, and in every reachable state a free
    monitor with waiters has one that the scheduler can run.
  \<^item> \<open>Gc_Sort\<close>, \<open>Gc\<close>, \<open>Gc_Mark\<close>, \<open>Gc_Compact\<close>, \<open>Gc_Relocate\<close>, \<open>Gc_Collect\<close>: the collector, on a heap of cells at
    addresses in which a write destroys what it overlaps. Marking ends and is exact, compaction loses nothing, and the
    reachable heap afterwards is isomorphic to the one before, except for cleared weak references. The fuel of marking
    and sorting is bounded by the number of objects and the length of the vector.
  \<^item> \<open>Arrays\<close>: creation of arrays in that heap, and the sizes from which on the computation of the size wraps around.

  \<^bold>\<open>Errors.\<close> What the C code reports (\<^verbatim>\<open>longjmp\<close>, a negative return code, an exception) is a value of a sum type; what
  the C code must not do (an access outside of a buffer, a null dereference, a failed \<^verbatim>\<open>DCHECK\<close>, undefined arithmetic) is
  an error value or \<open>None\<close> of its own, so that its absence is a theorem.

  \<^bold>\<open>Not modelled.\<close> In \<^verbatim>\<open>interpreter2.c\<close>: floating-point arithmetic (its values appear as bit patterns only), resolution of
  classes, fields and methods, invocation and inline caches, and the resumption of suspended native calls, since they
  call the class loader and Java code. In \<^verbatim>\<open>vtable.c\<close>: the method entries of the interface tables. In \<^verbatim>\<open>linkage.c\<close>: the
  frame templates; the theorem on linking covers tables without array classes of classes that are not linked yet.
  \<^verbatim>\<open>classloader.c\<close>, \<^verbatim>\<open>classpath.c\<close>, \<^verbatim>\<open>reflection.c\<close> and most of \<^verbatim>\<open>bjvm.c\<close>: loading and initialisation of classes over the
  file system and Java mirrors. The
  compiler \<^verbatim>\<open>dumb_jit.c\<close>, \<^verbatim>\<open>wasm/wasm_utils.c\<close> and the trampolines: they emit WebAssembly, whose semantics is not part of the
  sources. The dominator tree and reducibility test at the end of \<^verbatim>\<open>analysis.c\<close>, which only this compiler uses. The
  natives and the host interface: they call the JDK classes, the browser and POSIX. Pretty printing, profiling,
  debugging. Failure of \<^verbatim>\<open>malloc\<close>.
\<close>

end
